(* ===== verification/Prelude.thy ===== *)
theory Prelude
  imports Main "HOL-Library.Word"
begin

unbundle bit_operations_syntax

text \<open>
  Shared vocabulary of the development: the fixed-width integer types of
  include/xpf/platform.h as words, the memory of the process as a map from 64-bit
  addresses to bytes, the libc block operations the code calls (memcpy, memset), and
  the little-endian load and store of 32-bit and 64-bit scalars.  The named collections
  below gather the facts that component proofs pass to the simplifier.
\<close>

named_theorems mem_simps \<open>reads of a memory after writes\<close>
named_theorems frame_simps \<open>record fields that an operation leaves alone\<close>

type_synonym u8 = "8 word"
type_synonym u16 = "16 word"
type_synonym u32 = "32 word"
type_synonym u64 = "64 word"
type_synonym ptr = "64 word"
type_synonym memory = "ptr \<Rightarrow> u8"

section \<open>Words and naturals\<close>

lemma unat_of_nat32: "n < 2 ^ 32 \<Longrightarrow> unat (of_nat n :: u32) = n"
  by (simp add: unat_of_nat take_bit_nat_eq_self_iff)

lemma unat_of_nat8: "n < 2 ^ 8 \<Longrightarrow> unat (of_nat n :: u8) = n"
  by (simp add: unat_of_nat take_bit_nat_eq_self_iff)

lemma unat_of_nat64: "n < 2 ^ 64 \<Longrightarrow> unat (of_nat n :: ptr) = n"
  by (simp add: unat_of_nat take_bit_nat_eq_self_iff)

lemma unat_lt_2p32 [simp]: "unat (w :: u32) < 2 ^ 32"
  using unsigned_less [of w] by simp

lemma unat_push_bit1_32: "n < 32 \<Longrightarrow> unat (push_bit n 1 :: u32) = 2 ^ n"
  using unat_of_nat32 [of "2 ^ n"] power_strict_increasing [of n 32 "2::nat"] by simp

lemma unat_push_bit1_8: "n < 8 \<Longrightarrow> unat (push_bit n 1 :: u8) = 2 ^ n"
  using unat_of_nat8 [of "2 ^ n"] power_strict_increasing [of n 8 "2::nat"] by simp

lemma unat_ucast_32_64: "unat (ucast (w :: u32) :: ptr) = unat w"
  by (simp add: unsigned_ucast_eq take_bit_nat_eq_self_iff less_le_trans [OF unsigned_less])

lemma bit_of_nat_word_iff32: "bit (of_nat n :: u32) k \<longleftrightarrow> k < 32 \<and> bit n k"
  by (transfer fixing: n k) (simp add: bit_take_bit_iff bit_of_nat_iff_bit)

lemma bit_of_nat_word_iff64: "bit (of_nat n :: ptr) k \<longleftrightarrow> k < 64 \<and> bit n k"
  by (transfer fixing: n k) (simp add: bit_take_bit_iff bit_of_nat_iff_bit)

lemma bit_u8_lt: "bit (b :: u8) k \<Longrightarrow> k < 8"
  using bit_imp_le_length [of b k] by simp

lemma ucast_of_nat_32: "(ucast (of_nat n :: ptr) :: u32) = of_nat n"
  by (rule bit_word_eqI) (simp add: bit_ucast_iff bit_of_nat_word_iff32 bit_of_nat_word_iff64)

lemma ucast_of_nat_64: "n < 2 ^ 32 \<Longrightarrow> (ucast (of_nat n :: u32) :: ptr) = of_nat n"
  by (metis unat_of_nat32 unat_ucast_32_64 of_nat_unat ucast_id)

lemma word_eq_unat_iff: "(v :: 'a::len word) = w \<longleftrightarrow> unat v = unat w"
  by (rule word_unat_eq_iff)

lemma xor_one_nat: "(b::nat) XOR 1 = (if even b then b + 1 else b - 1)"
  by (simp add: xor_one_eq del: One_nat_def)

section \<open>Memory\<close>

text \<open>Byte \<open>i\<close> of a scalar, least significant first, and the scalar its bytes make.\<close>

definition byte_of :: "'a::len word \<Rightarrow> nat \<Rightarrow> u8" where
  "byte_of v i = ucast (drop_bit (8 * i) v)"

fun of_bytes :: "u8 list \<Rightarrow> 'a::len word" where
  "of_bytes [] = 0"
| "of_bytes (b # bs) = ucast b OR push_bit 8 (of_bytes bs)"

definition load_bytes :: "memory \<Rightarrow> ptr \<Rightarrow> nat \<Rightarrow> u8 list" where
  "load_bytes m a n = map (\<lambda>i. m (a + of_nat i)) [0..<n]"

definition load32 :: "memory \<Rightarrow> ptr \<Rightarrow> u32" where
  "load32 m a = of_bytes (load_bytes m a 4)"

definition load64 :: "memory \<Rightarrow> ptr \<Rightarrow> u64" where
  "load64 m a = of_bytes (load_bytes m a 8)"

definition store32 :: "memory \<Rightarrow> ptr \<Rightarrow> u32 \<Rightarrow> memory" where
  "store32 m a v = (\<lambda>x. if unat (x - a) < 4 then byte_of v (unat (x - a)) else m x)"

definition store64 :: "memory \<Rightarrow> ptr \<Rightarrow> u64 \<Rightarrow> memory" where
  "store64 m a v = (\<lambda>x. if unat (x - a) < 8 then byte_of v (unat (x - a)) else m x)"

text \<open>The libc calls \<open>memcpy(dst, src, n)\<close> and \<open>memset(dst, v, n)\<close>.\<close>

definition memcpy :: "memory \<Rightarrow> ptr \<Rightarrow> ptr \<Rightarrow> nat \<Rightarrow> memory" where
  "memcpy m dst src n = (\<lambda>x. if unat (x - dst) < n then m (src + (x - dst)) else m x)"

definition memset :: "memory \<Rightarrow> ptr \<Rightarrow> u8 \<Rightarrow> nat \<Rightarrow> memory" where
  "memset m dst v n = (\<lambda>x. if unat (x - dst) < n then v else m x)"

lemma bit_of_bytes:
  "bit (of_bytes bs :: 'a::len word) k \<longleftrightarrow>
     k < LENGTH('a) \<and> k < 8 * length bs \<and> bit (bs ! (k div 8)) (k mod 8)"
proof (induction bs arbitrary: k)
  case Nil
  then show ?case by simp
next
  case (Cons b bs)
  have "bit (ucast b :: 'a word) k \<longleftrightarrow> k < LENGTH('a) \<and> k < 8 \<and> bit b k"
    by (auto simp: bit_ucast_iff dest: bit_u8_lt)
  moreover have "(b # bs) ! (k div 8) = (if k < 8 then b else bs ! ((k - 8) div 8))"
    by (simp add: nth_Cons' le_div_geq)
  moreover have "k mod 8 = (if k < 8 then k else (k - 8) mod 8)"
    by (simp add: le_mod_geq)
  ultimately show ?case
    using Cons [of "k - 8"] bit_u8_lt [of b k]
    by (auto simp: bit_or_iff bit_push_bit_iff)
qed

lemma length_load_bytes [simp]: "length (load_bytes m a n) = n"
  by (simp add: load_bytes_def)

lemma nth_load_bytes [simp]: "i < n \<Longrightarrow> load_bytes m a n ! i = m (a + of_nat i)"
  by (simp add: load_bytes_def)

lemma of_bytes_byte_of:
  "8 * n = LENGTH('a) \<Longrightarrow> of_bytes (map (byte_of v) [0..<n]) = (v :: 'a::len word)"
  by (rule bit_word_eqI)
     (auto simp: bit_of_bytes byte_of_def bit_ucast_iff bit_drop_bit_eq div_less_iff_less_mult
       less_mult_imp_div_less)

lemma load32_store32_same [mem_simps]: "load32 (store32 m a v) a = v"
proof -
  have "load_bytes (store32 m a v) a 4 = map (byte_of v) [0..<4]"
    by (simp add: load_bytes_def store32_def unat_of_nat64)
  then show ?thesis using of_bytes_byte_of [of 4 v] by (simp add: load32_def)
qed

lemma load64_store64_same [mem_simps]: "load64 (store64 m a v) a = v"
proof -
  have "load_bytes (store64 m a v) a 8 = map (byte_of v) [0..<8]"
    by (simp add: load_bytes_def store64_def unat_of_nat64)
  then show ?thesis using of_bytes_byte_of [of 8 v] by (simp add: load64_def)
qed

text \<open>
  All accesses of the allocators are at small offsets from the base of one memory bulk,
  so disjointness is arithmetic on offsets.
\<close>

lemma unat_offset_diff:
  "i < 2 ^ 63 \<Longrightarrow> j < 2 ^ 63 \<Longrightarrow>
   unat (of_nat i - of_nat j :: ptr) = (if j \<le> i then i - j else 2 ^ 64 + i - j)"
  by (auto simp: unat_sub_if' unat_of_nat64)

text \<open>An address window that starts at a small offset \<open>i\<close> does not wrap.\<close>

lemma nat_window:
  "(u::nat) = (if i \<le> d then d - i else d + 2 ^ 64 - i) \<Longrightarrow> i + z \<le> 2 ^ 63 \<Longrightarrow> u < z \<longleftrightarrow> i \<le> d \<and> d < i + z"
  by (auto split: if_splits)

lemma addr_window:
  assumes "i + z \<le> 2 ^ 63"
  shows "unat (w - of_nat i :: ptr) < z \<longleftrightarrow> i \<le> unat w \<and> unat w < i + z"
proof (rule nat_window [OF _ assms])
  have o: "unat (of_nat i :: ptr) = i" using assms by (intro unat_of_nat64) simp
  show "unat (w - of_nat i) = (if i \<le> unat w then unat w - i else unat w + 2 ^ 64 - i)"
    using unat_sub_if' [of w "of_nat i"] unfolding o
    by (simp only: len_bit0 len_num1 mult_1_right numeral_One)
       (simp only: mult_2 numeral_plus_numeral one_add_one add_num_simps)
qed

lemma load_bytes_cong:
  "(\<And>i. i < n \<Longrightarrow> m (a + of_nat i) = m' (a + of_nat i)) \<Longrightarrow>
   load_bytes m a n = load_bytes m' a n"
  by (simp add: load_bytes_def)

lemma load64_cong:
  "(\<And>i. i < 8 \<Longrightarrow> m (a + of_nat i) = m' (a + of_nat i)) \<Longrightarrow> load64 m a = load64 m' a"
  unfolding load64_def by (simp cong: load_bytes_cong)

lemma load32_cong:
  "(\<And>i. i < 4 \<Longrightarrow> m (a + of_nat i) = m' (a + of_nat i)) \<Longrightarrow> load32 m a = load32 m' a"
  unfolding load32_def by (simp cong: load_bytes_cong)

lemma store64_other:
  "i < 2 ^ 62 \<Longrightarrow> j < 2 ^ 62 \<Longrightarrow> i < j \<or> j + 8 \<le> i \<Longrightarrow>
   store64 m (C + of_nat j) v (C + of_nat i) = m (C + of_nat i)"
  by (auto simp: store64_def unat_offset_diff split: if_splits)

lemma store32_other:
  "i < 2 ^ 62 \<Longrightarrow> j < 2 ^ 62 \<Longrightarrow> i < j \<or> j + 4 \<le> i \<Longrightarrow>
   store32 m (C + of_nat j) v (C + of_nat i) = m (C + of_nat i)"
  by (auto simp: store32_def unat_offset_diff split: if_splits)

lemma load64_store64_other:
  assumes "i < 2 ^ 61" "j < 2 ^ 61" "i + 8 \<le> j \<or> j + 8 \<le> i"
  shows "load64 (store64 m (C + of_nat j) v) (C + of_nat i) = load64 m (C + of_nat i)"
proof (rule load64_cong)
  fix k :: nat assume "k < 8"
  with assms show "store64 m (C + of_nat j) v (C + of_nat i + of_nat k) = m (C + of_nat i + of_nat k)"
    using store64_other [of "i + k" j m C v] by (auto simp: add.assoc)
qed

lemma load32_store32_other:
  assumes "i < 2 ^ 61" "j < 2 ^ 61" "i + 4 \<le> j \<or> j + 4 \<le> i"
  shows "load32 (store32 m (C + of_nat j) v) (C + of_nat i) = load32 m (C + of_nat i)"
proof (rule load32_cong)
  fix k :: nat assume "k < 4"
  with assms show "store32 m (C + of_nat j) v (C + of_nat i + of_nat k) = m (C + of_nat i + of_nat k)"
    using store32_other [of "i + k" j m C v] by (auto simp: add.assoc)
qed

text \<open>The same for scalars at unrelated addresses, and executable forms of the stores.\<close>

lemma apart_offsets:
  assumes "(n::nat) < 2 ^ 32" "of_nat n \<le> (b - a :: ptr)" "of_nat n \<le> a - b" "i < n"
  shows "\<not> unat (b + of_nat i - a) < n"
proof -
  have n: "unat (of_nat n :: ptr) = n" "unat (of_nat i :: ptr) = i" using assms by (simp_all add: unat_of_nat64)
  have d: "n \<le> unat (b - a)" "n \<le> unat (a - b)" using assms(2,3) n by (simp_all add: word_le_nat_alt)
  have "b \<noteq> a" using d assms(4) by auto
  have "unat a < 2 ^ 64" "unat b < 2 ^ 64" using unsigned_less [of a] unsigned_less [of b] by auto
  moreover have "unat a \<noteq> unat b" using \<open>b \<noteq> a\<close> by (auto simp: word_eq_unat_iff)
  ultimately have "unat (a - b) + unat (b - a) = 2 ^ 64" by (simp add: unat_sub_if')
  with d(2) have "unat (b - a) + i < 2 ^ 64" using assms(4) by simp
  then have "unat ((b - a) + of_nat i) = unat (b - a) + i"
    using n unat_add_lem [of "b - a" "of_nat i"] by simp
  moreover have e: "b + of_nat i - a = (b - a) + of_nat i" by simp
  ultimately show ?thesis unfolding e using d by linarith
qed

lemma load32_store32_apart:
  "4 \<le> b - a \<Longrightarrow> 4 \<le> a - b \<Longrightarrow> load32 (store32 m a v) b = load32 m b"
  using apart_offsets [of 4 b a] by (intro load32_cong) (simp add: store32_def)

lemma store32_code [code]:
  "store32 m a v = (\<lambda>x. if x - a < 4 then byte_of v (unat (x - a)) else m x)"
  by (simp add: store32_def word_less_nat_alt)

lemma store64_code [code]:
  "store64 m a v = (\<lambda>x. if x - a < 8 then byte_of v (unat (x - a)) else m x)"
  by (simp add: store64_def word_less_nat_alt)

lemma memset_in: "unat (x - dst) < n \<Longrightarrow> memset m dst v n x = v"
  by (simp add: memset_def)

lemma memset_out: "n \<le> unat (x - dst) \<Longrightarrow> memset m dst v n x = m x"
  by (simp add: memset_def)

lemma memcpy_out: "n \<le> unat (x - dst) \<Longrightarrow> memcpy m dst src n x = m x"
  by (simp add: memcpy_def)

lemma memcpy_in: "unat (x - dst) < n \<Longrightarrow> memcpy m dst src n x = m (src + (x - dst))"
  by (simp add: memcpy_def)

end
