(* ===== verification/Buddy.thy ===== *)
theory Buddy
  imports Prelude
begin

text \<open>
  The buddy allocator of src/allocators.cpp (struct BuddyAllocatorDetails and the
  forwarding members of class BuddyAllocator), operation by operation.

  A value of type \<open>buddy\<close> is one BuddyAllocatorDetails object together with the memory
  it lives in.  The in-use bitmap \<open>Flags\<close> and the array \<open>FreeChainHead\<close> are lists; the
  free-list records are where the code has them, in the last 16 bytes of each free block
  of the bulk, so that a read or a write of \<open>Prev\<close> or \<open>Next\<close> is a read or a write of
  memory.  Assertions are those of an NDEBUG build (they do nothing); the condition of
  the assertion of \<open>recycle\<close> is kept as \<open>buddy_recycle_asserts\<close>.  The results of the
  three malloc calls of the constructor are arguments of the model.
\<close>

section \<open>State\<close>

definition INVALID_VALUE :: u32 where
  "INVALID_VALUE = 0xFFFFFFFF"

definition MINSIZE_POWOF2 :: nat where
  "MINSIZE_POWOF2 = 4"

definition MAXSIZE_POWOF2 :: nat where
  "MAXSIZE_POWOF2 = 31"

definition sizeof_FreeBlockRecord :: u32 where
  "sizeof_FreeBlockRecord = 16"

record buddy =
  Capacity :: u32
  Chunk :: ptr
  FlagsLen :: u32
  Flags :: "u8 list"
  TierNum :: u32
  FreeChainHead :: "ptr list"
  UsedBytes :: u32
  HWMBytes :: u32
  bmem :: memory

text \<open>The two fields of a FreeBlockRecord at address \<open>p\<close>.\<close>

definition fbr_Prev :: "buddy \<Rightarrow> ptr \<Rightarrow> ptr" where
  "fbr_Prev s p = load64 (bmem s) p"

definition fbr_Next :: "buddy \<Rightarrow> ptr \<Rightarrow> ptr" where
  "fbr_Next s p = load64 (bmem s) (p + 8)"

definition set_Prev :: "ptr \<Rightarrow> ptr \<Rightarrow> buddy \<Rightarrow> buddy" where
  "set_Prev p v s = s\<lparr>bmem := store64 (bmem s) p v\<rparr>"

definition set_Next :: "ptr \<Rightarrow> ptr \<Rightarrow> buddy \<Rightarrow> buddy" where
  "set_Next p v s = s\<lparr>bmem := store64 (bmem s) (p + 8) v\<rparr>"

definition set_Head :: "u32 \<Rightarrow> ptr \<Rightarrow> buddy \<Rightarrow> buddy" where
  "set_Head tier v s = s\<lparr>FreeChainHead := (FreeChainHead s)[unat tier := v]\<rparr>"

section \<open>Geometry\<close>

definition buddyIdOf :: "u32 \<Rightarrow> u32" where
  "buddyIdOf blockId = blockId XOR 1"

definition blockSizeOf :: "buddy \<Rightarrow> u32 \<Rightarrow> u32" where
  "blockSizeOf s tier = push_bit (unat (of_nat MINSIZE_POWOF2 + TierNum s - tier - 1)) 1"

fun tierOf_loop :: "u32 \<Rightarrow> u32 \<Rightarrow> nat \<Rightarrow> u32" where
  "tierOf_loop sz s 0 = INVALID_VALUE"
| "tierOf_loop sz s (Suc t) =
     (if sz \<le> s then of_nat t else tierOf_loop sz (push_bit 1 s) t)"

definition tierOf :: "buddy \<Rightarrow> u32 \<Rightarrow> u32" where
  "tierOf s sz = tierOf_loop sz (push_bit MINSIZE_POWOF2 1) (unat (TierNum s))"

definition isValidPtr :: "buddy \<Rightarrow> ptr \<Rightarrow> bool" where
  "isValidPtr s p =
     (if p < Chunk s then False
      else let offset = (ucast (p - Chunk s) :: u32) in
        if offset \<ge> Capacity s then False
        else offset = offset AND push_bit MINSIZE_POWOF2 0xFFFFFFFF)"

definition buddyAddrOf :: "buddy \<Rightarrow> u32 \<Rightarrow> ptr \<Rightarrow> ptr" where
  "buddyAddrOf s tier p =
     (if isValidPtr s p then 0
      else let offset = (ucast (p - Chunk s) :: u32) in
        Chunk s + ucast (offset XOR blockSizeOf s tier))"

definition blockIdOf :: "buddy \<Rightarrow> u32 \<Rightarrow> ptr \<Rightarrow> u32" where
  "blockIdOf s tier p =
     (if \<not> isValidPtr s p then INVALID_VALUE
      else let offset = (ucast (p - Chunk s) :: u32);
               mask = push_bit (unat (of_nat MINSIZE_POWOF2 + TierNum s - tier - 1)) 0xFFFFFFFF in
        if offset \<noteq> offset AND mask then INVALID_VALUE
        else offset div blockSizeOf s tier)"

section \<open>The in-use bitmap\<close>

definition isBlockInUse :: "buddy \<Rightarrow> u32 \<Rightarrow> u32 \<Rightarrow> bool" where
  "isBlockInUse s tier blockId =
     (let idx = push_bit (unat tier) 1 + blockId;
          offset = drop_bit 3 idx;
          mask = push_bit (unat (idx AND 7)) (1 :: u8)
      in 0 \<noteq> Flags s ! unat offset AND mask)"

definition setBlockInUse :: "u32 \<Rightarrow> u32 \<Rightarrow> bool \<Rightarrow> buddy \<Rightarrow> buddy" where
  "setBlockInUse tier blockId val s =
     (let idx = push_bit (unat tier) 1 + blockId;
          offset = unat (drop_bit 3 idx);
          mask = push_bit (unat (idx AND 7)) (1 :: u8)
      in if val
         then s\<lparr>Flags := (Flags s)[offset := Flags s ! offset OR mask]\<rparr>
         else s\<lparr>Flags := (Flags s)[offset := Flags s ! offset AND (mask XOR 0xFF)]\<rparr>)"

section \<open>Free chains: recycle and obtain\<close>

text \<open>The record of a free block sits at the end of the block.\<close>

definition fbrOf :: "buddy \<Rightarrow> u32 \<Rightarrow> u32 \<Rightarrow> ptr" where
  "fbrOf s tier blockId =
     Chunk s + ucast (blockSizeOf s tier * (blockId + 1)) - ucast sizeof_FreeBlockRecord"

text \<open>Branch 2a of \<open>recycle\<close>: push the block on the chain of its tier.\<close>

definition push_free :: "u32 \<Rightarrow> u32 \<Rightarrow> buddy \<Rightarrow> buddy" where
  "push_free tier blockId s =
     (let fbr = fbrOf s tier blockId;
          head = FreeChainHead s ! unat tier;
          s1 = (if head \<noteq> 0 then set_Prev head fbr s else s);
          s2 = set_Next fbr (FreeChainHead s1 ! unat tier) s1;
          s3 = set_Prev fbr 0 s2
      in set_Head tier fbr s3)"

text \<open>Branch 2b of \<open>recycle\<close>: take the buddy block out of the chain of its tier.\<close>

definition unlink_free :: "u32 \<Rightarrow> u32 \<Rightarrow> buddy \<Rightarrow> buddy" where
  "unlink_free tier blockId s =
     (let fbr = fbrOf s tier blockId;
          s1 = (if fbr_Prev s fbr \<noteq> 0 then set_Next (fbr_Prev s fbr) (fbr_Next s fbr) s else s);
          s2 = (if fbr_Next s1 fbr \<noteq> 0 then set_Prev (fbr_Next s1 fbr) (fbr_Prev s1 fbr) s1 else s1)
      in if fbr = FreeChainHead s2 ! unat tier
         then set_Head tier (if fbr_Prev s2 fbr \<noteq> 0 then fbr_Prev s2 fbr else fbr_Next s2 fbr) s2
         else s2)"

function buddy_recycle :: "buddy \<Rightarrow> u32 \<Rightarrow> u32 \<Rightarrow> buddy" where
  "buddy_recycle s tier blockId =
     (let s1 = setBlockInUse tier blockId False s;
          buddyBlockId = buddyIdOf blockId
      in if tier = 0 \<or> isBlockInUse s1 tier buddyBlockId
         then push_free tier blockId s1
         else buddy_recycle (unlink_free tier buddyBlockId s1) (tier - 1) (drop_bit 1 blockId))"
  by pat_completeness auto
termination
  by (relation "measure (\<lambda>(s, tier, blockId). unat tier)") (auto simp: measure_unat)

declare buddy_recycle.simps [simp del]

text \<open>The assertion at the head of \<open>recycle\<close>, along the whole recursion.\<close>

function buddy_recycle_asserts :: "buddy \<Rightarrow> u32 \<Rightarrow> u32 \<Rightarrow> bool" where
  "buddy_recycle_asserts s tier blockId =
     (isBlockInUse s tier blockId \<and>
      (let s1 = setBlockInUse tier blockId False s;
           buddyBlockId = buddyIdOf blockId
       in if tier = 0 \<or> isBlockInUse s1 tier buddyBlockId then True
          else buddy_recycle_asserts (unlink_free tier buddyBlockId s1) (tier - 1)
                 (drop_bit 1 blockId)))"
  by pat_completeness auto
termination
  by (relation "measure (\<lambda>(s, tier, blockId). unat tier)") (auto simp: measure_unat)

declare buddy_recycle_asserts.simps [simp del]

text \<open>Step 1 of \<open>obtain\<close>: pop the head of a non-empty chain.\<close>

definition pop_free :: "u32 \<Rightarrow> buddy \<Rightarrow> buddy \<times> u32" where
  "pop_free tier s =
     (let fbr = FreeChainHead s ! unat tier;
          blockSize = blockSizeOf s tier;
          blockId = (ucast (fbr - Chunk s) :: u32) div blockSize;
          s1 = set_Head tier (fbr_Next s fbr) s;
          s2 = (if fbr_Next s1 fbr \<noteq> 0 then set_Prev (fbr_Next s1 fbr) 0 s1 else s1)
      in (setBlockInUse tier blockId True s2, blockId))"

function buddy_obtain :: "buddy \<Rightarrow> u32 \<Rightarrow> buddy \<times> u32" where
  "buddy_obtain s tier =
     (if FreeChainHead s ! unat tier \<noteq> 0 then pop_free tier s
      else let (s1, upperBlockId) =
             (if tier > 0 then buddy_obtain s (tier - 1) else (s, INVALID_VALUE))
        in if upperBlockId \<noteq> INVALID_VALUE
           then let blockId1 = push_bit 1 upperBlockId;
                    blockId2 = blockId1 + 1;
                    s2 = setBlockInUse tier blockId1 True s1;
                    s3 = setBlockInUse tier blockId2 True s2
                in (buddy_recycle s3 tier blockId2, blockId1)
           else (s1, INVALID_VALUE))"
  by pat_completeness auto
termination
  by (relation "measure (\<lambda>(s, tier). unat tier)") (auto simp: measure_unat word_greater_zero_iff)

declare buddy_obtain.simps [simp del]

section \<open>Construction\<close>

text \<open>
  The loop of the constructor.  It doubles \<open>Capacity\<close> until it reaches the requested size
  or the maximum; from an arbitrary capacity it need not stop, so it is a partial function.
\<close>

partial_function (option) buddy_grow :: "u32 \<Rightarrow> u32 \<Rightarrow> u32 \<Rightarrow> (u32 \<times> u32) option" where
  "buddy_grow sz cap tiers =
     (if cap < sz
      then (let cap' = push_bit 1 cap; tiers' = tiers + 1 in
            if push_bit MAXSIZE_POWOF2 1 = cap' then Some (cap', tiers')
            else buddy_grow sz cap' tiers')
      else Some (cap, tiers))"

definition buddy_ctor :: "u32 \<Rightarrow> ptr \<Rightarrow> memory \<Rightarrow> buddy option" where
  "buddy_ctor sz chunk m =
     (case buddy_grow sz (push_bit MINSIZE_POWOF2 1) 1 of
        None \<Rightarrow> None
      | Some (cap, tiers) \<Rightarrow>
          let flen = push_bit (if tiers \<le> 3 then 0 else unat (tiers - 3)) 1;
              s = \<lparr>Capacity = cap, Chunk = chunk, FlagsLen = flen,
                   Flags = replicate (unat flen) 0, TierNum = tiers,
                   FreeChainHead = replicate (unat tiers) 0,
                   UsedBytes = 0, HWMBytes = 0, bmem = m\<rparr>
          in Some (buddy_recycle (setBlockInUse 0 0 True s) 0 0))"

section \<open>Public operations\<close>

definition buddy_alloc :: "buddy \<Rightarrow> u32 \<Rightarrow> buddy \<times> ptr" where
  "buddy_alloc s sz =
     (let tier = tierOf s sz in
      if tier = INVALID_VALUE then (s, 0)
      else let (s1, blockId) = buddy_obtain s tier in
        if blockId = INVALID_VALUE then (s1, 0)
        else let bsize = blockSizeOf s1 tier;
                 s2 = s1\<lparr>UsedBytes := UsedBytes s1 + bsize\<rparr>;
                 s3 = (if UsedBytes s2 > HWMBytes s2 then s2\<lparr>HWMBytes := UsedBytes s2\<rparr> else s2)
             in (s3, Chunk s3 + ucast (blockId * bsize)))"

text \<open>\<open>recycle\<close> followed by the update of \<open>UsedBytes\<close>, shared by \<open>dealloc\<close> and \<open>free\<close>.\<close>

definition buddy_release :: "buddy \<Rightarrow> u32 \<Rightarrow> u32 \<Rightarrow> buddy" where
  "buddy_release s tier blockId =
     (let s1 = buddy_recycle s tier blockId
      in s1\<lparr>UsedBytes := UsedBytes s1 - blockSizeOf s1 tier\<rparr>)"

definition buddy_dealloc :: "buddy \<Rightarrow> ptr \<Rightarrow> u32 \<Rightarrow> buddy" where
  "buddy_dealloc s p sz =
     (let tier = tierOf s sz in
      if tier = INVALID_VALUE then s
      else let blockId = blockIdOf s tier p in
        if blockId \<noteq> INVALID_VALUE then buddy_release s tier blockId else s)"

text \<open>
  The search of \<open>locateBlockInUse\<close> from the deepest tier up; \<open>t\<close> is one more than the
  tier the loop body looks at.
\<close>

fun locate_loop :: "buddy \<Rightarrow> ptr \<Rightarrow> nat \<Rightarrow> (u32 \<times> u32) option" where
  "locate_loop s p 0 = None"
| "locate_loop s p (Suc t) =
     (let blockId = blockIdOf s (of_nat t) p in
      if blockId = INVALID_VALUE then None
      else if isBlockInUse s (of_nat t) blockId then Some (of_nat t, blockId)
      else locate_loop s p t)"

definition locateBlockInUse :: "buddy \<Rightarrow> ptr \<Rightarrow> (u32 \<times> u32) option" where
  "locateBlockInUse s p = locate_loop s p (unat (TierNum s))"

definition buddy_free :: "buddy \<Rightarrow> ptr \<Rightarrow> buddy" where
  "buddy_free s p =
     (case locateBlockInUse s p of
        None \<Rightarrow> s
      | Some (tier, blockId) \<Rightarrow> buddy_release s tier blockId)"

definition buddy_realloc :: "buddy \<Rightarrow> ptr \<Rightarrow> u32 \<Rightarrow> buddy \<times> ptr" where
  "buddy_realloc s p sz =
     (if p = 0 then buddy_alloc s sz
      else if sz = 0 then (buddy_free s p, 0)
      else case locateBlockInUse s p of
        None \<Rightarrow> (s, 0)
      | Some (tier, blockId) \<Rightarrow>
          let blockSize = blockSizeOf s tier;
              move = (\<lambda>n. let (s1, b) = buddy_alloc s sz in
                if b \<noteq> 0
                then (buddy_dealloc (s1\<lparr>bmem := memcpy (bmem s1) b p (unat n)\<rparr>) p blockSize, b)
                else (s1, b))
          in if tier = 0 \<and> sz > blockSize then (s, 0)
             else if TierNum s - 1 = tier \<and> sz \<le> blockSize then (s, p)
             else if sz > blockSize then move blockSize
             else if sz \<le> drop_bit 1 blockSize then move sz
             else (s, p))"

definition buddy_calloc :: "buddy \<Rightarrow> u32 \<Rightarrow> u32 \<Rightarrow> buddy \<times> ptr" where
  "buddy_calloc s num sz =
     (let len = num * sz;
          (s1, p) = buddy_alloc s len
      in if p \<noteq> 0 then (s1\<lparr>bmem := memset (bmem s1) p 0 (unat len)\<rparr>, p) else (s1, p))"

definition buddy_capacity :: "buddy \<Rightarrow> u32" where
  "buddy_capacity s = Capacity s"

definition buddy_used :: "buddy \<Rightarrow> u32" where
  "buddy_used s = UsedBytes s"

definition buddy_hwm :: "buddy \<Rightarrow> bool \<Rightarrow> buddy \<times> u32" where
  "buddy_hwm s rst = (if rst then s\<lparr>HWMBytes := 0\<rparr> else s, HWMBytes s)"

fun available_loop :: "buddy \<Rightarrow> nat \<Rightarrow> nat \<Rightarrow> u32" where
  "available_loop s t 0 = 0"
| "available_loop s t (Suc k) =
     (if FreeChainHead s ! t \<noteq> 0 then blockSizeOf s (of_nat t) else available_loop s (Suc t) k)"

definition buddy_available :: "buddy \<Rightarrow> u32" where
  "buddy_available s = available_loop s 0 (unat (TierNum s))"

end
