(* ===== verification/BuddyGeom.thy ===== *)
theory BuddyGeom
  imports Buddy
begin

text \<open>
  Arithmetic of the buddy bulk over the naturals: sizes and offsets of blocks, what it
  means for two blocks to be disjoint, and the correspondence of the word-level helpers
  of Buddy (blockSizeOf, isBlockInUse, setBlockInUse, fbrOf, tierOf, blockIdOf) with them
  for every state whose geometry is the constructor's.
\<close>

section \<open>Blocks\<close>

definition tiers :: "buddy \<Rightarrow> nat" where
  "tiers s = unat (TierNum s)"

definition bsz :: "nat \<Rightarrow> nat \<Rightarrow> nat" where
  "bsz n t = 2 ^ (n + 3 - t)"

text \<open>A block is a tier and an index on that tier; offsets are relative to the bulk.\<close>

definition boff :: "nat \<Rightarrow> nat \<times> nat \<Rightarrow> nat" where
  "boff n x = snd x * bsz n (fst x)"

definition bend :: "nat \<Rightarrow> nat \<times> nat \<Rightarrow> nat" where
  "bend n x = Suc (snd x) * bsz n (fst x)"

definition is_block :: "nat \<Rightarrow> nat \<times> nat \<Rightarrow> bool" where
  "is_block n x \<longleftrightarrow> fst x < n \<and> snd x < 2 ^ fst x"

definition disj_blocks :: "nat \<Rightarrow> nat \<times> nat \<Rightarrow> nat \<times> nat \<Rightarrow> bool" where
  "disj_blocks n x y \<longleftrightarrow> bend n x \<le> boff n y \<or> bend n y \<le> boff n x"

lemma disj_blocks_sym: "disj_blocks n x y \<longleftrightarrow> disj_blocks n y x"
  by (auto simp: disj_blocks_def)

lemma bsz_ge_16: "t < n \<Longrightarrow> 16 \<le> bsz n t"
  using power_increasing [of 4 "n + 3 - t" "2::nat"] by (simp add: bsz_def)

lemma bsz_scale: "t \<le> t' \<Longrightarrow> t' < n \<Longrightarrow> bsz n t = 2 ^ (t' - t) * bsz n t'"
  by (simp add: bsz_def power_add [symmetric])

lemma bsz_total: "t < n \<Longrightarrow> 2 ^ t * bsz n t = 2 ^ (n + 3)"
  by (simp add: bsz_def power_add [symmetric])

lemma bend_le_total: "is_block n x \<Longrightarrow> bend n x \<le> 2 ^ (n + 3)"
proof -
  assume x: "is_block n x"
  then have "Suc (snd x) * bsz n (fst x) \<le> 2 ^ fst x * bsz n (fst x)"
    by (intro mult_le_mono1) (simp add: is_block_def Suc_leI)
  with x show ?thesis by (simp add: bend_def bsz_total is_block_def)
qed

lemma boff_bend: "is_block n x \<Longrightarrow> boff n x + 16 \<le> bend n x"
  using bsz_ge_16 by (simp add: boff_def bend_def is_block_def)

text \<open>Two blocks that are not disjoint are nested.\<close>

lemma overlap_nested:
  assumes "t \<le> t'" "t' < n" "\<not> disj_blocks n (t, b) (t', b')"
  shows "b = b' div 2 ^ (t' - t)"
proof -
  let ?z = "bsz n t'" and ?k = "2 ^ (t' - t) :: nat"
  have z: "bsz n t = ?k * ?z" using assms by (simp add: bsz_scale)
  have zpos: "0 < ?z" by (simp add: bsz_def)
  from assms(3) have "b' * ?z < Suc b * (?k * ?z)" "b * (?k * ?z) < Suc b' * ?z"
    by (auto simp: disj_blocks_def boff_def bend_def z not_le)
  then have "b' * ?z < (Suc b * ?k) * ?z" "(b * ?k) * ?z < Suc b' * ?z"
    by (simp_all only: mult.assoc)
  with zpos have "b' < Suc b * ?k" "b * ?k < Suc b'" by (simp_all only: mult_less_cancel2)
  then show ?thesis
    by (metis div_nat_eqI less_Suc_eq_le mult.commute)
qed

lemma disj_nested_other:
  assumes "t < n" "b \<noteq> b'"
  shows "disj_blocks n (t, b) (t, b')"
  using overlap_nested [of t t n b b'] assms by auto

section \<open>The sibling on a tier\<close>

definition sib :: "nat \<Rightarrow> nat" where
  "sib b = (if even b then b + 1 else b - 1)"

lemma sib_sib [simp]: "sib (sib b) = b"
  by (simp add: sib_def)

lemma sib_neq [simp]: "sib b \<noteq> b" "b \<noteq> sib b"
  by (simp_all add: sib_def) (presburger+)?

lemma sib_div2 [simp]: "sib b div 2 = b div 2"
  by (auto simp: sib_def) presburger

lemma sib_less: "0 < t \<Longrightarrow> sib b < 2 ^ t \<longleftrightarrow> b < 2 ^ t"
  by (cases t) (auto simp: sib_def, presburger+)

lemma same_half: "b div 2 = c div 2 \<Longrightarrow> c = b \<or> c = sib b"
  by (simp add: sib_def) presburger

lemma sib_double [simp]: "sib (2 * b) = Suc (2 * b)" "sib (Suc (2 * b)) = 2 * b"
  by (simp_all add: sib_def)

section \<open>Geometry of a state\<close>

text \<open>
  The geometry part of the invariant.  That the bulk lies below the end of the address
  space and is not at address 0 is what malloc promises for a non-null result.
\<close>

definition geom :: "buddy \<Rightarrow> bool" where
  "geom s \<longleftrightarrow>
     1 \<le> tiers s \<and> tiers s \<le> 28 \<and>
     unat (Capacity s) = 2 ^ (tiers s + 3) \<and>
     2 ^ tiers s \<le> 8 * length (Flags s) \<and>
     length (FreeChainHead s) = tiers s \<and>
     Chunk s \<noteq> 0 \<and> unat (Chunk s) + 2 ^ (tiers s + 3) \<le> 2 ^ 64"

definition flag :: "buddy \<Rightarrow> nat \<Rightarrow> nat \<Rightarrow> bool" where
  "flag s t b = bit (Flags s ! ((2 ^ t + b) div 8)) ((2 ^ t + b) mod 8)"

text \<open>Address of the start and of the free-list record of a block.\<close>

definition baddr :: "buddy \<Rightarrow> nat \<times> nat \<Rightarrow> ptr" where
  "baddr s x = Chunk s + of_nat (boff (tiers s) x)"

definition raddr :: "buddy \<Rightarrow> nat \<Rightarrow> nat \<Rightarrow> ptr" where
  "raddr s t b = Chunk s + of_nat (bend (tiers s) (t, b) - 16)"

lemma geom_bounds:
  "geom s \<Longrightarrow> 0 < tiers s"
  "geom s \<Longrightarrow> tiers s \<le> 28"
  "geom s \<Longrightarrow> tiers s < 2 ^ 32"
  "geom s \<Longrightarrow> (2::nat) ^ (tiers s + 3) \<le> 2 ^ 31"
proof -
  assume "geom s"
  then have "1 \<le> tiers s" "tiers s \<le> 28" by (simp_all add: geom_def)
  then show "0 < tiers s" "tiers s \<le> 28" "tiers s < 2 ^ 32" by simp_all
  from \<open>tiers s \<le> 28\<close> show "(2::nat) ^ (tiers s + 3) \<le> 2 ^ 31"
    by (intro power_increasing) simp_all
qed

lemma tier_index_inj:
  assumes "(b::nat) < 2 ^ t" "b' < 2 ^ t'" "2 ^ t + b = 2 ^ t' + b'"
  shows "t = t' \<and> b = b'"
proof -
  have "\<not> t < t'"
  proof
    assume "t < t'"
    then have "(2::nat) ^ Suc t \<le> 2 ^ t'" by (intro power_increasing) auto
    with assms show False by simp
  qed
  moreover have "\<not> t' < t"
  proof
    assume "t' < t"
    then have "(2::nat) ^ Suc t' \<le> 2 ^ t" by (intro power_increasing) auto
    with assms show False by simp
  qed
  ultimately have "t = t'" by simp
  with assms show ?thesis by simp
qed

lemma tier_index_bound:
  assumes "t < n" "(b::nat) < 2 ^ t" shows "2 ^ t + b < 2 ^ n"
proof -
  have "(2::nat) ^ Suc t \<le> 2 ^ n" using assms by (intro power_increasing) auto
  with assms show ?thesis by simp
qed

lemma idx_word:
  assumes "t < 28" "b < 2 ^ t"
  shows "unat (push_bit (unat (of_nat t :: u32)) 1 + of_nat b :: u32) = 2 ^ t + b"
proof -
  have "(2::nat) ^ t + b < 2 ^ 28" using assms by (rule tier_index_bound)
  then have "2 ^ t + b < (2::nat) ^ 32" by simp
  moreover have "unat (of_nat t :: u32) = t" using assms(1) by (intro unat_of_nat32) simp
  ultimately show ?thesis
    using unat_of_nat32 [of "2 ^ t + b"] by simp
qed

lemma mask_bit8: "k < 8 \<Longrightarrow> bit (push_bit k (1::u8)) j \<longleftrightarrow> j = k"
  by (auto simp: bit_push_bit_iff bit_1_iff simp del: push_bit_of_1)

lemma unat_and7: "unat (w AND 7 :: u32) = unat w mod 8"
proof -
  have "unat (w AND 7) = unat (take_bit 3 w)"
    using take_bit_eq_mask [of 3 w] by (simp add: mask_eq_exp_minus_1)
  also have "\<dots> = unat w mod 8"
    by (simp add: unsigned_take_bit_eq) (simp add: take_bit_eq_mod)
  finally show ?thesis .
qed

lemma unat_drop3: "unat (drop_bit 3 w :: u32) = unat w div 8"
  by (simp add: drop_bit_eq_div unat_div)

lemma and_mask_bit:
  assumes "k < 8" shows "0 \<noteq> (x :: u8) AND push_bit k 1 \<longleftrightarrow> bit x k"
proof -
  have "bit (x AND push_bit k 1) j \<longleftrightarrow> bit x k \<and> j = k" for j
    using assms by (auto simp: bit_and_iff mask_bit8 simp del: push_bit_of_1)
  then show ?thesis by (metis bit_0_eq bot_fun_def bot_bool_def bit_word_eqI)
qed

lemma isBlockInUse_flag:
  assumes "t < 28" "b < 2 ^ t"
  shows "isBlockInUse s (of_nat t) (of_nat b) \<longleftrightarrow> flag s t b"
  using assms by (simp only: isBlockInUse_def flag_def Let_def unat_drop3 unat_and7 idx_word
      and_mask_bit mod_less_divisor zero_less_numeral)


lemma bit_clear_mask:
  assumes "k < 8"
  shows "bit ((x :: u8) AND (push_bit k 1 XOR 0xFF)) j \<longleftrightarrow> bit x j \<and> j \<noteq> k"
proof -
  have "bit (0xFF :: u8) j \<longleftrightarrow> j < 8"
    using bit_mask_iff [of 8 j, where 'a = u8] by (simp add: mask_eq_exp_minus_1)
  then show ?thesis
    using assms by (auto simp: bit_and_iff bit_xor_iff mask_bit8 dest: bit_u8_lt simp del: push_bit_of_1)
qed

lemma bit_set_mask:
  assumes "k < 8"
  shows "bit ((x :: u8) OR push_bit k 1) j \<longleftrightarrow> bit x j \<or> j = k"
  using assms by (auto simp: bit_or_iff mask_bit8 simp del: push_bit_of_1)

lemma setBlockInUse_fields [frame_simps]:
  "Capacity (setBlockInUse t b v s) = Capacity s"
  "Chunk (setBlockInUse t b v s) = Chunk s"
  "TierNum (setBlockInUse t b v s) = TierNum s"
  "FreeChainHead (setBlockInUse t b v s) = FreeChainHead s"
  "UsedBytes (setBlockInUse t b v s) = UsedBytes s"
  "HWMBytes (setBlockInUse t b v s) = HWMBytes s"
  "bmem (setBlockInUse t b v s) = bmem s"
  "length (Flags (setBlockInUse t b v s)) = length (Flags s)"
  by (simp_all add: setBlockInUse_def Let_def)

lemma tiers_setBlockInUse [frame_simps]: "tiers (setBlockInUse t b v s) = tiers s"
  by (simp add: tiers_def frame_simps)

lemma flag_setBlockInUse:
  assumes g: "geom s" and x: "is_block (tiers s) (t, b)" and y: "is_block (tiers s) (t', b')"
  shows "flag (setBlockInUse (of_nat t) (of_nat b) v s) t' b' =
           (if (t', b') = (t, b) then v else flag s t' b')"
proof -
  let ?i = "2 ^ t + b" and ?j = "2 ^ t' + b'"
  have t: "t < 28" using g x by (simp add: geom_def is_block_def)
  have "?i < 2 ^ tiers s" using x by (intro tier_index_bound) (simp_all add: is_block_def)
  moreover have "2 ^ tiers s \<le> 8 * length (Flags s)" using g by (simp add: geom_def)
  ultimately have "?i < length (Flags s) * 8" by simp
  then have i: "?i div 8 < length (Flags s)" by (rule less_mult_imp_div_less)
  have idx: "unat (push_bit (unat (of_nat t :: u32)) 1 + of_nat b :: u32) = ?i"
    using t x by (intro idx_word) (simp_all add: is_block_def)
  have eq: "?i = ?j \<longleftrightarrow> (t', b') = (t, b)"
    using tier_index_inj [of b t b' t'] x y by (auto simp: is_block_def)
  have same: "?i div 8 = ?j div 8 \<Longrightarrow> ?i mod 8 = ?j mod 8 \<longleftrightarrow> ?i = ?j"
    by (metis div_mod_decomp)
  let ?f = "\<lambda>x :: u8. if v then x OR push_bit (?i mod 8) 1 else x AND (push_bit (?i mod 8) 1 XOR 0xFF)"
  have upd: "Flags (setBlockInUse (of_nat t) (of_nat b) v s) =
      (Flags s)[?i div 8 := ?f (Flags s ! (?i div 8))]"
    by (simp only: setBlockInUse_def Let_def unat_drop3 unat_and7 idx split: if_split) simp
  have f: "bit (?f x) k \<longleftrightarrow> (if k = ?i mod 8 then v else bit x k)" for x k
    by (simp add: bit_set_mask bit_clear_mask del: push_bit_of_1)
  show ?thesis
  proof (cases "?i div 8 = ?j div 8")
    case True
    then have "Flags (setBlockInUse (of_nat t) (of_nat b) v s) ! (?j div 8) = ?f (Flags s ! (?j div 8))"
      using i by (simp add: upd)
    moreover have "?j mod 8 = ?i mod 8 \<longleftrightarrow> (t', b') = (t, b)" using same [OF True] eq by auto
    ultimately show ?thesis by (simp only: flag_def f)
  next
    case False
    then have "?i \<noteq> ?j" by auto
    with False eq show ?thesis by (auto simp: flag_def upd)
  qed
qed

lemma geom_cong:
  assumes "geom s" "TierNum s' = TierNum s" "Capacity s' = Capacity s" "Chunk s' = Chunk s"
    "length (Flags s') = length (Flags s)" "length (FreeChainHead s') = length (FreeChainHead s)"
  shows "geom s'"
  using assms by (simp add: geom_def tiers_def)

lemma geom_setBlockInUse [intro]: "geom s \<Longrightarrow> geom (setBlockInUse t b v s)"
  by (erule geom_cong) (simp_all add: frame_simps)

section \<open>Sizes and addresses\<close>

lemma tier_shift:
  assumes "geom s" "t < tiers s"
  shows "unat (of_nat MINSIZE_POWOF2 + TierNum s - of_nat t - 1) = tiers s + 3 - t"
proof -
  have n: "tiers s \<le> 28" using assms(1) by (rule geom_bounds)
  have "TierNum s = of_nat (tiers s)" by (simp add: tiers_def)
  then have "of_nat MINSIZE_POWOF2 + TierNum s - of_nat t - 1 = (of_nat (tiers s + 3 - t) :: u32)"
    using assms(2) by (simp add: MINSIZE_POWOF2_def of_nat_diff)
  moreover have "unat (of_nat (tiers s + 3 - t) :: u32) = tiers s + 3 - t"
    using n by (intro unat_of_nat32) simp
  ultimately show ?thesis by simp
qed

lemma unat_blockSizeOf:
  assumes "geom s" "t < tiers s"
  shows "unat (blockSizeOf s (of_nat t)) = bsz (tiers s) t"
proof -
  have "tiers s + 3 - t < 32" using geom_bounds(2) [OF assms(1)] by simp
  then show ?thesis
    by (simp only: blockSizeOf_def tier_shift [OF assms] unat_push_bit1_32 bsz_def)
qed

lemma bsz_le_cap: "t < n \<Longrightarrow> bsz n t \<le> 2 ^ (n + 3)"
  by (simp add: bsz_def power_increasing)

lemma fbrOf_raddr:
  assumes g: "geom s" and x: "is_block (tiers s) (t, b)"
  shows "fbrOf s (of_nat t) (of_nat b) = raddr s t b"
proof -
  have t: "t < tiers s" using x by (simp add: is_block_def)
  have cap: "bend (tiers s) (t, b) \<le> 2 ^ 31"
    using bend_le_total [OF x] geom_bounds(4) [OF g] by (rule le_trans)
  then have e: "bend (tiers s) (t, b) < 2 ^ 32" by simp
  have bs: "blockSizeOf s (of_nat t) = of_nat (bsz (tiers s) t)"
    using unat_blockSizeOf [OF g t] by (metis of_nat_unat ucast_id)
  have "blockSizeOf s (of_nat t) * (of_nat b + 1) = (of_nat (bend (tiers s) (t, b)) :: u32)"
    by (simp add: bs bend_def algebra_simps)
  then have "ucast (blockSizeOf s (of_nat t) * (of_nat b + 1)) = (of_nat (bend (tiers s) (t, b)) :: ptr)"
    using ucast_of_nat_64 [OF e] by simp
  moreover have "16 \<le> bend (tiers s) (t, b)"
    using boff_bend [OF x] by simp
  ultimately show ?thesis
    by (simp add: fbrOf_def raddr_def sizeof_FreeBlockRecord_def of_nat_diff)
qed

text \<open>The pointer of a record determines the block id, as \<open>obtain\<close> recomputes it.\<close>

lemma raddr_id:
  assumes g: "geom s" and x: "is_block (tiers s) (t, b)"
  shows "(ucast (raddr s t b - Chunk s) :: u32) div blockSizeOf s (of_nat t) = of_nat b"
proof -
  let ?z = "bsz (tiers s) t" and ?e = "bend (tiers s) (t, b)"
  have t: "t < tiers s" using x by (simp add: is_block_def)
  have z: "16 \<le> ?z" using t by (rule bsz_ge_16)
  have "?e \<le> 2 ^ 31"
    using bend_le_total [OF x] geom_bounds(4) [OF g] by (rule le_trans)
  then have e: "?e - 16 < 2 ^ 32" "?e < 2 ^ 32" by simp_all
  have b32: "b < 2 ^ 32"
  proof -
    have "b * 1 \<le> Suc b * ?z" using z by (intro mult_le_mono) simp_all
    then have "b \<le> ?e" by (simp only: bend_def fst_conv snd_conv mult_1_right)
    with e show ?thesis by simp
  qed
  have "(ucast (raddr s t b - Chunk s) :: u32) = of_nat (?e - 16)"
    by (simp add: raddr_def ucast_of_nat_32)
  moreover have "(?e - 16) div ?z = b"
  proof -
    have "?e - 16 = (?z - 16) + b * ?z" using z by (simp add: bend_def)
    then have "(?e - 16) div ?z = b + (?z - 16) div ?z" using z by (simp only: div_mult_self1)
    then show ?thesis using z by simp
  qed
  ultimately have "unat ((ucast (raddr s t b - Chunk s) :: u32) div blockSizeOf s (of_nat t)) = b"
    by (simp only: unat_div unat_blockSizeOf [OF g t] unat_of_nat32 [OF e(1)])
  then show ?thesis using b32 by (metis of_nat_unat ucast_id)
qed

lemma block_id32:
  assumes "geom s" "is_block (tiers s) (t, b)"
  shows "b < 2 ^ 32 - 1" "t < 2 ^ 32 - 1"
proof -
  have "(2::nat) ^ t \<le> 2 ^ 28" using assms geom_bounds(2) [of s]
    by (intro power_increasing) (auto simp: is_block_def)
  with assms(2) have "b < 2 ^ 28" by (simp add: is_block_def)
  then show "b < 2 ^ 32 - 1" by simp
  show "t < 2 ^ 32 - 1" using assms geom_bounds(2) [of s] by (simp add: is_block_def)
qed

lemma raddr_nonnull:
  assumes g: "geom s" and x: "is_block (tiers s) (t, b)"
  shows "raddr s t b \<noteq> 0"
proof -
  let ?o = "bend (tiers s) (t, b) - 16"
  have o: "?o < 2 ^ (tiers s + 3)" "bend (tiers s) (t, b) \<le> 2 ^ 31"
    using bend_le_total [OF x] boff_bend [OF x] geom_bounds(4) [OF g] by simp_all
  then have u: "unat (of_nat ?o :: ptr) = ?o" by (intro unat_of_nat64) simp
  have "unat (Chunk s) + ?o < 2 ^ 64" using g o by (simp add: geom_def)
  then have "unat (raddr s t b) = unat (Chunk s) + ?o"
    using u unat_add_lem [of "Chunk s" "of_nat ?o"] by (simp add: raddr_def)
  moreover have "unat (Chunk s) \<noteq> 0" using g by (simp add: geom_def unat_eq_0)
  ultimately show ?thesis by (metis add_is_0 unat_0)
qed

lemma baddr_nonnull:
  assumes g: "geom s" and x: "is_block (tiers s) x"
  shows "baddr s x \<noteq> 0" "unat (baddr s x) = unat (Chunk s) + boff (tiers s) x"
proof -
  let ?o = "boff (tiers s) x"
  have o: "?o < 2 ^ (tiers s + 3)"
    using bend_le_total [OF x] boff_bend [OF x] by simp
  then have "?o < 2 ^ 31" using geom_bounds(4) [OF g] by simp
  then have u: "unat (of_nat ?o :: ptr) = ?o" by (intro unat_of_nat64) simp
  have "unat (Chunk s) + ?o < 2 ^ 64" using g o by (simp add: geom_def)
  then show e: "unat (baddr s x) = unat (Chunk s) + ?o"
    using u unat_add_lem [of "Chunk s" "of_nat ?o"] by (simp add: baddr_def)
  have "unat (Chunk s) \<noteq> 0" using g by (simp add: geom_def unat_eq_0)
  with e show "baddr s x \<noteq> 0" by (metis add_is_0 unat_0)
qed

end
