(* ===== verification/BuddyFlags.thy ===== *)
theory BuddyFlags
  imports BuddyGeom
begin

text \<open>
  The in-use flags as a tree, without words or memory.  \<open>F t b\<close> says that block \<open>b\<close> of tier
  \<open>t\<close> is marked.  A marked block is either handed out (\<open>live\<close>) or split; an unmarked one is
  free when its sibling is marked (or on tier 0), and is otherwise part of a larger block.
\<close>

definition free_on :: "(nat \<Rightarrow> nat \<Rightarrow> bool) \<Rightarrow> nat \<Rightarrow> nat set" where
  "free_on F t = {b. b < 2 ^ t \<and> \<not> F t b \<and> (t = 0 \<or> F t (sib b))}"

definition tree_inv :: "nat \<Rightarrow> (nat \<Rightarrow> nat \<Rightarrow> bool) \<Rightarrow> bool" where
  "tree_inv n F \<longleftrightarrow> (\<forall>t b. Suc t < n \<and> b < 2 ^ Suc t \<and> F (Suc t) b \<longrightarrow> F t (b div 2))"

definition split_block :: "nat \<Rightarrow> (nat \<Rightarrow> nat \<Rightarrow> bool) \<Rightarrow> nat \<Rightarrow> nat \<Rightarrow> bool" where
  "split_block n F t b \<longleftrightarrow> Suc t < n \<and> (F (Suc t) (2 * b) \<or> F (Suc t) (Suc (2 * b)))"

definition live_in :: "nat \<Rightarrow> (nat \<Rightarrow> nat \<Rightarrow> bool) \<Rightarrow> (nat \<times> nat) set" where
  "live_in n F = {(t, b). t < n \<and> b < 2 ^ t \<and> F t b \<and> \<not> split_block n F t b}"

definition mark :: "nat \<Rightarrow> nat \<Rightarrow> bool \<Rightarrow> (nat \<Rightarrow> nat \<Rightarrow> bool) \<Rightarrow> nat \<Rightarrow> nat \<Rightarrow> bool" where
  "mark t b v F = (\<lambda>t' b'. if t' = t \<and> b' = b then v else F t' b')"

lemma div_pow_step:
  assumes "t < t'"
  shows "(c::nat) div 2 ^ (t' - t) = c div 2 div 2 ^ (t' - Suc t)"
    and "(c::nat) div 2 ^ (t' - t) = c div 2 ^ (t' - Suc t) div 2"
proof -
  have e: "t' - t = Suc (t' - Suc t)" using assms by simp
  show "c div 2 ^ (t' - t) = c div 2 div 2 ^ (t' - Suc t)"
    unfolding e power_Suc by (rule div_mult2_eq)
  show "c div 2 ^ (t' - t) = c div 2 ^ (t' - Suc t) div 2"
    unfolding e power_Suc2 by (rule div_mult2_eq)
qed

lemma half_cases: "(c::nat) div 2 = b \<Longrightarrow> c = 2 * b \<or> c = Suc (2 * b)"
  by presburger

lemma pair_iff: "P (2 * (b div 2)) \<or> P (Suc (2 * (b div 2))) \<longleftrightarrow> P b \<or> P (sib b)"
  by (cases "even b") (auto simp: sib_def elim!: evenE oddE)

lemma tree_invD:
  "tree_inv n F \<Longrightarrow> Suc t < n \<Longrightarrow> b < 2 ^ Suc t \<Longrightarrow> F (Suc t) b \<Longrightarrow> F t (b div 2)"
  by (simp add: tree_inv_def)

lemma tree_inv_anc:
  assumes "tree_inv n F" "t \<le> t'" "t' < n" "b' < 2 ^ t'" "F t' b'"
  shows "F t (b' div 2 ^ (t' - t))"
  using assms(2-)
proof (induction t' arbitrary: b' rule: dec_induct)
  case base
  then show ?case by simp
next
  case (step u)
  have "F u (b' div 2)" using tree_invD [OF assms(1)] step.prems by simp
  moreover have "b' div 2 < 2 ^ u" using step.prems by simp
  ultimately have "F t (b' div 2 div 2 ^ (u - t))" using step.IH step.prems by simp
  then show ?case using step.hyps by (simp add: div_mult2_eq [symmetric] Suc_diff_le)
qed

lemma half_lt: "b < 2 ^ Suc t \<Longrightarrow> b div 2 < (2::nat) ^ t"
  by simp

text \<open>A block with a marked proper descendant is split, so it is neither live nor free.\<close>

lemma desc_split:
  assumes T: "tree_inv n F" and "t < t'" "t' < n" "b' < 2 ^ t'" "F t' b'"
    and b: "b = b' div 2 ^ (t' - t)"
  shows "F t b \<and> split_block n F t b"
proof -
  let ?c = "b' div 2 ^ (t' - Suc t)"
  have c: "F (Suc t) ?c" using tree_inv_anc [OF T, of "Suc t" t' b'] assms by simp
  have half: "?c div 2 = b" using b div_pow_step(2) [OF assms(2)] by simp
  have "?c = 2 * b \<or> ?c = Suc (2 * b)" using half by (rule half_cases)
  with c have "split_block n F t b" using assms(2,3) by (auto simp: split_block_def)
  moreover have "F t b" using tree_inv_anc [OF T, of t t' b'] assms by simp
  ultimately show ?thesis by simp
qed

text \<open>The leaves of the tree: blocks in use and blocks on a free chain.\<close>

definition leaves :: "nat \<Rightarrow> (nat \<Rightarrow> nat \<Rightarrow> bool) \<Rightarrow> (nat \<times> nat) set" where
  "leaves n F = live_in n F \<union> {(t, b). t < n \<and> b \<in> free_on F t}"

lemma leaf_is_block: "x \<in> leaves n F \<Longrightarrow> is_block n x"
  by (auto simp: leaves_def live_in_def free_on_def is_block_def)

lemma live_is_leaf: "x \<in> live_in n F \<Longrightarrow> x \<in> leaves n F"
  by (simp add: leaves_def)

lemma free_is_leaf: "t < n \<Longrightarrow> b \<in> free_on F t \<Longrightarrow> (t, b) \<in> leaves n F"
  by (simp add: leaves_def)

lemma leaf_not_split: "tree_inv n F \<Longrightarrow> (t, b) \<in> leaves n F \<Longrightarrow> \<not> (F t b \<and> split_block n F t b)"
  by (auto simp: leaves_def live_in_def free_on_def)

lemma leaf_above:
  assumes T: "tree_inv n F" and x: "(t, b) \<in> leaves n F" and y: "(t', b') \<in> leaves n F"
    and "t < t'"
  shows "b \<noteq> b' div 2 ^ (t' - t)"
proof
  assume b: "b = b' div 2 ^ (t' - t)"
  have t': "t' < n" "b' < 2 ^ t'" using leaf_is_block [OF y] by (simp_all add: is_block_def)
  have "\<exists>c. c < 2 ^ t' \<and> F t' c \<and> c div 2 = b' div 2"
  proof (cases "F t' b'")
    case True
    with t' show ?thesis by blast
  next
    case False
    with y \<open>t < t'\<close> have "F t' (sib b')" by (auto simp: leaves_def live_in_def free_on_def)
    moreover have "sib b' < 2 ^ t'" using t' \<open>t < t'\<close> by (simp add: sib_less)
    ultimately show ?thesis by (intro exI [of _ "sib b'"]) simp
  qed
  then obtain c where c: "c < 2 ^ t'" "F t' c" "c div 2 = b' div 2" by blast
  have "c div 2 ^ (t' - t) = b' div 2 ^ (t' - t)"
    using c(3) div_pow_step(1) [OF \<open>t < t'\<close>, of c] div_pow_step(1) [OF \<open>t < t'\<close>, of b'] by simp
  then have "F t b \<and> split_block n F t b"
    using desc_split [OF T \<open>t < t'\<close> t'(1) c(1,2)] b by simp
  with leaf_not_split [OF T x] show False by simp
qed

lemma leaves_disjoint:
  assumes T: "tree_inv n F" and x: "x \<in> leaves n F" and y: "y \<in> leaves n F" and ne: "x \<noteq> y"
  shows "disj_blocks n x y"
proof -
  obtain t b where xe: "x = (t, b)" by fastforce
  obtain t' b' where ye: "y = (t', b')" by fastforce
  have n: "t < n" "t' < n" using leaf_is_block x y xe ye by (auto simp: is_block_def)
  consider "t = t'" | "t < t'" | "t' < t" by linarith
  then show ?thesis
  proof cases
    case 1
    with ne xe ye n show ?thesis by (auto intro: disj_nested_other)
  next
    case 2
    with leaf_above [OF T, of t b t' b'] x y xe ye overlap_nested [of t t' n b b'] n
    show ?thesis by auto
  next
    case 3
    with leaf_above [OF T, of t' b' t b] x y xe ye overlap_nested [of t' t n b' b] n
    show ?thesis by (auto simp: disj_blocks_sym)
  qed
qed

section \<open>Marking and unmarking\<close>

lemma mark_simps [simp]:
  "mark t b v F t b = v"
  "t' \<noteq> t \<or> b' \<noteq> b \<Longrightarrow> mark t b v F t' b' = F t' b'"
  by (auto simp: mark_def)

text \<open>Taking a free block: the head of a chain becomes live.\<close>

lemma free_mark:
  assumes T: "tree_inv n F" and t: "t < n" and b: "b \<in> free_on F t"
  defines "G \<equiv> mark t b True F"
  shows "tree_inv n G" "live_in n G = insert (t, b) (live_in n F)" "(t, b) \<notin> live_in n F"
    "\<And>u. u < n \<Longrightarrow> free_on G u = (if u = t then free_on F t - {b} else free_on F u)"
proof -
  have nb: "\<not> F t b" and bt: "b < 2 ^ t" and sb: "t = 0 \<or> F t (sib b)"
    using b by (auto simp: free_on_def)
  have up: "F u (b div 2)" if "t = Suc u" for u
  proof -
    have "F (Suc u) (sib b)" "sib b < 2 ^ Suc u"
      using sb bt that sib_less [of t b] by auto
    with tree_invD [OF T, of u "sib b"] t that show ?thesis by simp
  qed
  show "tree_inv n G"
    unfolding tree_inv_def
  proof (intro allI impI)
    fix u c assume A: "Suc u < n \<and> c < 2 ^ Suc u \<and> G (Suc u) c"
    show "G u (c div 2)"
    proof (cases "Suc u = t \<and> c = b")
      case True
      with up show ?thesis by (auto simp: G_def mark_def)
    next
      case False
      then have "F (Suc u) c" using A by (auto simp: G_def mark_def split: if_splits)
      with A tree_invD [OF T] have "F u (c div 2)" by simp
      then show ?thesis by (simp add: G_def mark_def)
    qed
  qed
  have no_desc: "\<not> F (Suc t) (2 * b)" "\<not> F (Suc t) (Suc (2 * b))" if "Suc t < n"
    using tree_invD [OF T, of t "2 * b"] tree_invD [OF T, of t "Suc (2 * b)"] nb bt that by auto
  have split_eq: "split_block n G u c = split_block n F u c" if "(u, c) \<in> live_in n F \<or> (u, c) = (t, b)" for u c
  proof (cases "Suc u = t \<and> c = b div 2")
    case True
    then have "split_block n F u c"
      using sb t same_half [of b] by (cases "even b") (auto simp: split_block_def sib_def elim!: oddE evenE)
    with that True show ?thesis by (auto simp: live_in_def)
  next
    case False
    then show ?thesis by (auto simp: split_block_def G_def mark_def)
  qed
  show "(t, b) \<notin> live_in n F" using nb by (simp add: live_in_def)
  have "x \<in> live_in n G \<longleftrightarrow> x \<in> insert (t, b) (live_in n F)" for x
  proof -
    obtain u c where x: "x = (u, c)" by fastforce
    consider "(u, c) = (t, b)" | "(u, c) \<noteq> (t, b)" "(u, c) \<in> live_in n F"
      | "(u, c) \<noteq> (t, b)" "(u, c) \<notin> live_in n F" by blast
    then show ?thesis
    proof cases
      case 1
      then have "\<not> split_block n G t b" using split_eq [of t b] no_desc by (auto simp: split_block_def)
      with 1 t bt show ?thesis by (auto simp: x live_in_def G_def)
    next
      case 2
      with split_eq [of u c] show ?thesis by (auto simp: x live_in_def G_def mark_def)
    next
      case 3
      then have "G u c = F u c" by (auto simp: G_def mark_def)
      moreover have "split_block n F u c \<Longrightarrow> split_block n G u c"
        by (auto simp: split_block_def G_def mark_def)
      ultimately show ?thesis using 3 by (auto simp: x live_in_def)
    qed
  qed
  then show "live_in n G = insert (t, b) (live_in n F)" by blast
  show "free_on G u = (if u = t then free_on F t - {b} else free_on F u)" if "u < n" for u
  proof -
    have "t \<noteq> 0 \<Longrightarrow> sib c = b \<Longrightarrow> F t c" for c
      using sb by auto
    then show ?thesis
      using nb by (auto simp: free_on_def G_def mark_def split: if_splits)
  qed
qed

text \<open>Splitting a block in use: both halves become live and the block itself is split.\<close>

lemma split_mark:
  assumes T: "tree_inv n F" and t: "Suc t < n" and p: "(t, p) \<in> live_in n F"
  defines "G \<equiv> mark (Suc t) (Suc (2 * p)) True (mark (Suc t) (2 * p) True F)"
  shows "tree_inv n G"
    "live_in n G = insert (Suc t, 2 * p) (insert (Suc t, Suc (2 * p)) (live_in n F - {(t, p)}))"
    "(Suc t, 2 * p) \<notin> live_in n F" "(Suc t, Suc (2 * p)) \<notin> live_in n F"
    "\<And>u. u < n \<Longrightarrow> free_on G u = free_on F u"
proof -
  have pm: "F t p" and pt: "p < 2 ^ t" and ns: "\<not> F (Suc t) (2 * p)" "\<not> F (Suc t) (Suc (2 * p))"
    using p t by (auto simp: live_in_def split_block_def)
  have G: "G u c \<longleftrightarrow> F u c \<or> u = Suc t \<and> c div 2 = p" for u c
    using half_cases [of c p] by (auto simp: G_def mark_def)
  show "tree_inv n G"
    using T pm by (auto simp: tree_inv_def G)
  show "(Suc t, 2 * p) \<notin> live_in n F" "(Suc t, Suc (2 * p)) \<notin> live_in n F"
    using ns by (auto simp: live_in_def)
  have no_desc: "\<not> F (Suc (Suc t)) c" if "Suc (Suc t) < n" "c < 2 ^ Suc (Suc t)" "c div 2 div 2 = p" for c
    using tree_invD [OF T, of "Suc t" c] that ns half_cases [of "c div 2" p] by auto
  have split: "split_block n G u c \<longleftrightarrow> split_block n F u c \<or> (u, c) = (t, p)" for u c
    using t by (auto simp: split_block_def G)
  have nsplit: "\<not> split_block n F (Suc t) c" if "c div 2 = p" for c
    using no_desc [of "2 * c"] no_desc [of "Suc (2 * c)"] that pt
    by (auto simp: split_block_def)
  have "x \<in> live_in n G \<longleftrightarrow>
      x \<in> insert (Suc t, 2 * p) (insert (Suc t, Suc (2 * p)) (live_in n F - {(t, p)}))" for x
  proof -
    obtain u c where x: "x = (u, c)" by fastforce
    show ?thesis
    proof (cases "u = Suc t \<and> c div 2 = p")
      case True
      then have "x \<in> live_in n G"
        using t pt nsplit [of c] half_cases [of c p] by (auto simp: x live_in_def G split)
      with True show ?thesis using half_cases [of c p] by (auto simp: x)
    next
      case False
      then have "u \<noteq> Suc t \<or> c \<noteq> 2 * p \<and> c \<noteq> Suc (2 * p)" by auto
      with False show ?thesis by (auto simp: x live_in_def G split)
    qed
  qed
  then show "live_in n G = insert (Suc t, 2 * p) (insert (Suc t, Suc (2 * p)) (live_in n F - {(t, p)}))"
    by blast
  have pair: "\<not> F (Suc t) c" "\<not> F (Suc t) (sib c)" if "c div 2 = p" for c
    using ns pair_iff [of "F (Suc t)" c] that by auto
  have "c div 2 = p \<longleftrightarrow> sib c div 2 = p" for c by simp
  with pair show "free_on G u = free_on F u" if "u < n" for u
    by (auto simp: free_on_def G)
qed

text \<open>Giving a block back while its sibling is in use (or on tier 0).\<close>

lemma live_unmark_push:
  assumes T: "tree_inv n F" and x: "(t, b) \<in> live_in n F" and s: "t = 0 \<or> F t (sib b)"
  defines "G \<equiv> mark t b False F"
  shows "tree_inv n G" "live_in n G = live_in n F - {(t, b)}" "b \<notin> free_on F t"
    "\<And>u. u < n \<Longrightarrow> free_on G u = (if u = t then insert b (free_on F t) else free_on F u)"
proof -
  have m: "F t b" and bt: "b < 2 ^ t" and tn: "t < n" and ns: "\<not> split_block n F t b"
    using x by (auto simp: live_in_def)
  show "b \<notin> free_on F t" using m by (simp add: free_on_def)
  show "tree_inv n G"
    unfolding tree_inv_def
  proof (intro allI impI)
    fix u c assume A: "Suc u < n \<and> c < 2 ^ Suc u \<and> G (Suc u) c"
    then have c: "F (Suc u) c" by (auto simp: G_def mark_def split: if_splits)
    with A tree_invD [OF T] have "F u (c div 2)" by simp
    moreover have "\<not> (u = t \<and> c div 2 = b)"
      using ns A c half_cases [of c b] by (auto simp: split_block_def)
    ultimately show "G u (c div 2)" by (auto simp: G_def mark_def)
  qed
  have split: "split_block n G u c \<longleftrightarrow> split_block n F u c" for u c
  proof (cases "Suc u = t \<and> c = b div 2")
    case True
    then have "F t (sib b)" using s by auto
    with True m pair_iff [of "F t" b] pair_iff [of "mark t b False F t" b] show ?thesis
      by (auto simp: split_block_def G_def)
  next
    case False
    then show ?thesis by (auto simp: split_block_def G_def mark_def)
  qed
  show "live_in n G = live_in n F - {(t, b)}"
    by (auto simp: live_in_def split) (auto simp: G_def mark_def split: if_splits)
  show "free_on G u = (if u = t then insert b (free_on F t) else free_on F u)" if "u < n" for u
  proof -
    have sb: "sib b \<notin> free_on F t" if "t \<noteq> 0" using s that by (simp add: free_on_def)
    have "c = b \<or> c = sib b" if "sib c = b" for c using that by auto
    with s m bt sb show ?thesis
      by (auto simp: free_on_def G_def mark_def split: if_splits)
  qed
qed

text \<open>Giving a block back while its sibling is free: the pair leaves the tier, the parent is live.\<close>

lemma live_unmark_merge:
  assumes T: "tree_inv n F" and x: "(Suc t, b) \<in> live_in n F" and s: "\<not> F (Suc t) (sib b)"
  defines "G \<equiv> mark (Suc t) b False F"
  shows "tree_inv n G"
    "live_in n G = insert (t, b div 2) (live_in n F - {(Suc t, b)})" "(t, b div 2) \<notin> live_in n F"
    "sib b \<in> free_on F (Suc t)"
    "\<And>u. u < n \<Longrightarrow> free_on G u = (if u = Suc t then free_on F (Suc t) - {sib b} else free_on F u)"
proof -
  have m: "F (Suc t) b" and bt: "b < 2 ^ Suc t" and tn: "Suc t < n"
    and ns: "\<not> split_block n F (Suc t) b"
    using x by (auto simp: live_in_def)
  have pm: "F t (b div 2)" by (rule tree_invD [OF T tn bt m])
  have both: "c = b \<or> c = sib b" if "c div 2 = b div 2" for c
    using same_half [of b c] that by simp
  have psplit: "split_block n F t (b div 2)"
    using tn m half_cases [of b "b div 2"] by (auto simp: split_block_def)
  show "sib b \<in> free_on F (Suc t)"
    using s m bt sib_less [of "Suc t" b] by (simp add: free_on_def)
  show "(t, b div 2) \<notin> live_in n F" using psplit by (simp add: live_in_def)
  have G: "G u c \<longleftrightarrow> F u c \<and> \<not> (u = Suc t \<and> c = b)" for u c
    by (auto simp: G_def mark_def)
  show "tree_inv n G"
    unfolding tree_inv_def
  proof (intro allI impI)
    fix u c assume A: "Suc u < n \<and> c < 2 ^ Suc u \<and> G (Suc u) c"
    then have c: "F (Suc u) c" by (simp add: G)
    with A tree_invD [OF T] have "F u (c div 2)" by simp
    moreover have "\<not> (u = Suc t \<and> c div 2 = b)"
      using ns A c half_cases [of c b] by (auto simp: split_block_def)
    ultimately show "G u (c div 2)" by (simp add: G)
  qed
  have pns: "\<not> split_block n G t (b div 2)"
    using both [of "2 * (b div 2)"] both [of "Suc (2 * (b div 2))"] s by (auto simp: split_block_def G)
  have split: "split_block n G u c \<longleftrightarrow> split_block n F u c" if "(u, c) \<noteq> (t, b div 2)" for u c
  proof -
    have "Suc u = Suc t \<Longrightarrow> c = b div 2 \<Longrightarrow> False" using that by simp
    then show ?thesis by (auto simp: split_block_def G)
  qed
  have "y \<in> live_in n G \<longleftrightarrow> y \<in> insert (t, b div 2) (live_in n F - {(Suc t, b)})" for y
  proof -
    obtain u c where y: "y = (u, c)" by fastforce
    show ?thesis
    proof (cases "(u, c) = (t, b div 2)")
      case True
      then show ?thesis using pns pm bt tn by (auto simp: y live_in_def G)
    next
      case False
      then show ?thesis using split [OF False] by (auto simp: y live_in_def G)
    qed
  qed
  then show "live_in n G = insert (t, b div 2) (live_in n F - {(Suc t, b)})" by blast
  show "free_on G u = (if u = Suc t then free_on F (Suc t) - {sib b} else free_on F u)" if "u < n" for u
  proof -
    have "c = sib b" if "sib c = b" for c using that by auto
    with s m show ?thesis by (auto simp: free_on_def G split: if_splits)
  qed
qed

end
