(* ===== verification/BuddyChain.thy ===== *)
theory BuddyChain
  imports BuddyFlags
begin

text \<open>
  The free chains as doubly linked lists in memory.  \<open>dll\<close> describes a list through the two
  field maps of its nodes; \<open>PV\<close> and \<open>NX\<close> read these maps from the memory of a state.
  Writes to one record leave the records of disjoint blocks alone, so each of pop, push and
  unlink changes one chain by one block.
\<close>

section \<open>Doubly linked lists over field maps\<close>

fun hdp :: "(nat \<Rightarrow> ptr) \<Rightarrow> nat list \<Rightarrow> ptr \<Rightarrow> ptr" where
  "hdp ra [] e = e"
| "hdp ra (b # bs) e = ra b"

fun lstp :: "(nat \<Rightarrow> ptr) \<Rightarrow> ptr \<Rightarrow> nat list \<Rightarrow> ptr" where
  "lstp ra pv [] = pv"
| "lstp ra pv (b # bs) = lstp ra (ra b) bs"

fun dll :: "(nat \<Rightarrow> ptr) \<Rightarrow> (nat \<Rightarrow> ptr) \<Rightarrow> (nat \<Rightarrow> ptr) \<Rightarrow> ptr \<Rightarrow> nat list \<Rightarrow> ptr \<Rightarrow> bool" where
  "dll ra P X pv [] e = True"
| "dll ra P X pv (b # bs) e = (P b = pv \<and> X b = hdp ra bs e \<and> dll ra P X (ra b) bs e)"

lemma hdp_append: "hdp ra (xs @ ys) e = hdp ra xs (hdp ra ys e)"
  by (cases xs) auto

lemma lstp_append: "lstp ra pv (xs @ ys) = lstp ra (lstp ra pv xs) ys"
  by (induction xs arbitrary: pv) auto

lemma dll_append:
  "dll ra P X pv (xs @ ys) e \<longleftrightarrow> dll ra P X pv xs (hdp ra ys e) \<and> dll ra P X (lstp ra pv xs) ys e"
  by (induction xs arbitrary: pv) (auto simp: hdp_append)

lemma dll_cong:
  "(\<And>b. b \<in> set bs \<Longrightarrow> P b = P' b \<and> X b = X' b) \<Longrightarrow> dll ra P X pv bs e = dll ra P' X' pv bs e"
  by (induction bs arbitrary: pv) auto

lemma dll_new_end:
  "dll ra P X pv (xs @ [b]) e \<Longrightarrow> b \<notin> set xs \<Longrightarrow> dll ra P (X(b := e')) pv (xs @ [b]) e'"
  by (induction xs arbitrary: pv) (auto simp: hdp_append)

lemma dll_new_prev:
  "dll ra P X pv (b # bs) e \<Longrightarrow> b \<notin> set bs \<Longrightarrow> dll ra (P(b := pv')) X pv' (b # bs) e"
proof -
  assume "dll ra P X pv (b # bs) e" "b \<notin> set bs"
  moreover from \<open>b \<notin> set bs\<close> have "dll ra P X (ra b) bs e = dll ra (P(b := pv')) X (ra b) bs e"
    by (intro dll_cong) auto
  ultimately show ?thesis by simp
qed

lemma dll_mid:
  "dll ra P X pv (xs @ b # ys) e \<Longrightarrow> P b = lstp ra pv xs \<and> X b = hdp ra ys e"
  by (simp add: dll_append)

section \<open>Record fields in the memory of a state\<close>

definition PV :: "buddy \<Rightarrow> nat \<Rightarrow> nat \<Rightarrow> ptr" where
  "PV s t b = fbr_Prev s (raddr s t b)"

definition NX :: "buddy \<Rightarrow> nat \<Rightarrow> nat \<Rightarrow> ptr" where
  "NX s t b = fbr_Next s (raddr s t b)"

lemma set_fields [simp]:
  "Chunk (set_Prev p v s) = Chunk s" "Chunk (set_Next p v s) = Chunk s" "Chunk (set_Head t v s) = Chunk s"
  "TierNum (set_Prev p v s) = TierNum s" "TierNum (set_Next p v s) = TierNum s"
  "TierNum (set_Head t v s) = TierNum s"
  "Capacity (set_Prev p v s) = Capacity s" "Capacity (set_Next p v s) = Capacity s"
  "Capacity (set_Head t v s) = Capacity s"
  "Flags (set_Prev p v s) = Flags s" "Flags (set_Next p v s) = Flags s" "Flags (set_Head t v s) = Flags s"
  "UsedBytes (set_Prev p v s) = UsedBytes s" "UsedBytes (set_Next p v s) = UsedBytes s"
  "UsedBytes (set_Head t v s) = UsedBytes s"
  "HWMBytes (set_Prev p v s) = HWMBytes s" "HWMBytes (set_Next p v s) = HWMBytes s"
  "HWMBytes (set_Head t v s) = HWMBytes s"
  "FreeChainHead (set_Prev p v s) = FreeChainHead s" "FreeChainHead (set_Next p v s) = FreeChainHead s"
  "length (FreeChainHead (set_Head t v s)) = length (FreeChainHead s)"
  "bmem (set_Head t v s) = bmem s"
  by (simp_all add: set_Prev_def set_Next_def set_Head_def)

lemma set_derived [simp]:
  "tiers (set_Prev p v s) = tiers s" "tiers (set_Next p v s) = tiers s" "tiers (set_Head t v s) = tiers s"
  "raddr (set_Prev p v s) = raddr s" "raddr (set_Next p v s) = raddr s" "raddr (set_Head t v s) = raddr s"
  "flag (set_Prev p v s) = flag s" "flag (set_Next p v s) = flag s" "flag (set_Head t v s) = flag s"
  "geom (set_Prev p v s) = geom s" "geom (set_Next p v s) = geom s" "geom (set_Head t v s) = geom s"
  "fbr_Prev (set_Head t v s) = fbr_Prev s" "fbr_Next (set_Head t v s) = fbr_Next s"
  by (auto simp: tiers_def raddr_def flag_def geom_def fun_eq_iff fbr_Prev_def fbr_Next_def)

lemma PV_NX_set_Head [simp]: "PV (set_Head t v s) = PV s" "NX (set_Head t v s) = NX s"
  by (simp_all add: PV_def NX_def fun_eq_iff)

lemma raddr_setBlockInUse [simp]:
  "raddr (setBlockInUse t b v s) = raddr s"
  by (simp add: raddr_def fun_eq_iff frame_simps)

lemma PV_NX_setBlockInUse [simp]:
  "PV (setBlockInUse t b v s) = PV s" "NX (setBlockInUse t b v s) = NX s"
  by (simp_all add: PV_def NX_def fun_eq_iff fbr_Prev_def fbr_Next_def frame_simps)

lemma Head_set_Head:
  "geom s \<Longrightarrow> t < tiers s \<Longrightarrow>
   FreeChainHead (set_Head (of_nat t) v s) ! u = (if u = t then v else FreeChainHead s ! u)"
  by (auto simp: set_Head_def geom_def unat_of_nat32)

text \<open>A set of pairwise disjoint blocks: writes to one record do not touch the others.\<close>

definition sep :: "nat \<Rightarrow> (nat \<times> nat) set \<Rightarrow> bool" where
  "sep n R \<longleftrightarrow> (\<forall>x\<in>R. is_block n x) \<and> (\<forall>x\<in>R. \<forall>y\<in>R. x \<noteq> y \<longrightarrow> disj_blocks n x y)"

lemma sep_block: "sep n R \<Longrightarrow> x \<in> R \<Longrightarrow> is_block n x"
  by (simp add: sep_def)

lemma sep_subset: "sep n R \<Longrightarrow> Q \<subseteq> R \<Longrightarrow> sep n Q"
  unfolding sep_def by blast

lemma rec_offsets:
  assumes g: "geom s" and S: "sep (tiers s) R" and x: "(t, b) \<in> R" and y: "(t', b') \<in> R"
  defines "i \<equiv> bend (tiers s) (t, b) - 16" and "j \<equiv> bend (tiers s) (t', b') - 16"
  shows "i < 2 ^ 32" "j < 2 ^ 32" "(t, b) \<noteq> (t', b') \<Longrightarrow> i + 16 \<le> j \<or> j + 16 \<le> i"
proof -
  have bx: "is_block (tiers s) (t, b)" and by': "is_block (tiers s) (t', b')"
    using S x y by (auto dest: sep_block)
  have "bend (tiers s) (t, b) \<le> 2 ^ 31" "bend (tiers s) (t', b') \<le> 2 ^ 31"
    using bend_le_total [OF bx] bend_le_total [OF by'] geom_bounds(4) [OF g] by simp_all
  then show "i < 2 ^ 32" "j < 2 ^ 32" by (simp_all add: i_def j_def)
  assume "(t, b) \<noteq> (t', b')"
  with S x y have "disj_blocks (tiers s) (t, b) (t', b')" by (simp add: sep_def)
  then show "i + 16 \<le> j \<or> j + 16 \<le> i"
    using boff_bend [OF bx] boff_bend [OF by'] by (auto simp: i_def j_def disj_blocks_def)
qed

lemma fields_set_Prev:
  assumes g: "geom s" and S: "sep (tiers s) R" and x: "(t, b) \<in> R" and y: "(t', b') \<in> R"
  shows "PV (set_Prev (raddr s t b) v s) t' b' = (if (t', b') = (t, b) then v else PV s t' b')"
    and "NX (set_Prev (raddr s t b) v s) t' b' = NX s t' b'"
proof -
  let ?i = "bend (tiers s) (t, b) - 16" and ?j = "bend (tiers s) (t', b') - 16"
  note o = rec_offsets [OF assms]
  have 8: "raddr s u c + 8 = Chunk s + of_nat (bend (tiers s) (u, c) - 16 + 8)" for u c
    by (simp add: raddr_def)
  show "PV (set_Prev (raddr s t b) v s) t' b' = (if (t', b') = (t, b) then v else PV s t' b')"
    using o load64_store64_other [of ?j ?i "bmem s" "Chunk s" v]
    by (auto simp: PV_def fbr_Prev_def set_Prev_def raddr_def tiers_def mem_simps)
  have "NX (set_Prev (raddr s t b) v s) t' b' =
      load64 (store64 (bmem s) (raddr s t b) v) (raddr s t' b' + 8)"
    by (simp add: NX_def fbr_Next_def) (simp add: set_Prev_def)
  also have "\<dots> = NX s t' b'"
    unfolding NX_def fbr_Next_def 8 unfolding raddr_def
    using o by (intro load64_store64_other) (cases "(t, b) = (t', b')"; auto)+
  finally show "NX (set_Prev (raddr s t b) v s) t' b' = NX s t' b'" .
qed

lemma fields_set_Next:
  assumes g: "geom s" and S: "sep (tiers s) R" and x: "(t, b) \<in> R" and y: "(t', b') \<in> R"
  shows "NX (set_Next (raddr s t b) v s) t' b' = (if (t', b') = (t, b) then v else NX s t' b')"
    and "PV (set_Next (raddr s t b) v s) t' b' = PV s t' b'"
proof -
  note o = rec_offsets [OF assms]
  have 8: "raddr s u c + 8 = Chunk s + of_nat (bend (tiers s) (u, c) - 16 + 8)" for u c
    by (simp add: raddr_def)
  have "NX (set_Next (raddr s t b) v s) t' b' =
      load64 (store64 (bmem s) (raddr s t b + 8) v) (raddr s t' b' + 8)"
    by (simp add: NX_def fbr_Next_def) (simp add: set_Next_def)
  also have "\<dots> = (if (t', b') = (t, b) then v else NX s t' b')"
  proof (cases "(t, b) = (t', b')")
    case True
    then show ?thesis by (simp add: mem_simps)
  next
    case False
    then have "load64 (store64 (bmem s) (raddr s t b + 8) v) (raddr s t' b' + 8) =
        load64 (bmem s) (raddr s t' b' + 8)"
      unfolding 8 using o by (intro load64_store64_other) auto
    with False show ?thesis by (auto simp: NX_def fbr_Next_def)
  qed
  finally show "NX (set_Next (raddr s t b) v s) t' b' = (if (t', b') = (t, b) then v else NX s t' b')" .
  have "PV (set_Next (raddr s t b) v s) t' b' =
      load64 (store64 (bmem s) (raddr s t b + 8) v) (raddr s t' b')"
    by (simp add: PV_def fbr_Prev_def) (simp add: set_Next_def)
  also have "\<dots> = PV s t' b'"
    unfolding PV_def fbr_Prev_def 8 unfolding raddr_def
    using o by (intro load64_store64_other) (cases "(t, b) = (t', b')"; auto)+
  finally show "PV (set_Next (raddr s t b) v s) t' b' = PV s t' b'" .
qed

text \<open>The same, with the address given as a term, for use as conditional rewrites.\<close>

lemma fields_write:
  assumes "a = raddr s t b" "geom s" "sep (tiers s) R" "(t, b) \<in> R" "(t', b') \<in> R"
  shows "PV (set_Prev a v s) t' b' = (if (t', b') = (t, b) then v else PV s t' b')"
    "NX (set_Prev a v s) t' b' = NX s t' b'"
    "NX (set_Next a v s) t' b' = (if (t', b') = (t, b) then v else NX s t' b')"
    "PV (set_Next a v s) t' b' = PV s t' b'"
  using assms by (simp_all add: fields_set_Prev [of s R] fields_set_Next [of s R])

section \<open>All chains of a state\<close>

definition chains :: "buddy \<Rightarrow> (nat \<Rightarrow> nat list) \<Rightarrow> bool" where
  "chains s ch \<longleftrightarrow> (\<forall>t<tiers s. FreeChainHead s ! t = hdp (raddr s t) (ch t) 0 \<and>
      dll (raddr s t) (PV s t) (NX s t) 0 (ch t) 0 \<and> distinct (ch t))"

definition cells :: "nat \<Rightarrow> (nat \<Rightarrow> nat list) \<Rightarrow> (nat \<times> nat) set" where
  "cells n ch = {(t, b). t < n \<and> b \<in> set (ch t)}"

lemma chainsD:
  assumes "chains s ch" "t < tiers s"
  shows "FreeChainHead s ! t = hdp (raddr s t) (ch t) 0"
    "dll (raddr s t) (PV s t) (NX s t) 0 (ch t) 0" "distinct (ch t)"
  using assms by (simp_all add: chains_def)

lemma cells_I: "t < n \<Longrightarrow> b \<in> set (ch t) \<Longrightarrow> (t, b) \<in> cells n ch"
  by (simp add: cells_def)

text \<open>
  To re-establish \<open>chains\<close> after an operation on tier \<open>t\<close> it is enough to treat that tier,
  when the fields of the blocks on the other chains are as before.
\<close>

lemma chains_update:
  assumes C: "chains s ch" and t: "t < tiers s"
    and same: "tiers s' = tiers s" "raddr s' = raddr s"
    and heads: "\<And>u. u < tiers s \<Longrightarrow> u \<noteq> t \<Longrightarrow> FreeChainHead s' ! u = FreeChainHead s ! u"
    and fields: "\<And>u c. u < tiers s \<Longrightarrow> u \<noteq> t \<Longrightarrow> c \<in> set (ch u) \<Longrightarrow> PV s' u c = PV s u c \<and> NX s' u c = NX s u c"
    and tier: "FreeChainHead s' ! t = hdp (raddr s t) bs 0"
      "dll (raddr s t) (PV s' t) (NX s' t) 0 bs 0" "distinct bs"
  shows "chains s' (ch(t := bs))"
  unfolding chains_def
proof (intro allI impI)
  fix u assume u: "u < tiers s'"
  show "FreeChainHead s' ! u = hdp (raddr s' u) ((ch(t := bs)) u) 0 \<and>
      dll (raddr s' u) (PV s' u) (NX s' u) 0 ((ch(t := bs)) u) 0 \<and> distinct ((ch(t := bs)) u)"
  proof (cases "u = t")
    case True
    with tier same show ?thesis by simp
  next
    case False
    with u same have "u < tiers s" by simp
    with False fields have "dll (raddr s u) (PV s' u) (NX s' u) 0 (ch u) 0 = dll (raddr s u) (PV s u) (NX s u) 0 (ch u) 0"
      by (intro dll_cong) auto
    with chainsD [OF C \<open>u < tiers s\<close>] heads [OF \<open>u < tiers s\<close> False] False same show ?thesis by simp
  qed
qed

section \<open>Push, pop and unlink\<close>

lemma push_chains:
  assumes g: "geom s" and C: "chains s ch" and S: "sep (tiers s) R"
    and R: "cells (tiers s) ch \<subseteq> R" "(t, b) \<in> R" and new: "b \<notin> set (ch t)"
  shows "chains (push_free (of_nat t) (of_nat b) s) (ch(t := b # ch t))"
proof -
  have x: "is_block (tiers s) (t, b)" using sep_block [OF S R(2)] .
  then have t: "t < tiers s" by (simp add: is_block_def)
  have ut: "unat (of_nat t :: u32) = t" using block_id32 [OF g x] by (intro unat_of_nat32) simp
  note fbr = fbrOf_raddr [OF g x]
  note D = chainsD [OF C t]
  have inR: "\<And>u c. u < tiers s \<Longrightarrow> c \<in> set (ch u) \<Longrightarrow> (u, c) \<in> R"
    using R(1) by (auto simp: cells_def)
  let ?s' = "push_free (of_nat t) (of_nat b) s"
  let ?r = "raddr s t b"
  note W = fields_write [of _ _ t _ R]
  show ?thesis
  proof (cases "ch t")
    case Nil
    then have s': "?s' = set_Head (of_nat t) ?r (set_Prev ?r 0 (set_Next ?r 0 s))"
      using D by (simp add: push_free_def Let_def fbr ut)
    show ?thesis
    proof (rule chains_update [OF C t])
      show "FreeChainHead ?s' ! t = hdp (raddr s t) (b # ch t) 0"
        using g t by (simp add: s' Head_set_Head)
      show "dll (raddr s t) (PV ?s' t) (NX ?s' t) 0 (b # ch t) 0"
        using g S R Nil by (simp add: s' W)
    qed (use Nil g S R t inR in \<open>auto simp: s' Head_set_Head W\<close>)
  next
    case (Cons c cs)
    then have c: "(t, c) \<in> R" using inR [OF t] by simp
    have c0: "raddr s t c \<noteq> 0" using raddr_nonnull [OF g sep_block [OF S c]] .
    have s': "?s' = set_Head (of_nat t) ?r (set_Prev ?r 0 (set_Next ?r (raddr s t c) (set_Prev (raddr s t c) ?r s)))"
      using D Cons c0 by (simp add: push_free_def Let_def fbr ut)
    have bc: "b \<noteq> c" "b \<notin> set cs" using new Cons by auto
    have fld: "PV ?s' t d = (if d = b then 0 else if d = c then ?r else PV s t d)"
      "NX ?s' t d = (if d = b then raddr s t c else NX s t d)" if "(t, d) \<in> R" for d
      using g S R c that by (auto simp: s' W)
    have "dll (raddr s t) (PV ?s' t) (NX ?s' t) ?r (c # cs) 0"
    proof -
      have "dll (raddr s t) (PV ?s' t) (NX ?s' t) ?r (c # cs) 0 =
          dll (raddr s t) ((PV s t)(c := ?r)) (NX s t) ?r (c # cs) 0"
        using inR [OF t] Cons bc by (intro dll_cong) (auto simp: fld)
      moreover have "dll (raddr s t) ((PV s t)(c := ?r)) (NX s t) ?r (c # cs) 0"
        using D Cons by (intro dll_new_prev) auto
      ultimately show ?thesis by simp
    qed
    show ?thesis
    proof (rule chains_update [OF C t])
      show "FreeChainHead ?s' ! t = hdp (raddr s t) (b # ch t) 0"
        using g t by (simp add: s' Head_set_Head)
      show "dll (raddr s t) (PV ?s' t) (NX ?s' t) 0 (b # ch t) 0"
        using \<open>dll _ _ _ ?r (c # cs) 0\<close> Cons R by (simp add: fld)
    qed (use Cons g S R t inR c D new in \<open>auto simp: s' Head_set_Head W\<close>)
  qed
qed

lemma hdp_null_iff:
  "(\<And>b. b \<in> set bs \<Longrightarrow> ra b \<noteq> 0) \<Longrightarrow> hdp ra bs 0 = 0 \<longleftrightarrow> bs = []"
  by (cases bs) auto

lemma lstp_last: "xs \<noteq> [] \<Longrightarrow> lstp ra pv xs = ra (last xs)"
  by (induction xs arbitrary: pv) auto

lemma raddr_inj:
  assumes "geom s" "is_block (tiers s) (t, b)" "is_block (tiers s) (t, c)" "raddr s t b = raddr s t c"
  shows "b = c"
proof -
  have "(of_nat b :: u32) = of_nat c"
    using raddr_id [OF assms(1,2)] raddr_id [OF assms(1,3)] assms(4) by simp
  then have "unat (of_nat b :: u32) = unat (of_nat c :: u32)" by simp
  then show ?thesis
    using block_id32(1) [OF assms(1,2)] block_id32(1) [OF assms(1,3)] by (simp add: unat_of_nat32)
qed

lemma unlink_chains:
  assumes g: "geom s" and C: "chains s ch" and S: "sep (tiers s) R"
    and R: "cells (tiers s) ch \<subseteq> R" and t: "t < tiers s" and ch: "ch t = xs @ b # ys"
  shows "chains (unlink_free (of_nat t) (of_nat b) s) (ch(t := xs @ ys))"
proof -
  have inR: "\<And>u c. u < tiers s \<Longrightarrow> c \<in> set (ch u) \<Longrightarrow> (u, c) \<in> R"
    using R(1) by (auto simp: cells_def)
  have b: "(t, b) \<in> R" using inR [OF t] ch by simp
  have x: "is_block (tiers s) (t, b)" using sep_block [OF S b] .
  have ut: "unat (of_nat t :: u32) = t" using block_id32 [OF g x] by (intro unat_of_nat32) simp
  note fbr = fbrOf_raddr [OF g x]
  note D = chainsD [OF C t]
  have nn: "raddr s t c \<noteq> 0" if "c \<in> set (ch t)" for c
    using raddr_nonnull [OF g sep_block [OF S inR [OF t that]]] .
  have dist: "distinct xs" "distinct ys" "b \<notin> set xs" "b \<notin> set ys" "set xs \<inter> set ys = {}"
    using D(3) ch by auto
  let ?ra = "raddr s t" and ?r = "raddr s t b"
  let ?s' = "unlink_free (of_nat t) (of_nat b) s"
  let ?l = "lstp ?ra 0 xs" and ?n = "hdp ?ra ys 0"
  have links: "fbr_Prev s ?r = ?l" "fbr_Next s ?r = ?n"
    using dll_mid [of ?ra "PV s t" "NX s t" 0 xs b ys 0] D(2) ch by (simp_all add: PV_def NX_def)
  have l0: "?l \<noteq> 0 \<longleftrightarrow> xs \<noteq> []"
    using nn [of "last xs"] ch by (cases "xs = []") (auto simp: lstp_last)
  have n0: "?n \<noteq> 0 \<longleftrightarrow> ys \<noteq> []"
    using nn ch by (subst hdp_null_iff) auto
  note W = fields_set_Prev [where R = R] fields_set_Next [where R = R]
  let ?s1 = "if xs \<noteq> [] then set_Next (?ra (last xs)) ?n s else s"
  let ?s2 = "if ys \<noteq> [] then set_Prev (?ra (hd ys)) ?l ?s1 else ?s1"
  have lastR: "(t, last xs) \<in> R" if "xs \<noteq> []" using inR [OF t] ch that by simp
  have hdR: "(t, hd ys) \<in> R" if "ys \<noteq> []" using inR [OF t] ch that by simp
  have basic: "tiers ?s2 = tiers s" "raddr ?s2 = raddr s" "geom ?s2 = geom s"
    "FreeChainHead ?s2 = FreeChainHead s" "tiers ?s1 = tiers s" "raddr ?s1 = raddr s" "geom ?s1 = geom s"
    by auto
  have F1: "PV ?s1 u c = PV s u c"
    "NX ?s1 u c = (if xs \<noteq> [] \<and> (u, c) = (t, last xs) then ?n else NX s u c)" if "(u, c) \<in> R" for u c
    using g S that lastR by (auto simp: W)
  have F2: "PV ?s2 u c = (if ys \<noteq> [] \<and> (u, c) = (t, hd ys) then ?l else PV s u c)"
    "NX ?s2 u c = (if xs \<noteq> [] \<and> (u, c) = (t, last xs) then ?n else NX s u c)" if "(u, c) \<in> R" for u c
  proof -
    have "PV ?s2 u c = (if ys \<noteq> [] \<and> (u, c) = (t, hd ys) then ?l else PV ?s1 u c)"
      "NX ?s2 u c = NX ?s1 u c"
      using fields_set_Prev [of ?s1 R t "hd ys" u c ?l] g S that hdR basic by auto
    with F1 [OF that] show
      "PV ?s2 u c = (if ys \<noteq> [] \<and> (u, c) = (t, hd ys) then ?l else PV s u c)"
      "NX ?s2 u c = (if xs \<noteq> [] \<and> (u, c) = (t, last xs) then ?n else NX s u c)" by auto
  qed
  have nolast: "b \<noteq> last xs" if "xs \<noteq> []" using dist that by auto
  have nohd: "b \<noteq> hd ys" if "ys \<noteq> []" using dist that by auto
  have l1: "fbr_Prev ?s1 ?r = ?l" "fbr_Next ?s1 ?r = ?n"
    using F1 [OF b] links basic nolast by (auto simp: PV_def NX_def)
  have l2: "fbr_Prev ?s2 ?r = ?l" "fbr_Next ?s2 ?r = ?n"
    using F2 [OF b] links basic nolast nohd by (auto simp: PV_def NX_def split: if_splits)
  have hd_iff: "?r = FreeChainHead s ! t \<longleftrightarrow> xs = []"
  proof (cases xs)
    case Nil
    with D ch show ?thesis by simp
  next
    case (Cons c cs)
    with ch have "(t, c) \<in> R" using inR [OF t] by simp
    then have "?r \<noteq> raddr s t c"
      using raddr_inj [OF g x sep_block [OF S]] dist Cons by fastforce
    with D(1) ch Cons show ?thesis by simp
  qed
  have s1: "(if fbr_Prev s ?r \<noteq> 0 then set_Next (fbr_Prev s ?r) (fbr_Next s ?r) s else s) = ?s1"
    using links l0 by (auto simp: lstp_last)
  have hdeq: "ys \<noteq> [] \<Longrightarrow> ?n = ?ra (hd ys)" by (cases ys) auto
  have s2: "(if fbr_Next ?s1 ?r \<noteq> 0 then set_Prev (fbr_Next ?s1 ?r) (fbr_Prev ?s1 ?r) ?s1 else ?s1) = ?s2"
    unfolding l1 using n0 hdeq by auto
  have s': "?s' = (if xs = [] then set_Head (of_nat t) ?n ?s2 else ?s2)"
    unfolding unlink_free_def Let_def fbr s1 s2 l2 ut
    using hd_iff basic(4) l0 by auto
  have P': "PV ?s' = PV ?s2" "NX ?s' = NX ?s2" by (simp_all add: s')
  show ?thesis
  proof (rule chains_update [OF C t])
    show "tiers ?s' = tiers s" "raddr ?s' = raddr s" unfolding s' using basic by auto
    show "FreeChainHead ?s' ! u = FreeChainHead s ! u" if "u < tiers s" "u \<noteq> t" for u
      unfolding s' using that g t basic Head_set_Head [of ?s2 t ?n u] by auto
    show "FreeChainHead ?s' ! t = hdp (raddr s t) (xs @ ys) 0"
      unfolding s' using g t basic Head_set_Head [of ?s2 t ?n t] D ch
      by (cases xs) (auto simp: hdp_append)
    show "distinct (xs @ ys)" using dist by simp
    show "PV ?s' u c = PV s u c \<and> NX ?s' u c = NX s u c" if "u < tiers s" "u \<noteq> t" "c \<in> set (ch u)" for u c
      unfolding P' using F2 [OF inR [OF that(1,3)]] that by auto
    have Dl: "dll ?ra (PV s t) (NX s t) 0 xs (hdp ?ra (b # ys) 0)" "dll ?ra (PV s t) (NX s t) ?r ys 0"
      using D(2) ch by (simp_all add: dll_append)
    have A: "dll ?ra (PV ?s' t) (NX ?s' t) 0 xs ?n"
    proof (cases xs rule: rev_cases)
      case (snoc zs z)
      have "dll ?ra (PV s t) ((NX s t)(z := ?n)) 0 (zs @ [z]) ?n"
        using Dl(1) dist snoc by (intro dll_new_end) auto
      moreover have "dll ?ra (PV ?s' t) (NX ?s' t) 0 xs ?n = dll ?ra (PV s t) ((NX s t)(z := ?n)) 0 xs ?n"
      proof (rule dll_cong)
        fix c assume "c \<in> set xs"
        with inR [OF t, of c] ch have "(t, c) \<in> R" by simp
        from F2 [OF this] \<open>c \<in> set xs\<close> dist snoc
        show "PV ?s' t c = PV s t c \<and> NX ?s' t c = ((NX s t)(z := ?n)) c"
          unfolding P' by (auto dest: hd_in_set)
      qed
      ultimately show ?thesis using snoc by simp
    qed simp
    have B: "dll ?ra (PV ?s' t) (NX ?s' t) ?l ys 0"
    proof (cases ys)
      case (Cons y zs)
      have "dll ?ra ((PV s t)(y := ?l)) (NX s t) ?l (y # zs) 0"
        using Dl(2) dist Cons by (intro dll_new_prev) auto
      moreover have "dll ?ra (PV ?s' t) (NX ?s' t) ?l ys 0 = dll ?ra ((PV s t)(y := ?l)) (NX s t) ?l ys 0"
      proof (rule dll_cong)
        fix c assume "c \<in> set ys"
        with inR [OF t, of c] ch have "(t, c) \<in> R" by simp
        from F2 [OF this] \<open>c \<in> set ys\<close> dist Cons
        show "PV ?s' t c = ((PV s t)(y := ?l)) c \<and> NX ?s' t c = NX s t c"
          unfolding P' by (auto dest: last_in_set)
      qed
      ultimately show ?thesis using Cons by simp
    qed simp
    from A B show "dll (raddr s t) (PV ?s' t) (NX ?s' t) 0 (xs @ ys) 0" by (simp add: dll_append)
  qed
qed

lemma pop_chains:
  assumes g: "geom s" and C: "chains s ch" and S: "sep (tiers s) R"
    and R: "cells (tiers s) ch \<subseteq> R" and t: "t < tiers s" and ch: "ch t = b # bs"
  obtains s2 where "pop_free (of_nat t) s = (setBlockInUse (of_nat t) (of_nat b) True s2, of_nat b)"
    "chains s2 (ch(t := bs))"
    "s2 = set_Head (of_nat t) (hdp (raddr s t) bs 0)
            (if bs \<noteq> [] then set_Prev (raddr s t (hd bs)) 0 s else s)"
proof
  have inR: "\<And>u c. u < tiers s \<Longrightarrow> c \<in> set (ch u) \<Longrightarrow> (u, c) \<in> R"
    using R(1) by (auto simp: cells_def)
  have b: "(t, b) \<in> R" using inR [OF t] ch by simp
  have x: "is_block (tiers s) (t, b)" using sep_block [OF S b] .
  have ut: "unat (of_nat t :: u32) = t" using block_id32 [OF g x] by (intro unat_of_nat32) simp
  note D = chainsD [OF C t]
  let ?ra = "raddr s t"
  let ?s2 = "set_Head (of_nat t) (hdp ?ra bs 0) (if bs \<noteq> [] then set_Prev (?ra (hd bs)) 0 s else s)"
  have nx: "fbr_Next s (?ra b) = hdp ?ra bs 0" using D(2) ch by (simp add: NX_def)
  have nn: "hdp ?ra bs 0 \<noteq> 0 \<longleftrightarrow> bs \<noteq> []"
    using raddr_nonnull [OF g sep_block [OF S inR [OF t]]] ch by (subst hdp_null_iff) auto
  have hdeq: "bs \<noteq> [] \<Longrightarrow> hdp ?ra bs 0 = ?ra (hd bs)" by (cases bs) auto
  have comm: "set_Prev p v (set_Head u w s) = set_Head u w (set_Prev p v s)" for p v u w
    by (simp add: set_Prev_def set_Head_def)
  show "pop_free (of_nat t) s = (setBlockInUse (of_nat t) (of_nat b) True ?s2, of_nat b)"
    unfolding pop_free_def Let_def ut using D(1) ch nx nn hdeq raddr_id [OF g x]
    by (auto simp: comm)
  have hdR: "(t, hd bs) \<in> R" if "bs \<noteq> []" using inR [OF t] ch that by simp
  have F: "PV ?s2 u c = (if bs \<noteq> [] \<and> (u, c) = (t, hd bs) then 0 else PV s u c)"
    "NX ?s2 u c = NX s u c" if "(u, c) \<in> R" for u c
    using fields_set_Prev [OF g S hdR that, of 0] by auto
  show "chains ?s2 (ch(t := bs))"
  proof (rule chains_update [OF C t])
    show "FreeChainHead ?s2 ! u = FreeChainHead s ! u" if "u < tiers s" "u \<noteq> t" for u
      using that g t by (subst Head_set_Head) auto
    show "FreeChainHead ?s2 ! t = hdp ?ra bs 0"
      using g t by (subst Head_set_Head) auto
    show "distinct bs" using D(3) ch by simp
    show "PV ?s2 u c = PV s u c \<and> NX ?s2 u c = NX s u c" if "u < tiers s" "u \<noteq> t" "c \<in> set (ch u)" for u c
      using F [OF inR [OF that(1,3)]] that by auto
    show "dll ?ra (PV ?s2 t) (NX ?s2 t) 0 bs 0"
    proof (cases bs)
      case (Cons y zs)
      have "dll ?ra ((PV s t)(y := 0)) (NX s t) 0 (y # zs) 0"
        using D(2,3) ch Cons by (intro dll_new_prev) auto
      moreover have "dll ?ra (PV ?s2 t) (NX ?s2 t) 0 bs 0 = dll ?ra ((PV s t)(y := 0)) (NX s t) 0 bs 0"
        using F [OF inR [OF t]] ch Cons by (intro dll_cong) auto
      ultimately show ?thesis using Cons by simp
    qed simp
  qed auto
qed simp

section \<open>Bytes outside the blocks that are written\<close>

definition in_block :: "buddy \<Rightarrow> nat \<times> nat \<Rightarrow> ptr \<Rightarrow> bool" where
  "in_block s y x \<longleftrightarrow> boff (tiers s) y \<le> unat (x - Chunk s) \<and> unat (x - Chunk s) < bend (tiers s) y"

definition touched_only :: "buddy \<Rightarrow> buddy \<Rightarrow> (nat \<times> nat) set \<Rightarrow> bool" where
  "touched_only s s' A \<longleftrightarrow> (\<forall>x. (\<forall>y\<in>A. \<not> in_block s y x) \<longrightarrow> bmem s' x = bmem s x)"

lemma touched_only_refl [simp]: "bmem s' = bmem s \<Longrightarrow> touched_only s s' A"
  by (simp add: touched_only_def)

lemma touched_only_mono: "touched_only s s' A \<Longrightarrow> A \<subseteq> B \<Longrightarrow> touched_only s s' B"
  by (force simp: touched_only_def)

lemma touched_only_trans:
  "touched_only s s' A \<Longrightarrow> touched_only s' s'' A \<Longrightarrow> tiers s' = tiers s \<Longrightarrow> Chunk s' = Chunk s \<Longrightarrow>
   touched_only s s'' A"
  by (simp add: touched_only_def in_block_def)

lemma store_in_block:
  assumes g: "geom s" and y: "is_block (tiers s) y" and out: "\<not> in_block s y x"
    and od: "boff (tiers s) y \<le> d" "d + 8 \<le> bend (tiers s) y"
  shows "store64 m (Chunk s + of_nat d) v x = m x"
proof -
  have "\<not> unat (x - (Chunk s + of_nat d)) < 8"
  proof
    assume k: "unat (x - (Chunk s + of_nat d)) < 8"
    let ?k = "unat (x - (Chunk s + of_nat d))"
    have "x - Chunk s = of_nat (d + ?k)" by simp
    moreover have "d + ?k < 2 ^ 64"
      using k od bend_le_total [OF y] geom_bounds(4) [OF g] by simp
    ultimately have "unat (x - Chunk s) = d + ?k" by (simp only: unat_of_nat64)
    with k od out show False by (simp add: in_block_def)
  qed
  then show ?thesis by (simp add: store64_def)
qed

lemma touched_set:
  assumes g: "geom s" and y: "is_block (tiers s) (t, b)" and a: "a = raddr s t b" and A: "(t, b) \<in> A"
  shows "touched_only s (set_Prev a v s) A" "touched_only s (set_Next a v s) A"
proof -
  have z: "boff (tiers s) (t, b) + 16 \<le> bend (tiers s) (t, b)" using boff_bend [OF y] .
  have "store64 m a v x = m x \<and> store64 m (a + 8) v x = m x" if "\<not> in_block s (t, b) x" for m x
  proof -
    have "store64 m (Chunk s + of_nat (bend (tiers s) (t, b) - 16)) v x = m x"
      using z by (intro store_in_block [OF g y that]) simp_all
    moreover have "store64 m (Chunk s + of_nat (bend (tiers s) (t, b) - 16 + 8)) v x = m x"
      using z by (intro store_in_block [OF g y that]) simp_all
    moreover have "a = Chunk s + of_nat (bend (tiers s) (t, b) - 16)"
      by (simp only: a raddr_def)
    moreover from this have "a + 8 = Chunk s + of_nat (bend (tiers s) (t, b) - 16 + 8)"
      by simp
    ultimately show ?thesis by metis
  qed
  with A show "touched_only s (set_Prev a v s) A" "touched_only s (set_Next a v s) A"
    by (auto simp: touched_only_def set_Prev_def set_Next_def)
qed

end
