(* ===== verification/BuddyInv.thy ===== *)
theory BuddyInv
  imports BuddyChain
begin

text \<open>
  The invariant of the buddy allocator and its preservation by \<open>recycle\<close> and \<open>obtain\<close>.  Each
  lemma says, for one call, what becomes of the set of blocks in use, that the invariant
  holds again, and which bytes the call may have written.
\<close>

definition live :: "buddy \<Rightarrow> (nat \<times> nat) set" where
  "live s = live_in (tiers s) (flag s)"

definition inv_with :: "buddy \<Rightarrow> (nat \<Rightarrow> nat list) \<Rightarrow> bool" where
  "inv_with s ch \<longleftrightarrow> geom s \<and> tree_inv (tiers s) (flag s) \<and> chains s ch \<and>
     (\<forall>t<tiers s. set (ch t) = free_on (flag s) t)"

definition buddy_inv :: "buddy \<Rightarrow> bool" where
  "buddy_inv s \<longleftrightarrow> (\<exists>ch. inv_with s ch)"

text \<open>Everything but the memory, the bitmap and the chain heads.\<close>

definition same_static :: "buddy \<Rightarrow> buddy \<Rightarrow> bool" where
  "same_static s s' \<longleftrightarrow> Capacity s' = Capacity s \<and> Chunk s' = Chunk s \<and> FlagsLen s' = FlagsLen s \<and>
     TierNum s' = TierNum s \<and> UsedBytes s' = UsedBytes s \<and> HWMBytes s' = HWMBytes s"

lemma same_static_refl [simp]: "same_static s s"
  by (simp add: same_static_def)

lemma same_static_trans: "same_static s s' \<Longrightarrow> same_static s' s'' \<Longrightarrow> same_static s s''"
  by (simp add: same_static_def)

lemma same_static_steps [simp]:
  "same_static s (set_Prev p v s')  = same_static s s'" "same_static s (set_Next p v s') = same_static s s'"
  "same_static s (set_Head u v s') = same_static s s'" "same_static s (setBlockInUse t b w s') = same_static s s'"
  by (simp_all add: same_static_def set_Prev_def set_Next_def set_Head_def setBlockInUse_def Let_def)

lemma same_staticD:
  "same_static s s' \<Longrightarrow> tiers s' = tiers s" "same_static s s' \<Longrightarrow> Chunk s' = Chunk s"
  "same_static s s' \<Longrightarrow> TierNum s' = TierNum s"
  by (simp_all add: same_static_def tiers_def)

lemma same_static_derived:
  assumes "same_static s s'"
  shows "raddr s' = raddr s" "baddr s' = baddr s" "in_block s' = in_block s"
    "blockSizeOf s' = blockSizeOf s" "tierOf s' = tierOf s" "blockIdOf s' = blockIdOf s"
  using assms
  by (auto simp: same_static_def raddr_def baddr_def in_block_def blockSizeOf_def tierOf_def
      blockIdOf_def isValidPtr_def tiers_def fun_eq_iff Let_def)

section \<open>Consequences of the invariant\<close>

lemma inv_withD:
  assumes "inv_with s ch"
  shows "geom s" "tree_inv (tiers s) (flag s)" "chains s ch"
    "\<And>t. t < tiers s \<Longrightarrow> set (ch t) = free_on (flag s) t"
  using assms by (simp_all add: inv_with_def)

lemma cells_leaves:
  "inv_with s ch \<Longrightarrow> cells (tiers s) ch \<subseteq> leaves (tiers s) (flag s)"
  by (auto simp: cells_def leaves_def inv_with_def)

lemma sep_leaves: "inv_with s ch \<Longrightarrow> sep (tiers s) (leaves (tiers s) (flag s))"
  by (auto simp: sep_def intro: leaf_is_block leaves_disjoint inv_withD)

lemma live_leaves: "live s \<subseteq> leaves (tiers s) (flag s)"
  by (auto simp: live_def leaves_def)

lemma live_not_cell: "inv_with s ch \<Longrightarrow> x \<in> live s \<Longrightarrow> x \<notin> cells (tiers s) ch"
  by (auto simp: live_def live_in_def cells_def inv_with_def free_on_def)

lemma live_block: "x \<in> live s \<Longrightarrow> is_block (tiers s) x"
  by (auto simp: live_def live_in_def is_block_def)

lemma live_disjoint: "buddy_inv s \<Longrightarrow> x \<in> live s \<Longrightarrow> y \<in> live s \<Longrightarrow> x \<noteq> y \<Longrightarrow> disj_blocks (tiers s) x y"
  unfolding buddy_inv_def using leaves_disjoint live_leaves inv_withD(2) by blast

lemma in_one_block:
  "disj_blocks (tiers s) x y \<Longrightarrow> in_block s x a \<Longrightarrow> \<not> in_block s y a"
  by (auto simp: disj_blocks_def in_block_def)

lemma head_null_iff:
  assumes I: "inv_with s ch" and t: "t < tiers s"
  shows "FreeChainHead s ! t = 0 \<longleftrightarrow> ch t = []"
proof -
  have "raddr s t b \<noteq> 0" if "b \<in> set (ch t)" for b
    using that t inv_withD(1) [OF I] sep_block [OF sep_leaves [OF I], of "(t, b)"] cells_leaves [OF I]
    by (intro raddr_nonnull) (auto simp: cells_def)
  then show ?thesis
    using chainsD(1) [OF inv_withD(3) [OF I] t] hdp_null_iff [of "ch t" "raddr s t"] by simp
qed

text \<open>Words of the code against the naturals of the invariant.\<close>

lemma buddyIdOf_sib: "b < 2 ^ 32 - 1 \<Longrightarrow> buddyIdOf (of_nat b) = of_nat (sib b)"
proof -
  have "(of_nat b :: u32) XOR 1 = of_nat (b XOR 1)"
    by (rule bit_word_eqI) (simp add: bit_xor_iff bit_of_nat_word_iff32 bit_1_iff bit_Suc_0_iff)
  then show ?thesis
    by (simp add: buddyIdOf_def sib_def xor_one_nat of_nat_diff odd_pos del: One_nat_def)
qed

lemma drop_bit1_half: "b < 2 ^ 32 \<Longrightarrow> drop_bit 1 (of_nat b :: u32) = of_nat (b div 2)"
proof -
  assume "b < 2 ^ 32"
  then have "unat (drop_bit 1 (of_nat b :: u32)) = b div 2"
    by (simp add: drop_bit_eq_div unat_div unat_of_nat32)
  then show ?thesis by (metis of_nat_unat ucast_id)
qed

lemma of_nat_pred_tier: "(of_nat (Suc t) :: u32) - 1 = of_nat t"
  by simp

lemma of_nat_eq_0_32: "t < 2 ^ 32 \<Longrightarrow> (of_nat t :: u32) = 0 \<longleftrightarrow> t = 0"
  by (simp only: word_eq_unat_iff unat_of_nat32 unat_0)

lemma flag_mark:
  assumes "geom s" "is_block (tiers s) (t, b)" "t' < tiers s" "b' < 2 ^ t'"
  shows "flag (setBlockInUse (of_nat t) (of_nat b) v s) t' b' = mark t b v (flag s) t' b'"
proof -
  have "is_block (tiers s) (t', b')" using assms(3,4) by (simp add: is_block_def)
  from flag_setBlockInUse [OF assms(1,2) this, of v] show ?thesis
    by (simp add: mark_def)
qed

text \<open>The derived sets only look at the flags of blocks of the bulk.\<close>

lemma tree_inv_transfer:
  assumes e: "\<And>t b. t < n \<Longrightarrow> b < 2 ^ t \<Longrightarrow> F t b = G t b" and T: "tree_inv n F"
  shows "tree_inv n G"
  unfolding tree_inv_def
proof (intro allI impI)
  fix t b assume A: "Suc t < n \<and> b < 2 ^ Suc t \<and> G (Suc t) b"
  then have h: "b div 2 < 2 ^ t" "t < n" using half_lt by auto
  from A e have "F (Suc t) b" by blast
  with A T have "F t (b div 2)" using tree_invD by blast
  with e [OF h(2,1)] show "G t (b div 2)" by simp
qed

lemma tree_inv_cong:
  assumes "\<And>t b. t < n \<Longrightarrow> b < 2 ^ t \<Longrightarrow> F t b = G t b"
  shows "tree_inv n F = tree_inv n G"
  using tree_inv_transfer [of n F G] tree_inv_transfer [of n G F] assms by blast

lemma live_in_cong:
  assumes e: "\<And>t b. t < n \<Longrightarrow> b < 2 ^ t \<Longrightarrow> F t b = G t b"
  shows "live_in n F = live_in n G"
proof -
  have sp: "split_block n F t b = split_block n G t b" if "b < 2 ^ t" for t b
  proof (cases "Suc t < n")
    case True
    then show ?thesis
      using that e [of "Suc t" "2 * b"] e [of "Suc t" "Suc (2 * b)"] by (simp add: split_block_def)
  qed (simp add: split_block_def)
  have "(t, b) \<in> live_in n F \<longleftrightarrow> (t, b) \<in> live_in n G" for t b
  proof (cases "t < n \<and> b < 2 ^ t")
    case True
    with e [of t b] sp [of b t] show ?thesis by (simp add: live_in_def)
  qed (auto simp: live_in_def)
  then show ?thesis by auto
qed

lemma free_on_cong:
  assumes e: "\<And>b. b < 2 ^ t \<Longrightarrow> F t b = G t b"
  shows "free_on F t = free_on G t"
proof -
  have "b \<in> free_on F t \<longleftrightarrow> b \<in> free_on G t" for b
  proof (cases "b < 2 ^ t")
    case True
    then show ?thesis
      using e [of b] e [of "sib b"] sib_less [of t b] by (cases "t = 0") (simp_all add: free_on_def)
  qed (simp add: free_on_def)
  then show ?thesis by blast
qed

lemma set_mark:
  fixes v :: bool and s :: buddy and t b :: nat
  assumes g: "geom s" and x: "is_block (tiers s) (t, b)"
  defines "s' \<equiv> setBlockInUse (of_nat t) (of_nat b) v s"
  shows "tree_inv (tiers s) (flag s') = tree_inv (tiers s) (mark t b v (flag s))"
    "live s' = live_in (tiers s) (mark t b v (flag s))"
    "\<And>u. u < tiers s \<Longrightarrow> free_on (flag s') u = free_on (mark t b v (flag s)) u"
proof -
  have F: "flag s' u c = mark t b v (flag s) u c" if "u < tiers s" "c < 2 ^ u" for u c
    unfolding s'_def using flag_mark [OF g x that] .
  have T: "tiers s' = tiers s" by (simp add: s'_def frame_simps)
  show "tree_inv (tiers s) (flag s') = tree_inv (tiers s) (mark t b v (flag s))"
    using F by (rule tree_inv_cong)
  show "live s' = live_in (tiers s) (mark t b v (flag s))"
    unfolding live_def T using F by (rule live_in_cong)
  show "free_on (flag s') u = free_on (mark t b v (flag s)) u" if "u < tiers s" for u
    using F [OF that] by (rule free_on_cong)
qed

section \<open>recycle\<close>

text \<open>The free blocks together with the block being given back.\<close>

lemma push_touched:
  assumes g: "geom s" and C: "chains s ch" and S: "sep (tiers s) R"
    and R: "cells (tiers s) ch \<subseteq> R" "(t, b) \<in> R"
  shows "touched_only s (push_free (of_nat t) (of_nat b) s) R"
    "same_static s (push_free (of_nat t) (of_nat b) s)"
    "flag (push_free (of_nat t) (of_nat b) s) = flag s"
    "geom (push_free (of_nat t) (of_nat b) s)"
proof -
  have x: "is_block (tiers s) (t, b)" using sep_block [OF S R(2)] .
  then have t: "t < tiers s" by (simp add: is_block_def)
  have ut: "unat (of_nat t :: u32) = t" using block_id32 [OF g x] by (intro unat_of_nat32) simp
  let ?r = "raddr s t b" and ?h = "FreeChainHead s ! t"
  let ?s1 = "if ?h \<noteq> 0 then set_Prev ?h ?r s else s"
  let ?s3 = "set_Prev ?r 0 (set_Next ?r ?h ?s1)"
  have push: "push_free (of_nat t) (of_nat b) s = set_Head (of_nat t) ?r ?s3"
    by (simp add: push_free_def Let_def fbrOf_raddr [OF g x] ut)
  have T1: "touched_only s ?s1 R"
  proof (cases "ch t")
    case Nil
    then show ?thesis using chainsD(1) [OF C t] by simp
  next
    case (Cons c cs)
    then have c: "(t, c) \<in> R" using R(1) t by (auto simp: cells_def)
    then show ?thesis
      using touched_set(1) [OF g sep_block [OF S c], of ?h R ?r] chainsD(1) [OF C t] Cons by simp
  qed
  have B1: "geom ?s1" "tiers ?s1 = tiers s" "raddr ?s1 = raddr s" "Chunk ?s1 = Chunk s" using g by auto
  have T2: "touched_only ?s1 (set_Next ?r ?h ?s1) R"
    using touched_set(2) [of ?s1 t b ?r R ?h] B1 x R(2) by simp
  have T3: "touched_only (set_Next ?r ?h ?s1) ?s3 R"
    using touched_set(1) [of "set_Next ?r ?h ?s1" t b ?r R 0] B1 x R(2) by simp
  have "touched_only s ?s3 R"
    using touched_only_trans [OF touched_only_trans [OF T1 T2] T3] B1 by simp
  then show "touched_only s (push_free (of_nat t) (of_nat b) s) R"
    by (simp add: push touched_only_def)
  show "same_static s (push_free (of_nat t) (of_nat b) s)"
    "flag (push_free (of_nat t) (of_nat b) s) = flag s"
    "geom (push_free (of_nat t) (of_nat b) s)"
    using g by (auto simp: push)
qed

lemma unlink_touched:
  assumes g: "geom s" and C: "chains s ch" and S: "sep (tiers s) R"
    and R: "cells (tiers s) ch \<subseteq> R" and t: "t < tiers s" and b: "b \<in> set (ch t)"
  shows "touched_only s (unlink_free (of_nat t) (of_nat b) s) R"
    "same_static s (unlink_free (of_nat t) (of_nat b) s)"
    "flag (unlink_free (of_nat t) (of_nat b) s) = flag s"
    "geom (unlink_free (of_nat t) (of_nat b) s)"
proof -
  have inR: "\<And>c. c \<in> set (ch t) \<Longrightarrow> (t, c) \<in> R" using R t by (auto simp: cells_def)
  have x: "is_block (tiers s) (t, b)" using sep_block [OF S inR [OF b]] .
  let ?r = "raddr s t b"
  obtain xs ys where ch: "ch t = xs @ b # ys" using b by (meson split_list)
  have links: "fbr_Prev s ?r = lstp (raddr s t) 0 xs" "fbr_Next s ?r = hdp (raddr s t) ys 0"
    using dll_mid [of "raddr s t" "PV s t" "NX s t" 0 xs b ys 0] chainsD(2) [OF C t] ch
    by (simp_all add: PV_def NX_def)
  define s1 where "s1 = (if fbr_Prev s ?r \<noteq> 0 then set_Next (fbr_Prev s ?r) (fbr_Next s ?r) s else s)"
  define s2 where "s2 = (if fbr_Next s1 ?r \<noteq> 0 then set_Prev (fbr_Next s1 ?r) (fbr_Prev s1 ?r) s1 else s1)"
  have B1: "geom s1" "tiers s1 = tiers s" "raddr s1 = raddr s" "Chunk s1 = Chunk s"
    using g by (simp_all add: s1_def)
  have T1: "touched_only s s1 R"
  proof (cases xs rule: rev_cases)
    case Nil
    then show ?thesis using links by (simp add: s1_def)
  next
    case (snoc zs z)
    then have z: "(t, z) \<in> R" using inR ch by simp
    then show ?thesis
      using touched_set(2) [OF g sep_block [OF S z], of "fbr_Prev s ?r" R] links snoc
      by (simp add: s1_def lstp_append)
  qed
  have nx1: "fbr_Next s1 ?r = hdp (raddr s t) ys 0"
  proof (cases xs rule: rev_cases)
    case Nil
    then show ?thesis using links by (simp add: s1_def)
  next
    case (snoc zs z)
    then have z: "(t, z) \<in> R" using inR ch by simp
    have "z \<noteq> b" using chainsD(3) [OF C t] ch snoc by auto
    then show ?thesis
      using fields_set_Next(1) [OF g S z inR [OF b]] links snoc
      by (simp add: s1_def lstp_append NX_def)
  qed
  have T2: "touched_only s1 s2 R"
  proof (cases ys)
    case Nil
    then show ?thesis using nx1 by (simp add: s2_def)
  next
    case (Cons y zs)
    then have y: "(t, y) \<in> R" using inR ch by simp
    then have "touched_only s1 (set_Prev (raddr s t y) v s1) R" for v
      using touched_set(1) [of s1 t y "raddr s t y" R] B1 sep_block [OF S y] by simp
    then show ?thesis using nx1 Cons by (simp add: s2_def)
  qed
  have T: "touched_only s s2 R" using touched_only_trans [OF T1 T2] B1 by simp
  have un: "unlink_free (of_nat t) (of_nat b) s =
      (if ?r = FreeChainHead s2 ! unat (of_nat t :: u32)
       then set_Head (of_nat t) (if fbr_Prev s2 ?r \<noteq> 0 then fbr_Prev s2 ?r else fbr_Next s2 ?r) s2
       else s2)"
    unfolding unlink_free_def Let_def fbrOf_raddr [OF g x] s1_def [symmetric] s2_def [symmetric] ..
  have B2: "same_static s s2" "flag s2 = flag s" "geom s2"
    using g by (simp_all add: s1_def s2_def)
  show "touched_only s (unlink_free (of_nat t) (of_nat b) s) R"
    using T by (simp add: un touched_only_def)
  show "same_static s (unlink_free (of_nat t) (of_nat b) s)"
    "flag (unlink_free (of_nat t) (of_nat b) s) = flag s"
    "geom (unlink_free (of_nat t) (of_nat b) s)"
    using B2 by (simp_all add: un)
qed

text \<open>
  \<open>recycle\<close> of a block in use: it leaves the set of blocks in use, the invariant holds again,
  and no byte of another block in use or outside the bulk is written.
\<close>

definition frame :: "buddy \<Rightarrow> buddy \<Rightarrow> (nat \<times> nat) set \<Rightarrow> bool" where
  "frame s s' L \<longleftrightarrow> same_static s s' \<and>
     (\<forall>a. (\<exists>y\<in>L. in_block s y a) \<or> 2 ^ (tiers s + 3) \<le> unat (a - Chunk s) \<longrightarrow> bmem s' a = bmem s a)"

lemma frame_trans:
  "frame s s' L \<Longrightarrow> frame s' s'' M \<Longrightarrow> L \<subseteq> M \<Longrightarrow> frame s s'' L"
proof -
  assume A: "frame s s' L" "frame s' s'' M" "L \<subseteq> M"
  have e: "in_block s' = in_block s" "tiers s' = tiers s" "Chunk s' = Chunk s"
    using A(1) by (simp_all add: frame_def same_static_derived same_staticD)
  have "same_static s s''" using A same_static_trans by (auto simp: frame_def)
  moreover have "bmem s'' a = bmem s a"
    if "(\<exists>y\<in>L. in_block s y a) \<or> 2 ^ (tiers s + 3) \<le> unat (a - Chunk s)" for a
  proof -
    have "bmem s' a = bmem s a" using A(1) that unfolding frame_def by blast
    moreover have "(\<exists>y\<in>M. in_block s' y a) \<or> 2 ^ (tiers s' + 3) \<le> unat (a - Chunk s')"
      using A(3) that unfolding e by blast
    then have "bmem s'' a = bmem s' a" using A(2) unfolding frame_def by blast
    ultimately show ?thesis by simp
  qed
  ultimately show ?thesis by (simp add: frame_def)
qed

lemma frame_mono: "frame s s' L \<Longrightarrow> M \<subseteq> L \<Longrightarrow> frame s s' M"
  by (auto simp: frame_def)

lemma touched_frame:
  assumes "touched_only s s' A" "same_static s s'" "\<And>x. x \<in> A \<Longrightarrow> is_block (tiers s) x"
    "\<And>x y. x \<in> A \<Longrightarrow> y \<in> L \<Longrightarrow> disj_blocks (tiers s) x y"
  shows "frame s s' L"
proof -
  have "bmem s' a = bmem s a" if h: "(\<exists>y\<in>L. in_block s y a) \<or> 2 ^ (tiers s + 3) \<le> unat (a - Chunk s)" for a
  proof -
    have "\<not> in_block s x a" if x: "x \<in> A" for x
      using h
    proof
      assume "\<exists>y\<in>L. in_block s y a"
      then obtain y where "y \<in> L" "in_block s y a" by blast
      with assms(4) [OF x] in_one_block [of s x y a] show ?thesis by blast
    next
      assume "2 ^ (tiers s + 3) \<le> unat (a - Chunk s)"
      with bend_le_total [OF assms(3) [OF x]] show ?thesis by (simp add: in_block_def)
    qed
    with assms(1) show ?thesis by (simp add: touched_only_def)
  qed
  with assms(2) show ?thesis by (simp add: frame_def)
qed

end
