(* ===== verification/BuddyOps.thy ===== *)
theory BuddyOps
  imports BuddyInv
begin

text \<open>
  What \<open>recycle\<close>, \<open>obtain\<close> and the public operations do to the invariant, to the set of
  blocks in use and to the bytes of memory.
\<close>

section \<open>recycle\<close>

lemma chains_setBlockInUse [simp]: "chains (setBlockInUse t b v s) ch = chains s ch"
  by (simp add: chains_def frame_simps)

lemma touched_setBlockInUse [simp]:
  "touched_only (setBlockInUse t b v s) s' A = touched_only s s' A"
  by (simp add: touched_only_def in_block_def frame_simps)

lemma frame_setBlockInUse [simp]:
  "frame (setBlockInUse t b v s) s' L = frame s s' L"
  by (simp add: frame_def in_block_def same_static_def frame_simps)
    (simp add: setBlockInUse_def Let_def)

lemma live_flag: "(t, b) \<in> live s \<Longrightarrow> flag s t b"
  by (simp add: live_def live_in_def)

lemma sib_block: "is_block n (Suc t, b) \<Longrightarrow> is_block n (Suc t, sib b)"
  using sib_less [of "Suc t" b] by (simp add: is_block_def)

text \<open>The test of \<open>recycle\<close> in terms of the flags before the call.\<close>

lemma recycle_test:
  assumes g: "geom s" and x: "is_block (tiers s) (t, b)"
  shows "(of_nat t = (0 :: u32) \<or>
      isBlockInUse (setBlockInUse (of_nat t) (of_nat b) False s) (of_nat t) (buddyIdOf (of_nat b))) \<longleftrightarrow>
     (t = 0 \<or> flag s t (sib b))"
proof (cases t)
  case (Suc u)
  have "buddyIdOf (of_nat b) = of_nat (sib b)"
    using block_id32(1) [OF g x] by (rule buddyIdOf_sib)
  moreover have y: "is_block (tiers s) (t, sib b)" using x sib_block Suc by simp
  then have "isBlockInUse (setBlockInUse (of_nat t) (of_nat b) False s) (of_nat t) (of_nat (sib b))
      \<longleftrightarrow> flag (setBlockInUse (of_nat t) (of_nat b) False s) t (sib b)"
    using geom_bounds(2) [OF g] by (intro isBlockInUse_flag) (simp_all add: is_block_def)
  moreover have "\<dots> \<longleftrightarrow> flag s t (sib b)"
    using flag_mark [OF g x, of t "sib b" False] y by (simp add: is_block_def)
  moreover have "of_nat t \<noteq> (0 :: u32)"
    using of_nat_eq_0_32 [of t] block_id32(2) [OF g x] Suc by simp
  ultimately show ?thesis using Suc by simp
qed simp

lemma recycle_push_step:
  assumes I: "inv_with s ch" and x: "(t, b) \<in> live s" and s: "t = 0 \<or> flag s t (sib b)"
  defines "s' \<equiv> push_free (of_nat t) (of_nat b) (setBlockInUse (of_nat t) (of_nat b) False s)"
  shows "inv_with s' (ch(t := b # ch t))" "live s' = live s - {(t, b)}" "frame s s' (live s - {(t, b)})"
proof -
  note D = inv_withD [OF I]
  let ?s1 = "setBlockInUse (of_nat t) (of_nat b) False s"
  let ?n = "tiers s" and ?F = "flag s"
  have xb: "is_block ?n (t, b)" using x by (rule live_block)
  then have t: "t < ?n" by (simp add: is_block_def)
  have xl: "(t, b) \<in> live_in ?n ?F" using x by (simp add: live_def)
  note P = live_unmark_push [OF D(2) xl s]
  let ?R = "insert (t, b) (cells ?n ch)"
  have S: "sep ?n ?R"
    using cells_leaves [OF I] live_leaves x by (intro sep_subset [OF sep_leaves [OF I]]) auto
  have new: "b \<notin> set (ch t)" using P(3) D(4) [OF t] by simp
  have g1: "geom ?s1" using D(1) by (rule geom_setBlockInUse)
  have t1: "tiers ?s1 = ?n" by (simp add: frame_simps)
  note M = set_mark [OF D(1) xb, where v = False]
  have C: "chains s' (ch(t := b # ch t))"
    unfolding s'_def using g1 D(3) S new by (intro push_chains [where R = ?R]) (auto simp: t1 tiers_setBlockInUse)
  have T: "touched_only ?s1 s' ?R" "same_static ?s1 s'" "flag s' = flag ?s1" "geom s'"
    unfolding s'_def using push_touched [OF g1, of ch ?R t b] D(3) S by (auto simp: t1 tiers_setBlockInUse)
  have n: "tiers s' = ?n" using same_staticD(1) [OF T(2)] t1 by simp
  show "inv_with s' (ch(t := b # ch t))"
    unfolding inv_with_def n T(3)
    using T(4) C M(1) P(1) M(3) P(4) D(4) by (auto split: if_splits)
  show "live s' = live s - {(t, b)}"
    using M(2) P(2) by (simp add: live_def n T(3) tiers_setBlockInUse)
  have "frame ?s1 s' (live s - {(t, b)})"
  proof (rule touched_frame [OF T(1,2)])
    show "is_block (tiers ?s1) y" if "y \<in> ?R" for y using sep_block [OF S that] t1 by simp
    show "disj_blocks (tiers ?s1) y z" if "y \<in> ?R" "z \<in> live s - {(t, b)}" for y z
      unfolding t1
    proof (rule leaves_disjoint [OF D(2)])
      show "y \<in> leaves ?n ?F" using that cells_leaves [OF I] live_leaves x by auto
      show "z \<in> leaves ?n ?F" using that live_leaves by auto
      show "y \<noteq> z" using that live_not_cell [OF I, of z] by auto
    qed
  qed
  then show "frame s s' (live s - {(t, b)})" by simp
qed

lemma recycle_merge_step:
  assumes I: "inv_with s ch" and x: "(Suc t, b) \<in> live s" and s: "\<not> flag s (Suc t) (sib b)"
  defines "s' \<equiv> unlink_free (of_nat (Suc t)) (of_nat (sib b)) (setBlockInUse (of_nat (Suc t)) (of_nat b) False s)"
  shows "\<exists>ch'. inv_with s' ch'" "live s' = insert (t, b div 2) (live s - {(Suc t, b)})"
    "(t, b div 2) \<notin> live s" "frame s s' (live s - {(Suc t, b)})"
proof -
  note D = inv_withD [OF I]
  let ?s1 = "setBlockInUse (of_nat (Suc t)) (of_nat b) False s"
  let ?n = "tiers s" and ?F = "flag s"
  have xb: "is_block ?n (Suc t, b)" using x by (rule live_block)
  then have t: "Suc t < ?n" by (simp add: is_block_def)
  have xl: "(Suc t, b) \<in> live_in ?n ?F" using x by (simp add: live_def)
  note P = live_unmark_merge [OF D(2) xl s]
  let ?R = "cells ?n ch"
  have S: "sep ?n ?R" using cells_leaves [OF I] by (rule sep_subset [OF sep_leaves [OF I]])
  have bd: "sib b \<in> set (ch (Suc t))" using P(4) D(4) [OF t] by simp
  then obtain xs ys where ch: "ch (Suc t) = xs @ sib b # ys" by (meson split_list)
  have g1: "geom ?s1" using D(1) by (rule geom_setBlockInUse)
  have t1: "tiers ?s1 = ?n" by (simp add: frame_simps)
  note M = set_mark [OF D(1) xb, where v = False]
  let ?ch' = "ch(Suc t := xs @ ys)"
  have C: "chains s' ?ch'"
    unfolding s'_def using g1 D(3) S t ch by (intro unlink_chains [where R = ?R]) (auto simp: t1 tiers_setBlockInUse)
  have T: "touched_only ?s1 s' ?R" "same_static ?s1 s'" "flag s' = flag ?s1" "geom s'"
    unfolding s'_def using unlink_touched [OF g1, of ch ?R "Suc t" "sib b"] D(3) S t bd by (auto simp: t1 tiers_setBlockInUse)
  have n: "tiers s' = ?n" using same_staticD(1) [OF T(2)] t1 by simp
  have "distinct (ch (Suc t))" using chainsD(3) [OF D(3) t] .
  then have xy: "set (xs @ ys) = set (ch (Suc t)) - {sib b}" using ch by auto
  have "inv_with s' ?ch'"
    unfolding inv_with_def n T(3)
  proof (intro conjI allI impI)
    show "geom s'" "chains s' ?ch'" by fact+
    show "tree_inv ?n (flag ?s1)" using M(1) P(1) by simp
    show "set (?ch' u) = free_on (flag ?s1) u" if "u < ?n" for u
      using M(3) [OF that] P(5) [OF that] D(4) that xy t by (cases "u = Suc t") auto
  qed
  then show "\<exists>ch'. inv_with s' ch'" by blast
  show "live s' = insert (t, b div 2) (live s - {(Suc t, b)})"
    using M(2) P(2) by (simp add: live_def n T(3) tiers_setBlockInUse)
  show "(t, b div 2) \<notin> live s" using P(3) by (simp add: live_def)
  have "frame ?s1 s' (live s - {(Suc t, b)})"
  proof (rule touched_frame [OF T(1,2)])
    show "is_block (tiers ?s1) y" if "y \<in> ?R" for y using sep_block [OF S that] t1 by simp
    show "disj_blocks (tiers ?s1) y z" if "y \<in> ?R" "z \<in> live s - {(Suc t, b)}" for y z
      unfolding t1
    proof (rule leaves_disjoint [OF D(2)])
      show "y \<in> leaves ?n ?F" using that cells_leaves [OF I] by auto
      show "z \<in> leaves ?n ?F" using that live_leaves by auto
      show "y \<noteq> z" using that live_not_cell [OF I, of z] by auto
    qed
  qed
  then show "frame s s' (live s - {(Suc t, b)})" by simp
qed

text \<open>The whole of \<open>recycle\<close>, together with its assertion.\<close>

lemma recycle_spec:
  assumes "buddy_inv s" "(t, b) \<in> live s"
  defines "s' \<equiv> buddy_recycle s (of_nat t) (of_nat b)"
  shows "buddy_inv s' \<and> live s' = live s - {(t, b)} \<and> frame s s' (live s - {(t, b)}) \<and>
     buddy_recycle_asserts s (of_nat t) (of_nat b)"
  using assms(1,2) unfolding s'_def
proof (induction t arbitrary: s b)
  case (0 s b)
  from 0 obtain ch where I: "inv_with s ch" by (auto simp: buddy_inv_def)
  have xb: "is_block (tiers s) (0, b)" using 0 by (intro live_block)
  note g = inv_withD(1) [OF I]
  have "isBlockInUse s (of_nat 0) (of_nat b)"
    using isBlockInUse_flag [of 0 b s] xb live_flag [OF 0(2)] by (simp add: is_block_def)
  with recycle_push_step [OF I 0(2)] show ?case
    by (simp add: buddy_recycle.simps [of s 0] buddy_recycle_asserts.simps [of s 0] buddy_inv_def Let_def)
      blast
next
  case (Suc t s b)
  from Suc.prems obtain ch where I: "inv_with s ch" by (auto simp: buddy_inv_def)
  have xb: "is_block (tiers s) (Suc t, b)" using Suc.prems by (intro live_block)
  note g = inv_withD(1) [OF I]
  let ?T = "of_nat (Suc t) :: u32"
  let ?s1 = "setBlockInUse ?T (of_nat b) False s"
  have use: "isBlockInUse s ?T (of_nat b)"
    using isBlockInUse_flag [of "Suc t" b s] xb live_flag [OF Suc.prems(2)] geom_bounds(2) [OF g]
    by (simp add: is_block_def)
  note test = recycle_test [OF g xb]
  have sb: "buddyIdOf (of_nat b) = of_nat (sib b)"
    using block_id32(1) [OF g xb] by (rule buddyIdOf_sib)
  show ?case
  proof (cases "flag s (Suc t) (sib b)")
    case True
    have rec: "buddy_recycle s ?T (of_nat b) = push_free ?T (of_nat b) ?s1"
      "buddy_recycle_asserts s ?T (of_nat b)"
      using True test use by (simp_all only: buddy_recycle.simps [of s ?T] buddy_recycle_asserts.simps [of s ?T] Let_def if_True simp_thms)
    from recycle_push_step [OF I Suc.prems(2)] True rec show ?thesis
      by (auto simp: buddy_inv_def)
  next
    case False
    let ?s2 = "unlink_free ?T (of_nat (sib b)) ?s1"
    have half: "drop_bit 1 (of_nat b :: u32) = of_nat (b div 2)"
      using block_id32(1) [OF g xb] by (intro drop_bit1_half) simp
    have rec: "buddy_recycle s ?T (of_nat b) = buddy_recycle ?s2 (of_nat t) (of_nat (b div 2))"
      "buddy_recycle_asserts s ?T (of_nat b) = buddy_recycle_asserts ?s2 (of_nat t) (of_nat (b div 2))"
      using False test use
      by (simp_all only: buddy_recycle.simps [of s ?T] buddy_recycle_asserts.simps [of s ?T] Let_def
          sb half of_nat_pred_tier if_False simp_thms nat.distinct)
    note M = recycle_merge_step [OF I Suc.prems(2) False]
    have I2: "buddy_inv ?s2" using M(1) by (simp add: buddy_inv_def)
    have L2: "(t, b div 2) \<in> live ?s2" using M(2) by simp
    have eq: "live ?s2 - {(t, b div 2)} = live s - {(Suc t, b)}" using M(2,3) by auto
    from Suc.IH [OF I2 L2] rec eq frame_trans [OF M(4)] show ?thesis by auto
  qed
qed

section \<open>obtain\<close>

lemma pop_step:
  assumes I: "inv_with s ch" and t: "t < tiers s" and ch: "ch t = b # bs"
  obtains s' where "pop_free (of_nat t) s = (s', of_nat b)" "inv_with s' (ch(t := bs))"
    "live s' = insert (t, b) (live s)" "(t, b) \<notin> live s" "frame s s' (live s)" "is_block (tiers s) (t, b)"
proof -
  note D = inv_withD [OF I]
  let ?n = "tiers s" and ?R = "cells (tiers s) ch"
  have S: "sep ?n ?R" using cells_leaves [OF I] by (rule sep_subset [OF sep_leaves [OF I]])
  from pop_chains [OF D(1,3) S order_refl t ch] obtain s2 where
    pop: "pop_free (of_nat t) s = (setBlockInUse (of_nat t) (of_nat b) True s2, of_nat b)"
    and C: "chains s2 (ch(t := bs))"
    and s2: "s2 = set_Head (of_nat t) (hdp (raddr s t) bs 0)
            (if bs \<noteq> [] then set_Prev (raddr s t (hd bs)) 0 s else s)" by blast
  have bf: "b \<in> free_on (flag s) t" using D(4) [OF t, symmetric] ch by simp
  have xb: "is_block ?n (t, b)" using bf t by (simp add: free_on_def is_block_def)
  note P = free_mark [OF D(2) t bf]
  have b2: "geom s2" "tiers s2 = ?n" "flag s2 = flag s" "same_static s s2"
    using D(1) by (simp_all add: s2)
  let ?s' = "setBlockInUse (of_nat t) (of_nat b) True s2"
  have t2: "tiers ?s' = ?n" using b2 by (simp add: tiers_setBlockInUse)
  note M = set_mark [OF b2(1), of t b, where v = True, unfolded b2, OF xb]
  have dist: "distinct (b # bs)" using chainsD(3) [OF D(3) t] ch by simp
  have "inv_with ?s' (ch(t := bs))"
    unfolding inv_with_def t2
  proof (intro conjI allI impI)
    show "geom ?s'" using b2(1) by (rule geom_setBlockInUse)
    show "tree_inv ?n (flag ?s')" using M(1) P(1) by simp
    show "chains ?s' (ch(t := bs))" using C by simp
    show "set ((ch(t := bs)) u) = free_on (flag ?s') u" if "u < ?n" for u
    proof (cases "u = t")
      case True
      have "free_on (flag s) t = insert b (set bs)" using D(4) [OF t] ch by auto
      with True M(3) [OF that] P(4) [OF that] dist show ?thesis by auto
    next
      case False
      with M(3) [OF that] P(4) [OF that] D(4) [OF that] show ?thesis by simp
    qed
  qed
  moreover have "live ?s' = insert (t, b) (live s)" "(t, b) \<notin> live s"
    using M(2) P(2,3) by (simp_all add: live_def)
  moreover have "frame s s2 (live s)"
  proof (rule touched_frame)
    show "touched_only s s2 ?R"
    proof (cases bs)
      case Nil
      then show ?thesis by (simp add: s2)
    next
      case (Cons y ys)
      then have y: "(t, y) \<in> ?R" using t ch by (simp add: cells_def)
      then have "touched_only s (set_Prev (raddr s t y) 0 s) ?R"
        using touched_set(1) [OF D(1) sep_block [OF S y]] by simp
      then show ?thesis using Cons by (simp add: s2 touched_only_def)
    qed
    show "same_static s s2" by fact
    show "is_block ?n y" if "y \<in> ?R" for y using sep_block [OF S that] .
    show "disj_blocks ?n y z" if "y \<in> ?R" "z \<in> live s" for y z
    proof (rule leaves_disjoint [OF D(2)])
      show "y \<in> leaves ?n (flag s)" using that cells_leaves [OF I] by auto
      show "z \<in> leaves ?n (flag s)" using that live_leaves by auto
      show "y \<noteq> z" using that live_not_cell [OF I, of z] by auto
    qed
  qed
  then have "frame s ?s' (live s)"
    by (simp add: frame_def frame_simps)
  ultimately show ?thesis using that pop xb by blast
qed

lemma split_step:
  assumes I: "buddy_inv s" and x: "(t, p) \<in> live s" and t: "Suc t < tiers s"
  defines "s' \<equiv> setBlockInUse (of_nat (Suc t)) (of_nat (Suc (2 * p))) True
                   (setBlockInUse (of_nat (Suc t)) (of_nat (2 * p)) True s)"
  shows "buddy_inv s'"
    "live s' = insert (Suc t, 2 * p) (insert (Suc t, Suc (2 * p)) (live s - {(t, p)}))"
    "(Suc t, 2 * p) \<notin> live s" "(Suc t, Suc (2 * p)) \<notin> live s" "frame s s' L"
    "is_block (tiers s) (Suc t, 2 * p)"
proof -
  from I obtain ch where W: "inv_with s ch" by (auto simp: buddy_inv_def)
  note D = inv_withD [OF W]
  let ?n = "tiers s"
  have pt: "p < 2 ^ t" using x by (simp add: live_def live_in_def)
  have xl: "(t, p) \<in> live_in ?n (flag s)" using x by (simp add: live_def)
  note P = split_mark [OF D(2) t xl]
  let ?G = "mark (Suc t) (Suc (2 * p)) True (mark (Suc t) (2 * p) True (flag s))"
  let ?s1 = "setBlockInUse (of_nat (Suc t)) (of_nat (2 * p)) True s"
  have b1: "is_block ?n (Suc t, 2 * p)" and b2: "is_block ?n (Suc t, Suc (2 * p))"
    using pt t by (simp_all add: is_block_def)
  have g1: "geom ?s1" using D(1) by (rule geom_setBlockInUse)
  have n1: "tiers ?s1 = ?n" "tiers s' = ?n" by (simp_all add: s'_def tiers_setBlockInUse)
  have F: "flag s' u c = ?G u c" if "u < ?n" "c < 2 ^ u" for u c
  proof -
    have b2': "is_block (tiers ?s1) (Suc t, Suc (2 * p))" unfolding n1 by fact
    have u': "u < tiers ?s1" unfolding n1 by fact
    have "flag s' u c = mark (Suc t) (Suc (2 * p)) True (flag ?s1) u c"
      unfolding s'_def using flag_mark [OF g1 b2' u' that(2)] .
    also have "flag ?s1 u c = mark (Suc t) (2 * p) True (flag s) u c"
      using flag_mark [OF D(1) b1 that] .
    then have "mark (Suc t) (Suc (2 * p)) True (flag ?s1) u c = ?G u c"
      by (simp only: mark_def)
    finally show ?thesis .
  qed
  have T: "tree_inv ?n (flag s')" using tree_inv_cong [OF F] P(1) by simp
  have "inv_with s' ch"
    unfolding inv_with_def n1
  proof (intro conjI allI impI)
    show "geom s'" unfolding s'_def using g1 by (rule geom_setBlockInUse)
    show "tree_inv ?n (flag s')" by fact
    show "chains s' ch" using D(3) by (simp add: s'_def)
    show "set (ch u) = free_on (flag s') u" if "u < ?n" for u
      using free_on_cong [where F = "flag s'" and G = "?G" and t = u, OF F [OF that]] P(5) [OF that] D(4) [OF that] by simp
  qed
  then show "buddy_inv s'" by (auto simp: buddy_inv_def)
  show "live s' = insert (Suc t, 2 * p) (insert (Suc t, Suc (2 * p)) (live s - {(t, p)}))"
    using live_in_cong [OF F] P(2) by (simp add: live_def n1)
  show "(Suc t, 2 * p) \<notin> live s" "(Suc t, Suc (2 * p)) \<notin> live s"
    using P(3,4) by (simp_all add: live_def)
  show "frame s s' L" by (simp add: s'_def frame_def frame_simps)
  show "is_block ?n (Suc t, 2 * p)" by fact
qed

definition has_free :: "buddy \<Rightarrow> nat \<Rightarrow> bool" where
  "has_free s t \<longleftrightarrow> (\<exists>u\<le>t. free_on (flag s) u \<noteq> {})"

lemma has_free_Suc: "has_free s (Suc t) \<longleftrightarrow> free_on (flag s) (Suc t) \<noteq> {} \<or> has_free s t"
  by (auto simp: has_free_def le_Suc_eq)

lemma block_id_valid: "geom s \<Longrightarrow> is_block (tiers s) (t, b) \<Longrightarrow> of_nat b \<noteq> INVALID_VALUE"
proof
  assume "geom s" "is_block (tiers s) (t, b)" "of_nat b = INVALID_VALUE"
  then have "unat (of_nat b :: u32) = 2 ^ 32 - 1" "b < 2 ^ 32 - 1"
    using block_id32(1) by (auto simp: INVALID_VALUE_def)
  then show False by (simp add: unat_of_nat32)
qed

text \<open>
  \<open>obtain\<close> succeeds exactly when a chain at its tier or above is not empty, and then hands
  out a block that was not in use; otherwise nothing changes.
\<close>

lemma obtain_spec:
  assumes "buddy_inv s" "t < tiers s"
  shows "if has_free s t
     then \<exists>s' b. buddy_obtain s (of_nat t) = (s', of_nat b) \<and> is_block (tiers s) (t, b) \<and>
       buddy_inv s' \<and> live s' = insert (t, b) (live s) \<and> (t, b) \<notin> live s \<and> frame s s' (live s)
     else buddy_obtain s (of_nat t) = (s, INVALID_VALUE)"
  using assms
proof (induction t)
  case 0
  from 0 obtain ch where I: "inv_with s ch" by (auto simp: buddy_inv_def)
  have hf: "has_free s 0 \<longleftrightarrow> ch 0 \<noteq> []"
    using inv_withD(4) [OF I] 0 by (force simp: has_free_def)
  show ?case
  proof (cases "ch 0")
    case Nil
    then show ?thesis using hf head_null_iff [OF I] 0 by (simp add: buddy_obtain.simps [of s 0])
  next
    case (Cons b bs)
    with head_null_iff [OF I] 0 have "buddy_obtain s (of_nat 0) = pop_free (of_nat 0) s"
      by (simp add: buddy_obtain.simps [of s 0])
    moreover from pop_step [OF I 0(2) Cons] obtain s' where "pop_free (of_nat 0) s = (s', of_nat b)"
      "inv_with s' (ch(0 := bs))" "live s' = insert (0, b) (live s)" "(0, b) \<notin> live s"
      "frame s s' (live s)" "is_block (tiers s) (0, b)" by blast
    ultimately show ?thesis using hf Cons unfolding buddy_inv_def by auto
  qed
next
  case (Suc t)
  from Suc.prems obtain ch where I: "inv_with s ch" by (auto simp: buddy_inv_def)
  let ?T = "of_nat (Suc t) :: u32"
  have uT: "unat ?T = Suc t"
    using geom_bounds(2) [OF inv_withD(1) [OF I]] Suc.prems by (intro unat_of_nat32) simp
  have T0: "?T > 0" using uT by (metis word_neq_0_conv unat_0 nat.distinct(1))
  have fre: "free_on (flag s) (Suc t) \<noteq> {} \<longleftrightarrow> ch (Suc t) \<noteq> []"
    using inv_withD(4) [OF I Suc.prems(2)] by auto
  show ?case
  proof (cases "ch (Suc t)")
    case (Cons b bs)
    with head_null_iff [OF I Suc.prems(2)] uT have "buddy_obtain s ?T = pop_free ?T s"
      by (subst buddy_obtain.simps) (simp del: of_nat_Suc)
    moreover from pop_step [OF I Suc.prems(2) Cons] obtain s' where
      "pop_free ?T s = (s', of_nat b)"
      "inv_with s' (ch(Suc t := bs))" "live s' = insert (Suc t, b) (live s)" "(Suc t, b) \<notin> live s"
      "frame s s' (live s)" "is_block (tiers s) (Suc t, b)" by blast
    moreover have "has_free s (Suc t)" using fre Cons by (simp add: has_free_Suc)
    ultimately show ?thesis unfolding buddy_inv_def by auto
  next
    case Nil
    have t: "t < tiers s" using Suc.prems by simp
    have hf: "has_free s (Suc t) \<longleftrightarrow> has_free s t" using fre Nil by (simp add: has_free_Suc)
    have step: "buddy_obtain s ?T =
      (let (s1, upper) = buddy_obtain s (of_nat t)
       in if upper \<noteq> INVALID_VALUE
          then let id1 = push_bit 1 upper;
                   s3 = setBlockInUse ?T (id1 + 1) True (setBlockInUse ?T id1 True s1)
               in (buddy_recycle s3 ?T (id1 + 1), id1)
          else (s1, INVALID_VALUE))"
      using head_null_iff [OF I Suc.prems(2)] uT T0 Nil
      by (subst buddy_obtain.simps) (simp add: of_nat_pred_tier Let_def split_beta del: of_nat_Suc push_bit_of_1)
    note IH = Suc.IH [OF Suc.prems(1) t]
    show ?thesis
    proof (cases "has_free s t")
      case False
      with IH have "buddy_obtain s (of_nat t) = (s, INVALID_VALUE)" by simp
      with False hf show ?thesis unfolding step by simp
    next
      case True
      with IH obtain s1 p where o1: "buddy_obtain s (of_nat t) = (s1, of_nat p)"
        "is_block (tiers s) (t, p)" "buddy_inv s1" "live s1 = insert (t, p) (live s)"
        "(t, p) \<notin> live s" "frame s s1 (live s)" by auto
      have n1: "tiers s1 = tiers s" using o1(6) same_staticD by (simp add: frame_def)
      let ?s3 = "setBlockInUse ?T (of_nat (Suc (2 * p))) True (setBlockInUse ?T (of_nat (2 * p)) True s1)"
      let ?s4 = "buddy_recycle ?s3 ?T (of_nat (Suc (2 * p)))"
      have ids: "push_bit 1 (of_nat p :: u32) = of_nat (2 * p)" "(of_nat (2 * p) :: u32) + 1 = of_nat (Suc (2 * p))"
        by (simp_all add: push_bit_eq_mult)
      have valid: "of_nat p \<noteq> INVALID_VALUE"
        using block_id_valid [OF inv_withD(1) [OF I] o1(2)] .
      have res: "buddy_obtain s ?T = (?s4, of_nat (2 * p))"
        unfolding step o1(1) using valid by (simp only: Let_def split ids not_False_eq_True if_True)
      have xl: "(t, p) \<in> live s1" using o1(4) by simp
      have tn: "Suc t < tiers s1" using Suc.prems n1 by simp
      note P = split_step [OF o1(3) xl tn]
      have y: "(Suc t, Suc (2 * p)) \<in> live ?s3" using P(2) by simp
      note Q = recycle_spec [OF P(1) y]
      have L4: "live ?s4 = insert (Suc t, 2 * p) (live s)"
        using Q P(2,3,4) o1(4,5) by auto
      have "frame s ?s3 (live s)" by (rule frame_trans [OF o1(6) P(5) order_refl])
      moreover have "frame ?s3 ?s4 (live ?s3 - {(Suc t, Suc (2 * p))})" using Q by simp
      moreover have "live s \<subseteq> live ?s3 - {(Suc t, Suc (2 * p))}" using P(2,3,4) o1(4,5) by auto
      ultimately have "frame s ?s4 (live s)" by (rule frame_trans)
      moreover have "(Suc t, 2 * p) \<notin> live s" using P(3) o1(4) by auto
      moreover have "is_block (tiers s) (Suc t, 2 * p)" using P(6) n1 by simp
      ultimately show ?thesis using True hf res L4 Q by auto
    qed
  qed
qed

end
