(* ===== verification/BuddyLocate.thy ===== *)
theory BuddyLocate
  imports BuddyOps
begin

text \<open>
  Sizes and pointers: \<open>tierOf\<close> gives the tier of the smallest blocks that are large enough,
  \<open>isValidPtr\<close> and \<open>blockIdOf\<close> recognise the addresses of blocks, and
  \<open>locateBlockInUse\<close> finds the block in use that starts at a given address.
\<close>

section \<open>Tiers of sizes\<close>

lemma bsz_word:
  assumes "geom s" "t < tiers s"
  shows "bsz (tiers s) t < 2 ^ 32" "blockSizeOf s (of_nat t) = of_nat (bsz (tiers s) t)"
proof -
  have "bsz (tiers s) t \<le> 2 ^ 31"
    using bsz_le_cap [OF assms(2)] geom_bounds(4) [OF assms(1)] by (rule le_trans)
  then show "bsz (tiers s) t < 2 ^ 32" by simp
  show "blockSizeOf s (of_nat t) = of_nat (bsz (tiers s) t)"
    using unat_blockSizeOf [OF assms] by (metis of_nat_unat ucast_id)
qed

lemma bsz_Suc: "Suc t < n \<Longrightarrow> bsz n t = 2 * bsz n (Suc t)"
  by (simp add: bsz_def Suc_diff_le [symmetric] flip: power_Suc)

lemma bsz_mono: "t \<le> u \<Longrightarrow> bsz n u \<le> bsz n t"
  by (simp add: bsz_def power_increasing)

lemma bsz_less: "t < u \<Longrightarrow> u < n \<Longrightarrow> bsz n u < bsz n t"
  by (simp add: bsz_def power_strict_increasing)

lemma tierOf_loop_spec:
  assumes "t < n" "n \<le> 28"
  shows "tierOf_loop sz (of_nat (bsz n t)) (Suc t) =
     (if unat sz > bsz n 0 then INVALID_VALUE
      else of_nat (Max {u. u \<le> t \<and> unat sz \<le> bsz n u}))"
  using assms(1)
proof (induction t)
  case 0
  have "bsz n 0 < 2 ^ 32"
    using assms(2) power_increasing [of "n + 3" 31 "2::nat"] by (simp add: bsz_def)
  then have le: "sz \<le> of_nat (bsz n 0) \<longleftrightarrow> unat sz \<le> bsz n 0"
    by (simp add: word_le_nat_alt unat_of_nat32)
  have "{u. u = 0 \<and> unat sz \<le> bsz n u} = (if unat sz \<le> bsz n 0 then {0} else {})" by auto
  then show ?case using le by auto
next
  case (Suc t)
  have "bsz n (Suc t) \<le> bsz n 0" by (rule bsz_mono) simp
  also have "\<dots> < 2 ^ 32"
    using assms(2) power_increasing [of "n + 3" 31 "2::nat"] by (simp add: bsz_def)
  finally have "bsz n (Suc t) < 2 ^ 32" .
  then have le: "sz \<le> of_nat (bsz n (Suc t)) \<longleftrightarrow> unat sz \<le> bsz n (Suc t)"
    by (simp add: word_le_nat_alt unat_of_nat32)
  have db: "push_bit 1 (of_nat (bsz n (Suc t)) :: u32) = of_nat (bsz n t)"
    using Suc.prems by (simp add: bsz_Suc push_bit_eq_mult)
  let ?A = "\<lambda>t. {u. u \<le> t \<and> unat sz \<le> bsz n u}"
  show ?case
  proof (cases "unat sz \<le> bsz n (Suc t)")
    case True
    then have "Max (?A (Suc t)) = Suc t" by (intro Max_eqI) auto
    moreover have "unat sz \<le> bsz n 0" using True bsz_mono [of 0 "Suc t" n] by simp
    ultimately show ?thesis using True le by simp
  next
    case False
    then have "?A (Suc t) = ?A t" by (auto simp: le_Suc_eq)
    moreover have "tierOf_loop sz (of_nat (bsz n (Suc t))) (Suc (Suc t)) =
        tierOf_loop sz (of_nat (bsz n t)) (Suc t)"
      using False le db by (simp del: push_bit_of_1)
    ultimately show ?thesis using Suc.IH Suc.prems by simp
  qed
qed

text \<open>\<open>tierOf\<close> gives the deepest tier whose blocks are large enough.\<close>

lemma tierOf_spec:
  assumes g: "geom s"
  shows "unat sz > 2 ^ (tiers s + 3) \<Longrightarrow> tierOf s sz = INVALID_VALUE"
    and "unat sz \<le> 2 ^ (tiers s + 3) \<Longrightarrow> \<exists>t<tiers s. tierOf s sz = of_nat t \<and> unat sz \<le> bsz (tiers s) t \<and>
      (\<forall>u. t < u \<and> u < tiers s \<longrightarrow> bsz (tiers s) u < unat sz)"
proof -
  let ?n = "tiers s"
  have n: "0 < ?n" "?n \<le> 28" using geom_bounds [OF g] by auto
  have "(push_bit MINSIZE_POWOF2 1 :: u32) = of_nat (bsz ?n (?n - 1))"
    using n by (simp add: MINSIZE_POWOF2_def bsz_def push_bit_eq_mult)
  then have T: "tierOf s sz = (if unat sz > bsz ?n 0 then INVALID_VALUE
      else of_nat (Max {u. u \<le> ?n - 1 \<and> unat sz \<le> bsz ?n u}))"
    using tierOf_loop_spec [of "?n - 1" ?n sz] n by (simp add: tierOf_def tiers_def)
  have b0: "bsz ?n 0 = 2 ^ (?n + 3)" by (simp add: bsz_def)
  show "unat sz > 2 ^ (?n + 3) \<Longrightarrow> tierOf s sz = INVALID_VALUE" using T b0 by simp
  assume sz: "unat sz \<le> 2 ^ (?n + 3)"
  let ?A = "{u. u \<le> ?n - 1 \<and> unat sz \<le> bsz ?n u}"
  have A: "finite ?A" "?A \<noteq> {}" using sz b0 by auto
  then have M: "Max ?A \<in> ?A" by (rule Max_in)
  have "bsz ?n u < unat sz" if "Max ?A < u" "u < ?n" for u
  proof (rule ccontr)
    assume "\<not> bsz ?n u < unat sz"
    then have "u \<in> ?A" using that by auto
    with A have "u \<le> Max ?A" by (intro Max_ge) auto
    with that show False by simp
  qed
  with M T sz b0 n show "\<exists>t<?n. tierOf s sz = of_nat t \<and> unat sz \<le> bsz ?n t \<and>
      (\<forall>u. t < u \<and> u < ?n \<longrightarrow> bsz ?n u < unat sz)"
    by (intro exI [of _ "Max ?A"]) auto
qed

lemma tierOf_block:
  assumes g: "geom s" and t: "t < tiers s"
  shows "tierOf s (blockSizeOf s (of_nat t)) = of_nat t"
proof -
  let ?n = "tiers s"
  have u: "unat (blockSizeOf s (of_nat t)) = bsz ?n t" using unat_blockSizeOf [OF g t] .
  then have "unat (blockSizeOf s (of_nat t)) \<le> 2 ^ (?n + 3)" using bsz_le_cap [OF t] by simp
  from tierOf_spec(2) [OF g this] obtain v where v: "v < ?n" "tierOf s (blockSizeOf s (of_nat t)) = of_nat v"
    "bsz ?n t \<le> bsz ?n v" "\<forall>w. v < w \<and> w < ?n \<longrightarrow> bsz ?n w < bsz ?n t" unfolding u by blast
  have "v \<le> t" using v(3) bsz_less [of t v ?n] v(1) by (cases "t < v") auto
  moreover have "\<not> v < t" using v(4) t by auto
  ultimately show ?thesis using v(2) by simp
qed

lemma tier_valid: "geom s \<Longrightarrow> t < tiers s \<Longrightarrow> of_nat t \<noteq> INVALID_VALUE"
  using block_id_valid [of s 0 t] geom_bounds(2) [of s]
proof -
  assume "geom s" "t < tiers s"
  then have "t < 2 ^ 32 - 1" using geom_bounds(2) [of s] by simp
  then have "unat (of_nat t :: u32) < 2 ^ 32 - 1" by (simp add: unat_of_nat32)
  then show ?thesis by (auto simp: INVALID_VALUE_def)
qed

section \<open>Pointers and blocks\<close>

lemma and_high_mask:
  "k \<le> 32 \<Longrightarrow> (x :: u32) = x AND push_bit k 0xFFFFFFFF \<longleftrightarrow> 2 ^ k dvd unat x"
proof -
  have F: "(0xFFFFFFFF :: u32) = mask 32" by (simp add: mask_eq_exp_minus_1)
  assume k: "k \<le> 32"
  have m: "bit (push_bit k (mask 32 :: u32)) j \<longleftrightarrow> k \<le> j \<and> j < 32" for j
    using k by (auto simp: bit_push_bit_iff bit_mask_iff)
  have "x = x AND push_bit k 0xFFFFFFFF \<longleftrightarrow> (\<forall>j. bit x j \<longrightarrow> k \<le> j)"
    unfolding F bit_eq_iff using bit_imp_le_length [of x] by (auto simp: bit_and_iff m)
  also have "\<dots> \<longleftrightarrow> take_bit k x = 0"
    using bit_imp_le_length [of x] by (auto simp: bit_eq_iff bit_take_bit_iff not_less)
  also have "\<dots> \<longleftrightarrow> unat (take_bit k x) = 0" by (simp add: unat_eq_0)
  also have "\<dots> \<longleftrightarrow> 2 ^ k dvd unat x"
    by (simp add: unsigned_take_bit_eq take_bit_eq_0_iff)
  finally show ?thesis .
qed

lemma chunk_offset:
  assumes g: "geom s" and d: "d < 2 ^ (tiers s + 3)"
  defines "p \<equiv> Chunk s + of_nat d"
  shows "\<not> p < Chunk s" "(ucast (p - Chunk s) :: u32) = of_nat d" "unat (of_nat d :: u32) = d"
    "unat (p - Chunk s) = d"
proof -
  have d32: "d < 2 ^ 32" using d geom_bounds(4) [OF g] by simp
  then show "unat (of_nat d :: u32) = d" by (rule unat_of_nat32)
  have u: "unat (of_nat d :: ptr) = d" using d32 by (intro unat_of_nat64) simp
  then show "unat (p - Chunk s) = d" by (simp add: p_def)
  have "unat (Chunk s) + d < 2 ^ 64" using g d by (simp add: geom_def)
  then have "unat p = unat (Chunk s) + d"
    using u unat_add_lem [of "Chunk s" "of_nat d"] by (simp add: p_def)
  then show "\<not> p < Chunk s" by (simp add: word_less_nat_alt)
  show "(ucast (p - Chunk s) :: u32) = of_nat d" by (simp add: p_def ucast_of_nat_32)
qed

lemma isValidPtr_offset:
  assumes g: "geom s" and d: "d < 2 ^ (tiers s + 3)"
  shows "isValidPtr s (Chunk s + of_nat d) \<longleftrightarrow> 16 dvd d"
proof -
  note O = chunk_offset [OF g d]
  have "unat (Capacity s) = 2 ^ (tiers s + 3)" using g by (simp add: geom_def)
  then have c: "\<not> Capacity s \<le> (of_nat d :: u32)" using d O(3) by (simp add: word_le_nat_alt)
  have "(of_nat d :: u32) = of_nat d AND push_bit MINSIZE_POWOF2 0xFFFFFFFF \<longleftrightarrow> 16 dvd d"
    using and_high_mask [of MINSIZE_POWOF2 "of_nat d"] O(3) by (simp add: MINSIZE_POWOF2_def)
  with O c show ?thesis by (simp add: isValidPtr_def Let_def)
qed

lemma blockIdOf_offset:
  assumes g: "geom s" and d: "d < 2 ^ (tiers s + 3)" and a: "16 dvd d" and u: "u < tiers s"
  shows "blockIdOf s (of_nat u) (Chunk s + of_nat d) =
     (if bsz (tiers s) u dvd d then of_nat (d div bsz (tiers s) u) else INVALID_VALUE)"
proof -
  note O = chunk_offset [OF g d]
  let ?k = "unat (of_nat MINSIZE_POWOF2 + TierNum s - of_nat u - 1)"
  have k: "?k = tiers s + 3 - u" using tier_shift [OF g u] .
  then have k32: "?k \<le> 32" using geom_bounds(2) [OF g] by simp
  have al: "(of_nat d :: u32) = of_nat d AND push_bit ?k 0xFFFFFFFF \<longleftrightarrow> bsz (tiers s) u dvd d"
    using and_high_mask [OF k32, of "of_nat d"] O(3) k by (simp add: bsz_def)
  have "unat ((of_nat d :: u32) div blockSizeOf s (of_nat u)) = d div bsz (tiers s) u"
    by (simp add: unat_div O(3) unat_blockSizeOf [OF g u])
  then have q: "(of_nat d :: u32) div blockSizeOf s (of_nat u) = of_nat (d div bsz (tiers s) u)"
    by (metis of_nat_unat ucast_id)
  show ?thesis
    using isValidPtr_offset [OF g d] a O al q by (auto simp: blockIdOf_def Let_def)
qed

lemma boff_props:
  assumes g: "geom s" and x: "is_block (tiers s) (t, b)"
  shows "boff (tiers s) (t, b) < 2 ^ (tiers s + 3)" "16 dvd boff (tiers s) (t, b)"
proof -
  have t: "t < tiers s" using x by (simp add: is_block_def)
  show "boff (tiers s) (t, b) < 2 ^ (tiers s + 3)" using boff_bend [OF x] bend_le_total [OF x] by simp
  have "(2::nat) ^ 4 dvd 2 ^ (tiers s + 3 - t)" using t by (intro le_imp_power_dvd) simp
  then show "16 dvd boff (tiers s) (t, b)" by (simp add: boff_def bsz_def)
qed

lemma blockIdOf_block:
  assumes g: "geom s" and x: "is_block (tiers s) (t, b)"
  shows "blockIdOf s (of_nat t) (baddr s (t, b)) = of_nat b"
proof -
  have t: "t < tiers s" using x by (simp add: is_block_def)
  have z: "0 < bsz (tiers s) t" by (simp add: bsz_def)
  show ?thesis
    using blockIdOf_offset [OF g boff_props [OF g x] t] z by (simp add: baddr_def boff_def)
qed

text \<open>On deeper tiers the start of a block in use is the start of an unmarked block.\<close>

lemma locate_loop_skip:
  assumes I: "buddy_inv s" and x: "(t, b) \<in> live s" and k: "t < k" "k \<le> tiers s"
  shows "locate_loop s (baddr s (t, b)) k = Some (of_nat t, of_nat b)"
  using k
proof (induction k)
  case 0
  then show ?case by simp
next
  case (Suc u)
  from I obtain ch where W: "inv_with s ch" by (auto simp: buddy_inv_def)
  note D = inv_withD [OF W]
  let ?n = "tiers s"
  have xb: "is_block ?n (t, b)" using x by (rule live_block)
  have u: "u < ?n" "u < 28" "t \<le> u" using Suc.prems geom_bounds(2) [OF D(1)] by auto
  let ?c = "b * 2 ^ (u - t)"
  have off: "boff ?n (t, b) = ?c * bsz ?n u"
    using bsz_scale [OF u(3,1)] by (simp add: boff_def)
  have z: "0 < bsz ?n u" by (simp add: bsz_def)
  have id: "blockIdOf s (of_nat u) (baddr s (t, b)) = of_nat ?c"
    using blockIdOf_offset [OF D(1) boff_props [OF D(1) xb] u(1)] z by (simp add: baddr_def off)
  have c: "?c < 2 ^ u"
  proof -
    have "?c < 2 ^ t * 2 ^ (u - t)" using xb by (simp add: is_block_def)
    then show ?thesis using u(3) by (simp add: power_add [symmetric])
  qed
  then have cb: "is_block ?n (u, ?c)" using u by (simp add: is_block_def)
  note v = block_id_valid [OF D(1) cb]
  have use: "isBlockInUse s (of_nat u) (of_nat ?c) \<longleftrightarrow> flag s u ?c"
    using isBlockInUse_flag [OF u(2) c] .
  show ?case
  proof (cases "u = t")
    case True
    then have "flag s u ?c" using live_flag [OF x] by simp
    with True id v use show ?thesis by (simp add: Let_def)
  next
    case False
    with u have tu: "t < u" by simp
    have "\<not> flag s u ?c"
    proof
      assume "flag s u ?c"
      moreover have "b = ?c div 2 ^ (u - t)" by simp
      ultimately have "split_block ?n (flag s) t b" using desc_split [OF D(2) tu u(1) c] by blast
      with x show False by (simp add: live_def live_in_def)
    qed
    with id v use Suc.IH tu Suc.prems show ?thesis by (simp add: Let_def)
  qed
qed

lemma locate_live:
  "buddy_inv s \<Longrightarrow> (t, b) \<in> live s \<Longrightarrow> locateBlockInUse s (baddr s (t, b)) = Some (of_nat t, of_nat b)"
  using locate_loop_skip [of s t b "tiers s"] live_block [of "(t, b)" s]
  by (simp add: locateBlockInUse_def tiers_def is_block_def)

end
