(* ===== verification/BuddyUse.thy ===== *)
theory BuddyUse
  imports BuddyLocate
begin

text \<open>
  Facts about the set of blocks in use that the accounting needs: the flags are determined by
  it, its blocks fit into the bulk together, and \<open>available\<close> reads the largest free block off
  the chain heads.
\<close>

section \<open>The flags are determined by the blocks in use\<close>

lemma marked_live_below:
  assumes T: "tree_inv n F" and m: "t < n" "b < 2 ^ t" "F t b"
  shows "\<exists>u c. (u, c) \<in> live_in n F \<and> t \<le> u \<and> b = c div 2 ^ (u - t)"
  using m
proof (induction "n - t" arbitrary: t b)
  case 0
  then show ?case by simp
next
  case (Suc k)
  show ?case
  proof (cases "split_block n F t b")
    case False
    with Suc.prems have "(t, b) \<in> live_in n F" by (simp add: live_in_def)
    then show ?thesis by (intro exI [of _ t] exI [of _ b]) simp
  next
    case True
    then obtain d where d: "F (Suc t) d" "d div 2 = b" "Suc t < n"
      by (auto simp: split_block_def)
    with Suc.prems have "d < 2 ^ Suc t" by auto
    moreover have "k = n - Suc t" using Suc.hyps(2) by simp
    ultimately obtain u c where u: "(u, c) \<in> live_in n F" "Suc t \<le> u" "d = c div 2 ^ (u - Suc t)"
      using Suc.hyps(1) [of "Suc t" d] d by blast
    then have "b = c div 2 ^ (u - t)" using d(2) div_pow_step(2) [of t u c] by simp
    with u show ?thesis by (intro exI [of _ u] exI [of _ c]) simp
  qed
qed

lemma flag_iff_live:
  assumes T: "tree_inv n F" and t: "t < n" "b < 2 ^ t"
  shows "F t b \<longleftrightarrow> (\<exists>u c. (u, c) \<in> live_in n F \<and> t \<le> u \<and> b = c div 2 ^ (u - t))"
proof
  assume "F t b" with marked_live_below [OF T t]
  show "\<exists>u c. (u, c) \<in> live_in n F \<and> t \<le> u \<and> b = c div 2 ^ (u - t)" by blast
next
  assume "\<exists>u c. (u, c) \<in> live_in n F \<and> t \<le> u \<and> b = c div 2 ^ (u - t)"
  then obtain u c where u: "(u, c) \<in> live_in n F" "t \<le> u" "b = c div 2 ^ (u - t)" by blast
  then show "F t b" using tree_inv_anc [OF T u(2), of c] by (simp add: live_in_def)
qed

lemma free_on_live:
  assumes "tree_inv n F" "tree_inv n G" "live_in n F = live_in n G" "t < n"
  shows "free_on F t = free_on G t"
  by (rule free_on_cong) (simp only: flag_iff_live [OF assms(1) assms(4)] flag_iff_live [OF assms(2,4)] assms(3))

text \<open>The converse of \<open>overlap_nested\<close>.\<close>

lemma nested_overlap:
  assumes "t \<le> u" "u < n"
  shows "\<not> disj_blocks n (t, c div 2 ^ (u - t)) (u, c)"
proof -
  let ?k = "2 ^ (u - t) :: nat"
  let ?b = "c div ?k"
  have z: "bsz n t = ?k * bsz n u" using bsz_scale [OF assms] .
  have k: "?b * ?k < Suc c" "c < Suc ?b * ?k"
    using dividend_less_div_times [of ?k c] by (simp_all add: less_Suc_eq_le)
  have p: "0 < bsz n u" by (simp add: bsz_def)
  have "boff n (t, ?b) < bend n (u, c)"
    using mult_less_mono1 [OF k(1) p] by (simp only: boff_def bend_def fst_conv snd_conv z mult.assoc)
  moreover have "boff n (u, c) < bend n (t, ?b)"
    using mult_less_mono1 [OF k(2) p] by (simp only: boff_def bend_def fst_conv snd_conv z mult.assoc)
  ultimately show ?thesis by (auto simp: disj_blocks_def)
qed

text \<open>A block that no block in use overlaps lies in a free one.\<close>

lemma unused_in_free:
  assumes T: "tree_inv n F" and t: "t < n" "b < 2 ^ t"
    and L: "\<And>x. x \<in> live_in n F \<Longrightarrow> disj_blocks n (t, b) x"
  shows "\<exists>u\<le>t. free_on F u \<noteq> {}"
  using t L
proof (induction t arbitrary: b)
  case 0
  have "\<not> F 0 b"
  proof
    assume "F 0 b"
    with marked_live_below [OF T 0(1,2)] obtain u c where u: "(u, c) \<in> live_in n F" "b = c div 2 ^ (u - 0)"
      by blast
    have "\<not> disj_blocks n (0, b) (u, c)" using nested_overlap [of 0 u n c] u by (simp add: live_in_def)
    with 0(3) [OF u(1)] show False by blast
  qed
  then show ?case using 0(2) by (auto simp: free_on_def)
next
  case (Suc t)
  have nm: "\<not> F (Suc t) b"
  proof
    assume "F (Suc t) b"
    with marked_live_below [OF T Suc.prems(1,2)] obtain u c
      where u: "(u, c) \<in> live_in n F" "Suc t \<le> u" "b = c div 2 ^ (u - Suc t)" by blast
    have "\<not> disj_blocks n (Suc t, b) (u, c)" using nested_overlap [OF u(2), of n c] u by (simp add: live_in_def)
    with Suc.prems(3) [OF u(1)] show False by blast
  qed
  show ?case
  proof (cases "F (Suc t) (sib b)")
    case True
    with nm Suc.prems(2) have "b \<in> free_on F (Suc t)" by (simp add: free_on_def)
    then show ?thesis by blast
  next
    case False
    have "disj_blocks n (t, b div 2) x" if x: "x \<in> live_in n F" for x
    proof -
      obtain u c where xe: "x = (u, c)" by fastforce
      have un: "u < n" "c < 2 ^ u" "F u c" using x by (auto simp: xe live_in_def)
      have bd: "b div 2 < 2 ^ t" using Suc.prems(2) by simp
      show ?thesis
      proof (rule ccontr)
        assume nd: "\<not> disj_blocks n (t, b div 2) x"
        consider "u \<le> t" | "t < u" by linarith
        then show False
        proof cases
          case 1
          with nd have e: "c = b div 2 div 2 ^ (t - u)"
            using overlap_nested [of u t n c "b div 2"] Suc.prems(1) disj_blocks_sym by (auto simp: xe)
          then have e2: "c = b div 2 ^ (Suc t - u)" using 1 div_pow_step(1) [of u "Suc t" b] by simp
          have "disj_blocks n (Suc t, b) (u, c)" using Suc.prems(3) x xe by blast
          moreover have "\<not> disj_blocks n (Suc t, b) (u, c)"
            using nested_overlap [of u "Suc t" n b] 1 Suc.prems(1) e2 disj_blocks_sym by simp
          ultimately show False by blast
        next
          case 2
          with nd have e: "b div 2 = c div 2 ^ (u - t)"
            using overlap_nested [of t u n "b div 2" c] un by (auto simp: xe)
          then have "F (Suc t) (c div 2 ^ (u - Suc t))" using tree_inv_anc [OF T, of "Suc t" u c] 2 un by simp
          moreover have "c div 2 ^ (u - Suc t) div 2 = b div 2" using e div_pow_step(2) [OF 2, of c] by simp
          ultimately show False using same_half [of "c div 2 ^ (u - Suc t)" b] nm False by auto
        qed
      qed
    qed
    with Suc.IH [of "b div 2"] Suc.prems(1) half_lt [OF Suc.prems(2)] obtain u where "u \<le> t" "free_on F u \<noteq> {}" by auto
    then show ?thesis by (intro exI [of _ u]) simp
  qed
qed

section \<open>The blocks in use fit together\<close>

definition bytes_in :: "nat \<Rightarrow> (nat \<times> nat) set \<Rightarrow> nat" where
  "bytes_in n L = (\<Sum>x\<in>L. bsz n (fst x))"

lemma finite_blocks: "(\<And>x. x \<in> L \<Longrightarrow> is_block n x) \<Longrightarrow> finite L"
proof -
  assume b: "\<And>x. x \<in> L \<Longrightarrow> is_block n x"
  have "x \<in> {..<n} \<times> {..<2 ^ n}" if "x \<in> L" for x
    using b [OF that] less_le_trans [OF _ power_increasing [of "fst x" n "2::nat"]]
    by (cases x) (auto simp: is_block_def)
  then show ?thesis by (blast intro: finite_subset [of L "{..<n} \<times> {..<2 ^ n}"])
qed

lemma finite_live: "finite (live s)"
  by (rule finite_blocks) (rule live_block)

lemma bytes_in_le:
  assumes b: "\<And>x. x \<in> L \<Longrightarrow> is_block n x"
    and d: "\<And>x y. x \<in> L \<Longrightarrow> y \<in> L \<Longrightarrow> x \<noteq> y \<Longrightarrow> disj_blocks n x y"
  shows "bytes_in n L \<le> 2 ^ (n + 3)"
proof -
  let ?I = "\<lambda>x. {boff n x..<bend n x}"
  have f: "finite L" using b by (rule finite_blocks)
  have "card (?I x) = bsz n (fst x)" for x by (simp add: boff_def bend_def)
  then have "bytes_in n L = (\<Sum>x\<in>L. card (?I x))" by (simp add: bytes_in_def)
  also have "\<dots> = card (\<Union>x\<in>L. ?I x)"
    using d by (intro card_UN_disjoint [symmetric] f) (auto simp: disj_blocks_def; fastforce)+
  also have "\<dots> \<le> card {..<2 ^ (n + 3) :: nat}"
    using bend_le_total [OF b] by (intro card_mono) fastforce+
  finally show ?thesis by simp
qed

lemma bytes_in_insert: "finite L \<Longrightarrow> x \<notin> L \<Longrightarrow> bytes_in n (insert x L) = bsz n (fst x) + bytes_in n L"
  by (simp add: bytes_in_def)

lemma bytes_in_remove: "finite L \<Longrightarrow> x \<in> L \<Longrightarrow> bytes_in n L = bsz n (fst x) + bytes_in n (L - {x})"
  by (simp add: bytes_in_def sum.remove)

lemma live_bytes_le: "buddy_inv s \<Longrightarrow> bytes_in (tiers s) (live s) \<le> 2 ^ (tiers s + 3)"
  by (rule bytes_in_le) (auto intro: live_block live_disjoint)

section \<open>What is available\<close>

lemma head_free:
  assumes "buddy_inv s" "t < tiers s"
  shows "FreeChainHead s ! t = 0 \<longleftrightarrow> free_on (flag s) t = {}"
proof -
  from assms(1) obtain ch where I: "inv_with s ch" by (auto simp: buddy_inv_def)
  from inv_withD(4) [OF I assms(2)] head_null_iff [OF I assms(2)] show ?thesis by auto
qed

lemma available_loop_spec:
  assumes I: "buddy_inv s" and "t + k = tiers s"
  shows "available_loop s t k = (if \<exists>u. t \<le> u \<and> u < tiers s \<and> free_on (flag s) u \<noteq> {}
     then blockSizeOf s (of_nat (LEAST u. t \<le> u \<and> free_on (flag s) u \<noteq> {})) else 0)"
  using assms(2)
proof (induction k arbitrary: t)
  case 0
  then show ?case by auto
next
  case (Suc k)
  then have t: "t < tiers s" by simp
  show ?case
  proof (cases "free_on (flag s) t = {}")
    case True
    then have e: "t \<le> u \<and> free_on (flag s) u \<noteq> {} \<longleftrightarrow> Suc t \<le> u \<and> free_on (flag s) u \<noteq> {}" for u
      by (auto simp: Suc_le_eq order_less_le)
    then have e': "(\<exists>u. t \<le> u \<and> u < tiers s \<and> free_on (flag s) u \<noteq> {}) \<longleftrightarrow>
        (\<exists>u. Suc t \<le> u \<and> u < tiers s \<and> free_on (flag s) u \<noteq> {})" by blast
    show ?thesis unfolding e e' using Suc.IH [of "Suc t"] Suc.prems head_free [OF I t] True by simp
  next
    case False
    then have "(LEAST u. t \<le> u \<and> free_on (flag s) u \<noteq> {}) = t" by (intro Least_equality) auto
    then show ?thesis using False head_free [OF I t] t by auto
  qed
qed

text \<open>
  The smallest tier with a free block; \<open>available\<close> is the size of its blocks, and a request
  finds a free block on its own tier or above exactly when it is not larger than that.
\<close>

lemma available_spec:
  assumes I: "buddy_inv s"
  shows "(\<forall>u<tiers s. free_on (flag s) u = {}) \<Longrightarrow> buddy_available s = 0"
    and "has_free s u \<Longrightarrow> u < tiers s \<Longrightarrow> \<exists>v\<le>u. free_on (flag s) v \<noteq> {} \<and>
      (\<forall>w<v. free_on (flag s) w = {}) \<and> unat (buddy_available s) = bsz (tiers s) v"
proof -
  from I have g: "geom s" by (auto simp: buddy_inv_def inv_with_def)
  have A: "buddy_available s = (if \<exists>u<tiers s. free_on (flag s) u \<noteq> {}
     then blockSizeOf s (of_nat (LEAST u. free_on (flag s) u \<noteq> {})) else 0)"
    unfolding buddy_available_def tiers_def [symmetric]
    using available_loop_spec [OF I, of 0 "tiers s"] by (simp cong: if_cong)
  show "(\<forall>u<tiers s. free_on (flag s) u = {}) \<Longrightarrow> buddy_available s = 0" using A by auto
  assume h: "has_free s u" and u: "u < tiers s"
  then obtain w where w: "w \<le> u" "free_on (flag s) w \<noteq> {}" by (auto simp: has_free_def)
  let ?v = "LEAST u. free_on (flag s) u \<noteq> {}"
  have v: "free_on (flag s) ?v \<noteq> {}" using w(2) by (rule LeastI)
  have vw: "?v \<le> w" using w(2) by (rule Least_le)
  have "\<forall>w<?v. free_on (flag s) w = {}" using not_less_Least [where P = "\<lambda>u. free_on (flag s) u \<noteq> {}"] by blast
  moreover have "unat (buddy_available s) = bsz (tiers s) ?v"
  proof -
    have "?v < tiers s" using vw w(1) u by simp
    then show ?thesis using A v unat_blockSizeOf [OF g, of ?v] by (simp only: if_P) auto
  qed
  moreover have "?v \<le> u" using vw w(1) by simp
  ultimately show "\<exists>v\<le>u. free_on (flag s) v \<noteq> {} \<and> (\<forall>w<v. free_on (flag s) w = {}) \<and>
      unat (buddy_available s) = bsz (tiers s) v"
    using v by blast
qed

end
