(* ===== verification/BuddySpec.thy ===== *)
theory BuddySpec
  imports BuddyUse
begin

text \<open>
  The public operations of the buddy allocator: their invariant, which adds the accounting of
  \<open>UsedBytes\<close> to the one of BuddyInv, and what each call returns, does to the set of blocks in
  use and leaves in memory.
\<close>

definition buddy_ok :: "buddy \<Rightarrow> bool" where
  "buddy_ok s \<longleftrightarrow> buddy_inv s \<and> unat (UsedBytes s) = bytes_in (tiers s) (live s)"

text \<open>The bytes of the blocks \<open>L\<close> and those outside of the bulk are the same in both states.\<close>

definition keeps :: "buddy \<Rightarrow> buddy \<Rightarrow> (nat \<times> nat) set \<Rightarrow> bool" where
  "keeps s s' L \<longleftrightarrow> Capacity s' = Capacity s \<and> Chunk s' = Chunk s \<and> TierNum s' = TierNum s \<and>
     (\<forall>a. (\<exists>y\<in>L. in_block s y a) \<or> 2 ^ (tiers s + 3) \<le> unat (a - Chunk s) \<longrightarrow> bmem s' a = bmem s a)"

lemma buddy_okD: "buddy_ok s \<Longrightarrow> buddy_inv s" "buddy_ok s \<Longrightarrow> geom s"
  by (auto simp: buddy_ok_def buddy_inv_def inv_with_def)

lemma keepsD:
  assumes "keeps s s' L"
  shows "tiers s' = tiers s" "Chunk s' = Chunk s" "TierNum s' = TierNum s" "Capacity s' = Capacity s"
    "baddr s' = baddr s" "in_block s' = in_block s" "blockSizeOf s' = blockSizeOf s"
    "tierOf s' = tierOf s" "blockIdOf s' = blockIdOf s"
    "y \<in> L \<Longrightarrow> in_block s y a \<Longrightarrow> bmem s' a = bmem s a"
    "2 ^ (tiers s + 3) \<le> unat (a - Chunk s) \<Longrightarrow> bmem s' a = bmem s a"
  using assms
  by (auto simp: keeps_def baddr_def in_block_def blockSizeOf_def tierOf_def blockIdOf_def
      isValidPtr_def tiers_def fun_eq_iff Let_def)

lemma keeps_refl [simp]: "keeps s s L"
  by (simp add: keeps_def)

lemma keeps_trans:
  assumes "keeps s s' L" "keeps s' s'' M" "L \<subseteq> M"
  shows "keeps s s'' L"
  using keepsD [OF assms(1)] keepsD [OF assms(2)] assms(3) unfolding keeps_def by (metis subsetD)

lemma keeps_mono: "keeps s s' L \<Longrightarrow> M \<subseteq> L \<Longrightarrow> keeps s s' M"
  by (auto simp: keeps_def)

lemma frame_keeps: "frame s s' L \<Longrightarrow> keeps s s' L"
  by (auto simp: frame_def keeps_def same_static_def)

text \<open>The accounting fields do not matter for the structure.\<close>

lemma accounting_views:
  "flag (s\<lparr>UsedBytes := u\<rparr>) = flag s" "flag (s\<lparr>HWMBytes := u\<rparr>) = flag s"
  "raddr (s\<lparr>UsedBytes := u\<rparr>) = raddr s" "raddr (s\<lparr>HWMBytes := u\<rparr>) = raddr s"
  "PV (s\<lparr>UsedBytes := u\<rparr>) = PV s" "PV (s\<lparr>HWMBytes := u\<rparr>) = PV s"
  "NX (s\<lparr>UsedBytes := u\<rparr>) = NX s" "NX (s\<lparr>HWMBytes := u\<rparr>) = NX s"
  by (simp_all add: fun_eq_iff flag_def tiers_def raddr_def PV_def NX_def fbr_Prev_def fbr_Next_def)

lemma buddy_inv_accounting [simp]:
  "buddy_inv (s\<lparr>UsedBytes := u\<rparr>) = buddy_inv s" "buddy_inv (s\<lparr>HWMBytes := u\<rparr>) = buddy_inv s"
  "live (s\<lparr>UsedBytes := u\<rparr>) = live s" "live (s\<lparr>HWMBytes := u\<rparr>) = live s"
  "keeps s' (s\<lparr>UsedBytes := u\<rparr>) L = keeps s' s L" "keeps s' (s\<lparr>HWMBytes := u\<rparr>) L = keeps s' s L"
  "tiers (s\<lparr>UsedBytes := u\<rparr>) = tiers s" "tiers (s\<lparr>HWMBytes := u\<rparr>) = tiers s"
  "blockSizeOf (s\<lparr>UsedBytes := u\<rparr>) = blockSizeOf s" "blockSizeOf (s\<lparr>HWMBytes := u\<rparr>) = blockSizeOf s"
  "baddr (s\<lparr>UsedBytes := u\<rparr>) = baddr s" "baddr (s\<lparr>HWMBytes := u\<rparr>) = baddr s"
  by (simp_all add: buddy_inv_def inv_with_def geom_def chains_def live_def tiers_def accounting_views
      keeps_def blockSizeOf_def baddr_def fun_eq_iff)

section \<open>Construction\<close>

lemma buddy_grow_spec:
  assumes "1 \<le> k" "k \<le> 27"
  shows "\<exists>m. buddy_grow sz (of_nat (2 ^ (k + 3))) (of_nat k) = Some (of_nat (2 ^ (m + 3)), of_nat m) \<and>
     k \<le> m \<and> m \<le> 28 \<and> (m = 28 \<or> unat sz \<le> 2 ^ (m + 3)) \<and> (m = k \<or> 2 ^ (m + 2) < unat sz)"
  using assms
proof (induction "27 - k" arbitrary: k)
  case 0
  then have k: "k = 27" by simp
  have less: "(of_nat (2 ^ (k + 3)) :: u32) < sz \<longleftrightarrow> 2 ^ (k + 3) < unat sz"
    by (simp add: word_less_nat_alt unat_of_nat32 k)
  show ?case
  proof (cases "2 ^ (k + 3) < unat sz")
    case True
    with less have "buddy_grow sz (of_nat (2 ^ (k + 3))) (of_nat k) = Some (of_nat (2 ^ (28 + 3)), of_nat 28)"
      by (subst buddy_grow.simps) (simp add: k MAXSIZE_POWOF2_def push_bit_eq_mult)
    with True show ?thesis by (intro exI [of _ 28]) (simp add: k)
  next
    case False
    with less have "buddy_grow sz (of_nat (2 ^ (k + 3))) (of_nat k) = Some (of_nat (2 ^ (k + 3)), of_nat k)"
      by (subst buddy_grow.simps) simp
    with False show ?thesis by (intro exI [of _ k]) (simp add: k)
  qed
next
  case (Suc j)
  then have k: "k < 27" by simp
  have p: "(2::nat) ^ (k + 3) < 2 ^ 32" using k by (intro power_strict_increasing) auto
  then have less: "(of_nat (2 ^ (k + 3)) :: u32) < sz \<longleftrightarrow> 2 ^ (k + 3) < unat sz"
    by (simp only: word_less_nat_alt unat_of_nat32)
  show ?case
  proof (cases "2 ^ (k + 3) < unat sz")
    case True
    have db: "push_bit 1 (of_nat (2 ^ (k + 3)) :: u32) = of_nat (2 ^ (Suc k + 3))"
      by (simp add: push_bit_eq_mult power_add)
    have "(2::nat) ^ (Suc k + 3) < 2 ^ 31" using k by (intro power_strict_increasing) auto
    then have ne: "push_bit MAXSIZE_POWOF2 1 \<noteq> (of_nat (2 ^ (Suc k + 3)) :: u32)"
      by (simp only: word_eq_unat_iff MAXSIZE_POWOF2_def unat_push_bit1_32) (subst unat_of_nat32; simp)
    have t: "(of_nat k + 1 :: u32) = of_nat (Suc k)" by simp
    have "buddy_grow sz (of_nat (2 ^ (k + 3))) (of_nat k) = buddy_grow sz (of_nat (2 ^ (Suc k + 3))) (of_nat (Suc k))"
      by (subst buddy_grow.simps) (simp only: Let_def less True if_True db t ne if_False)
    moreover have "j = 27 - Suc k" "1 \<le> Suc k" "Suc k \<le> 27" using Suc.hyps(2) k by auto
    from Suc.hyps(1) [OF this] obtain m where "buddy_grow sz (of_nat (2 ^ (Suc k + 3))) (of_nat (Suc k)) =
        Some (of_nat (2 ^ (m + 3)), of_nat m)" "Suc k \<le> m" "m \<le> 28"
      "m = 28 \<or> unat sz \<le> 2 ^ (m + 3)" "m = Suc k \<or> 2 ^ (m + 2) < unat sz"
      by blast
    moreover have "Suc k + 2 = k + 3" by simp
    with True have "2 ^ (Suc k + 2) < unat sz" by (simp only:)
    ultimately show ?thesis by (intro exI [of _ m]) (metis Suc_leD)
  next
    case False
    with less have "buddy_grow sz (of_nat (2 ^ (k + 3))) (of_nat k) = Some (of_nat (2 ^ (k + 3)), of_nat k)"
      by (subst buddy_grow.simps) simp
    with False k show ?thesis by (intro exI [of _ k]) simp
  qed
qed

text \<open>The state the constructor hands to \<open>recycle\<close>: the whole bulk is one block in use.\<close>

definition buddy_fresh :: "nat \<Rightarrow> ptr \<Rightarrow> memory \<Rightarrow> buddy" where
  "buddy_fresh n chunk m =
     \<lparr>Capacity = of_nat (2 ^ (n + 3)), Chunk = chunk,
      FlagsLen = push_bit (if (of_nat n :: u32) \<le> 3 then 0 else unat (of_nat n - 3 :: u32)) 1,
      Flags = replicate (unat (push_bit (if (of_nat n :: u32) \<le> 3 then 0 else unat (of_nat n - 3 :: u32)) 1 :: u32)) 0,
      TierNum = of_nat n, FreeChainHead = replicate (unat (of_nat n :: u32)) 0,
      UsedBytes = 0, HWMBytes = 0, bmem = m\<rparr>"

lemma buddy_fresh_fields:
  assumes "1 \<le> n" "n \<le> 28" "chunk \<noteq> 0" "unat chunk + 2 ^ (n + 3) \<le> 2 ^ 64"
  shows "tiers (buddy_fresh n chunk m) = n" "geom (buddy_fresh n chunk m)"
    "t < n \<Longrightarrow> b < 2 ^ t \<Longrightarrow> \<not> flag (buddy_fresh n chunk m) t b"
    "t < n \<Longrightarrow> FreeChainHead (buddy_fresh n chunk m) ! t = 0"
proof -
  have n: "unat (of_nat n :: u32) = n" using assms(2) by (intro unat_of_nat32) simp
  show T: "tiers (buddy_fresh n chunk m) = n" by (simp add: tiers_def buddy_fresh_def n)
  have l3: "(of_nat n :: u32) \<le> 3 \<longleftrightarrow> n \<le> 3" by (simp add: word_le_nat_alt n)
  have m3: "3 < n \<Longrightarrow> unat (of_nat n - 3 :: u32) = n - 3" using n l3 by (simp add: unat_sub)
  have len: "length (Flags (buddy_fresh n chunk m)) = (if n \<le> 3 then 1 else 2 ^ (n - 3))"
    using m3 unat_push_bit1_32 [of "n - 3"] assms(2) by (simp add: buddy_fresh_def l3 del: push_bit_of_1)
  have "(2::nat) ^ n \<le> 8 * length (Flags (buddy_fresh n chunk m))"
  proof (cases "n \<le> 3")
    case True
    then have "(2::nat) ^ n \<le> 2 ^ 3" by (intro power_increasing) auto
    with True len show ?thesis by simp
  next
    case False
    then have "(2::nat) ^ n = 2 ^ 3 * 2 ^ (n - 3)" using power_add [of "2::nat" 3 "n - 3"] by simp
    with False len show ?thesis by simp
  qed
  moreover have "(2::nat) ^ (n + 3) < 2 ^ 32" using assms(2) by (intro power_strict_increasing) auto
  then have "unat (of_nat (2 ^ (n + 3)) :: u32) = 2 ^ (n + 3)" by (rule unat_of_nat32)
  ultimately show "geom (buddy_fresh n chunk m)"
    unfolding geom_def T using assms by (simp add: buddy_fresh_def n)
  { assume t: "t < n" "b < 2 ^ t"
    have "2 ^ t + b < 2 ^ n" using t by (rule tier_index_bound)
    then have "(2 ^ t + b) div 8 < length (Flags (buddy_fresh n chunk m))"
      using \<open>2 ^ n \<le> 8 * length _\<close> by (simp add: less_mult_imp_div_less mult.commute)
    then show "\<not> flag (buddy_fresh n chunk m) t b" by (simp add: flag_def buddy_fresh_def) }
  show "t < n \<Longrightarrow> FreeChainHead (buddy_fresh n chunk m) ! t = 0" by (simp add: buddy_fresh_def n)
qed

lemma buddy_fresh_inv:
  fixes m :: memory
  assumes n: "1 \<le> n" "n \<le> 28" "chunk \<noteq> 0" "unat chunk + 2 ^ (n + 3) \<le> 2 ^ 64"
  defines "s \<equiv> setBlockInUse 0 0 True (buddy_fresh n chunk m)"
  shows "buddy_inv s" "live s = {(0, 0)}"
proof -
  let ?f = "buddy_fresh n chunk m"
  note F = buddy_fresh_fields [OF n]
  have x: "is_block (tiers ?f) (0, 0)" using n F(1) by (simp add: is_block_def)
  have T: "tiers s = n" by (simp add: s_def frame_simps F(1))
  have fl: "flag s t b \<longleftrightarrow> (t, b) = (0, 0)" if "t < n" "b < 2 ^ t" for t b
    using flag_setBlockInUse [OF F(2) x, of t b True] F(3) [OF that] that F(1)
    by (auto simp: s_def is_block_def)
  have tr: "tree_inv n (flag s)" using fl by (auto simp: tree_inv_def)
  have fr: "free_on (flag s) t = {}" if "t < n" for t
  proof -
    have "\<not> (b < 2 ^ t \<and> \<not> flag s t b \<and> (t = 0 \<or> flag s t (sib b)))" for b
      using fl [OF that, of b] fl [OF that, of "sib b"] sib_less [of t b] by (cases "t = 0"; cases "b = 0") auto
    then show ?thesis by (auto simp: free_on_def)
  qed
  have "split_block n (flag s) 0 0 = False" using fl by (auto simp: split_block_def)
  then show "live s = {(0, 0)}" using fl n(1) by (auto simp: live_def live_in_def T)
  have "chains s (\<lambda>_. [])" using F(4) by (simp add: chains_def T) (simp add: s_def frame_simps)
  then have "inv_with s (\<lambda>_. [])"
    using tr fr F(2) T by (simp add: inv_with_def) (simp add: s_def geom_setBlockInUse)
  then show "buddy_inv s" by (auto simp: buddy_inv_def)
qed

lemma buddy_ctor_spec:
  assumes c: "chunk \<noteq> 0" "unat chunk + 2 ^ 31 \<le> 2 ^ 64"
  shows "\<exists>s n. buddy_ctor sz chunk m = Some s \<and> buddy_ok s \<and> live s = {} \<and> tiers s = n \<and> Chunk s = chunk \<and>
     UsedBytes s = 0 \<and> HWMBytes s = 0 \<and> unat (Capacity s) = 2 ^ (n + 3) \<and> 1 \<le> n \<and> n \<le> 28 \<and>
     (n = 28 \<or> unat sz \<le> 2 ^ (n + 3)) \<and> (n = 1 \<or> 2 ^ (n + 2) < unat sz)"
proof -
  have p16: "(push_bit MINSIZE_POWOF2 1 :: u32) = of_nat (2 ^ (1 + 3))"
    by (simp add: MINSIZE_POWOF2_def push_bit_eq_mult)
  from buddy_grow_spec [of 1 sz] obtain n where
    gr: "buddy_grow sz (push_bit MINSIZE_POWOF2 1) 1 = Some (of_nat (2 ^ (n + 3)), of_nat n)"
    and n: "1 \<le> n" "n \<le> 28" "n = 28 \<or> unat sz \<le> 2 ^ (n + 3)" "n = 1 \<or> 2 ^ (n + 2) < unat sz"
    unfolding p16 by auto
  have "(2::nat) ^ (n + 3) \<le> 2 ^ 31" using n by (intro power_increasing) auto
  with c have c2: "unat chunk + 2 ^ (n + 3) \<le> 2 ^ 64" by simp
  let ?start = "setBlockInUse 0 0 True (buddy_fresh n chunk m)"
  let ?s = "buddy_recycle ?start (of_nat 0) (of_nat 0)"
  note F = buddy_fresh_fields [OF n(1,2) c(1) c2]
  note I = buddy_fresh_inv [OF n(1,2) c(1) c2]
  have R: "buddy_inv ?s" "live ?s = {}" "frame ?start ?s {}"
    using recycle_spec [OF I(1), of 0 0 m] unfolding I(2) by simp_all
  have ctor: "buddy_ctor sz chunk m = Some ?s"
    unfolding buddy_ctor_def gr buddy_fresh_def Let_def by simp
  have st: "tiers ?s = n" "Chunk ?s = chunk" "UsedBytes ?s = 0" "HWMBytes ?s = 0"
    using R(3) F(1) by (simp_all add: frame_def same_static_def tiers_def frame_simps)
      (simp_all add: buddy_fresh_def setBlockInUse_def Let_def)
  moreover have "geom ?s" using R(1) by (auto simp: buddy_inv_def inv_with_def)
  then have "unat (Capacity ?s) = 2 ^ (n + 3)" using st(1) by (simp add: geom_def)
  ultimately show ?thesis
    using ctor R n by (intro exI [of _ ?s] exI [of _ n]) (simp add: buddy_ok_def bytes_in_def)
qed

end
