(* ===== verification/BuddyCalls.thy ===== *)
theory BuddyCalls
  imports BuddySpec
begin

text \<open>
  What each public call of the buddy allocator does, for every state that satisfies
  \<open>buddy_ok\<close>: alloc, dealloc, free, realloc and calloc, and the writes of the client to the
  blocks it holds.
\<close>

section \<open>Writes of the client\<close>

lemma in_block_offset:
  "d < 2 ^ 64 \<Longrightarrow> in_block s x (Chunk s + of_nat d) \<longleftrightarrow> boff (tiers s) x \<le> d \<and> d < bend (tiers s) x"
  by (simp add: in_block_def unat_of_nat64)

lemma in_block_baddr:
  assumes g: "geom s" and x: "is_block (tiers s) x" and i: "i < bsz (tiers s) (fst x)"
  shows "in_block s x (baddr s x + of_nat i)"
proof -
  have "boff (tiers s) x + i < bend (tiers s) x" using i by (simp add: boff_def bend_def)
  moreover have "bend (tiers s) x \<le> 2 ^ 31" using bend_le_total [OF x] geom_bounds(4) [OF g] by simp
  ultimately show ?thesis
    using in_block_offset [of "boff (tiers s) x + i" s x] by (simp add: baddr_def add.assoc)
qed

lemma client_write_inv:
  assumes I: "inv_with s ch" and m: "\<And>a. (\<And>y. y \<in> live s \<Longrightarrow> \<not> in_block s y a) \<Longrightarrow> m' a = bmem s a"
  shows "inv_with (s\<lparr>bmem := m'\<rparr>) ch" "live (s\<lparr>bmem := m'\<rparr>) = live s"
proof -
  let ?s' = "s\<lparr>bmem := m'\<rparr>"
  note D = inv_withD [OF I]
  have V: "tiers ?s' = tiers s" "flag ?s' = flag s" "raddr ?s' = raddr s" "geom ?s' = geom s"
    by (simp_all add: tiers_def flag_def raddr_def geom_def fun_eq_iff)
  show "live ?s' = live s" by (simp add: live_def V)
  have F: "PV ?s' t b = PV s t b \<and> NX ?s' t b = NX s t b" if t: "t < tiers s" and b: "b \<in> set (ch t)" for t b
  proof -
    have c: "(t, b) \<in> cells (tiers s) ch" using t b by (rule cells_I)
    then have lf: "(t, b) \<in> leaves (tiers s) (flag s)" using cells_leaves [OF I] by blast
    then have x: "is_block (tiers s) (t, b)" by (rule leaf_is_block)
    have e: "m' (raddr s t b + of_nat k) = bmem s (raddr s t b + of_nat k)" if "k < 16" for k
    proof (rule m)
      fix y assume y: "y \<in> live s"
      let ?d = "bend (tiers s) (t, b) - 16 + k"
      have B: "boff (tiers s) (t, b) + 16 \<le> bend (tiers s) (t, b)" "bend (tiers s) (t, b) \<le> 2 ^ 31"
        using boff_bend [OF x] bend_le_total [OF x] geom_bounds(4) [OF D(1)] by simp_all
      then have "boff (tiers s) (t, b) \<le> ?d" "?d < bend (tiers s) (t, b)" "?d < 2 ^ 64" using that by auto
      then have "in_block s (t, b) (raddr s t b + of_nat k)"
        using in_block_offset [of ?d s "(t, b)"] by (simp only: raddr_def add.assoc of_nat_add simp_thms)
      moreover have "(t, b) \<noteq> y" using live_not_cell [OF I y] c by blast
      then have "disj_blocks (tiers s) (t, b) y"
        using leaves_disjoint [OF D(2) lf] y live_leaves by blast
      ultimately show "\<not> in_block s y (raddr s t b + of_nat k)" using in_one_block by blast
    qed
    have "load64 m' (raddr s t b) = load64 (bmem s) (raddr s t b)"
      by (rule load64_cong) (simp add: e)
    moreover have "load64 m' (raddr s t b + 8) = load64 (bmem s) (raddr s t b + 8)"
      by (rule load64_cong) (use e [of "8 + _"] in \<open>simp add: add.assoc\<close>)
    ultimately show ?thesis by (simp add: PV_def NX_def fbr_Prev_def fbr_Next_def V)
  qed
  have "chains ?s' ch"
    unfolding chains_def V
  proof (intro allI impI)
    fix t assume t: "t < tiers s"
    note C = chainsD [OF D(3) t]
    have "dll (raddr s t) (PV ?s' t) (NX ?s' t) 0 (ch t) 0"
      using C(2) dll_cong [of "ch t" "PV s t" "PV ?s' t" "NX s t" "NX ?s' t"] F [OF t] by metis
    then show "FreeChainHead ?s' ! t = hdp (raddr s t) (ch t) 0 \<and>
       dll (raddr s t) (PV ?s' t) (NX ?s' t) 0 (ch t) 0 \<and> distinct (ch t)" using C by simp
  qed
  then show "inv_with ?s' ch" using I V by (simp add: inv_with_def)
qed

lemma client_write:
  assumes ok: "buddy_ok s" and m: "\<And>a. (\<And>y. y \<in> live s \<Longrightarrow> \<not> in_block s y a) \<Longrightarrow> m' a = bmem s a"
  shows "buddy_ok (s\<lparr>bmem := m'\<rparr>)" "live (s\<lparr>bmem := m'\<rparr>) = live s"
proof -
  from buddy_okD(1) [OF ok] obtain ch where I: "inv_with s ch" by (auto simp: buddy_inv_def)
  note W = client_write_inv [OF I m]
  show "live (s\<lparr>bmem := m'\<rparr>) = live s" using W(2) by blast
  then show "buddy_ok (s\<lparr>bmem := m'\<rparr>)" using W(1) ok by (auto simp: buddy_ok_def buddy_inv_def tiers_def)
qed

section \<open>alloc\<close>

text \<open>The tier that serves a request: the smallest blocks that are large enough.\<close>

definition best_tier :: "buddy \<Rightarrow> u32 \<Rightarrow> nat \<Rightarrow> bool" where
  "best_tier s sz t \<longleftrightarrow> t < tiers s \<and> unat sz \<le> bsz (tiers s) t \<and>
     (\<forall>u. t < u \<and> u < tiers s \<longrightarrow> bsz (tiers s) u < unat sz)"

lemma tierOf_best:
  "geom s \<Longrightarrow> best_tier s sz t \<Longrightarrow> tierOf s sz = of_nat t"
proof -
  assume g: "geom s" and b: "best_tier s sz t"
  then have "unat sz \<le> 2 ^ (tiers s + 3)"
    using bsz_le_cap [of t "tiers s"] by (simp add: best_tier_def)
  from tierOf_spec(2) [OF g this] obtain v where v: "v < tiers s" "tierOf s sz = of_nat v" "unat sz \<le> bsz (tiers s) v"
    "\<forall>u. v < u \<and> u < tiers s \<longrightarrow> bsz (tiers s) u < unat sz" by blast
  have "v = t" using b v unfolding best_tier_def by (metis linorder_neqE_nat not_le)
  with v show ?thesis by simp
qed

lemma has_free_available:
  assumes I: "buddy_inv s" and b: "best_tier s sz t"
  shows "has_free s t \<longleftrightarrow> buddy_available s \<noteq> 0 \<and> sz \<le> buddy_available s"
proof
  assume h: "has_free s t"
  from available_spec(2) [OF I h] b obtain v where v: "v \<le> t" "unat (buddy_available s) = bsz (tiers s) v"
    by (auto simp: best_tier_def)
  then have "unat sz \<le> unat (buddy_available s)"
    using b bsz_mono [of v t "tiers s"] by (simp add: best_tier_def)
  moreover have "0 < bsz (tiers s) v" by (simp add: bsz_def)
  ultimately show "buddy_available s \<noteq> 0 \<and> sz \<le> buddy_available s"
    using v by (auto simp: word_le_nat_alt)
next
  assume a: "buddy_available s \<noteq> 0 \<and> sz \<le> buddy_available s"
  then obtain u where u: "u < tiers s" "free_on (flag s) u \<noteq> {}" using available_spec(1) [OF I] by blast
  then have "has_free s u" by (auto simp: has_free_def)
  from available_spec(2) [OF I this u(1)] obtain v where v: "v \<le> u" "free_on (flag s) v \<noteq> {}"
    "unat (buddy_available s) = bsz (tiers s) v" by auto
  have "\<not> t < v"
  proof
    assume "t < v"
    then have "bsz (tiers s) v < unat sz" using b v u by (simp add: best_tier_def)
    with a v show False by (simp add: word_le_nat_alt)
  qed
  with v show "has_free s t" by (auto simp: has_free_def)
qed

text \<open>The two outcomes of \<open>alloc\<close>.\<close>

definition alloc_fails :: "buddy \<Rightarrow> u32 \<Rightarrow> bool" where
  "alloc_fails s sz \<longleftrightarrow> buddy_available s = 0 \<or> buddy_available s < sz"

lemma available_le_cap: "buddy_inv s \<Longrightarrow> unat (buddy_available s) \<le> 2 ^ (tiers s + 3)"
proof -
  assume I: "buddy_inv s"
  show ?thesis
  proof (cases "\<forall>u<tiers s. free_on (flag s) u = {}")
    case True
    then show ?thesis using available_spec(1) [OF I] by simp
  next
    case False
    then obtain u where u: "u < tiers s" "has_free s u" by (auto simp: has_free_def)
    with available_spec(2) [OF I u(2,1)] bsz_le_cap [of _ "tiers s"] show ?thesis
      by (metis le_less_trans)
  qed
qed

lemma alloc_fail:
  assumes ok: "buddy_ok s" and f: "alloc_fails s sz"
  shows "buddy_alloc s sz = (s, 0)"
proof (cases "unat sz \<le> 2 ^ (tiers s + 3)")
  case False
  then have "tierOf s sz = INVALID_VALUE" using tierOf_spec(1) [OF buddy_okD(2) [OF ok]] by simp
  then show ?thesis by (simp add: buddy_alloc_def)
next
  case True
  note I = buddy_okD [OF ok]
  from tierOf_spec(2) [OF I(2) True] obtain t where t: "t < tiers s" "tierOf s sz = of_nat t"
    and b: "best_tier s sz t" by (auto simp: best_tier_def)
  have "\<not> has_free s t" using has_free_available [OF I(1) b] f by (auto simp: alloc_fails_def)
  then have "buddy_obtain s (of_nat t) = (s, INVALID_VALUE)" using obtain_spec [OF I(1) t(1)] by simp
  then show ?thesis using t(2) by (simp add: buddy_alloc_def Let_def)
qed

lemma alloc_succeeds:
  assumes ok: "buddy_ok s" and f: "\<not> alloc_fails s sz"
  obtains s' t b where "buddy_alloc s sz = (s', baddr s (t, b))" "best_tier s sz t" "is_block (tiers s) (t, b)"
    "buddy_ok s'" "live s' = insert (t, b) (live s)" "(t, b) \<notin> live s" "keeps s s' (live s)"
    "HWMBytes s' = max (HWMBytes s) (UsedBytes s')"
proof -
  note I = buddy_okD [OF ok]
  have a: "buddy_available s \<noteq> 0" "sz \<le> buddy_available s" using f by (auto simp: alloc_fails_def)
  then have "unat sz \<le> 2 ^ (tiers s + 3)"
    using available_le_cap [OF I(1)] by (simp add: word_le_nat_alt)
  from tierOf_spec(2) [OF I(2) this] obtain t where t: "t < tiers s" "tierOf s sz = of_nat t"
    and b: "best_tier s sz t" by (auto simp: best_tier_def)
  have hf: "has_free s t" using has_free_available [OF I(1) b] a by simp
  with obtain_spec [OF I(1) t(1)] obtain s1 c where
    ob: "buddy_obtain s (of_nat t) = (s1, of_nat c)" and x: "is_block (tiers s) (t, c)"
    and I1: "buddy_inv s1" and L1: "live s1 = insert (t, c) (live s)" "(t, c) \<notin> live s"
    and fr: "frame s s1 (live s)" by auto
  have e: "blockSizeOf s1 = blockSizeOf s" "tiers s1 = tiers s" "Chunk s1 = Chunk s" "UsedBytes s1 = UsedBytes s"
    "HWMBytes s1 = HWMBytes s"
    using fr by (auto simp: frame_def same_static_derived same_staticD) (simp_all add: same_static_def)
  let ?z = "bsz (tiers s) t"
  have bs: "blockSizeOf s (of_nat t) = of_nat ?z" "unat (blockSizeOf s (of_nat t)) = ?z"
    using bsz_word [OF I(2) t(1)] unat_blockSizeOf [OF I(2) t(1)] by simp_all
  define s2 where "s2 = s1\<lparr>UsedBytes := UsedBytes s + of_nat ?z\<rparr>"
  define s3 where "s3 = (if UsedBytes s2 > HWMBytes s2 then s2\<lparr>HWMBytes := UsedBytes s2\<rparr> else s2)"
  have total: "unat (UsedBytes s) + ?z = bytes_in (tiers s) (live s1)"
    using ok L1 bytes_in_insert [OF finite_live L1(2)] by (simp add: buddy_ok_def)
  also have "\<dots> \<le> 2 ^ 31" using live_bytes_le [OF I1] geom_bounds(4) [OF I(2)] e by simp
  finally have "unat (UsedBytes s + of_nat ?z) = unat (UsedBytes s) + ?z"
    using bs unat_add_lem [of "UsedBytes s" "of_nat ?z"] by simp
  then have U: "unat (UsedBytes s3) = bytes_in (tiers s) (live s1)" using total by (simp add: s3_def s2_def)
  have off: "(of_nat c * blockSizeOf s (of_nat t) :: u32) = of_nat (boff (tiers s) (t, c))"
    by (simp add: bs boff_def)
  have "boff (tiers s) (t, c) < 2 ^ 32"
    using boff_props(1) [OF I(2) x] geom_bounds(4) [OF I(2)] by simp
  then have addr: "Chunk s + ucast (of_nat c * blockSizeOf s (of_nat t) :: u32) = baddr s (t, c)"
    by (simp only: off ucast_of_nat_64 baddr_def)
  have nv: "(of_nat t :: u32) \<noteq> INVALID_VALUE" "(of_nat c :: u32) \<noteq> INVALID_VALUE"
    using tier_valid [OF I(2) t(1)] block_id_valid [OF I(2) x] by simp_all
  have "Chunk s3 = Chunk s" by (simp add: s3_def s2_def e)
  then have "buddy_alloc s sz = (s3, baddr s (t, c))"
    using nv addr by (simp add: buddy_alloc_def Let_def t(2) ob e s3_def s2_def bs)
  moreover have "live s3 = insert (t, c) (live s)" "keeps s s3 (live s)"
    using L1 frame_keeps [OF fr] by (simp_all add: s3_def s2_def)
  moreover have "tiers s3 = tiers s" by (simp add: s3_def s2_def e)
  with I1 U L1 have "buddy_ok s3" by (simp add: buddy_ok_def) (simp add: s3_def s2_def)
  moreover have "HWMBytes s3 = max (HWMBytes s) (UsedBytes s3)"
    by (auto simp: s3_def s2_def e max_def)
  ultimately show thesis using that b x L1(2) by blast
qed

section \<open>dealloc and free\<close>

lemma release_spec:
  assumes ok: "buddy_ok s" and x: "(t, b) \<in> live s"
  defines "s' \<equiv> buddy_release s (of_nat t) (of_nat b)"
  shows "buddy_ok s' \<and> live s' = live s - {(t, b)} \<and> keeps s s' (live s - {(t, b)}) \<and> HWMBytes s' = HWMBytes s"
proof -
  note I = buddy_okD [OF ok]
  define s1 where "s1 = buddy_recycle s (of_nat t) (of_nat b)"
  have R: "buddy_inv s1" "live s1 = live s - {(t, b)}" "frame s s1 (live s - {(t, b)})"
    using recycle_spec [OF I(1) x] by (simp_all add: s1_def)
  have t: "t < tiers s" using live_block [OF x] by (simp add: is_block_def)
  have e: "blockSizeOf s1 = blockSizeOf s" "tiers s1 = tiers s" "UsedBytes s1 = UsedBytes s" "HWMBytes s1 = HWMBytes s"
    using R(3) by (auto simp: frame_def same_static_derived same_staticD) (simp_all add: same_static_def)
  have s': "s' = s1\<lparr>UsedBytes := UsedBytes s - blockSizeOf s (of_nat t)\<rparr>"
    by (simp add: s'_def buddy_release_def Let_def s1_def [symmetric] e)
  have total: "unat (UsedBytes s) = bsz (tiers s) t + bytes_in (tiers s) (live s - {(t, b)})"
    using ok bytes_in_remove [OF finite_live x] by (simp add: buddy_ok_def)
  have bs: "unat (blockSizeOf s (of_nat t)) = bsz (tiers s) t" by (rule unat_blockSizeOf [OF I(2) t])
  then have "blockSizeOf s (of_nat t) \<le> UsedBytes s" using total by (simp add: word_le_nat_alt)
  then have "unat (UsedBytes s - blockSizeOf s (of_nat t)) = bytes_in (tiers s) (live s - {(t, b)})"
    using total bs by (simp add: unat_sub)
  then show ?thesis
    using R frame_keeps [OF R(3)] e by (simp add: s' buddy_ok_def)
qed

lemma free_spec:
  assumes ok: "buddy_ok s" and x: "x \<in> live s"
  defines "s' \<equiv> buddy_free s (baddr s x)"
  shows "buddy_ok s' \<and> live s' = live s - {x} \<and> keeps s s' (live s - {x}) \<and> HWMBytes s' = HWMBytes s"
proof -
  obtain t b where xe: "x = (t, b)" by fastforce
  have "s' = buddy_release s (of_nat t) (of_nat b)"
    using locate_live [OF buddy_okD(1) [OF ok]] x by (simp add: s'_def buddy_free_def xe)
  with release_spec [OF ok] x show ?thesis by (simp add: xe)
qed

lemma dealloc_spec:
  assumes ok: "buddy_ok s" and x: "(t, b) \<in> live s" and b: "best_tier s sz t"
  defines "s' \<equiv> buddy_dealloc s (baddr s (t, b)) sz"
  shows "buddy_ok s' \<and> live s' = live s - {(t, b)} \<and> keeps s s' (live s - {(t, b)}) \<and> HWMBytes s' = HWMBytes s"
proof -
  note g = buddy_okD(2) [OF ok] and k = live_block [OF x]
  have "t < tiers s" using k by (simp add: is_block_def)
  then have "s' = buddy_release s (of_nat t) (of_nat b)"
    using tierOf_best [OF g b] blockIdOf_block [OF g k] tier_valid [OF g] block_id_valid [OF g k]
    by (simp add: s'_def buddy_dealloc_def Let_def)
  with release_spec [OF ok x] show ?thesis by simp
qed

lemma best_tier_block: "geom s \<Longrightarrow> t < tiers s \<Longrightarrow> best_tier s (blockSizeOf s (of_nat t)) t"
  using unat_blockSizeOf [of s t] bsz_less [of t _ "tiers s"] by (auto simp: best_tier_def)

section \<open>realloc and calloc\<close>

text \<open>A write into one block in use, as \<open>memcpy\<close> and \<open>memset\<close> make it.\<close>

lemma write_block:
  assumes ok: "buddy_ok s" and y: "y \<in> live s" and n: "n \<le> bsz (tiers s) (fst y)"
    and m: "\<And>a. n \<le> unat (a - baddr s y) \<Longrightarrow> m' a = bmem s a"
  shows "buddy_ok (s\<lparr>bmem := m'\<rparr>)" "live (s\<lparr>bmem := m'\<rparr>) = live s" "keeps s (s\<lparr>bmem := m'\<rparr>) (live s - {y})"
proof -
  note I = buddy_okD [OF ok]
  have x: "is_block (tiers s) y" using y by (rule live_block)
  have out: "m' a = bmem s a" if "\<not> in_block s y a" for a
  proof (rule m, rule ccontr)
    let ?i = "unat (a - baddr s y)"
    assume "\<not> n \<le> ?i"
    then have "in_block s y (baddr s y + of_nat ?i)" using n by (intro in_block_baddr [OF I(2) x]) simp
    with that show False by simp
  qed
  show "buddy_ok (s\<lparr>bmem := m'\<rparr>)" "live (s\<lparr>bmem := m'\<rparr>) = live s"
    using client_write [OF ok, of m'] out y by blast+
  have "m' a = bmem s a" if z: "z \<in> live s" "z \<noteq> y" "in_block s z a" for z a
    using out in_one_block [OF live_disjoint [OF I(1) z(1) y z(2)] z(3)] by blast
  moreover have "m' a = bmem s a" if "2 ^ (tiers s + 3) \<le> unat (a - Chunk s)" for a
    using out that bend_le_total [OF x] by (auto simp: in_block_def)
  ultimately show "keeps s (s\<lparr>bmem := m'\<rparr>) (live s - {y})" by (auto simp: keeps_def)
qed

lemma block_bytes_in:
  assumes "geom s" "is_block (tiers s) x" "i < bsz (tiers s) (fst x)"
  shows "i < 2 ^ 32" "unat (of_nat i :: ptr) = i"
proof -
  have "bsz (tiers s) (fst x) \<le> 2 ^ (tiers s + 3)" using assms(2) by (intro bsz_le_cap) (simp add: is_block_def)
  then show "i < 2 ^ 32" using assms(3) geom_bounds(4) [OF assms(1)] by simp
  then show "unat (of_nat i :: ptr) = i" by (intro unat_of_nat64) simp
qed

text \<open>The move that \<open>realloc\<close> makes: obtain a block, copy \<open>n\<close> bytes, release the old block.\<close>

definition realloc_move :: "buddy \<Rightarrow> ptr \<Rightarrow> u32 \<Rightarrow> u32 \<Rightarrow> u32 \<Rightarrow> buddy \<times> ptr" where
  "realloc_move s p sz blockSize n =
     (let (s1, b) = buddy_alloc s sz in
      if b \<noteq> 0
      then (buddy_dealloc (s1\<lparr>bmem := memcpy (bmem s1) b p (unat n)\<rparr>) p blockSize, b)
      else (s1, b))"

lemma buddy_realloc_cases:
  assumes ok: "buddy_ok s" and x: "(t, b) \<in> live s" and sz: "sz \<noteq> 0"
  defines "p \<equiv> baddr s (t, b)" and "z \<equiv> bsz (tiers s) t"
  shows "buddy_realloc s p sz =
    (if z < unat sz then if t = 0 then (s, 0) else realloc_move s p sz (of_nat z) (of_nat z)
     else if Suc t < tiers s \<and> 2 * unat sz \<le> z then realloc_move s p sz (of_nat z) sz
     else (s, p))"
proof -
  note I = buddy_okD [OF ok]
  have k: "is_block (tiers s) (t, b)" using x by (rule live_block)
  then have t: "t < tiers s" by (simp add: is_block_def)
  have p: "p \<noteq> 0" using baddr_nonnull(1) [OF I(2) k] by (simp add: p_def)
  have bs: "blockSizeOf s (of_nat t) = of_nat z" "unat (of_nat z :: u32) = z"
    using bsz_word [OF I(2) t] unat_blockSizeOf [OF I(2) t] by (simp_all add: z_def)
  have t0: "(of_nat t :: u32) = 0 \<longleftrightarrow> t = 0"
    using t geom_bounds(2) [OF I(2)] by (intro of_nat_eq_0_32) simp
  have last: "TierNum s - 1 = of_nat t \<longleftrightarrow> Suc t = tiers s"
  proof -
    have "0 < unat (TierNum s)" using geom_bounds(1) [OF I(2)] by (simp add: tiers_def)
    then have "unat (TierNum s - 1) = tiers s - 1"
      by (subst unat_sub) (simp_all add: tiers_def word_le_nat_alt)
    moreover have "unat (of_nat t :: u32) = t" using t geom_bounds(2) [OF I(2)] by (intro unat_of_nat32) simp
    ultimately show ?thesis using t by (auto simp: word_eq_unat_iff)
  qed
  have half: "sz \<le> drop_bit 1 (of_nat z) \<longleftrightarrow> 2 * unat sz \<le> z"
    by (auto simp: word_le_nat_alt drop_bit_eq_div unat_div bs(2))
  have gt: "(of_nat z :: u32) < sz \<longleftrightarrow> z < unat sz" by (simp add: word_less_nat_alt bs(2))
  have le: "sz \<le> of_nat z \<longleftrightarrow> unat sz \<le> z" by (simp add: word_le_nat_alt bs(2))
  have loc: "locateBlockInUse s p = Some (of_nat t, of_nat b)" using locate_live [OF I(1) x] by (simp add: p_def)
  show ?thesis
    unfolding buddy_realloc_def realloc_move_def Let_def
    using t by (simp only: p sz if_False loc option.case prod.case bs(1) gt le half t0 last) auto
qed

lemma realloc_move_spec:
  assumes ok: "buddy_ok s" and x: "(t, b) \<in> live s" and n: "unat n \<le> bsz (tiers s) t" "n \<le> sz"
  defines "p \<equiv> baddr s (t, b)"
  obtains "realloc_move s p sz (of_nat (bsz (tiers s) t)) n = (s, 0)" "alloc_fails s sz"
  | s' y where "realloc_move s p sz (of_nat (bsz (tiers s) t)) n = (s', baddr s y)" "is_block (tiers s) y"
      "y \<notin> live s" "buddy_ok s'" "live s' = insert y (live s - {(t, b)})" "keeps s s' (live s - {(t, b)})"
      "unat sz \<le> bsz (tiers s) (fst y)" "\<And>z. z \<in> live s \<Longrightarrow> disj_blocks (tiers s) y z"
      "\<And>i. i < unat n \<Longrightarrow> bmem s' (baddr s y + of_nat i) = bmem s (p + of_nat i)"
proof (cases "alloc_fails s sz")
  case True
  with alloc_fail [OF ok] show thesis by (intro that(1)) (simp_all add: realloc_move_def)
next
  case False
  note I = buddy_okD [OF ok]
  have k: "is_block (tiers s) (t, b)" using x by (rule live_block)
  then have t: "t < tiers s" by (simp add: is_block_def)
  from alloc_succeeds [OF ok False] obtain s1 u c where
    al: "buddy_alloc s sz = (s1, baddr s (u, c))" and bt: "best_tier s sz u" and ky: "is_block (tiers s) (u, c)"
    and ok1: "buddy_ok s1" and L1: "live s1 = insert (u, c) (live s)" "(u, c) \<notin> live s"
    and K1: "keeps s s1 (live s)" .
  note E = keepsD [OF K1]
  let ?y = "(u, c)" and ?z = "bsz (tiers s) t"
  define s2 where "s2 = s1\<lparr>bmem := memcpy (bmem s1) (baddr s ?y) p (unat n)\<rparr>"
  have szy: "unat sz \<le> bsz (tiers s) u" using bt by (simp add: best_tier_def)
  have ny: "unat n \<le> bsz (tiers s) u" using szy n(2) by (simp add: word_le_nat_alt)
  have W: "buddy_ok s2" "live s2 = live s1" "keeps s1 s2 (live s1 - {?y})"
    unfolding s2_def by (rule write_block [OF ok1, of ?y "unat n"]; use L1 ny E in \<open>simp add: memcpy_out\<close>)+
  have x2: "(t, b) \<in> live s2" using x L1 W(2) by simp
  have K12: "keeps s s2 (live s)" using K1 W(3) L1 by (intro keeps_trans [OF K1 W(3)]) auto
  note E2 = keepsD [OF K12]
  have bs: "blockSizeOf s2 (of_nat t) = of_nat ?z"
    using bsz_word [OF I(2) t] E2 by simp
  have "best_tier s2 (of_nat ?z) t"
    using best_tier_block [OF buddy_okD(2) [OF W(1)], of t] t bs E2 by simp
  from dealloc_spec [OF W(1) x2 this]
  have D: "buddy_ok (buddy_dealloc s2 p (of_nat ?z))" "live (buddy_dealloc s2 p (of_nat ?z)) = live s2 - {(t, b)}"
    "keeps s2 (buddy_dealloc s2 p (of_nat ?z)) (live s2 - {(t, b)})"
    using E2 by (simp_all add: p_def)
  let ?s' = "buddy_dealloc s2 p (of_nat ?z)"
  have "baddr s ?y \<noteq> 0" using baddr_nonnull(1) [OF I(2) ky] .
  then have r: "realloc_move s p sz (of_nat ?z) n = (?s', baddr s ?y)"
    by (simp add: realloc_move_def al s2_def Let_def)
  have ne: "?y \<noteq> (t, b)" using x L1 by auto
  have L': "live ?s' = insert ?y (live s - {(t, b)})" using D(2) W(2) L1 ne by auto
  have K': "keeps s ?s' (live s - {(t, b)})"
    by (rule keeps_trans [OF keeps_mono [OF K12, of "live s - {(t, b)}"] D(3)]) (use W(2) L1 in auto)
  have copy: "bmem ?s' (baddr s ?y + of_nat i) = bmem s (p + of_nat i)" if i: "i < unat n" for i
  proof -
    have iy: "i < bsz (tiers s) u" "i < bsz (tiers s) t" using i ny n(1) by simp_all
    have inb: "in_block s ?y (baddr s ?y + of_nat i)" using in_block_baddr [OF I(2) ky] iy by simp
    have "in_block s (t, b) (p + of_nat i)" using in_block_baddr [OF I(2) k] iy by (simp add: p_def)
    then have old: "bmem s1 (p + of_nat i) = bmem s (p + of_nat i)" using E(10) x by blast
    have u: "unat (of_nat i :: ptr) = i" using block_bytes_in(2) [OF I(2) ky] iy by simp
    have "bmem s2 (baddr s ?y + of_nat i) = bmem s1 (p + of_nat i)"
      using i u by (simp add: s2_def memcpy_in)
    moreover have "?y \<in> live s2 - {(t, b)}" using W(2) L1 ne by simp
    then have "bmem ?s' (baddr s ?y + of_nat i) = bmem s2 (baddr s ?y + of_nat i)"
      using keepsD(10) [OF D(3)] inb E2(6) by metis
    ultimately show ?thesis using old by simp
  qed
  have dj: "disj_blocks (tiers s) ?y z" if "z \<in> live s" for z
    using live_disjoint [OF buddy_okD(1) [OF ok1], of ?y z] that L1 E(1) by auto
  show thesis using that(2) [OF r ky L1(2) D(1) L' K' _ dj] szy copy by simp
qed

text \<open>
  \<open>calloc\<close> computes the length with 32-bit arithmetic; with that length it is alloc followed
  by zeroing.
\<close>

lemma calloc_fail: "buddy_ok s \<Longrightarrow> alloc_fails s (num * sz) \<Longrightarrow> buddy_calloc s num sz = (s, 0)"
  by (simp add: buddy_calloc_def alloc_fail)

lemma calloc_succeeds:
  assumes ok: "buddy_ok s" and f: "\<not> alloc_fails s (num * sz)"
  obtains s' t b where "buddy_calloc s num sz = (s', baddr s (t, b))" "best_tier s (num * sz) t"
    "is_block (tiers s) (t, b)" "buddy_ok s'" "live s' = insert (t, b) (live s)" "(t, b) \<notin> live s"
    "keeps s s' (live s)" "\<And>i. i < unat (num * sz) \<Longrightarrow> bmem s' (baddr s (t, b) + of_nat i) = 0"
proof -
  note I = buddy_okD [OF ok]
  from alloc_succeeds [OF ok f] obtain s1 t b where
    al: "buddy_alloc s (num * sz) = (s1, baddr s (t, b))" and bt: "best_tier s (num * sz) t"
    and k: "is_block (tiers s) (t, b)" and ok1: "buddy_ok s1" and L1: "live s1 = insert (t, b) (live s)"
    "(t, b) \<notin> live s" and K1: "keeps s s1 (live s)" .
  note E = keepsD [OF K1]
  let ?len = "unat (num * sz)" and ?p = "baddr s (t, b)"
  define s2 where "s2 = s1\<lparr>bmem := memset (bmem s1) ?p 0 ?len\<rparr>"
  have len: "?len \<le> bsz (tiers s) t" using bt by (simp add: best_tier_def)
  have W: "buddy_ok s2" "live s2 = live s1" "keeps s1 s2 (live s1 - {(t, b)})"
    unfolding s2_def by (rule write_block [OF ok1, of "(t, b)" ?len]; use L1 len E in \<open>simp add: memset_out\<close>)+
  have "bmem s2 (?p + of_nat i) = 0" if i: "i < ?len" for i
  proof -
    have "unat (of_nat i :: ptr) = i" using block_bytes_in(2) [OF I(2) k] i len by simp
    with i show ?thesis by (simp add: s2_def memset_in)
  qed
  moreover have "keeps s s2 (live s)" using L1 by (intro keeps_trans [OF K1 W(3)]) auto
  moreover have "?p \<noteq> 0" using baddr_nonnull(1) [OF I(2) k] .
  then have "buddy_calloc s num sz = (s2, ?p)" by (simp add: buddy_calloc_def al s2_def Let_def)
  ultimately show thesis using that bt k W(1,2) L1 by simp
qed

end
