(* ===== verification/AllocIface.thy ===== *)
theory AllocIface
  imports Prelude
begin

text \<open>
  The contract that BuddyAllocator and LinearAllocator of include/xpf/allocators.h share
  (the header asks for the same interface): an abstract heap of pairwise disjoint regions,
  the steps a call may take on it, and a locale with the laws of \<open>alloc\<close> that the
  STL-compatible \<open>Allocator\<close> template relies on.
\<close>

section \<open>Abstract heaps\<close>

type_synonym region = "ptr \<times> nat"

definition in_region :: "region \<Rightarrow> ptr \<Rightarrow> bool" where
  "in_region r a \<longleftrightarrow> unat (a - fst r) < snd r"

definition apart :: "region \<Rightarrow> region \<Rightarrow> bool" where
  "apart r r' \<longleftrightarrow> (\<forall>a. \<not> (in_region r a \<and> in_region r' a))"

definition heap_wf :: "region set \<Rightarrow> bool" where
  "heap_wf H \<longleftrightarrow> (\<forall>r\<in>H. fst r \<noteq> 0 \<and> 0 < snd r) \<and> (\<forall>r\<in>H. \<forall>r'\<in>H. r \<noteq> r' \<longrightarrow> apart r r')"

text \<open>The calls of the two allocators, and a write of the client through a pointer it holds.\<close>

datatype acall =
    Alloc u32
  | Calloc u32 u32
  | Free ptr
  | Dealloc ptr u32
  | Realloc ptr u32
  | Poke ptr u8

text \<open>
  What a call may do to a heap: an allocation fails and changes nothing, or it adds a fresh
  region that is large enough; a region leaves the heap when its pointer is released.
\<close>

inductive heap_new :: "region set \<Rightarrow> nat \<Rightarrow> region set \<Rightarrow> ptr \<Rightarrow> bool" where
  heap_null: "heap_new H n H 0"
| heap_fresh: "p \<noteq> 0 \<Longrightarrow> 0 < k \<Longrightarrow> n \<le> k \<Longrightarrow> (\<And>r. r \<in> H \<Longrightarrow> apart (p, k) r) \<Longrightarrow>
    heap_new H n (insert (p, k) H) p"

inductive heap_step :: "region set \<Rightarrow> acall \<Rightarrow> region set \<Rightarrow> ptr \<Rightarrow> bool" where
  hs_alloc: "heap_new H (unat sz) H' p \<Longrightarrow> heap_step H (Alloc sz) H' p"
| hs_calloc: "heap_new H (unat (num * sz)) H' p \<Longrightarrow> heap_step H (Calloc num sz) H' p"
| hs_free: "(p, k) \<in> H \<Longrightarrow> heap_step H (Free p) (H - {(p, k)}) 0"
| hs_dealloc: "(p, k) \<in> H \<Longrightarrow> unat sz \<le> k \<Longrightarrow> heap_step H (Dealloc p sz) (H - {(p, k)}) 0"
| hs_realloc_null: "heap_new H (unat sz) H' q \<Longrightarrow> heap_step H (Realloc 0 sz) H' q"
| hs_realloc_zero: "(p, k) \<in> H \<Longrightarrow> heap_step H (Realloc p 0) (H - {(p, k)}) 0"
| hs_realloc_fail: "(p, k) \<in> H \<Longrightarrow> heap_step H (Realloc p sz) H 0"
| hs_realloc_stay: "(p, k) \<in> H \<Longrightarrow> unat sz \<le> k \<Longrightarrow> heap_step H (Realloc p sz) H p"
| hs_realloc_move: "(p, k) \<in> H \<Longrightarrow> heap_new H (unat sz) (insert (q, j) H) q \<Longrightarrow> (q, j) \<notin> H \<Longrightarrow>
    heap_step H (Realloc p sz) (insert (q, j) (H - {(p, k)})) q"
| hs_poke: "r \<in> H \<Longrightarrow> in_region r a \<Longrightarrow> heap_step H (Poke a v) H 0"

inductive_cases heap_new_cases: "heap_new H n H' p"

lemma apart_sym: "apart r r' \<Longrightarrow> apart r' r"
  by (auto simp: apart_def)

lemma heap_wf_insert:
  "heap_wf H \<Longrightarrow> p \<noteq> 0 \<Longrightarrow> 0 < k \<Longrightarrow> (\<And>r. r \<in> H \<Longrightarrow> apart (p, k) r) \<Longrightarrow> heap_wf (insert (p, k) H)"
  by (auto simp: heap_wf_def intro: apart_sym)

lemma heap_wf_subset: "heap_wf H \<Longrightarrow> K \<subseteq> H \<Longrightarrow> heap_wf K"
  unfolding heap_wf_def by blast

lemma heap_new_wf: "heap_new H n H' p \<Longrightarrow> heap_wf H \<Longrightarrow> heap_wf H'"
  by (induction rule: heap_new.induct) (auto intro: heap_wf_insert)

lemma heap_step_wf: "heap_step H c H' p \<Longrightarrow> heap_wf H \<Longrightarrow> heap_wf H'"
  by (induction rule: heap_step.induct) (auto intro: heap_new_wf heap_wf_subset dest: heap_new_wf)

text \<open>In a well-formed heap a region is given by its address.\<close>

lemma heap_wf_fst: "heap_wf H \<Longrightarrow> (p, k) \<in> H \<Longrightarrow> (p, j) \<in> H \<Longrightarrow> k = j"
proof (rule ccontr)
  assume H: "heap_wf H" "(p, k) \<in> H" "(p, j) \<in> H" and "k \<noteq> j"
  then have "apart (p, k) (p, j)" "0 < k" "0 < j" unfolding heap_wf_def by (blast, force, force)
  then show False by (auto simp: apart_def in_region_def dest: spec [of _ p])
qed

section \<open>The interface of an allocator\<close>

text \<open>
  \<open>sane\<close> restricts the requests for which an implementation promises the laws.
\<close>

locale bulk_allocator =
  fixes ok :: "'s \<Rightarrow> bool"
    and regions :: "'s \<Rightarrow> region set"
    and contents :: "'s \<Rightarrow> memory"
    and sane :: "u32 \<Rightarrow> bool"
    and alloc :: "'s \<Rightarrow> u32 \<Rightarrow> 's \<times> ptr"
  assumes regions_wf: "ok s \<Longrightarrow> heap_wf (regions s)"
    and alloc_ok: "ok s \<Longrightarrow> sane sz \<Longrightarrow> ok (fst (alloc s sz))"
    and alloc_heap: "ok s \<Longrightarrow> sane sz \<Longrightarrow>
      heap_new (regions s) (unat sz) (regions (fst (alloc s sz))) (snd (alloc s sz))"
    and alloc_frame: "ok s \<Longrightarrow> sane sz \<Longrightarrow> r \<in> regions s \<Longrightarrow> in_region r a \<Longrightarrow>
      contents (fst (alloc s sz)) a = contents s a"

text \<open>A client that allocates one object after the other.\<close>

fun alloc_all :: "('s \<Rightarrow> u32 \<Rightarrow> 's \<times> ptr) \<Rightarrow> 's \<Rightarrow> u32 list \<Rightarrow> 's \<times> ptr list" where
  "alloc_all alloc s [] = (s, [])"
| "alloc_all alloc s (sz # szs) =
     (let (s1, p) = alloc s sz; (s2, ps) = alloc_all alloc s1 szs in (s2, p # ps))"

lemma length_alloc_all: "length (snd (alloc_all alloc s szs)) = length szs"
  by (induction szs arbitrary: s) (simp_all add: split_beta)

context bulk_allocator
begin

lemma alloc_grows: "ok s \<Longrightarrow> sane sz \<Longrightarrow> regions s \<subseteq> regions (fst (alloc s sz))"
  using alloc_heap [of s sz] by (auto elim: heap_new_cases)

lemma alloc_result:
  assumes "ok s" "sane sz" "snd (alloc s sz) \<noteq> 0"
  shows "\<exists>k\<ge>unat sz. (snd (alloc s sz), k) \<in> regions (fst (alloc s sz)) \<and>
    (\<forall>r\<in>regions s. apart (snd (alloc s sz), k) r)"
  using alloc_heap [OF assms(1,2)] assms(3) by (auto elim!: heap_new_cases)

lemma alloc_all_ok:
  assumes "ok s" "\<forall>sz\<in>set szs. sane sz"
  shows "ok (fst (alloc_all alloc s szs)) \<and> regions s \<subseteq> regions (fst (alloc_all alloc s szs)) \<and>
     (\<forall>r\<in>regions s. \<forall>a. in_region r a \<longrightarrow> contents (fst (alloc_all alloc s szs)) a = contents s a)"
  using assms
proof (induction szs arbitrary: s)
  case Nil
  then show ?case by simp
next
  case (Cons sz szs)
  let ?s1 = "fst (alloc s sz)"
  have A: "ok ?s1" "regions s \<subseteq> regions ?s1"
    "\<And>r a. r \<in> regions s \<Longrightarrow> in_region r a \<Longrightarrow> contents ?s1 a = contents s a"
    using Cons.prems alloc_ok alloc_grows alloc_frame by auto
  have e: "fst (alloc_all alloc s (sz # szs)) = fst (alloc_all alloc ?s1 szs)"
    by (simp add: split_beta)
  show ?case unfolding e using Cons.IH [OF A(1)] Cons.prems A by force
qed

text \<open>No two successful requests of one run share a byte.\<close>

lemma alloc_all_apart:
  assumes "ok s" "\<forall>sz\<in>set szs. sane sz" "i < j" "j < length szs"
    "snd (alloc_all alloc s szs) ! i \<noteq> 0" "snd (alloc_all alloc s szs) ! j \<noteq> 0"
  shows "apart (snd (alloc_all alloc s szs) ! i, unat (szs ! i)) (snd (alloc_all alloc s szs) ! j, unat (szs ! j))"
proof -
  have main: "ok s \<Longrightarrow> \<forall>sz\<in>set szs. sane sz \<Longrightarrow> j < length szs \<Longrightarrow> snd (alloc_all alloc s szs) ! j \<noteq> 0 \<Longrightarrow>
      r \<in> regions s \<Longrightarrow> apart r (snd (alloc_all alloc s szs) ! j, unat (szs ! j))" for r s szs j
  proof (induction szs arbitrary: s j)
    case Nil
    then show ?case by simp
  next
    case (Cons sz szs)
    let ?s1 = "fst (alloc s sz)"
    have A: "ok ?s1" "r \<in> regions ?s1" using Cons.prems alloc_ok subsetD [OF alloc_grows] by auto
    show ?case
    proof (cases j)
      case 0
      then obtain k where "unat sz \<le> k" "apart (snd (alloc s sz), k) r"
        using alloc_result [of s sz] Cons.prems by (auto simp: split_beta)
      then show ?thesis using 0 by (auto simp: split_beta apart_def in_region_def)
    next
      case (Suc i)
      then show ?thesis using Cons.IH [OF A(1), of i] Cons.prems A by (simp add: split_beta)
    qed
  qed
  show ?thesis
    using assms
  proof (induction szs arbitrary: s i j)
    case Nil
    then show ?case by simp
  next
    case (Cons sz szs)
    let ?s1 = "fst (alloc s sz)"
    have ok1: "ok ?s1" using Cons.prems alloc_ok by auto
    obtain j' where j: "j = Suc j'" using Cons.prems(3) by (cases j) auto
    show ?case
    proof (cases i)
      case 0
      obtain k where k: "unat sz \<le> k" "(snd (alloc s sz), k) \<in> regions ?s1"
        using alloc_result [of s sz] Cons.prems 0 by (auto simp: split_beta)
      have "apart (snd (alloc s sz), k) (snd (alloc_all alloc ?s1 szs) ! j', unat (szs ! j'))"
        using main [OF ok1 _ _ _ k(2), of szs j'] Cons.prems j by (simp add: split_beta)
      then show ?thesis using k(1) 0 j by (auto simp: split_beta apart_def in_region_def)
    next
      case (Suc i')
      then show ?thesis using Cons.IH [OF ok1, of i' j'] Cons.prems j by (simp add: split_beta)
    qed
  qed
qed

end

end
