(* ===== verification/BuddyHeap.thy ===== *)
theory BuddyHeap
  imports BuddyCalls AllocIface
begin

text \<open>
  The buddy allocator as an implementation of the abstract heap of AllocIface: the regions of
  a state, the steps a client may take, and the proof that each of them is a step of the heap.
\<close>

section \<open>Regions\<close>

definition block_region :: "buddy \<Rightarrow> nat \<times> nat \<Rightarrow> region" where
  "block_region s x = (baddr s x, bsz (tiers s) (fst x))"

definition buddy_regions :: "buddy \<Rightarrow> region set" where
  "buddy_regions s = block_region s ` live s"

lemma in_block_region:
  assumes g: "geom s" and x: "is_block (tiers s) x"
  shows "in_region (block_region s x) a \<longleftrightarrow> in_block s x a"
proof -
  define w where "w = a - Chunk s"
  let ?o = "boff (tiers s) x"
  have e: "bend (tiers s) x = ?o + bsz (tiers s) (fst x)" by (simp add: boff_def bend_def)
  have le: "?o + bsz (tiers s) (fst x) \<le> 2 ^ 31"
    using bend_le_total [OF x] geom_bounds(4) [OF g] e by simp
  have "a - baddr s x = w - of_nat ?o" by (simp add: baddr_def w_def)
  moreover have "?o + bsz (tiers s) (fst x) \<le> 2 ^ 63" using le by simp
  ultimately show ?thesis using addr_window [of ?o "bsz (tiers s) (fst x)" w]
    by (simp only: in_region_def block_region_def in_block_def e w_def fst_conv snd_conv)
qed

lemma buddy_regions_wf:
  assumes I: "buddy_inv s"
  shows "heap_wf (buddy_regions s)"
proof -
  have g: "geom s" using I by (auto simp: buddy_inv_def inv_with_def)
  have "apart (block_region s x) (block_region s y)"
    if xy: "x \<in> live s" "y \<in> live s" "block_region s x \<noteq> block_region s y" for x y
  proof -
    have ne: "x \<noteq> y" using xy(3) by blast
    show ?thesis
      using in_block_region [OF g live_block [OF xy(1)]] in_block_region [OF g live_block [OF xy(2)]]
        in_one_block [OF live_disjoint [OF I xy(1,2) ne]]
      by (simp add: apart_def)
  qed
  moreover have "fst (block_region s x) \<noteq> 0 \<and> 0 < snd (block_region s x)" if "x \<in> live s" for x
    using baddr_nonnull(1) [OF g live_block [OF that]] by (simp add: block_region_def bsz_def)
  ultimately show ?thesis unfolding heap_wf_def buddy_regions_def by blast
qed

lemma block_region_inj:
  assumes I: "buddy_inv s" and x: "x \<in> live s" "y \<in> live s" and e: "baddr s x = baddr s y"
  shows "x = y"
proof (rule ccontr)
  assume ne: "x \<noteq> y"
  have g: "geom s" using I by (auto simp: buddy_inv_def inv_with_def)
  note bx = live_block [OF x(1)] and by' = live_block [OF x(2)]
  have "0 < bsz (tiers s) (fst x)" "0 < bsz (tiers s) (fst y)" by (simp_all add: bsz_def)
  then have "in_block s x (baddr s x)" "in_block s y (baddr s x)"
    using in_block_baddr [OF g bx, of 0] in_block_baddr [OF g by', of 0] e by simp_all
  with in_one_block [OF live_disjoint [OF I x ne]] show False by blast
qed

lemma keeps_region: "keeps s s' L \<Longrightarrow> block_region s' = block_region s"
  by (simp add: block_region_def keepsD fun_eq_iff)

lemma regions_insert:
  "keeps s s' L \<Longrightarrow> live s' = insert x (live s) \<Longrightarrow>
   buddy_regions s' = insert (block_region s x) (buddy_regions s)"
  by (simp add: buddy_regions_def keeps_region)

lemma regions_remove:
  assumes I: "buddy_inv s" and x: "x \<in> live s" and k: "keeps s s' L" and l: "live s' = live s - {x}"
  shows "buddy_regions s' = buddy_regions s - {block_region s x}"
proof -
  have "inj_on (block_region s) (live s)"
    by (auto simp: inj_on_def block_region_def dest: block_region_inj [OF I])
  then show ?thesis
    using x by (simp add: buddy_regions_def keeps_region [OF k] l inj_on_image_set_diff)
qed

lemma region_live: "r \<in> buddy_regions s \<Longrightarrow> \<exists>x\<in>live s. r = block_region s x"
  by (auto simp: buddy_regions_def)

lemma keeps_bytes:
  assumes "geom s" "keeps s s' L" "x \<in> L" "is_block (tiers s) x" "in_region (block_region s x) a"
  shows "bmem s' a = bmem s a"
  using keepsD(10) [OF assms(2,3)] in_block_region [OF assms(1,4)] assms(5) by blast

section \<open>Fresh regions\<close>

lemma fresh_heap_new:
  assumes ok': "buddy_ok s'" and l: "live s' = insert x (live s)" "x \<notin> live s" and k: "keeps s s' (live s)"
    and n: "n \<le> bsz (tiers s) (fst x)"
  shows "heap_new (buddy_regions s) n (buddy_regions s') (baddr s x)"
proof -
  have W: "heap_wf (buddy_regions s')" using buddy_regions_wf [OF buddy_okD(1) [OF ok']] .
  have r: "buddy_regions s' = insert (block_region s x) (buddy_regions s)" using regions_insert [OF k l(1)] .
  note W' = W [unfolded r heap_wf_def]
  have "block_region s x \<notin> buddy_regions s"
  proof
    assume "block_region s x \<in> buddy_regions s"
    then obtain y where y: "y \<in> live s" "baddr s x = baddr s y"
      by (auto simp: buddy_regions_def block_region_def)
    have "x \<in> live s'" "y \<in> live s'" "baddr s' x = baddr s' y"
      using l(1) y keepsD(5) [OF k] by simp_all
    from block_region_inj [OF buddy_okD(1) [OF ok'] this] y(1) l(2) show False by simp
  qed
  then have "apart (block_region s x) q" if "q \<in> buddy_regions s" for q
    using W' that by (metis insertI1 insertI2)
  moreover have "fst (block_region s x) \<noteq> 0" "0 < snd (block_region s x)"
    using W' by (metis insertI1)+
  ultimately show ?thesis unfolding r block_region_def fst_conv snd_conv using n by (intro heap_fresh)
qed

lemma buddy_alloc_heap:
  assumes ok: "buddy_ok s"
  shows "buddy_ok (fst (buddy_alloc s sz))"
    "heap_new (buddy_regions s) (unat sz) (buddy_regions (fst (buddy_alloc s sz))) (snd (buddy_alloc s sz))"
    "keeps s (fst (buddy_alloc s sz)) (live s)"
proof -
  have "buddy_ok (fst (buddy_alloc s sz)) \<and>
    heap_new (buddy_regions s) (unat sz) (buddy_regions (fst (buddy_alloc s sz))) (snd (buddy_alloc s sz)) \<and>
    keeps s (fst (buddy_alloc s sz)) (live s)"
  proof (cases "alloc_fails s sz")
    case True
    with alloc_fail [OF ok True] ok show ?thesis by (simp add: heap_null)
  next
    case False
    from alloc_succeeds [OF ok False] obtain s' t b where "buddy_alloc s sz = (s', baddr s (t, b))"
      "best_tier s sz t" "buddy_ok s'" "live s' = insert (t, b) (live s)" "(t, b) \<notin> live s" "keeps s s' (live s)" .
    then show ?thesis using fresh_heap_new [of s' "(t, b)" s "unat sz"] by (simp add: best_tier_def)
  qed
  then show "buddy_ok (fst (buddy_alloc s sz))"
    "heap_new (buddy_regions s) (unat sz) (buddy_regions (fst (buddy_alloc s sz))) (snd (buddy_alloc s sz))"
    "keeps s (fst (buddy_alloc s sz)) (live s)" by blast+
qed

interpretation bud: bulk_allocator buddy_ok buddy_regions bmem "\<lambda>_. True" buddy_alloc
proof unfold_locales
  fix s sz r a
  assume ok: "buddy_ok s"
  show "heap_wf (buddy_regions s)" using buddy_regions_wf [OF buddy_okD(1) [OF ok]] .
  show "buddy_ok (fst (buddy_alloc s sz))"
    "heap_new (buddy_regions s) (unat sz) (buddy_regions (fst (buddy_alloc s sz))) (snd (buddy_alloc s sz))"
    using buddy_alloc_heap [OF ok] by blast+
  assume "r \<in> buddy_regions s" "in_region r a"
  then obtain x where "x \<in> live s" "in_region (block_region s x) a" by (auto dest: region_live)
  then show "bmem (fst (buddy_alloc s sz)) a = bmem s a"
    using keeps_bytes [OF buddy_okD(2) [OF ok] buddy_alloc_heap(3) [OF ok]] live_block by blast
qed

section \<open>The steps of a client\<close>

text \<open>
  A client that respects the contract of the header: it releases only pointers it holds, with
  a size hint of the right block size where one is asked for, and writes only through pointers
  it holds.
\<close>

inductive buddy_step :: "buddy \<Rightarrow> acall \<Rightarrow> buddy \<Rightarrow> ptr \<Rightarrow> bool" where
  bs_alloc: "buddy_alloc s sz = (s', p) \<Longrightarrow> buddy_step s (Alloc sz) s' p"
| bs_calloc: "buddy_calloc s num sz = (s', p) \<Longrightarrow> buddy_step s (Calloc num sz) s' p"
| bs_free: "x \<in> live s \<Longrightarrow> buddy_step s (Free (baddr s x)) (buddy_free s (baddr s x)) 0"
| bs_dealloc: "x \<in> live s \<Longrightarrow> best_tier s sz (fst x) \<Longrightarrow>
    buddy_step s (Dealloc (baddr s x) sz) (buddy_dealloc s (baddr s x) sz) 0"
| bs_realloc_null: "buddy_realloc s 0 sz = (s', p) \<Longrightarrow> buddy_step s (Realloc 0 sz) s' p"
| bs_realloc: "x \<in> live s \<Longrightarrow> buddy_realloc s (baddr s x) sz = (s', p) \<Longrightarrow>
    buddy_step s (Realloc (baddr s x) sz) s' p"
| bs_poke: "x \<in> live s \<Longrightarrow> in_block s x a \<Longrightarrow>
    buddy_step s (Poke a v) (s\<lparr>bmem := (bmem s)(a := v)\<rparr>) 0"

inductive_cases buddy_step_alloc: "buddy_step s (Alloc sz) s' p"

text \<open>The outcomes of \<open>realloc\<close> on a block in use.\<close>

lemma realloc_outcomes:
  assumes ok: "buddy_ok s" and x: "x \<in> live s" and r: "buddy_realloc s (baddr s x) sz = (s', q)"
  shows "(sz = 0 \<and> s' = buddy_free s (baddr s x) \<and> q = 0) \<or>
    (sz \<noteq> 0 \<and> s' = s \<and> q = 0) \<or>
    (sz \<noteq> 0 \<and> s' = s \<and> q = baddr s x \<and> unat sz \<le> bsz (tiers s) (fst x)) \<or>
    (sz \<noteq> 0 \<and> (\<exists>y. q = baddr s y \<and> is_block (tiers s) y \<and> y \<notin> live s \<and> buddy_ok s' \<and>
       live s' = insert y (live s - {x}) \<and> keeps s s' (live s - {x}) \<and> unat sz \<le> bsz (tiers s) (fst y) \<and>
       (\<forall>z\<in>live s. disj_blocks (tiers s) y z) \<and>
       (\<forall>i < min (unat sz) (bsz (tiers s) (fst x)). bmem s' (q + of_nat i) = bmem s (baddr s x + of_nat i))))"
proof (cases "sz = 0")
  case True
  then show ?thesis
    using r baddr_nonnull(1) [OF buddy_okD(2) [OF ok] live_block [OF x]] by (simp add: buddy_realloc_def)
next
  case False
  obtain t b where xe: "x = (t, b)" by fastforce
  have x': "(t, b) \<in> live s" using x xe by simp
  let ?z = "bsz (tiers s) t"
  have t: "t < tiers s" using live_block [OF x'] by (simp add: is_block_def)
  have uz: "unat (of_nat ?z :: u32) = ?z" using bsz_word(1) [OF buddy_okD(2) [OF ok] t] by (rule unat_of_nat32)
  note R = buddy_realloc_cases [OF ok x' False]
  consider "?z < unat sz" "t = 0" | "?z < unat sz" "t \<noteq> 0"
    | "unat sz \<le> ?z" "Suc t < tiers s" "2 * unat sz \<le> ?z"
    | "unat sz \<le> ?z" "\<not> (Suc t < tiers s \<and> 2 * unat sz \<le> ?z)" by linarith
  then show ?thesis
  proof cases
    case 1
    then show ?thesis using R r False xe by simp
  next
    case 2
    then have m: "buddy_realloc s (baddr s x) sz = realloc_move s (baddr s (t, b)) sz (of_nat ?z) (of_nat ?z)"
      using R xe by simp
    have n: "unat (of_nat ?z :: u32) \<le> ?z" "(of_nat ?z :: u32) \<le> sz" using uz 2 by (simp_all add: word_le_nat_alt)
    have mi: "min (unat sz) ?z = unat (of_nat ?z :: u32)" using 2 uz by simp
    show ?thesis
      by (rule realloc_move_spec [OF ok x' n]; use m r False xe in \<open>simp only: fst_conv mi prod.inject\<close>) blast+
  next
    case 3
    then have m: "buddy_realloc s (baddr s x) sz = realloc_move s (baddr s (t, b)) sz (of_nat ?z) sz"
      using R xe by simp
    have mi: "min (unat sz) ?z = unat sz" using 3 by simp
    show ?thesis
      by (rule realloc_move_spec [OF ok x' 3(1) order_refl]; use m r False xe in \<open>simp only: fst_conv mi prod.inject\<close>) blast+
  next
    case 4
    then have "buddy_realloc s (baddr s x) sz = (s, baddr s x)" unfolding R xe by auto
    then have "s' = s" "q = baddr s x" using r by simp_all
    then show ?thesis using False 4 xe by simp
  qed
qed

lemma buddy_step_ok: "buddy_step s c s' p \<Longrightarrow> buddy_ok s \<Longrightarrow> buddy_ok s'"
proof (induction rule: buddy_step.induct)
  case (bs_alloc s sz s' p)
  then show ?case using buddy_alloc_heap(1) [of s sz] by simp
next
  case (bs_calloc s num sz s' p)
  then show ?case
    by (cases "alloc_fails s (num * sz)") (auto simp: calloc_fail elim: calloc_succeeds)
next
  case (bs_free x s)
  then show ?case using free_spec by blast
next
  case (bs_dealloc x s sz)
  then show ?case using dealloc_spec [of s "fst x" "snd x" sz] by simp
next
  case (bs_realloc_null s sz s' p)
  then show ?case using buddy_alloc_heap(1) [of s sz] by (simp add: buddy_realloc_def)
next
  case (bs_realloc x s sz s' p)
  then show ?case using realloc_outcomes [of s x sz s' p] free_spec [of s x] by auto
next
  case (bs_poke x s a v)
  show ?case by (rule client_write(1) [OF bs_poke(3)]) (metis bs_poke(1,2) fun_upd_other)
qed

end
