(* ===== verification/BuddyProps.thy ===== *)
theory BuddyProps
  imports BuddyHeap
begin

text \<open>
  The properties of the buddy allocator.  Witnesses run on \<open>demo_heap\<close>, a bulk of 64 bytes at
  address 0x1000, and on states reached from it.
\<close>

section \<open>Helpers\<close>

lemma available_empty:
  assumes I: "buddy_inv s" and e: "live s = {}"
  shows "buddy_available s = Capacity s"
proof -
  from I have g: "geom s" and T: "tree_inv (tiers s) (flag s)" by (auto simp: buddy_inv_def inv_with_def)
  have n: "0 < tiers s" using geom_bounds(1) [OF g] .
  have "\<not> flag s 0 0" using flag_iff_live [OF T n, of 0] e by (simp add: live_def)
  then have f: "free_on (flag s) 0 \<noteq> {}" by (auto simp: free_on_def)
  then have "has_free s 0" by (auto simp: has_free_def)
  from available_spec(2) [OF I this n] have "unat (buddy_available s) = bsz (tiers s) 0" by auto
  then show ?thesis using g by (simp add: word_eq_unat_iff geom_def bsz_def)
qed

lemma available_live:
  assumes I: "buddy_inv s" "buddy_inv s'" and n: "TierNum s' = TierNum s" and l: "live s' = live s"
  shows "buddy_available s' = buddy_available s"
proof -
  have T: "tree_inv (tiers s) (flag s)" "tree_inv (tiers s') (flag s')"
    using I by (auto simp: buddy_inv_def inv_with_def)
  have t: "tiers s' = tiers s" using n by (simp add: tiers_def)
  have "free_on (flag s') u = free_on (flag s) u" if "u < tiers s" for u
    using free_on_live [of "tiers s" "flag s'" "flag s" u] T that l by (simp add: live_def t)
  then have "FreeChainHead s' ! u = 0 \<longleftrightarrow> FreeChainHead s ! u = 0" if "u < tiers s" for u
    using head_free [OF I(1) that] head_free [OF I(2), of u] that t by simp
  moreover have "blockSizeOf s' = blockSizeOf s" by (simp add: blockSizeOf_def n fun_eq_iff)
  ultimately have "available_loop s' u k = available_loop s u k" if "u + k = tiers s" for u k
    using that by (induction k arbitrary: u) auto
  then show ?thesis by (simp add: buddy_available_def n tiers_def)
qed

lemma used_le: "buddy_ok s \<Longrightarrow> UsedBytes s \<le> Capacity s"
  using live_bytes_le [of s] by (auto simp: buddy_ok_def word_le_nat_alt buddy_inv_def inv_with_def geom_def)

definition demo_heap :: buddy where
  "demo_heap = the (buddy_ctor 64 0x1000 (\<lambda>_. 0))"

lemma demo_heap:
  "buddy_ctor 64 0x1000 (\<lambda>_. 0) = Some demo_heap" "buddy_ok demo_heap" "live demo_heap = {}"
  "tiers demo_heap = 3" "buddy_available demo_heap = 64"
proof -
  from buddy_ctor_spec [of "0x1000" 64 "\<lambda>_. 0"] obtain s n where s: "buddy_ctor 64 0x1000 (\<lambda>_. 0) = Some s"
    "buddy_ok s" "live s = {}" "tiers s = n" "unat (Capacity s) = 2 ^ (n + 3)" "1 \<le> n" "n \<le> 28"
    "n = 28 \<or> 64 \<le> (2::nat) ^ (n + 3)" "n = 1 \<or> (2::nat) ^ (n + 2) < 64" by auto
  have "\<not> 4 \<le> n"
  proof
    assume "4 \<le> n"
    then have "(2::nat) ^ 6 \<le> 2 ^ (n + 2)" by (intro power_increasing) auto
    with s(9) \<open>4 \<le> n\<close> show False by simp
  qed
  moreover have "n \<noteq> 1" "n \<noteq> 2" using s(8) by auto
  ultimately have n: "n = 3" using s(6) by simp
  have e: "demo_heap = s" using s(1) by (simp add: demo_heap_def)
  then show "buddy_ctor 64 0x1000 (\<lambda>_. 0) = Some demo_heap" "buddy_ok demo_heap" "live demo_heap = {}"
    "tiers demo_heap = 3" using s n by simp_all
  have "buddy_available s = Capacity s" using available_empty buddy_okD(1) s by blast
  also have "\<dots> = 64" using s(5) n by (simp add: word_eq_unat_iff)
  finally show "buddy_available demo_heap = 64" using e by simp
qed

text \<open>After one request of 20 bytes: a block of 32 bytes is in use.\<close>

definition demo_used :: buddy where
  "demo_used = fst (buddy_alloc demo_heap 20)"

lemma demo_used:
  "\<exists>b. live demo_used = {(1, b)} \<and> buddy_alloc demo_heap 20 = (demo_used, baddr demo_used (1, b)) \<and> b < 2"
  "buddy_ok demo_used" "tiers demo_used = 3"
proof -
  have f: "\<not> alloc_fails demo_heap 20" by (simp add: alloc_fails_def demo_heap)
  from alloc_succeeds [OF demo_heap(2) f] obtain s t b where
    a: "buddy_alloc demo_heap 20 = (s, baddr demo_heap (t, b))" and bt: "best_tier demo_heap 20 t"
    and x: "is_block (tiers demo_heap) (t, b)" and ok: "buddy_ok s" and l: "live s = insert (t, b) (live demo_heap)"
    and k: "keeps demo_heap s (live demo_heap)" .
  have e: "demo_used = s" by (simp add: demo_used_def a)
  have "t < 3" "20 \<le> bsz 3 t" using bt by (simp_all add: best_tier_def demo_heap)
  moreover have "\<not> (t < 1 \<and> \<not> bsz 3 1 < 20)" using bt by (auto simp: best_tier_def demo_heap)
  ultimately have "t = 1" by (auto simp: bsz_def less_Suc_eq numeral_3_eq_3)
  with a x l e show "\<exists>b. live demo_used = {(1, b)} \<and> buddy_alloc demo_heap 20 = (demo_used, baddr demo_used (1, b)) \<and> b < 2"
    using keepsD(5) [OF k] by (auto simp: demo_heap is_block_def)
  show "buddy_ok demo_used" using ok e by simp
  show "tiers demo_used = 3" using keepsD(1) [OF k] e demo_heap by simp
qed

section \<open>Construction\<close>

text \<open>
  C13: For every requested size the constructor terminates; the capacity is a power of two between
  16 and 2^31, the smallest one that is not less than the request (2^31 when the request is
  larger still), nothing is in use and the whole bulk is available as one block.
\<close>

theorem buddy_ctor_correct:
  assumes "chunk \<noteq> 0" "unat chunk + 2 ^ 31 \<le> 2 ^ 64"
  shows "\<exists>s k. buddy_ctor sz chunk m = Some s \<and> buddy_ok s \<and> live s = {} \<and> buddy_used s = 0 \<and>
     4 \<le> k \<and> k \<le> 31 \<and> unat (buddy_capacity s) = 2 ^ k \<and> buddy_available s = buddy_capacity s \<and>
     (k = 31 \<or> unat sz \<le> 2 ^ k) \<and> (k = 4 \<or> 2 ^ (k - 1) < unat sz)"
proof -
  from buddy_ctor_spec [OF assms, of sz m] obtain s n where s: "buddy_ctor sz chunk m = Some s" "buddy_ok s"
    "live s = {}" "UsedBytes s = 0" "unat (Capacity s) = 2 ^ (n + 3)" "1 \<le> n" "n \<le> 28"
    "n = 28 \<or> unat sz \<le> 2 ^ (n + 3)" "n = 1 \<or> 2 ^ (n + 2) < unat sz" by blast
  have "buddy_available s = Capacity s" using available_empty buddy_okD(1) s by blast
  with s show ?thesis
    by (intro exI [of _ s] exI [of _ "n + 3"]) (auto simp: buddy_used_def buddy_capacity_def)
qed

theorem buddy_ctor_correct_witness:
  "\<exists>s. buddy_ctor 100 0x2000 (\<lambda>_. 7) = Some s \<and> unat (buddy_capacity s) = 128"
proof -
  from buddy_ctor_correct [of "0x2000" 100 "\<lambda>_. 7"] obtain s k where
    s: "buddy_ctor 100 0x2000 (\<lambda>_. 7) = Some s" "unat (buddy_capacity s) = 2 ^ k" "4 \<le> k" "k \<le> 31"
    "k = 31 \<or> 100 \<le> (2::nat) ^ k" "k = 4 \<or> (2::nat) ^ (k - 1) < 100" by auto
  have "\<not> 8 \<le> k"
  proof
    assume "8 \<le> k"
    then have "(2::nat) ^ 7 \<le> 2 ^ (k - 1)" by (intro power_increasing) auto
    with s(6) \<open>8 \<le> k\<close> show False by simp
  qed
  then have "k = 4 \<or> k = 5 \<or> k = 6 \<or> k = 7" using s(3) by linarith
  with s(5) have "k = 7" by auto
  with s(1,2) show ?thesis by auto
qed

section \<open>alloc\<close>

text \<open>
  C2: \<open>alloc\<close> returns null and changes nothing exactly when the request is larger than what
  \<open>available\<close> reports (or nothing is available).  Otherwise it returns the start of a block
  of the smallest size that fits, 16-byte aligned in the bulk and disjoint from every block in
  use; the invariant holds, the accounting is exact, and no byte of a block in use is changed.
\<close>

theorem buddy_alloc_correct:
  assumes ok: "buddy_ok s"
  shows "if alloc_fails s sz then buddy_alloc s sz = (s, 0)
    else \<exists>s' x. buddy_alloc s sz = (s', baddr s x) \<and> baddr s x \<noteq> 0 \<and> best_tier s sz (fst x) \<and>
      16 dvd unat (baddr s x - Chunk s) \<and> live s' = insert x (live s) \<and>
      (\<forall>y\<in>live s. disj_blocks (tiers s) x y) \<and> buddy_ok s' \<and> keeps s s' (live s) \<and>
      unat (buddy_used s') = unat (buddy_used s) + bsz (tiers s) (fst x) \<and>
      HWMBytes s' = max (HWMBytes s) (UsedBytes s')"
proof (cases "alloc_fails s sz")
  case True
  then show ?thesis using alloc_fail [OF ok] by simp
next
  case False
  from alloc_succeeds [OF ok False] obtain s' t b where
    a: "buddy_alloc s sz = (s', baddr s (t, b))" "best_tier s sz t" "is_block (tiers s) (t, b)" "buddy_ok s'"
    "live s' = insert (t, b) (live s)" "(t, b) \<notin> live s" "keeps s s' (live s)"
    "HWMBytes s' = max (HWMBytes s) (UsedBytes s')" .
  note g = buddy_okD(2) [OF ok]
  have "unat (baddr s (t, b) - Chunk s) = boff (tiers s) (t, b)"
    using chunk_offset(4) [OF g boff_props(1) [OF g a(3)]] by (simp add: baddr_def)
  then have al: "16 dvd unat (baddr s (t, b) - Chunk s)" using boff_props(2) [OF g a(3)] by simp
  have dj: "disj_blocks (tiers s) (t, b) y" if "y \<in> live s" for y
    using live_disjoint [OF buddy_okD(1) [OF a(4)], of "(t, b)" y] a that keepsD(1) [OF a(7)] by auto
  have used: "unat (UsedBytes s') = unat (UsedBytes s) + bsz (tiers s) t"
    using ok a(4,5,6) keepsD(1) [OF a(7)] bytes_in_insert [OF finite_live a(6)] by (simp add: buddy_ok_def)
  show ?thesis
    using False a al dj used baddr_nonnull(1) [OF g a(3)]
    by (simp add: buddy_used_def) (intro exI [of _ t] exI [of _ b], simp)
qed

theorem buddy_alloc_correct_witness:
  "snd (buddy_alloc demo_heap 20) \<noteq> 0 \<and> buddy_alloc demo_heap 65 = (demo_heap, 0)"
  using buddy_alloc_correct [OF demo_heap(2), of 20] buddy_alloc_correct [OF demo_heap(2), of 65]
  by (auto simp: alloc_fails_def demo_heap)

text \<open>
  C4: A request never fails while a block of its size is unused: if some block of the tier that
  serves the request overlaps no block in use, \<open>alloc\<close> returns a block.  Freed buddies are
  therefore always merged as far as possible.
\<close>

theorem buddy_alloc_complete:
  assumes ok: "buddy_ok s" and t: "best_tier s sz t" and x: "is_block (tiers s) (t, b)"
    and free: "\<And>y. y \<in> live s \<Longrightarrow> disj_blocks (tiers s) (t, b) y"
  shows "snd (buddy_alloc s sz) \<noteq> 0"
proof -
  have T: "tree_inv (tiers s) (flag s)" using buddy_okD(1) [OF ok] by (auto simp: buddy_inv_def inv_with_def)
  have "\<exists>u\<le>t. free_on (flag s) u \<noteq> {}"
    using unused_in_free [OF T, of t b] x free by (auto simp: is_block_def live_def)
  then have "has_free s t" by (auto simp: has_free_def)
  then have nf: "\<not> alloc_fails s sz"
    using has_free_available [OF buddy_okD(1) [OF ok] t] by (auto simp: alloc_fails_def)
  show ?thesis
    by (rule alloc_succeeds [OF ok nf]) (use baddr_nonnull(1) [OF buddy_okD(2) [OF ok]] in auto)
qed

theorem buddy_alloc_complete_witness:
  "snd (buddy_alloc demo_used 32) \<noteq> 0"
proof -
  from demo_used(1) obtain b where b: "live demo_used = {(1, b)}" "b < 2" by blast
  have t: "best_tier demo_used 32 1"
    by (auto simp: best_tier_def demo_used(3) bsz_def less_Suc_eq numeral_3_eq_3)
  show ?thesis
  proof (rule buddy_alloc_complete [OF demo_used(2) t, of "1 - b"])
    show "is_block (tiers demo_used) (1, 1 - b)" by (simp add: demo_used(3) is_block_def)
    show "disj_blocks (tiers demo_used) (1, 1 - b) y" if "y \<in> live demo_used" for y
      using that b disj_nested_other [of 1 3 "1 - b" b] by (cases b) (auto simp: demo_used(3))
  qed
qed

section \<open>free and dealloc\<close>

text \<open>
  C3: \<open>free\<close> of a pointer to a block in use finds exactly that block, takes it out of the set of
  blocks in use, keeps the invariant, the accounting and every byte of the other blocks in use,
  and the assertion in \<open>recycle\<close> that the block is marked never fires.
\<close>

theorem buddy_free_correct:
  assumes ok: "buddy_ok s" and x: "(t, b) \<in> live s"
  defines "s' \<equiv> buddy_free s (baddr s (t, b))"
  shows "locateBlockInUse s (baddr s (t, b)) = Some (of_nat t, of_nat b) \<and>
    buddy_recycle_asserts s (of_nat t) (of_nat b) \<and> buddy_ok s' \<and> live s' = live s - {(t, b)} \<and>
    keeps s s' (live s - {(t, b)}) \<and> unat (buddy_used s) = unat (buddy_used s') + bsz (tiers s) t"
proof -
  have F: "buddy_ok s'" "live s' = live s - {(t, b)}" "keeps s s' (live s - {(t, b)})"
    using free_spec [OF ok x] by (simp_all add: s'_def)
  then have "unat (UsedBytes s) = unat (UsedBytes s') + bsz (tiers s) t"
    using ok bytes_in_remove [OF finite_live x, of "tiers s"] keepsD(1) [OF F(3)] by (simp add: buddy_ok_def)
  with F show ?thesis
    using locate_live [OF buddy_okD(1) [OF ok] x] recycle_spec [OF buddy_okD(1) [OF ok] x]
    by (simp add: buddy_used_def)
qed

theorem buddy_free_correct_witness:
  "\<exists>p. buddy_alloc demo_heap 20 = (demo_used, p) \<and> live (buddy_free demo_used p) = {}"
proof -
  from demo_used(1) obtain b where b: "live demo_used = {(1, b)}"
    "buddy_alloc demo_heap 20 = (demo_used, baddr demo_used (1, b))" by blast
  then show ?thesis using buddy_free_correct [OF demo_used(2), of 1 b] by auto
qed

text \<open>
  \<open>dealloc\<close> with a size hint in the range of the block's size does exactly what \<open>free\<close> does.
\<close>

theorem buddy_dealloc_is_free:
  assumes ok: "buddy_ok s" and x: "x \<in> live s" and hint: "best_tier s sz (fst x)"
  shows "buddy_dealloc s (baddr s x) sz = buddy_free s (baddr s x)"
proof -
  obtain t b where xe: "x = (t, b)" by fastforce
  note g = buddy_okD(2) [OF ok] and k = live_block [OF x]
  have "t < tiers s" using k by (simp add: is_block_def xe)
  then show ?thesis
    using tierOf_best [OF g hint] blockIdOf_block [OF g] tier_valid [OF g] block_id_valid [OF g] k x
      locate_live [OF buddy_okD(1) [OF ok]]
    by (simp add: buddy_dealloc_def buddy_free_def Let_def xe)
qed

theorem buddy_dealloc_is_free_witness:
  "\<exists>p. buddy_alloc demo_heap 20 = (demo_used, p) \<and> buddy_dealloc demo_used p 20 = buddy_free demo_used p"
proof -
  from demo_used(1) obtain b where b: "live demo_used = {(1, b)}"
    "buddy_alloc demo_heap 20 = (demo_used, baddr demo_used (1, b))" by blast
  have "best_tier demo_used 20 1"
    by (auto simp: best_tier_def demo_used(3) bsz_def less_Suc_eq numeral_3_eq_3)
  then show ?thesis using buddy_dealloc_is_free [OF demo_used(2), of "(1, b)" 20] b by auto
qed

text \<open>
  Allocating and freeing again restores the allocator: the same blocks are in use, and
  \<open>used\<close> and \<open>available\<close> report what they did before.
\<close>

theorem buddy_alloc_free_restores:
  assumes ok: "buddy_ok s" and a: "buddy_alloc s sz = (s1, p)" "p \<noteq> 0"
  defines "s2 \<equiv> buddy_free s1 p"
  shows "buddy_ok s2 \<and> live s2 = live s \<and> buddy_used s2 = buddy_used s \<and>
    buddy_available s2 = buddy_available s \<and> keeps s s2 (live s)"
proof -
  have nf: "\<not> alloc_fails s sz" using a alloc_fail [OF ok, of sz] by auto
  from alloc_succeeds [OF ok nf] obtain s' t b where
    al: "buddy_alloc s sz = (s', baddr s (t, b))" "buddy_ok s'" "live s' = insert (t, b) (live s)"
    "(t, b) \<notin> live s" "keeps s s' (live s)" by metis
  have e: "s1 = s'" "p = baddr s' (t, b)" using al a keepsD(5) [OF al(5)] by simp_all
  have F: "buddy_ok s2" "live s2 = live s" "keeps s' s2 (live s)"
    using free_spec [OF al(2), of "(t, b)"] al by (simp_all add: s2_def e)
  have K: "keeps s s2 (live s)" using keeps_trans [OF al(5) F(3)] by simp
  have "buddy_available s2 = buddy_available s"
    using available_live [OF buddy_okD(1) [OF ok] buddy_okD(1) [OF F(1)]] keepsD(3) [OF K] F(2) by simp
  moreover have "UsedBytes s2 = UsedBytes s"
    using ok F(1,2) keepsD(1) [OF K] by (simp add: buddy_ok_def word_eq_unat_iff)
  ultimately show ?thesis using F K by (simp add: buddy_used_def)
qed

theorem buddy_alloc_free_restores_witness:
  "buddy_available (buddy_free demo_used (snd (buddy_alloc demo_heap 20))) = 64"
proof -
  obtain b where b: "buddy_alloc demo_heap 20 = (demo_used, baddr demo_used (1, b))" "b < 2"
    using demo_used(1) by blast
  have "baddr demo_used (1, b) \<noteq> 0"
    using baddr_nonnull(1) [OF buddy_okD(2) [OF demo_used(2)], of "(1, b)"] b(2)
    by (simp add: is_block_def demo_used(3))
  from buddy_alloc_free_restores [OF demo_heap(2) b(1) this] show ?thesis
    by (simp add: b(1) demo_heap)
qed

section \<open>realloc and calloc\<close>

text \<open>
  C10: \<open>realloc\<close> of a block in use to a non-zero size either leaves everything as it is (returning
  null, or the same pointer when the block is large enough), or returns a block disjoint from
  all that were in use, large enough for the request, that holds the first bytes of the old
  block up to the lesser of the two sizes, while the old block is released.
\<close>

theorem buddy_realloc_correct:
  assumes ok: "buddy_ok s" and x: "x \<in> live s" and sz: "sz \<noteq> 0"
    and r: "buddy_realloc s (baddr s x) sz = (s', q)"
  shows "(s' = s \<and> (q = 0 \<or> q = baddr s x \<and> unat sz \<le> bsz (tiers s) (fst x))) \<or>
    (\<exists>y. q = baddr s y \<and> (\<forall>z\<in>live s. disj_blocks (tiers s) y z) \<and> buddy_ok s' \<and> live s' = insert y (live s - {x}) \<and>
       unat sz \<le> bsz (tiers s) (fst y) \<and> keeps s s' (live s - {x}) \<and>
       (\<forall>i < min (unat sz) (bsz (tiers s) (fst x)). bmem s' (q + of_nat i) = bmem s (baddr s x + of_nat i)))"
  using realloc_outcomes [OF ok x r] sz by blast

theorem buddy_realloc_correct_witness:
  "\<exists>p s' q. buddy_alloc demo_heap 20 = (demo_used, p) \<and> buddy_realloc demo_used p 5 = (s', q) \<and>
     (s' = demo_used \<and> (q = 0 \<or> q = p) \<or> (\<forall>i<5. bmem s' (q + of_nat i) = bmem demo_used (p + of_nat i)))"
proof -
  from demo_used(1) obtain b where b: "live demo_used = {(1, b)}"
    "buddy_alloc demo_heap 20 = (demo_used, baddr demo_used (1, b))" by blast
  obtain s' q where r: "buddy_realloc demo_used (baddr demo_used (1, b)) 5 = (s', q)" by fastforce
  have "min 5 (bsz 3 1) = 5" by (simp add: bsz_def)
  with buddy_realloc_correct [OF demo_used(2) _ _ r] b r show ?thesis
    by (auto simp: demo_used(3) intro!: exI [of _ s'] exI [of _ q])
qed

text \<open>
  \<open>calloc\<close> multiplies in 32 bits.  It returns null exactly when a request for the truncated
  product fails, and otherwise a fresh block whose bytes up to that product are all zero.
\<close>

theorem buddy_calloc_correct:
  assumes ok: "buddy_ok s"
  shows "if alloc_fails s (num * sz) then buddy_calloc s num sz = (s, 0)
    else \<exists>s' x. buddy_calloc s num sz = (s', baddr s x) \<and> best_tier s (num * sz) (fst x) \<and>
      live s' = insert x (live s) \<and> x \<notin> live s \<and> buddy_ok s' \<and> keeps s s' (live s) \<and>
      (\<forall>i < unat (num * sz). bmem s' (baddr s x + of_nat i) = 0)"
proof (cases "alloc_fails s (num * sz)")
  case True
  then show ?thesis using calloc_fail [OF ok] by simp
next
  case False
  show ?thesis
  proof (rule calloc_succeeds [OF ok False])
    fix s' t b
    assume "buddy_calloc s num sz = (s', baddr s (t, b))" "best_tier s (num * sz) t" "buddy_ok s'"
      "live s' = insert (t, b) (live s)" "(t, b) \<notin> live s" "keeps s s' (live s)"
      "\<And>i. i < unat (num * sz) \<Longrightarrow> bmem s' (baddr s (t, b) + of_nat i) = 0"
    with False show ?thesis by (simp only: if_False) (intro exI [of _ s'] exI [of _ "(t, b)"], simp)
  qed
qed

theorem buddy_calloc_correct_witness:
  "snd (buddy_calloc demo_heap 3 5) = 0 \<or>
   bmem (fst (buddy_calloc demo_heap 3 5)) (snd (buddy_calloc demo_heap 3 5) + 14) = 0"
  using buddy_calloc_correct [OF demo_heap(2), of 3 5]
  by (auto simp: alloc_fails_def demo_heap dest: spec [of _ "14::nat"])

text \<open>
  The product wraps: a request for 2^31 elements of two bytes is served with the smallest
  block of the allocator, 16 bytes, whenever anything is available.
\<close>

theorem buddy_calloc_wraps:
  assumes ok: "buddy_ok s" and av: "buddy_available s \<noteq> 0"
  shows "\<exists>s' x. buddy_calloc s 0x80000000 2 = (s', baddr s x) \<and> baddr s x \<noteq> 0 \<and>
     live s' = insert x (live s) \<and> bsz (tiers s) (fst x) = 16"
proof -
  have z: "(4294967296 :: u32) = 0" by code_simp
  have nf: "\<not> alloc_fails s (0x80000000 * 2)" using av by (simp add: alloc_fails_def z)
  from calloc_succeeds [OF ok nf] obtain s' t b where c: "buddy_calloc s 0x80000000 2 = (s', baddr s (t, b))"
    "best_tier s (0x80000000 * 2) t" "is_block (tiers s) (t, b)" "live s' = insert (t, b) (live s)" by metis
  have t: "t < tiers s" "\<not> (t < tiers s - 1 \<and> tiers s - 1 < tiers s)"
    using c(2) by (auto simp: best_tier_def z)
  then have "tiers s + 3 - t = 4" by simp
  then have "bsz (tiers s) t = 16" by (simp add: bsz_def)
  moreover have "baddr s (t, b) \<noteq> 0" using baddr_nonnull(1) [OF buddy_okD(2) [OF ok] c(3)] .
  ultimately show ?thesis using c(1,4) by (intro exI [of _ s'] exI [of _ "(t, b)"]) simp
qed

theorem buddy_calloc_wraps_witness:
  "\<exists>s' p. buddy_calloc demo_heap 0x80000000 2 = (s', p) \<and> p \<noteq> 0"
  using buddy_calloc_wraps [OF demo_heap(2)] by (auto simp: demo_heap)

section \<open>Refinement and reachable states\<close>

text \<open>
  C1: The allocator refines the abstract heap: every call of a client that respects the contract
  keeps the invariant and is a step of the heap of regions, in which regions never overlap.
\<close>

theorem buddy_refines_heap:
  assumes st: "buddy_step s c s' p" and ok: "buddy_ok s"
  shows "buddy_ok s' \<and> heap_step (buddy_regions s) c (buddy_regions s') p \<and> heap_wf (buddy_regions s')"
proof -
  have ok': "buddy_ok s'" using buddy_step_ok [OF st ok] .
  have "heap_step (buddy_regions s) c (buddy_regions s') p"
    using st ok ok'
  proof (induction rule: buddy_step.induct)
    case (bs_alloc s sz s' p)
    then show ?case using buddy_alloc_heap(2) [of s sz] by (simp add: hs_alloc)
  next
    case (bs_calloc s num sz s' p)
    show ?case
    proof (cases "alloc_fails s (num * sz)")
      case True
      with bs_calloc show ?thesis by (auto simp: calloc_fail intro: hs_calloc heap_null)
    next
      case False
      from calloc_succeeds [OF bs_calloc(2) False] obtain t b where
        c: "p = baddr s (t, b)" "best_tier s (num * sz) t" "live s' = insert (t, b) (live s)"
        "(t, b) \<notin> live s" "keeps s s' (live s)" using bs_calloc(1) by (metis prod.inject)
      have "heap_new (buddy_regions s) (unat (num * sz)) (buddy_regions s') p"
        using fresh_heap_new [OF bs_calloc(3) c(3,4,5)] c(1,2) by (simp add: best_tier_def)
      then show ?thesis by (rule hs_calloc)
    qed
  next
    case (bs_free x s)
    note F = free_spec [OF bs_free(2,1)]
    have "buddy_regions (buddy_free s (baddr s x)) = buddy_regions s - {block_region s x}"
      using F bs_free by (intro regions_remove [OF buddy_okD(1)]) auto
    then show ?case using bs_free(1) hs_free [of "baddr s x" "bsz (tiers s) (fst x)" "buddy_regions s"]
      by (simp add: block_region_def buddy_regions_def)
  next
    case (bs_dealloc x s sz)
    note F = dealloc_spec [of s "fst x" "snd x" sz, simplified, OF bs_dealloc(3,1,2)]
    have "buddy_regions (buddy_dealloc s (baddr s x) sz) = buddy_regions s - {block_region s x}"
      using F bs_dealloc by (intro regions_remove [OF buddy_okD(1)]) auto
    moreover have "unat sz \<le> bsz (tiers s) (fst x)" using bs_dealloc(2) by (simp add: best_tier_def)
    ultimately show ?case
      using bs_dealloc(1) hs_dealloc [of "baddr s x" "bsz (tiers s) (fst x)" "buddy_regions s" sz]
      by (simp add: block_region_def buddy_regions_def)
  next
    case (bs_realloc_null s sz s' p)
    then show ?case using buddy_alloc_heap(2) [of s sz]
      by (simp add: buddy_realloc_def hs_realloc_null)
  next
    case (bs_realloc x s sz s' p)
    have m: "(baddr s x, bsz (tiers s) (fst x)) \<in> buddy_regions s"
      using bs_realloc(1) by (auto simp: buddy_regions_def block_region_def)
    note I = buddy_okD(1) [OF bs_realloc(3)]
    from realloc_outcomes [OF bs_realloc(3,1,2)] show ?case
    proof (elim disjE exE conjE)
      assume z: "sz = 0" "s' = buddy_free s (baddr s x)" "p = 0"
      have "buddy_regions s' = buddy_regions s - {block_region s x}"
        using free_spec [OF bs_realloc(3,1)] z bs_realloc by (intro regions_remove [OF I]) auto
      then show ?thesis using z m hs_realloc_zero by (simp add: block_region_def)
    next
      assume "sz \<noteq> 0" "s' = s" "p = 0"
      then show ?thesis using m hs_realloc_fail by blast
    next
      assume "s' = s" "p = baddr s x" "unat sz \<le> bsz (tiers s) (fst x)"
      then show ?thesis using m hs_realloc_stay by blast
    next
      fix y assume y: "p = baddr s y" "is_block (tiers s) y" "y \<notin> live s" "live s' = insert y (live s - {x})"
        "keeps s s' (live s - {x})" "unat sz \<le> bsz (tiers s) (fst y)"
        "\<forall>z\<in>live s. disj_blocks (tiers s) y z"
      have Y: "block_region s' y = block_region s y" "buddy_regions s' = block_region s ` live s'"
        using keeps_region [OF y(5)] by (simp_all add: buddy_regions_def)
      have inj: "block_region s z = block_region s x \<Longrightarrow> z = x" if "z \<in> live s" for z
        using block_region_inj [OF I that bs_realloc(1)] by (simp add: block_region_def)
      note g = buddy_okD(2) [OF bs_realloc(3)]
      let ?Y = "(baddr s y, bsz (tiers s) (fst y))"
      have sep_y: "apart ?Y (block_region s z)" if z: "z \<in> live s" for z
        using in_block_region [OF g y(2)] in_block_region [OF g live_block [OF z]] y(7) z
          in_one_block [of s y z]
        by (simp add: apart_def block_region_def)
      have "baddr s y \<noteq> 0" using baddr_nonnull(1) [OF g y(2)] .
      then have "heap_new (buddy_regions s) (unat sz) (insert ?Y (buddy_regions s)) (baddr s y)"
        using y(6) sep_y by (intro heap_fresh) (auto simp: buddy_regions_def bsz_def)
      moreover have "?Y \<notin> buddy_regions s"
      proof
        assume "?Y \<in> buddy_regions s"
        then obtain z where z: "z \<in> live s" "?Y = block_region s z" by (auto simp: buddy_regions_def)
        have "in_region ?Y (baddr s y)" by (simp add: in_region_def bsz_def)
        with sep_y [OF z(1)] z(2) show False by (auto simp: apart_def)
      qed
      moreover have "buddy_regions s' = insert ?Y (buddy_regions s - {block_region s x})"
        using Y y(4) inj bs_realloc(1) by (auto simp: buddy_regions_def keeps_region [OF y(5)] block_region_def)
      ultimately show ?thesis using hs_realloc_move [OF m, of sz "baddr s y" "bsz (tiers s) (fst y)"] y(1)
        by (simp add: block_region_def)
    qed
  next
    case (bs_poke x s a v)
    have "live (s\<lparr>bmem := (bmem s)(a := v)\<rparr>) = live s"
      by (rule client_write(2) [OF bs_poke(3)]) (metis bs_poke(1,2) fun_upd_other)
    then have "buddy_regions (s\<lparr>bmem := (bmem s)(a := v)\<rparr>) = buddy_regions s"
      by (simp add: buddy_regions_def block_region_def baddr_def tiers_def)
    moreover have "in_region (block_region s x) a" "block_region s x \<in> buddy_regions s"
      using bs_poke in_block_region [OF buddy_okD(2) live_block] by (auto simp: buddy_regions_def)
    ultimately show ?case using hs_poke by metis
  qed
  with ok' show ?thesis using buddy_regions_wf [OF buddy_okD(1)] by blast
qed

theorem buddy_refines_heap_witness:
  "heap_step (buddy_regions demo_heap) (Alloc 20) (buddy_regions demo_used) (snd (buddy_alloc demo_heap 20))"
proof -
  have "buddy_step demo_heap (Alloc 20) demo_used (snd (buddy_alloc demo_heap 20))"
    by (rule bs_alloc) (simp add: demo_used_def)
  from buddy_refines_heap [OF this demo_heap(2)] show ?thesis by blast
qed

text \<open>An allocator in use: constructed, then any sequence of calls of such a client.\<close>

inductive buddy_reachable :: "buddy \<Rightarrow> bool" where
  br_ctor: "chunk \<noteq> 0 \<Longrightarrow> unat chunk + 2 ^ 31 \<le> 2 ^ 64 \<Longrightarrow> buddy_ctor sz chunk m = Some s \<Longrightarrow>
    buddy_reachable s"
| br_step: "buddy_reachable s \<Longrightarrow> buddy_step s c s' p \<Longrightarrow> buddy_reachable s'"

lemma reachable_ok: "buddy_reachable s \<Longrightarrow> buddy_ok s"
proof (induction rule: buddy_reachable.induct)
  case (br_ctor chunk sz m s)
  then show ?case using buddy_ctor_spec [OF br_ctor(1,2), of sz m] by auto
next
  case (br_step s c s' p)
  then show ?case using buddy_step_ok by blast
qed

lemma demo_reachable: "buddy_reachable demo_heap" "buddy_reachable demo_used"
proof -
  show r: "buddy_reachable demo_heap" by (rule br_ctor [OF _ _ demo_heap(1)]) simp_all
  have "buddy_step demo_heap (Alloc 20) demo_used (snd (buddy_alloc demo_heap 20))"
    by (rule bs_alloc) (simp add: demo_used_def)
  with r show "buddy_reachable demo_used" by (rule br_step)
qed

text \<open>
  C7: In every reachable state \<open>used\<close> is exactly the number of bytes in the blocks handed out and
  never exceeds the capacity, these blocks lie in the bulk and do not overlap, and once all of
  them have been released the whole capacity is available as one block again.
\<close>

theorem buddy_reachable_safe:
  assumes r: "buddy_reachable s"
  shows "unat (buddy_used s) = bytes_in (tiers s) (live s) \<and> buddy_used s \<le> buddy_capacity s \<and>
    (\<forall>x\<in>live s. bend (tiers s) x \<le> unat (buddy_capacity s)) \<and>
    (\<forall>x\<in>live s. \<forall>y\<in>live s. x \<noteq> y \<longrightarrow> disj_blocks (tiers s) x y) \<and>
    (live s = {} \<longrightarrow> buddy_used s = 0 \<and> buddy_available s = buddy_capacity s)"
proof -
  have ok: "buddy_ok s" using reachable_ok [OF r] .
  have c: "unat (Capacity s) = 2 ^ (tiers s + 3)" using buddy_okD(2) [OF ok] by (simp add: geom_def)
  have "bend (tiers s) x \<le> unat (Capacity s)" if "x \<in> live s" for x
    unfolding c using bend_le_total [OF live_block [OF that]] .
  moreover have "UsedBytes s = 0 \<and> buddy_available s = Capacity s" if "live s = {}"
    using ok that available_empty [OF buddy_okD(1) [OF ok] that] by (simp add: buddy_ok_def bytes_in_def unat_eq_0)
  moreover have "unat (UsedBytes s) = bytes_in (tiers s) (live s)" using ok by (simp add: buddy_ok_def)
  ultimately show ?thesis
    using used_le [OF ok] live_disjoint [OF buddy_okD(1) [OF ok]]
    unfolding buddy_used_def buddy_capacity_def by blast
qed

theorem buddy_reachable_safe_witness:
  "unat (buddy_used demo_used) = 32"
proof -
  from demo_used(1) obtain b where "live demo_used = {(1, b)}" by blast
  then show ?thesis
    using buddy_reachable_safe [OF demo_reachable(2)] by (simp add: bytes_in_def demo_used(3) bsz_def)
qed

text \<open>
  C12: Isolation: a byte of a block that is in use before and after a call has the same value
  before and after it, unless the call is the client's own write to that very byte.
\<close>

theorem buddy_isolation:
  assumes st: "buddy_step s c s' p" and ok: "buddy_ok s" and x: "x \<in> live s" "x \<in> live s'"
    and a: "in_block s x a" and c: "\<And>v. c \<noteq> Poke a v"
  shows "bmem s' a = bmem s a"
  using st ok x a c
proof (induction rule: buddy_step.induct)
  case (bs_alloc s sz s' p)
  then show ?case using keepsD(10) [OF buddy_alloc_heap(3) [of s sz]] by simp
next
  case (bs_calloc s num sz s' p)
  have "keeps s s' (live s)"
  proof (cases "alloc_fails s (num * sz)")
    case True
    then show ?thesis using calloc_fail [OF bs_calloc(2) True] bs_calloc(1) by simp
  next
    case False
    show ?thesis by (rule calloc_succeeds [OF bs_calloc(2) False]) (use bs_calloc(1) in simp)
  qed
  from keepsD(10) [OF this bs_calloc(3,5)] show ?case .
next
  case (bs_free y s)
  from free_spec [OF bs_free(2,1)] bs_free(4)
  have "x \<in> live s - {y}" "keeps s (buddy_free s (baddr s y)) (live s - {y})" by simp_all
  from keepsD(10) [OF this(2,1) bs_free(5)] show ?case .
next
  case (bs_dealloc y s sz)
  from dealloc_spec [of s "fst y" "snd y" sz] bs_dealloc
  have "x \<in> live s - {y}" "keeps s (buddy_dealloc s (baddr s y) sz) (live s - {y})" by simp_all
  from keepsD(10) [OF this(2,1) bs_dealloc(6)] show ?case .
next
  case (bs_realloc_null s sz s' p)
  then show ?case using keepsD(10) [OF buddy_alloc_heap(3) [of s sz]] by (simp add: buddy_realloc_def)
next
  case (bs_realloc y s sz s' p)
  from realloc_outcomes [OF bs_realloc(3,1,2)] show ?case
  proof (elim disjE exE conjE)
    assume "s' = buddy_free s (baddr s y)"
    with free_spec [OF bs_realloc(3,1)] bs_realloc(5)
    have "x \<in> live s - {y}" "keeps s s' (live s - {y})" by simp_all
    from keepsD(10) [OF this(2,1) bs_realloc(6)] show ?thesis .
  next
    fix z assume z: "z \<notin> live s" "live s' = insert z (live s - {y})" "keeps s s' (live s - {y})"
    then have "x \<in> live s - {y}" using bs_realloc(4,5) by auto
    from keepsD(10) [OF z(3) this bs_realloc(6)] show ?thesis .
  qed simp_all
next
  case (bs_poke y s b v)
  then show ?case by auto
qed

theorem buddy_isolation_witness:
  "\<exists>b. bmem (fst (buddy_alloc demo_used 7)) (baddr demo_used (1, b)) = bmem demo_used (baddr demo_used (1, b)) \<and>
     (1, b) \<in> live demo_used"
proof -
  from demo_used(1) obtain b where b: "live demo_used = {(1, b)}" "b < 2" by blast
  note g = buddy_okD(2) [OF demo_used(2)]
  have k: "is_block (tiers demo_used) (1, b)" using b by (simp add: is_block_def demo_used(3))
  have a: "in_block demo_used (1, b) (baddr demo_used (1, b))"
    using in_block_baddr [OF g k, of 0] by (simp add: bsz_def)
  obtain s' p where s': "buddy_alloc demo_used 7 = (s', p)" by fastforce
  have st: "buddy_step demo_used (Alloc 7) s' p" using s' by (rule bs_alloc)
  have "(1, b) \<in> live s'"
  proof (cases "alloc_fails demo_used 7")
    case True
    then show ?thesis using alloc_fail [OF demo_used(2) True] s' b by simp
  next
    case False
    show ?thesis by (rule alloc_succeeds [OF demo_used(2) False]) (use s' b in auto)
  qed
  from buddy_isolation [OF st demo_used(2) _ this a] b s' show ?thesis by auto
qed

end
