(* ===== verification/Linear.thy ===== *)
theory Linear
  imports Prelude
begin

text \<open>
  The linear (stack) allocator of src/allocators.cpp: struct LinearAllocatorDetails and the
  members of class LinearAllocator.  A cell starts with an 8-byte FreeCellRecord in the bulk:
  the offset of the previous cell, whose top bit marks a freed cell, and a checksum.  The
  rollback loop of \<open>free\<close> follows offsets found in memory and need not end on arbitrary
  memory, so it is a partial function and \<open>free\<close> returns an option.  Assertions have their
  NDEBUG meaning.
\<close>

section \<open>State\<close>

record linear =
  lChunk :: ptr
  lCurrent :: u32
  lPrevious :: u32
  lCapacity :: u32
  lHWMBytes :: u32
  lmem :: memory

definition sizeof_FreeCellRecord :: u32 where
  "sizeof_FreeCellRecord = 8"

definition CRC_KEY :: u32 where
  "CRC_KEY = 0x5FEE1299"

definition FREED_BIT :: u32 where
  "FREED_BIT = 0x80000000"

definition OFFSET_MASK :: u32 where
  "OFFSET_MASK = 0x7FFFFFFF"

text \<open>The fields of the record at address \<open>p\<close>.\<close>

definition rec_PrevOffset :: "linear \<Rightarrow> ptr \<Rightarrow> u32" where
  "rec_PrevOffset s p = load32 (lmem s) p"

definition rec_CRC :: "linear \<Rightarrow> ptr \<Rightarrow> u32" where
  "rec_CRC s p = load32 (lmem s) (p + 4)"

definition set_PrevOffset :: "ptr \<Rightarrow> u32 \<Rightarrow> linear \<Rightarrow> linear" where
  "set_PrevOffset p v s = s\<lparr>lmem := store32 (lmem s) p v\<rparr>"

definition set_CRC :: "ptr \<Rightarrow> u32 \<Rightarrow> linear \<Rightarrow> linear" where
  "set_CRC p v s = s\<lparr>lmem := store32 (lmem s) (p + 4) v\<rparr>"

text \<open>Rounding up to a multiple of 8, as the constructor and \<open>alloc\<close> do it.\<close>

definition round8 :: "u32 \<Rightarrow> u32" where
  "round8 n = (if n AND 7 \<noteq> 0 then push_bit 3 (drop_bit 3 n + 1) else n)"

section \<open>Construction and queries\<close>

definition linear_ctor :: "u32 \<Rightarrow> ptr \<Rightarrow> memory \<Rightarrow> linear" where
  "linear_ctor sz chunk m =
     (let sz' = (if sz < 16 then 16 else if sz > 0x80000000 then 0x80000000 else round8 sz)
      in \<lparr>lChunk = chunk, lCurrent = 0, lPrevious = 0, lCapacity = sz', lHWMBytes = 0, lmem = m\<rparr>)"

definition linear_capacity :: "linear \<Rightarrow> u32" where
  "linear_capacity s = lCapacity s"

definition linear_available :: "linear \<Rightarrow> u32" where
  "linear_available s =
     (let sz = lCapacity s - lCurrent s in
      if sz < sizeof_FreeCellRecord then 0 else sz - sizeof_FreeCellRecord)"

definition linear_used :: "linear \<Rightarrow> u32" where
  "linear_used s = lCurrent s"

definition linear_hwm :: "linear \<Rightarrow> u32" where
  "linear_hwm s = lHWMBytes s"

definition linear_reset :: "linear \<Rightarrow> linear \<times> u32" where
  "linear_reset s = (s\<lparr>lCurrent := 0, lPrevious := 0, lHWMBytes := 0\<rparr>, lHWMBytes s)"

section \<open>alloc\<close>

text \<open>The writes of \<open>alloc\<close> once the request fits: the record, then the bookkeeping.\<close>

definition linear_push :: "linear \<Rightarrow> u32 \<Rightarrow> linear \<times> ptr" where
  "linear_push s sz =
     (let cell = lChunk s + ucast (lCurrent s);
          s1 = set_PrevOffset cell (lPrevious s) s;
          s2 = set_CRC cell (rec_PrevOffset s1 cell XOR CRC_KEY) s1;
          s3 = s2\<lparr>lPrevious := lCurrent s2\<rparr>;
          ret = lChunk s3 + ucast (lCurrent s3) + ucast sizeof_FreeCellRecord;
          s4 = s3\<lparr>lCurrent := lCurrent s3 + sz\<rparr>;
          s5 = (if lCurrent s4 > lHWMBytes s4 then s4\<lparr>lHWMBytes := lCurrent s4\<rparr> else s4)
      in (s5, ret))"

definition linear_alloc :: "linear \<Rightarrow> u32 \<Rightarrow> linear \<times> ptr" where
  "linear_alloc s sz =
     (let sz' = round8 (sz + sizeof_FreeCellRecord) in
      if sz' > linear_available s then (s, 0)
      else if lCurrent s < lCapacity s then linear_push s sz' else (s, 0))"

section \<open>free\<close>

text \<open>
  The rollback loop of \<open>free\<close>: \<open>r\<close> is the address of the record the local variable \<open>rec\<close>
  points to.  The second record read is the one at \<open>Previous\<close>.
\<close>

partial_function (option) linear_rollback :: "linear \<Rightarrow> ptr \<Rightarrow> linear option" where
  "linear_rollback s r =
     (let s1 = s\<lparr>lCurrent := ucast (r - lChunk s)\<rparr> in
      if lCurrent s1 = 0 then Some (s1\<lparr>lPrevious := 0\<rparr>)
      else let r' = lChunk s1 + ucast (lPrevious s1);
               s2 = s1\<lparr>lPrevious := rec_PrevOffset s1 r' AND OFFSET_MASK\<rparr>
           in if rec_PrevOffset s2 r' AND FREED_BIT = 0 then Some s2 else linear_rollback s2 r')"

declare linear_rollback.simps [code]

definition linear_free :: "linear \<Rightarrow> ptr \<Rightarrow> linear option" where
  "linear_free s p =
     (let cell = p - ucast sizeof_FreeCellRecord in
      if lChunk s \<le> cell \<and> cell < lChunk s + ucast (lCapacity s)
      then let s1 = set_PrevOffset cell (rec_PrevOffset s cell OR FREED_BIT) s in
           if ucast (lPrevious s1) \<noteq> cell - lChunk s1 then Some s1 else linear_rollback s1 cell
      else Some s)"

definition linear_dealloc :: "linear \<Rightarrow> ptr \<Rightarrow> u32 \<Rightarrow> linear option" where
  "linear_dealloc s p sz = linear_free s p"

section \<open>realloc and calloc\<close>

definition linear_realloc :: "linear \<Rightarrow> ptr \<Rightarrow> u32 \<Rightarrow> (linear \<times> ptr) option" where
  "linear_realloc s p sz =
     (if sz = 0 then Some (s, 0)
      else let (s1, q) = linear_alloc s sz in
        if q \<noteq> 0 \<and> p \<noteq> 0
        then map_option (\<lambda>s2. (s2, q)) (linear_free (s1\<lparr>lmem := memcpy (lmem s1) q p (unat sz)\<rparr>) p)
        else Some (s1, q))"

definition linear_calloc :: "linear \<Rightarrow> u32 \<Rightarrow> u32 \<Rightarrow> linear \<times> ptr" where
  "linear_calloc s num sz =
     (let len = num * sz;
          (s1, p) = linear_alloc s len
      in if p \<noteq> 0 then (s1\<lparr>lmem := memset (lmem s1) p 0 (unat len)\<rparr>, p) else (s1, p))"

end
