(* ===== verification/LinearInv.thy ===== *)
theory LinearInv
  imports Linear AllocIface
begin

text \<open>
  The linear allocator under a client that releases its cells in the reverse order of their
  allocation.  A state is paired with the stack of the cells the client holds (offset and
  requested size, top first); \<open>lifo_inv\<close> relates the two, and \<open>alloc\<close> and \<open>free\<close> preserve it.
\<close>

section \<open>Geometry\<close>

definition lin_ok :: "linear \<Rightarrow> bool" where
  "lin_ok s \<longleftrightarrow> 16 \<le> unat (lCapacity s) \<and> unat (lCapacity s) \<le> 2 ^ 31 \<and>
     unat (lChunk s) + unat (lCapacity s) \<le> 2 ^ 64 - 8 \<and> lChunk s \<noteq> 0 \<and>
     8 dvd unat (lCurrent s) \<and> unat (lCurrent s) \<le> unat (lCapacity s)"

definition cell_at :: "linear \<Rightarrow> nat \<Rightarrow> ptr" where
  "cell_at s d = lChunk s + of_nat d"

lemma lin_okD:
  assumes "lin_ok s"
  shows "16 \<le> unat (lCapacity s)" "unat (lCapacity s) \<le> 2 ^ 31" "unat (lChunk s) + unat (lCapacity s) \<le> 2 ^ 64 - 8"
    "lChunk s \<noteq> 0" "8 dvd unat (lCurrent s)" "unat (lCurrent s) \<le> unat (lCapacity s)"
  using assms by (simp_all add: lin_ok_def)

lemma cell_at_offset: "d < 2 ^ 64 \<Longrightarrow> unat (cell_at s d - lChunk s) = d"
  by (simp add: cell_at_def unat_of_nat64)

lemma cell_at_unat:
  "lin_ok s \<Longrightarrow> d \<le> unat (lCapacity s) \<Longrightarrow> unat (cell_at s d) = unat (lChunk s) + d"
  "lin_ok s \<Longrightarrow> d \<le> unat (lCapacity s) \<Longrightarrow> cell_at s d \<noteq> 0"
proof -
  assume s: "lin_ok s" "d \<le> unat (lCapacity s)"
  note D = lin_okD [OF s(1)]
  have d: "unat (of_nat d :: ptr) = d" using s(2) D(2) by (intro unat_of_nat64) simp
  then show "unat (cell_at s d) = unat (lChunk s) + d"
    using s(2) D(3) unat_add_lem [of "lChunk s" "of_nat d"] by (simp add: cell_at_def)
  moreover have "0 < unat (lChunk s)" using D(4) by (simp add: unat_gt_0)
  ultimately show "cell_at s d \<noteq> 0" by (auto simp: word_eq_unat_iff)
qed

lemma round8_spec:
  assumes "unat n + 7 < 2 ^ 32"
  shows "unat (round8 n) = (unat n + 7) div 8 * 8"
proof -
  have a: "n AND 7 \<noteq> 0 \<longleftrightarrow> unat n mod 8 \<noteq> 0"
  proof -
    have "n AND 7 = take_bit 3 n" using take_bit_eq_mask [of 3 n] by (simp add: mask_eq_exp_minus_1)
    then have "unat (n AND 7) = unat n mod 8"
      using unsigned_take_bit_eq [of 3 n, where 'a = nat] by (simp only: take_bit_eq_mod) simp
    then show ?thesis by (simp add: word_eq_unat_iff)
  qed
  have q: "unat (drop_bit 3 n + 1) = unat n div 8 + 1"
  proof -
    have "unat (drop_bit 3 n) = unat n div 8" by (simp add: drop_bit_eq_div unat_div)
    moreover have "unat n div 8 + 1 < 2 ^ 32" using assms by simp
    ultimately show ?thesis using unat_add_lem [of "drop_bit 3 n" 1] by simp
  qed
  have "(unat n div 8 + 1) * 8 < 2 ^ 32" if "unat n mod 8 \<noteq> 0"
    using assms that by presburger
  moreover have "unat (push_bit 3 w) = unat w * 8" if "unat w * 8 < 2 ^ 32" for w :: u32
    using unat_mult_lem [of w 8] that by (simp add: push_bit_eq_mult)
  ultimately have "unat n mod 8 \<noteq> 0 \<Longrightarrow> unat (push_bit 3 (drop_bit 3 n + 1)) = (unat n div 8 + 1) * 8"
    using q by metis
  then show ?thesis using a by (auto simp: round8_def) presburger+
qed

text \<open>Requests for which the addition of the record and the rounding do not wrap.\<close>

definition lin_sane :: "u32 \<Rightarrow> bool" where
  "lin_sane sz \<longleftrightarrow> 0 < unat sz \<and> unat sz + 15 < 2 ^ 32"

definition cell_bytes :: "nat \<Rightarrow> nat" where
  "cell_bytes k = (k + 15) div 8 * 8"

lemma cell_bytes_le: "k + 8 \<le> cell_bytes k" "8 dvd cell_bytes k"
  by (simp_all add: cell_bytes_def)

lemma sane_round: "lin_sane sz \<Longrightarrow> unat (round8 (sz + sizeof_FreeCellRecord)) = cell_bytes (unat sz)"
proof -
  assume s: "lin_sane sz"
  then have "unat (sz + sizeof_FreeCellRecord) = unat sz + 8"
    using unat_add_lem [of sz 8] by (simp add: lin_sane_def sizeof_FreeCellRecord_def)
  then show ?thesis using s round8_spec [of "sz + sizeof_FreeCellRecord"]
    by (simp add: lin_sane_def cell_bytes_def)
qed

lemma available_unat:
  assumes "lin_ok s"
  shows "unat (linear_available s) = unat (lCapacity s) - unat (lCurrent s) - 8"
proof -
  have c: "unat (lCapacity s - lCurrent s) = unat (lCapacity s) - unat (lCurrent s)"
    using lin_okD(6) [OF assms] by (simp add: unat_sub word_le_nat_alt)
  show ?thesis
    by (auto simp: linear_available_def Let_def sizeof_FreeCellRecord_def word_less_nat_alt unat_sub
        word_le_nat_alt c)
qed

section \<open>alloc\<close>

definition lin_fits :: "linear \<Rightarrow> u32 \<Rightarrow> bool" where
  "lin_fits s sz \<longleftrightarrow> unat (lCurrent s) + cell_bytes (unat sz) + 8 \<le> unat (lCapacity s)"

lemma linear_alloc_fail:
  assumes "lin_ok s" "lin_sane sz" "\<not> lin_fits s sz"
  shows "linear_alloc s sz = (s, 0)"
proof -
  have "8 \<le> cell_bytes (unat sz)" using cell_bytes_le(1) [of "unat sz"] by simp
  then have "linear_available s < round8 (sz + sizeof_FreeCellRecord)"
    using assms available_unat [OF assms(1)] sane_round [OF assms(2)]
    by (auto simp: word_less_nat_alt lin_fits_def)
  then show ?thesis by (simp add: linear_alloc_def)
qed

lemma linear_alloc_succeeds:
  assumes ok: "lin_ok s" and sz: "lin_sane sz" and f: "lin_fits s sz"
  defines "c \<equiv> unat (lCurrent s)"
  obtains s' where "linear_alloc s sz = (s', cell_at s (c + 8))" "lin_ok s'"
    "lChunk s' = lChunk s" "lCapacity s' = lCapacity s" "unat (lCurrent s') = c + cell_bytes (unat sz)"
    "lPrevious s' = lCurrent s" "lHWMBytes s' = max (lHWMBytes s) (lCurrent s')"
    "rec_PrevOffset s' (cell_at s c) = lPrevious s" "rec_CRC s' (cell_at s c) = lPrevious s XOR CRC_KEY"
    "\<And>a. \<not> (c \<le> unat (a - lChunk s) \<and> unat (a - lChunk s) < c + 8) \<Longrightarrow> lmem s' a = lmem s a"
proof -
  note D = lin_okD [OF ok]
  define n where "n = round8 (sz + sizeof_FreeCellRecord)"
  have n: "unat n = cell_bytes (unat sz)" using sane_round [OF sz] by (simp add: n_def)
  have n8: "8 \<le> unat n" using n cell_bytes_le(1) [of "unat sz"] by simp
  have av: "\<not> n > linear_available s"
    using f n available_unat [OF ok] by (simp add: word_less_nat_alt lin_fits_def)
  have lt: "lCurrent s < lCapacity s" using f by (simp add: word_less_nat_alt lin_fits_def)
  have cell: "lChunk s + ucast (lCurrent s) = cell_at s c"
    using unat_ucast_32_64 [of "lCurrent s"] by (simp add: cell_at_def c_def)
  have ret: "lChunk s + ucast (lCurrent s) + ucast sizeof_FreeCellRecord = cell_at s (c + 8)"
    unfolding cell by (simp add: cell_at_def sizeof_FreeCellRecord_def unsigned_numeral)
  have cur: "unat (lCurrent s + n) = c + unat n"
    using f n D(2) unat_add_lem [of "lCurrent s" n] by (simp add: c_def lin_fits_def)
  define m1 where "m1 = store32 (lmem s) (cell_at s c) (lPrevious s)"
  define m2 where "m2 = store32 m1 (cell_at s c + 4) (lPrevious s XOR CRC_KEY)"
  define s4 where "s4 = s\<lparr>lmem := m2, lPrevious := lCurrent s, lCurrent := lCurrent s + n\<rparr>"
  define s5 where "s5 = (if lCurrent s4 > lHWMBytes s4 then s4\<lparr>lHWMBytes := lCurrent s4\<rparr> else s4)"
  have F: "lChunk s5 = lChunk s" "lCapacity s5 = lCapacity s" "lCurrent s5 = lCurrent s + n"
    "lPrevious s5 = lCurrent s" "lmem s5 = m2" "lHWMBytes s5 = max (lHWMBytes s) (lCurrent s + n)"
    by (auto simp: s5_def s4_def max_def)
  have p1: "rec_PrevOffset (s\<lparr>lmem := m1\<rparr>) (cell_at s c) = lPrevious s"
    by (simp add: rec_PrevOffset_def m1_def load32_store32_same)
  have "linear_push s n = (s5, cell_at s (c + 8))"
    using ret p1
    by (simp add: linear_push_def Let_def set_PrevOffset_def set_CRC_def cell m1_def [symmetric] m2_def [symmetric]
        s4_def s5_def)
  then have al: "linear_alloc s sz = (s5, cell_at s (c + 8))"
    using av lt by (simp add: linear_alloc_def Let_def n_def [symmetric])
  have ap: "(4::ptr) \<le> cell_at s c - (cell_at s c + 4)" "(4::ptr) \<le> (cell_at s c + 4) - cell_at s c"
    by (simp_all add: word_le_nat_alt)
  have p2: "load32 m2 (cell_at s c) = lPrevious s"
    unfolding m2_def using ap by (simp add: load32_store32_apart m1_def load32_store32_same)
  have p3: "load32 m2 (cell_at s c + 4) = lPrevious s XOR CRC_KEY"
    by (simp add: m2_def load32_store32_same)
  have out: "m2 a = lmem s a" if a: "\<not> (c \<le> unat (a - lChunk s) \<and> unat (a - lChunk s) < c + 8)" for a
  proof -
    have c63: "c + 8 \<le> 2 ^ 63" using D(2,6) by (simp add: c_def)
    have w: "unat (a - lChunk s - of_nat i) < 4 \<longleftrightarrow> i \<le> unat (a - lChunk s) \<and> unat (a - lChunk s) < i + 4"
      if "i = c \<or> i = c + 4" for i using addr_window [of i 4 "a - lChunk s"] that c63 by auto
    have e: "a - cell_at s c = a - lChunk s - of_nat c" "a - (cell_at s c + 4) = a - lChunk s - of_nat (c + 4)"
      by (simp_all add: cell_at_def)
    show ?thesis using a w [of c] w [of "c + 4"] unfolding m2_def m1_def store32_def e by auto
  qed
  have ok5: "lin_ok s5"
    using D f n cur cell_bytes_le(2) [of "unat sz"]
    by (simp add: lin_ok_def F c_def [symmetric] lin_fits_def)
  show thesis
    by (rule that [of s5]) (use al ok5 F cur n p2 p3 out in \<open>auto simp: rec_PrevOffset_def rec_CRC_def\<close>)
qed

end
