(* ===== verification/LinearLifo.thy ===== *)
theory LinearLifo
  imports LinearInv
begin

text \<open>
  The stack discipline: the client holds a stack of cells, top first, and releases only the
  top one.  Under it \<open>free\<close> returns, the cells never overlap and the bulk is empty again when
  the stack is.
\<close>

section \<open>The invariant\<close>

type_synonym lcell = "nat \<times> nat"

fun stacked :: "nat \<Rightarrow> lcell list \<Rightarrow> bool" where
  "stacked hi [] = True"
| "stacked hi ((d, k) # L) = (8 dvd d \<and> d + 8 + k \<le> hi \<and> 0 < k \<and> stacked d L)"

text \<open>The record of every cell names a cell below it in the stack; the last cell is at offset 0.\<close>

fun linked :: "linear \<Rightarrow> lcell list \<Rightarrow> bool" where
  "linked s [] = True"
| "linked s ((d, k) # L) =
     ((if L = [] then d = 0 \<and> rec_PrevOffset s (cell_at s d) = 0
       else \<exists>q\<in>fst ` set L. rec_PrevOffset s (cell_at s d) = of_nat q) \<and> linked s L)"

definition lifo_inv :: "linear \<times> lcell list \<Rightarrow> bool" where
  "lifo_inv x \<longleftrightarrow> lin_ok (fst x) \<and> stacked (unat (lCurrent (fst x))) (snd x) \<and> linked (fst x) (snd x) \<and>
     (if snd x = [] then lCurrent (fst x) = 0 \<and> lPrevious (fst x) = 0
      else unat (lPrevious (fst x)) \<in> fst ` set (snd x))"

definition cell_ptr :: "linear \<Rightarrow> nat \<Rightarrow> ptr" where
  "cell_ptr s d = cell_at s (d + 8)"

definition linear_regions :: "linear \<times> lcell list \<Rightarrow> region set" where
  "linear_regions x = (\<lambda>(d, k). (cell_ptr (fst x) d, k)) ` set (snd x)"

lemma lifo_invD:
  assumes "lifo_inv (s, L)"
  shows "lin_ok s" "stacked (unat (lCurrent s)) L" "linked s L" "L = [] \<Longrightarrow> lCurrent s = 0"
    "L = [] \<Longrightarrow> lPrevious s = 0" "L \<noteq> [] \<Longrightarrow> unat (lPrevious s) \<in> fst ` set L"
  using assms by (auto simp: lifo_inv_def split: if_splits)

lemma stacked_mono: "stacked t L \<Longrightarrow> t \<le> u \<Longrightarrow> stacked u L"
  by (cases L) auto

lemma stacked_mem: "stacked t L \<Longrightarrow> (d, k) \<in> set L \<Longrightarrow> d + 8 + k \<le> t \<and> 0 < k"
proof (induction t L rule: stacked.induct)
  case (2 hi e j L)
  then show ?case by (cases "(d, k) = (e, j)") auto
qed simp

lemma stacked_apart:
  "stacked t L \<Longrightarrow> (d, k) \<in> set L \<Longrightarrow> (e, j) \<in> set L \<Longrightarrow> (d, k) \<noteq> (e, j) \<Longrightarrow> d + 8 + k \<le> e \<or> e + 8 + j \<le> d"
  by (induction t L rule: stacked.induct) (auto dest: stacked_mem)

lemma linked_cong:
  assumes "linked s L" "lChunk s' = lChunk s"
    and "\<And>d k. (d, k) \<in> set L \<Longrightarrow> rec_PrevOffset s' (cell_at s d) = rec_PrevOffset s (cell_at s d)"
  shows "linked s' L"
proof -
  have c: "cell_at s' = cell_at s" using assms(2) by (simp add: cell_at_def fun_eq_iff)
  show ?thesis using assms(1,3)
  proof (induction L)
    case (Cons x L)
    obtain d k where x: "x = (d, k)" by fastforce
    have "rec_PrevOffset s' (cell_at s d) = rec_PrevOffset s (cell_at s d)"
      using Cons.prems(2) [of d k] x by simp
    moreover have "linked s' L" by (rule Cons.IH) (use Cons.prems in \<open>auto simp: x\<close>)
    ultimately show ?case using Cons.prems(1) by (auto simp: x c split: if_splits)
  qed simp
qed

text \<open>A change of memory outside of the records keeps what the records say.\<close>

lemma record_kept:
  assumes d: "d < 2 ^ 32" and m: "\<And>i. d \<le> i \<Longrightarrow> i < d + 4 \<Longrightarrow> lmem s' (cell_at s i) = lmem s (cell_at s i)"
  shows "rec_PrevOffset s' (cell_at s d) = rec_PrevOffset s (cell_at s d)"
  unfolding rec_PrevOffset_def
proof (rule load32_cong)
  fix i :: nat assume "i < 4"
  then show "lmem s' (cell_at s d + of_nat i) = lmem s (cell_at s d + of_nat i)"
    using m [of "d + i"] by (simp add: cell_at_def add.assoc)
qed

lemma region_offset:
  assumes "d + 8 + k \<le> 2 ^ 63"
  shows "in_region (cell_ptr s d, k) a \<longleftrightarrow> d + 8 \<le> unat (a - lChunk s) \<and> unat (a - lChunk s) < d + 8 + k"
proof -
  have "a - cell_ptr s d = (a - lChunk s) - of_nat (d + 8)" by (simp add: cell_ptr_def cell_at_def)
  then show ?thesis using addr_window [of "d + 8" k "a - lChunk s"] assms
    by (simp only: in_region_def fst_conv snd_conv)
qed

lemma cell_bound:
  assumes "lifo_inv (s, L)" "(d, k) \<in> set L"
  shows "d + 8 + k \<le> unat (lCurrent s)" "d + 8 + k \<le> 2 ^ 31" "0 < k"
  using stacked_mem [OF lifo_invD(2) [OF assms(1)] assms(2)] lin_okD(2,6) [OF lifo_invD(1) [OF assms(1)]] by auto

lemma linear_regions_wf:
  assumes I: "lifo_inv (s, L)"
  shows "heap_wf (linear_regions (s, L))"
proof -
  have "apart (cell_ptr s d, k) (cell_ptr s e, j)"
    if m: "(d, k) \<in> set L" "(e, j) \<in> set L" and ne: "(d, k) \<noteq> (e, j)" for d k e j
    using stacked_apart [OF lifo_invD(2) [OF I] m ne] cell_bound(2) [OF I m(1)] cell_bound(2) [OF I m(2)]
    by (auto simp: apart_def region_offset)
  moreover have "cell_ptr s d \<noteq> 0" if "(d, k) \<in> set L" for d k
    using cell_at_unat(2) [OF lifo_invD(1) [OF I], of "d + 8"] cell_bound(1) [OF I that]
      lin_okD(6) [OF lifo_invD(1) [OF I]] by (simp add: cell_ptr_def)
  ultimately show ?thesis
    using cell_bound(3) [OF I] unfolding heap_wf_def linear_regions_def by fastforce
qed

section \<open>alloc\<close>

text \<open>The client's view of \<open>alloc\<close>: it pushes the cell it got.\<close>

definition lifo_alloc :: "linear \<times> lcell list \<Rightarrow> u32 \<Rightarrow> (linear \<times> lcell list) \<times> ptr" where
  "lifo_alloc x sz =
     (let (s', p) = linear_alloc (fst x) sz
      in ((s', if p = 0 then snd x else (unat (lCurrent (fst x)), unat sz) # snd x), p))"

lemma lifo_alloc_cases:
  assumes I: "lifo_inv (s, L)" and sz: "lin_sane sz"
  obtains "\<not> lin_fits s sz" "lifo_alloc (s, L) sz = ((s, L), 0)"
  | s' where "lin_fits s sz" "lifo_alloc (s, L) sz = ((s', (unat (lCurrent s), unat sz) # L), cell_ptr s (unat (lCurrent s)))"
      "lifo_inv (s', (unat (lCurrent s), unat sz) # L)" "lChunk s' = lChunk s"
      "\<And>d k a. (d, k) \<in> set L \<Longrightarrow> in_region (cell_ptr s d, k) a \<Longrightarrow> lmem s' a = lmem s a"
proof (cases "lin_fits s sz")
  case False
  then show thesis
    using linear_alloc_fail [OF lifo_invD(1) [OF I] sz] by (intro that(1)) (simp_all add: lifo_alloc_def)
next
  case True
  note D = lifo_invD [OF I] and B = lin_okD [OF lifo_invD(1) [OF I]]
  let ?c = "unat (lCurrent s)"
  from linear_alloc_succeeds [OF D(1) sz True] obtain s' where
    al: "linear_alloc s sz = (s', cell_at s (?c + 8))" and ok: "lin_ok s'" and
    F: "lChunk s' = lChunk s" "unat (lCurrent s') = ?c + cell_bytes (unat sz)" "lPrevious s' = lCurrent s"
      "rec_PrevOffset s' (cell_at s ?c) = lPrevious s" and
    m: "\<And>a. \<not> (?c \<le> unat (a - lChunk s) \<and> unat (a - lChunk s) < ?c + 8) \<Longrightarrow> lmem s' a = lmem s a" by metis
  have fit: "?c + 8 \<le> unat (lCapacity s)" using True by (simp add: lin_fits_def)
  have np: "cell_at s (?c + 8) \<noteq> 0" using cell_at_unat(2) [OF D(1) fit] .
  have la: "lifo_alloc (s, L) sz = ((s', (?c, unat sz) # L), cell_ptr s ?c)"
    using al np by (simp add: lifo_alloc_def cell_ptr_def)
  have kept: "lmem s' (cell_at s i) = lmem s (cell_at s i)" if "i < ?c" for i
    using that B(2,6) by (intro m) (simp add: cell_at_offset)
  have "linked s' L"
  proof (rule linked_cong [OF D(3) F(1)])
    fix d k assume "(d, k) \<in> set L"
    then have "d + 8 + k \<le> ?c" "d < 2 ^ 32" using cell_bound [OF I] by fastforce+
    then show "rec_PrevOffset s' (cell_at s d) = rec_PrevOffset s (cell_at s d)"
      by (intro record_kept kept) auto
  qed
  moreover have "cell_at s' = cell_at s" using F(1) by (simp add: cell_at_def fun_eq_iff)
  moreover have "L \<noteq> [] \<Longrightarrow> \<exists>q\<in>fst ` set L. lPrevious s = of_nat q"
    using D(6) by (metis of_nat_unat ucast_id)
  ultimately have li: "linked s' ((?c, unat sz) # L)" using F(4) D(4,5) by auto
  have "stacked (unat (lCurrent s')) ((?c, unat sz) # L)"
    using D(2) B(5) F(2) sz cell_bytes_le(1) [of "unat sz"] by (simp add: lin_sane_def)
  with li ok F(3) have inv: "lifo_inv (s', (?c, unat sz) # L)"
    by (simp add: lifo_inv_def del: linked.simps stacked.simps)
  have fr: "lmem s' a = lmem s a" if x: "(d, k) \<in> set L" "in_region (cell_ptr s d, k) a" for d k a
  proof (rule m)
    have "d + 8 + k \<le> ?c" "d + 8 + k \<le> 2 ^ 63" using cell_bound [OF I x(1)] by auto
    then show "\<not> (?c \<le> unat (a - lChunk s) \<and> unat (a - lChunk s) < ?c + 8)"
      using x(2) region_offset [of d k s a] by auto
  qed
  show thesis using that(2) [OF True la inv F(1)] fr by blast
qed

lemma regions_cons: "linear_regions (s, (d, k) # L) = insert (cell_ptr s d, k) (linear_regions (s, L))"
  by (simp add: linear_regions_def)

lemma regions_chunk: "lChunk s' = lChunk s \<Longrightarrow> linear_regions (s', L) = linear_regions (s, L)"
  by (simp add: linear_regions_def cell_ptr_def cell_at_def)

lemma lifo_alloc_heap:
  assumes I: "lifo_inv x" and sz: "lin_sane sz"
  shows "lifo_inv (fst (lifo_alloc x sz))"
    "heap_new (linear_regions x) (unat sz) (linear_regions (fst (lifo_alloc x sz))) (snd (lifo_alloc x sz))"
    "r \<in> linear_regions x \<Longrightarrow> in_region r a \<Longrightarrow> lmem (fst (fst (lifo_alloc x sz))) a = lmem (fst x) a"
proof -
  obtain s L where x: "x = (s, L)" by fastforce
  have "lifo_inv (fst (lifo_alloc x sz)) \<and>
    heap_new (linear_regions x) (unat sz) (linear_regions (fst (lifo_alloc x sz))) (snd (lifo_alloc x sz)) \<and>
    (r \<in> linear_regions x \<longrightarrow> in_region r a \<longrightarrow> lmem (fst (fst (lifo_alloc x sz))) a = lmem (fst x) a)"
  proof (rule lifo_alloc_cases [OF I [unfolded x] sz])
    assume "lifo_alloc (s, L) sz = ((s, L), 0)"
    then show ?thesis using I x by (simp add: heap_null)
  next
    fix s' let ?c = "unat (lCurrent s)" and ?k = "unat sz"
    assume a: "lifo_alloc (s, L) sz = ((s', (?c, ?k) # L), cell_ptr s ?c)"
      and i: "lifo_inv (s', (?c, ?k) # L)" and c: "lChunk s' = lChunk s"
      and fr: "\<And>d k a. (d, k) \<in> set L \<Longrightarrow> in_region (cell_ptr s d, k) a \<Longrightarrow> lmem s' a = lmem s a"
    have cp: "cell_ptr s' = cell_ptr s" using c by (simp add: cell_ptr_def cell_at_def fun_eq_iff)
    have r: "linear_regions (s', (?c, ?k) # L) = insert (cell_ptr s ?c, ?k) (linear_regions (s, L))"
      using regions_chunk [OF c] by (simp add: regions_cons cp)
    have W: "heap_wf (insert (cell_ptr s ?c, ?k) (linear_regions (s, L)))"
      using linear_regions_wf [OF i] r by simp
    have ap: "apart (cell_ptr s ?c, ?k) q" if q: "q \<in> linear_regions (s, L)" for q
    proof -
      obtain d k where m: "(d, k) \<in> set L" "q = (cell_ptr s d, k)" using q by (auto simp: linear_regions_def)
      have "d + 8 + k \<le> ?c" "d + 8 + k \<le> 2 ^ 31" "?c + 8 + ?k \<le> 2 ^ 31"
        using cell_bound [OF I [unfolded x] m(1)] cell_bound(2) [OF i, of ?c ?k] by auto
      then show ?thesis using m(2) by (auto simp: apart_def region_offset)
    qed
    have "heap_new (linear_regions (s, L)) ?k (insert (cell_ptr s ?c, ?k) (linear_regions (s, L))) (cell_ptr s ?c)"
      using W ap by (intro heap_fresh) (auto simp: heap_wf_def)
    then show ?thesis using a i r fr x by (auto simp: linear_regions_def)
  qed
  then show "lifo_inv (fst (lifo_alloc x sz))"
    "heap_new (linear_regions x) (unat sz) (linear_regions (fst (lifo_alloc x sz))) (snd (lifo_alloc x sz))"
    "r \<in> linear_regions x \<Longrightarrow> in_region r a \<Longrightarrow> lmem (fst (fst (lifo_alloc x sz))) a = lmem (fst x) a" by blast+
qed

interpretation lin: bulk_allocator lifo_inv linear_regions "\<lambda>x. lmem (fst x)" lin_sane lifo_alloc
  by unfold_locales (use linear_regions_wf lifo_alloc_heap in \<open>force simp: split_paired_all\<close>)+

section \<open>free\<close>

text \<open>Setting, testing and removing the freed bit of a record.\<close>

lemma freed_bits:
  assumes "q < 2 ^ 31"
  shows "(of_nat q :: u32) AND FREED_BIT = 0" "(of_nat q :: u32) AND OFFSET_MASK = of_nat q"
    "(of_nat q OR FREED_BIT :: u32) AND OFFSET_MASK = of_nat q" "(of_nat q OR FREED_BIT :: u32) AND FREED_BIT \<noteq> 0"
proof -
  have F: "bit FREED_BIT j \<longleftrightarrow> j = 31" for j
  proof -
    have e: "FREED_BIT = push_bit 31 1" by (simp add: FREED_BIT_def)
    show ?thesis unfolding e by (auto simp: bit_push_bit_iff bit_1_iff simp del: push_bit_of_1)
  qed
  have M: "bit OFFSET_MASK j \<longleftrightarrow> j < 31" for j
  proof -
    have e: "OFFSET_MASK = mask 31" by (simp add: OFFSET_MASK_def mask_eq_exp_minus_1)
    show ?thesis unfolding e by (auto simp: bit_mask_iff)
  qed
  have q: "bit (of_nat q :: u32) j \<Longrightarrow> j < 31" for j
  proof -
    assume "bit (of_nat q :: u32) j"
    then have b: "bit q j" by (simp add: bit_of_nat_word_iff32)
    show "j < 31"
    proof (rule ccontr)
      assume "\<not> j < 31"
      then have "(2::nat) ^ 31 \<le> 2 ^ j" by (intro power_increasing) auto
      with assms have "q div 2 ^ j = 0" by simp
      with b show False by (simp add: bit_iff_odd)
    qed
  qed
  show "(of_nat q :: u32) AND FREED_BIT = 0" by (rule bit_word_eqI) (auto simp: bit_and_iff F dest: q)
  show "(of_nat q :: u32) AND OFFSET_MASK = of_nat q" by (rule bit_word_eqI) (auto simp: bit_and_iff M dest: q)
  show "(of_nat q OR FREED_BIT :: u32) AND OFFSET_MASK = of_nat q"
    by (rule bit_word_eqI) (auto simp: bit_and_iff bit_or_iff F M dest: q)
  have "bit ((of_nat q OR FREED_BIT :: u32) AND FREED_BIT) 31" by (simp add: bit_and_iff bit_or_iff F)
  then show "(of_nat q OR FREED_BIT :: u32) AND FREED_BIT \<noteq> 0" by (metis bit_0_eq bot_apply bot_bool_def)
qed

lemma linked_closed:
  "linked s L \<Longrightarrow> q \<in> fst ` set L \<Longrightarrow> \<exists>q'\<in>fst ` set L. rec_PrevOffset s (cell_at s q) = of_nat q'"
proof (induction L)
  case (Cons x L)
  obtain d k where x: "x = (d, k)" by fastforce
  show ?case
  proof (cases "q = d")
    case True
    then show ?thesis using Cons.prems(1) by (auto simp: x split: if_splits)
  next
    case False
    then have "q \<in> fst ` set L" using Cons.prems(2) x by auto
    then show ?thesis using Cons.IH Cons.prems(1) by (auto simp: x)
  qed
qed simp

lemma lifo_free_spec:
  assumes I: "lifo_inv (s, (d, k) # L)"
  obtains s' where "linear_free s (cell_ptr s d) = Some s'" "lifo_inv (s', L)" "lChunk s' = lChunk s"
    "unat (lCurrent s') = (if unat (lPrevious s) = d then d else unat (lCurrent s))"
    "\<And>a. \<not> (d \<le> unat (a - lChunk s) \<and> unat (a - lChunk s) < d + 4) \<Longrightarrow> lmem s' a = lmem s a"
proof -
  note D = lifo_invD [OF I] and B = lin_okD [OF lifo_invD(1) [OF I]]
  have d: "d + 8 + k \<le> unat (lCurrent s)" "d + 8 + k \<le> 2 ^ 31" "0 < k" using cell_bound [OF I, of d k] by auto
  have below: "e + 8 + j \<le> d" if "(e, j) \<in> set L" for e j using stacked_mem [of d L e j] D(2) that by simp
  have small: "q < 2 ^ 31" if "q \<in> fst ` set ((d, k) # L)" for q using that below d(2) by fastforce
  have off: "unat (cell_at s d - lChunk s) = d" using d by (intro cell_at_offset) simp
  have dw: "(ucast (cell_at s d - lChunk s) :: u32) = of_nat d"
    by (simp add: cell_at_def ucast_of_nat_32)
  have du: "unat (of_nat d :: u32) = d" using d(2) by (intro unat_of_nat32) simp
  obtain q where q: "rec_PrevOffset s (cell_at s d) = of_nat q" "q \<in> fst ` set ((d, k) # L)"
    "L \<noteq> [] \<Longrightarrow> q \<in> fst ` set L" "L = [] \<Longrightarrow> d = 0"
    using D(3) by (auto split: if_splits)
  note fb = freed_bits [OF small [OF q(2)]]
  define s1 where "s1 = set_PrevOffset (cell_at s d) (of_nat q OR FREED_BIT) s"
  have F: "lChunk s1 = lChunk s" "lCurrent s1 = lCurrent s" "lPrevious s1 = lPrevious s" "lCapacity s1 = lCapacity s"
    by (simp_all add: s1_def set_PrevOffset_def)
  have C: "cell_at s1 = cell_at s" using F(1) by (simp add: cell_at_def fun_eq_iff)
  have r1: "rec_PrevOffset s1 (cell_at s d) = of_nat q OR FREED_BIT"
    by (simp add: s1_def set_PrevOffset_def rec_PrevOffset_def load32_store32_same)
  have m1: "lmem s1 a = lmem s a" if a: "\<not> (d \<le> unat (a - lChunk s) \<and> unat (a - lChunk s) < d + 4)" for a
  proof -
    have e: "a - cell_at s d = a - lChunk s - of_nat d" by (simp add: cell_at_def)
    have "\<not> unat (a - cell_at s d) < 4" unfolding e using a addr_window [of d 4 "a - lChunk s"] d(2) by simp
    then show ?thesis by (simp add: s1_def set_PrevOffset_def store32_def)
  qed
  have lk: "linked s1 L"
  proof (rule linked_cong [OF _ F(1)])
    show "linked s L" using D(3) by simp
    fix e j assume "(e, j) \<in> set L"
    then have "e + 8 \<le> d" using below by fastforce
    then show "rec_PrevOffset s1 (cell_at s e) = rec_PrevOffset s (cell_at s e)"
      using d(2) by (intro record_kept m1) (auto simp: cell_at_offset)
  qed
  have guard: "lChunk s \<le> cell_at s d \<and> cell_at s d < lChunk s + ucast (lCapacity s)"
  proof -
    have "unat (lChunk s + ucast (lCapacity s)) = unat (lChunk s) + unat (lCapacity s)"
      using B(3) unat_add_lem [of "lChunk s" "ucast (lCapacity s)"] by (simp add: unat_ucast_32_64)
    then show ?thesis
      using cell_at_unat(1) [OF D(1), of d] d(1) B(6) by (auto simp: word_le_nat_alt word_less_nat_alt)
  qed
  have cp: "cell_ptr s d - ucast sizeof_FreeCellRecord = cell_at s d"
    by (simp add: cell_ptr_def cell_at_def sizeof_FreeCellRecord_def unsigned_numeral)
  have topq: "ucast (lPrevious s1) \<noteq> cell_at s d - lChunk s1 \<longleftrightarrow> unat (lPrevious s) \<noteq> d"
    using off by (simp add: word_eq_unat_iff unat_ucast_32_64 F)
  have free: "linear_free s (cell_ptr s d) =
      (if unat (lPrevious s) \<noteq> d then Some s1 else linear_rollback s1 (cell_at s d))"
    by (simp only: linear_free_def Let_def cp guard simp_thms if_True q(1) s1_def [symmetric] topq)
  show thesis
  proof (cases "unat (lPrevious s) = d")
    case False
    then have "L \<noteq> []" using D(6) by auto
    moreover have "stacked (unat (lCurrent s)) L" using D(2) stacked_mono by fastforce
    ultimately have "lifo_inv (s1, L)"
      using lk D(1,6) False F by (auto simp: lifo_inv_def lin_ok_def)
    then show thesis using that [of s1] free False F m1 by simp
  next
    case True
    define s2 where "s2 v = s1\<lparr>lCurrent := of_nat d, lPrevious := v\<rparr>" for v
    have G: "lChunk (s2 v) = lChunk s" "lCurrent (s2 v) = of_nat d" "lPrevious (s2 v) = v" "lmem (s2 v) = lmem s1"
      "lin_ok (s2 v)" for v
      using D(1,2) d(1) F du by (simp_all add: s2_def lin_ok_def)
    have rc: "rec_PrevOffset (s2 v) = rec_PrevOffset s1" for v by (simp add: rec_PrevOffset_def s2_def fun_eq_iff)
    have lk2: "linked (s2 v) L" for v by (rule linked_cong [OF lk]) (simp_all add: G F rc)
    have st: "stacked d L" using D(2) by simp
    have d0: "(of_nat d :: u32) = 0 \<longleftrightarrow> d = 0" using du by (simp add: word_eq_unat_iff)
    have pv: "lPrevious s = of_nat d" using True by (metis of_nat_unat ucast_id)
    have upd: "s1\<lparr>lCurrent := of_nat d\<rparr> = s2 (lPrevious s)" by (simp add: s2_def F)
    have upd2: "s2 u\<lparr>lPrevious := v\<rparr> = s2 v" "s2 u\<lparr>lCurrent := of_nat d\<rparr> = s2 u" for u v by (simp_all add: s2_def)
    have ca: "lChunk s + ucast (of_nat e :: u32) = cell_at s e" if "e < 2 ^ 32" for e
      using that by (simp add: cell_at_def ucast_of_nat_64)
    have result: "linear_free s (cell_ptr s d) = Some (s2 v) \<Longrightarrow>
        (if L = [] then d = 0 \<and> v = 0 else unat v \<in> fst ` set L) \<Longrightarrow> thesis" for v
      by (rule that [of "s2 v"]) (use G lk2 st du True m1 in \<open>auto simp: lifo_inv_def split: if_splits\<close>)
    show thesis
    proof (cases "d = 0")
      case True
      then have "L = []" using below by (cases L) fastforce+
      have z: "((of_nat d :: u32) = 0) = True" using d0 True by simp
      have "linear_rollback s1 (cell_at s d) = Some (s2 0)"
        by (subst linear_rollback.simps) (simp only: Let_def F dw upd G z if_True upd2)
      then have "linear_free s (cell_ptr s d) = Some (s2 0)" using free \<open>unat (lPrevious s) = d\<close> by simp
      then show thesis by (rule result) (simp add: \<open>L = []\<close> True)
    next
      case False
      then have qL: "q \<in> fst ` set L" using q(3,4) by blast
      obtain e where e: "e \<in> fst ` set L" "rec_PrevOffset s1 (cell_at s q) = of_nat e"
        using linked_closed [OF lk qL] C by auto
      have sm: "q < 2 ^ 31" "e < 2 ^ 31" "q < 2 ^ 32" using small qL e(1) by (auto, fastforce+)
      note fe = freed_bits [OF sm(2)]
      have dq: "lChunk s + ucast (of_nat d :: u32) = cell_at s d" "lChunk s + ucast (of_nat q :: u32) = cell_at s q"
        using d(2) sm by (auto intro: ca)
      have step2: "linear_rollback (s2 (of_nat q)) (cell_at s d) = Some (s2 (of_nat e))"
        by (subst linear_rollback.simps)
          (simp only: Let_def G dw upd2 d0 False if_False dq rc e(2) fe simp_thms if_True)
      have "linear_rollback s1 (cell_at s d) = linear_rollback (s2 (of_nat q)) (cell_at s d)"
        by (subst linear_rollback.simps)
          (simp only: Let_def F dw upd G d0 False if_False pv dq rc r1 fb upd2)
      with step2 free \<open>unat (lPrevious s) = d\<close> have "linear_free s (cell_ptr s d) = Some (s2 (of_nat e))" by simp
      moreover have "unat (of_nat e :: u32) = e" using sm by (intro unat_of_nat32) simp
      moreover have "L \<noteq> []" using e(1) by auto
      ultimately show thesis using e(1) by (intro result [of "of_nat e"]) simp_all
    qed
  qed
qed

end
