(* ===== verification/LinearChain.thy ===== *)
theory LinearChain
  imports LinearLifo
begin

text \<open>
  The rollback of \<open>free\<close> on any chain of cells, freed ones included.  The chain starts at the cell
  that \<open>Previous\<close> names and follows the records down to offset 0; \<open>unwind\<close> is what the loop
  computes, as a recursion over the chain; and whatever the order in which a client releases its
  cells, there is such a chain as long as nobody writes over its records.
\<close>

section \<open>Chains\<close>

fun cell_chain :: "linear \<Rightarrow> nat \<Rightarrow> nat list \<Rightarrow> bool" where
  "cell_chain s p [] \<longleftrightarrow> p = 0 \<and> rec_PrevOffset s (cell_at s p) AND OFFSET_MASK = 0"
| "cell_chain s p (q # ps) \<longleftrightarrow> 8 dvd p \<and> q + 8 \<le> p \<and>
     rec_PrevOffset s (cell_at s p) AND OFFSET_MASK = of_nat q \<and> cell_chain s q ps"

definition cell_freed :: "linear \<Rightarrow> nat \<Rightarrow> bool" where
  "cell_freed s p \<longleftrightarrow> rec_PrevOffset s (cell_at s p) AND FREED_BIT \<noteq> 0"

text \<open>
  The new values of Current and Previous: with \<open>c\<close> the lowest cell released so far, the cells
  below it are released as long as they are marked.  At the first live cell Previous becomes the
  cell below that one, so that the live cell is skipped.
\<close>

fun unwind :: "(nat \<Rightarrow> bool) \<Rightarrow> nat \<Rightarrow> nat list \<Rightarrow> nat \<times> nat" where
  "unwind fr c [] = (c, 0)"
| "unwind fr c (p # ps) = (if fr p then unwind fr p ps else (c, case ps of [] \<Rightarrow> 0 | q # _ \<Rightarrow> q))"

text \<open>States with a chain below the stack pointer, or without a cell.\<close>

definition chained :: "linear \<Rightarrow> bool" where
  "chained s \<longleftrightarrow> lin_ok s \<and> (lCurrent s = 0 \<and> lPrevious s = 0 \<or>
     unat (lPrevious s) + 8 \<le> unat (lCurrent s) \<and> (\<exists>ps. cell_chain s (unat (lPrevious s)) ps))"

lemma chain_aligned: "cell_chain s p ps \<Longrightarrow> e \<in> set (p # ps) \<Longrightarrow> 8 dvd e \<and> e \<le> p"
proof (induction ps arbitrary: p)
  case (Cons q ps)
  then have "e = p \<or> 8 dvd e \<and> e \<le> q" by auto
  then show ?case using Cons.prems(1) by auto
qed auto

lemma chain_cong:
  assumes "cell_chain s p ps" "lChunk s' = lChunk s"
    and "\<And>e. e \<in> set (p # ps) \<Longrightarrow>
      rec_PrevOffset s' (cell_at s e) AND OFFSET_MASK = rec_PrevOffset s (cell_at s e) AND OFFSET_MASK"
  shows "cell_chain s' p ps"
proof -
  have c: "cell_at s' = cell_at s" using assms(2) by (simp add: cell_at_def fun_eq_iff)
  show ?thesis using assms(1,3) by (induction ps arbitrary: p) (auto simp: c)
qed

lemma unwind_cong: "(\<And>e. e \<in> set ps \<Longrightarrow> fr e = fr' e) \<Longrightarrow> unwind fr c ps = unwind fr' c ps"
  by (induction ps arbitrary: c) auto

lemma unwind_chain:
  "cell_chain s c ps \<Longrightarrow> unwind fr c ps = (c', p') \<Longrightarrow>
   8 dvd c' \<and> c' \<le> c \<and> (c' = 0 \<and> p' = 0 \<or> p' + 8 \<le> c' \<and> (\<exists>ps'. cell_chain s p' ps'))"
proof (induction ps arbitrary: c)
  case (Cons p ps)
  show ?case
  proof (cases "fr p")
    case True
    then have "8 dvd c' \<and> c' \<le> p \<and> (c' = 0 \<and> p' = 0 \<or> p' + 8 \<le> c' \<and> (\<exists>ps'. cell_chain s p' ps'))"
      using Cons.IH [of p] Cons.prems by simp
    then show ?thesis using Cons.prems(1) by auto
  next
    case False
    then have r: "c' = c" "p' = (case ps of [] \<Rightarrow> 0 | q # _ \<Rightarrow> q)" using Cons.prems(2) by simp_all
    have "p' + 8 \<le> c \<and> (\<exists>ps'. cell_chain s p' ps')"
    proof (cases ps)
      case Nil
      then show ?thesis using Cons.prems(1) r by (auto intro!: exI [of _ "[]"])
    next
      case (Cons q qs)
      then show ?thesis using \<open>cell_chain s c (p # ps)\<close> r by auto
    qed
    then show ?thesis using Cons.prems(1) r(1) by simp
  qed
qed simp

section \<open>The loop\<close>

lemma mark_bits:
  "(w OR FREED_BIT) AND OFFSET_MASK = (w :: u32) AND OFFSET_MASK" "(w OR FREED_BIT) AND FREED_BIT \<noteq> (0 :: u32)"
proof -
  have F: "bit FREED_BIT j \<longleftrightarrow> j = 31" for j
  proof -
    have e: "FREED_BIT = push_bit 31 1" by (simp add: FREED_BIT_def)
    show ?thesis unfolding e by (auto simp: bit_push_bit_iff bit_1_iff simp del: push_bit_of_1)
  qed
  have e: "OFFSET_MASK = mask 31" by (simp add: OFFSET_MASK_def mask_eq_exp_minus_1)
  show "(w OR FREED_BIT) AND OFFSET_MASK = w AND OFFSET_MASK"
    unfolding e by (rule bit_word_eqI) (auto simp: bit_and_iff bit_or_iff bit_mask_iff F)
  have "bit ((w OR FREED_BIT) AND FREED_BIT) 31" by (simp add: bit_and_iff bit_or_iff F)
  then show "(w OR FREED_BIT) AND FREED_BIT \<noteq> 0" by (metis bit_0_eq bot_apply bot_bool_def)
qed

lemma regs_record [simp]:
  "rec_PrevOffset (s\<lparr>lCurrent := c\<rparr>) = rec_PrevOffset s" "rec_PrevOffset (s\<lparr>lPrevious := p\<rparr>) = rec_PrevOffset s"
  "cell_at (s\<lparr>lCurrent := c\<rparr>) = cell_at s" "cell_at (s\<lparr>lPrevious := p\<rparr>) = cell_at s"
  by (simp_all add: rec_PrevOffset_def cell_at_def fun_eq_iff)

lemma regs_chain [simp]:
  "cell_chain (s\<lparr>lCurrent := c\<rparr>) q ps = cell_chain s q ps" "cell_chain (s\<lparr>lPrevious := p\<rparr>) q ps = cell_chain s q ps"
  "cell_freed (s\<lparr>lCurrent := c\<rparr>) = cell_freed s" "cell_freed (s\<lparr>lPrevious := p\<rparr>) = cell_freed s"
  by (induction ps arbitrary: q) (simp_all add: cell_freed_def fun_eq_iff)

lemma cell_word: "e < 2 ^ 32 \<Longrightarrow> lChunk s + ucast (of_nat e :: u32) = cell_at s e"
  by (simp add: cell_at_def ucast_of_nat_64)

lemma cell_offset_word: "(ucast (cell_at s e - lChunk s) :: u32) = of_nat e"
  by (simp add: cell_at_def ucast_of_nat_32)

lemma rollback_chain:
  assumes "cell_chain s p ps" "lPrevious s = of_nat p" "0 < c" "c < 2 ^ 31" "p < 2 ^ 31"
  shows "linear_rollback s (cell_at s c) =
    (let (c', p') = unwind (cell_freed s) c (p # ps) in Some (s\<lparr>lCurrent := of_nat c', lPrevious := of_nat p'\<rparr>))"
  using assms
proof (induction ps arbitrary: s c p)
  case Nil
  have z: "(of_nat c :: u32) \<noteq> 0" using Nil.prems(3,4) unat_of_nat32 [of c] by (auto simp: word_eq_unat_iff)
  have c0: "cell_at t 0 = lChunk t" for t by (simp add: cell_at_def)
  have p: "p = 0" "rec_PrevOffset s (lChunk s) AND OFFSET_MASK = 0" using Nil.prems(1) by (auto simp: c0)
  have again: "linear_rollback (s\<lparr>lCurrent := of_nat c, lPrevious := 0\<rparr>) (lChunk s) = Some (s\<lparr>lCurrent := 0, lPrevious := 0\<rparr>)"
    by (subst linear_rollback.simps) (simp add: Let_def)
  show ?case
    by (subst linear_rollback.simps)
      (use z p Nil.prems(2) again in \<open>simp add: Let_def cell_offset_word cell_freed_def c0\<close>)
next
  case (Cons q ps)
  have z: "(of_nat c :: u32) \<noteq> 0" using Cons.prems(3,4) unat_of_nat32 [of c] by (auto simp: word_eq_unat_iff)
  have p: "0 < p" "q < 2 ^ 31" "rec_PrevOffset s (cell_at s p) AND OFFSET_MASK = of_nat q" "cell_chain s q ps"
    using Cons.prems by auto
  have a: "lChunk s + ucast (of_nat p :: u32) = cell_at s p" using cell_word [of p s] Cons.prems(5) by simp
  let ?s = "s\<lparr>lCurrent := of_nat c, lPrevious := of_nat q\<rparr>"
  have ih: "linear_rollback ?s (cell_at s p) =
      (let (c', p') = unwind (cell_freed s) p (q # ps) in Some (?s\<lparr>lCurrent := of_nat c', lPrevious := of_nat p'\<rparr>))"
    using Cons.IH [of ?s q p] p Cons.prems(5) by simp
  show ?case
    by (subst linear_rollback.simps)
      (use z a p(3) Cons.prems(2) ih in \<open>auto simp: Let_def cell_offset_word cell_freed_def case_prod_beta\<close>)
qed

text \<open>Marking a record changes neither the offsets of a chain nor any byte outside of the record.\<close>

lemma mark_record:
  fixes s :: linear
  assumes "d + 8 \<le> 2 ^ 31"
  defines "s1 \<equiv> set_PrevOffset (cell_at s d) (rec_PrevOffset s (cell_at s d) OR FREED_BIT) s"
  shows "rec_PrevOffset s1 (cell_at s d) = rec_PrevOffset s (cell_at s d) OR FREED_BIT"
    "\<not> (d \<le> unat (a - lChunk s) \<and> unat (a - lChunk s) < d + 4) \<Longrightarrow> lmem s1 a = lmem s a"
    "e < 2 ^ 32 \<Longrightarrow> e + 8 \<le> d \<or> d + 8 \<le> e \<Longrightarrow> rec_PrevOffset s1 (cell_at s e) = rec_PrevOffset s (cell_at s e)"
proof -
  show "rec_PrevOffset s1 (cell_at s d) = rec_PrevOffset s (cell_at s d) OR FREED_BIT"
    by (simp add: s1_def set_PrevOffset_def rec_PrevOffset_def load32_store32_same)
  show m: "lmem s1 a = lmem s a" if a: "\<not> (d \<le> unat (a - lChunk s) \<and> unat (a - lChunk s) < d + 4)" for a
  proof -
    have e: "a - cell_at s d = a - lChunk s - of_nat d" by (simp add: cell_at_def)
    have "\<not> unat (a - cell_at s d) < 4" unfolding e using a addr_window [of d 4 "a - lChunk s"] assms(1) by simp
    then show ?thesis by (simp add: s1_def set_PrevOffset_def store32_def)
  qed
  show "rec_PrevOffset s1 (cell_at s e) = rec_PrevOffset s (cell_at s e)"
    if "e < 2 ^ 32" "e + 8 \<le> d \<or> d + 8 \<le> e"
    using that by (intro record_kept m) (auto simp: cell_at_offset)
qed

lemma mark_chain:
  assumes d: "8 dvd d" "d + 8 \<le> 2 ^ 31" and c: "cell_chain s p ps" "p < 2 ^ 31"
  shows "cell_chain (set_PrevOffset (cell_at s d) (rec_PrevOffset s (cell_at s d) OR FREED_BIT) s) p ps"
proof (rule chain_cong [OF c(1)])
  fix e assume "e \<in> set (p # ps)"
  then have e: "8 dvd e" "e \<le> p" using chain_aligned [OF c(1)] by auto
  show "rec_PrevOffset (set_PrevOffset (cell_at s d) (rec_PrevOffset s (cell_at s d) OR FREED_BIT) s) (cell_at s e) AND OFFSET_MASK =
      rec_PrevOffset s (cell_at s e) AND OFFSET_MASK"
  proof (cases "e = d")
    case True
    then show ?thesis using mark_record(1) [OF d(2)] mark_bits by simp
  next
    case False
    then have "e + 8 \<le> d \<or> d + 8 \<le> e" using d(1) e(1) by (auto elim!: dvdE)
    then show ?thesis using mark_record(3) [OF d(2), of e] e(2) c(2) by simp
  qed
qed (simp add: set_PrevOffset_def)

section \<open>free\<close>

lemma free_in_bulk:
  assumes ok: "lin_ok s" and d: "d + 8 \<le> unat (lCapacity s)"
  defines "s1 \<equiv> set_PrevOffset (cell_at s d) (rec_PrevOffset s (cell_at s d) OR FREED_BIT) s"
  shows "linear_free s (cell_ptr s d) = (if d \<noteq> unat (lPrevious s) then Some s1 else linear_rollback s1 (cell_at s d))"
proof -
  note B = lin_okD [OF ok]
  have off: "unat (cell_at s d - lChunk s) = d" using d B(2) by (intro cell_at_offset) simp
  have guard: "lChunk s \<le> cell_at s d \<and> cell_at s d < lChunk s + ucast (lCapacity s)"
  proof -
    have "unat (lChunk s + ucast (lCapacity s)) = unat (lChunk s) + unat (lCapacity s)"
      using B(3) unat_add_lem [of "lChunk s" "ucast (lCapacity s)"] by (simp add: unat_ucast_32_64)
    then show ?thesis
      using cell_at_unat(1) [OF ok, of d] d by (auto simp: word_le_nat_alt word_less_nat_alt)
  qed
  have cp: "cell_ptr s d - ucast sizeof_FreeCellRecord = cell_at s d"
    by (simp add: cell_ptr_def cell_at_def sizeof_FreeCellRecord_def unsigned_numeral)
  have "ucast (lPrevious s1) \<noteq> cell_at s d - lChunk s1 \<longleftrightarrow> d \<noteq> unat (lPrevious s)"
    using off by (auto simp: word_eq_unat_iff unat_ucast_32_64 s1_def set_PrevOffset_def)
  then show ?thesis by (simp only: linear_free_def Let_def cp guard simp_thms if_True s1_def [symmetric])
qed

text \<open>The result on the top cell: \<open>unwind\<close> of the chain below it.\<close>

lemma free_top:
  assumes ok: "lin_ok s" and d: "d + 8 \<le> unat (lCapacity s)" "8 dvd d" "unat (lPrevious s) = d"
    and ch: "d = 0 \<and> ps = [] \<or> cell_chain s d ps"
  defines "s1 \<equiv> set_PrevOffset (cell_at s d) (rec_PrevOffset s (cell_at s d) OR FREED_BIT) s"
  shows "linear_free s (cell_ptr s d) =
    (let (c', p') = unwind (cell_freed s) d ps in Some (s1\<lparr>lCurrent := of_nat c', lPrevious := of_nat p'\<rparr>))"
proof -
  have d31: "d + 8 \<le> 2 ^ 31" using d(1) lin_okD(2) [OF ok] by simp
  note M = mark_record [OF d31, where s = s, folded s1_def]
  have F: "cell_at s1 = cell_at s" "lPrevious s1 = of_nat d" "lChunk s1 = lChunk s"
    using d(3) by (auto simp: s1_def set_PrevOffset_def cell_at_def fun_eq_iff)
  have free: "linear_free s (cell_ptr s d) = linear_rollback s1 (cell_at s1 d)"
    using free_in_bulk [OF ok d(1)] d(3) by (simp add: s1_def [symmetric] F)
  show ?thesis
  proof (cases ps)
    case Nil
    then have z: "d = 0" using ch by auto
    then show ?thesis unfolding free
      by (subst linear_rollback.simps) (use Nil cell_offset_word [of s1 0] in \<open>simp add: Let_def\<close>)
  next
    case (Cons q qs)
    then have c: "cell_chain s d (q # qs)" and q: "q + 8 \<le> d" "0 < d"
      "rec_PrevOffset s (cell_at s d) AND OFFSET_MASK = of_nat q" "cell_chain s q qs" using ch by auto
    have below: "e + 8 \<le> d" if "e \<in> set (q # qs)" for e using chain_aligned [OF q(4) that] q(1) by simp
    have fr: "cell_freed s1 e = cell_freed s e" if "e \<in> set (q # qs)" for e
      using M(3) [of e] below [OF that] d31 by (simp add: cell_freed_def F)
    have ch1: "cell_chain s1 q qs"
      unfolding s1_def by (rule mark_chain [OF d(2) d31 q(4)]) (use q(1) d31 in simp)
    let ?s2 = "s1\<lparr>lCurrent := of_nat d, lPrevious := of_nat q\<rparr>"
    have nz: "(of_nat d :: u32) \<noteq> 0" using q(2) d31 unat_of_nat32 [of d] by (auto simp: word_eq_unat_iff)
    have a: "lChunk s1 + ucast (of_nat d :: u32) = cell_at s d" using cell_word [of d s1] d31 F(1) by simp
    have "linear_rollback s1 (cell_at s1 d) = linear_rollback ?s2 (cell_at ?s2 d)"
      by (subst linear_rollback.simps)
        (use nz a M(1) mark_bits q(3) F cell_offset_word [of s1 d] in \<open>simp add: Let_def\<close>)
    also have "\<dots> = (let (c', p') = unwind (cell_freed ?s2) d (q # qs) in Some (?s2\<lparr>lCurrent := of_nat c', lPrevious := of_nat p'\<rparr>))"
      by (rule rollback_chain) (use ch1 q d31 in simp_all)
    also have "unwind (cell_freed ?s2) d (q # qs) = unwind (cell_freed s) d (q # qs)"
      by (rule unwind_cong) (use fr in simp)
    finally show ?thesis unfolding free Cons by (simp add: Let_def case_prod_beta)
  qed
qed

lemma chained_free:
  assumes s: "chained s" and d: "8 dvd d" "d + 8 \<le> unat (lCapacity s)"
  defines "s1 \<equiv> set_PrevOffset (cell_at s d) (rec_PrevOffset s (cell_at s d) OR FREED_BIT) s"
  obtains c' p' where "linear_free s (cell_ptr s d) = Some (s1\<lparr>lCurrent := of_nat c', lPrevious := of_nat p'\<rparr>)"
    "chained (s1\<lparr>lCurrent := of_nat c', lPrevious := of_nat p'\<rparr>)" "c' < 2 ^ 32" "p' < 2 ^ 32"
    "if d \<noteq> unat (lPrevious s) then c' = unat (lCurrent s) \<and> p' = unat (lPrevious s)
     else d = 0 \<and> c' = 0 \<and> p' = 0 \<or> (\<exists>ps. cell_chain s d ps \<and> unwind (cell_freed s) d ps = (c', p'))"
proof -
  have ok: "lin_ok s" using s by (simp add: chained_def)
  note B = lin_okD [OF ok]
  have d31: "d + 8 \<le> 2 ^ 31" using d(2) B(2) by simp
  have F: "lChunk s1 = lChunk s" "lCapacity s1 = lCapacity s" "lCurrent s1 = lCurrent s" "lPrevious s1 = lPrevious s"
    by (simp_all add: s1_def set_PrevOffset_def)
  have keep: "cell_chain s1 p ps" if "cell_chain s p ps" "p < 2 ^ 31" for p ps
    unfolding s1_def by (rule mark_chain [OF d(1) d31 that])
  have ok': "lin_ok (s1\<lparr>lCurrent := of_nat c, lPrevious := v\<rparr>)" if "8 dvd c" "c \<le> unat (lCapacity s)" for c v
    using ok that B(2) unat_of_nat32 [of c] by (simp add: lin_ok_def F)
  show thesis
  proof (cases "d = unat (lPrevious s)")
    case False
    let ?c = "unat (lCurrent s)" and ?p = "unat (lPrevious s)"
    have e: "s1\<lparr>lCurrent := of_nat ?c, lPrevious := of_nat ?p\<rparr> = s1" using F by simp
    have "lin_ok s1" using ok by (simp add: lin_ok_def F)
    moreover have "\<exists>ps. cell_chain s1 ?p ps" if "?p + 8 \<le> ?c" "\<exists>ps. cell_chain s ?p ps"
      using that keep [of ?p] B(2,6) by auto
    ultimately have "chained s1" using s unfolding chained_def F by blast
    moreover have "linear_free s (cell_ptr s d) = Some s1" using free_in_bulk [OF ok d(2)] False by (simp add: s1_def)
    moreover have "?c < 2 ^ 32" "?p < 2 ^ 32" using unsigned_less [of "lCurrent s"] unsigned_less [of "lPrevious s"] by simp_all
    ultimately show thesis by (intro that [where c' = ?c and p' = ?p, unfolded e]) (use False in simp_all)
  next
    case True
    have "\<exists>ps. d = 0 \<and> ps = [] \<or> cell_chain s d ps"
      using s True unfolding chained_def by (metis unsigned_0)
    then obtain ps where ps: "d = 0 \<and> ps = [] \<or> cell_chain s d ps" by blast
    obtain c p where u: "unwind (cell_freed s) d ps = (c, p)" by fastforce
    have r: "linear_free s (cell_ptr s d) = Some (s1\<lparr>lCurrent := of_nat c, lPrevious := of_nat p\<rparr>)"
      using free_top [OF ok d(2,1) True [symmetric] ps] u by (simp add: s1_def)
    have w: "8 dvd c \<and> c \<le> d \<and> (c = 0 \<and> p = 0 \<or> p + 8 \<le> c \<and> (\<exists>ps'. cell_chain s p ps'))"
      using ps
    proof
      assume "d = 0 \<and> ps = []"
      then show ?thesis using u by simp
    qed (use unwind_chain u in blast)
    have small: "c < 2 ^ 32" "p < 2 ^ 32" using w d31 by auto
    have "chained (s1\<lparr>lCurrent := of_nat c, lPrevious := of_nat p\<rparr>)"
    proof (cases "c = 0 \<and> p = 0")
      case True
      then show ?thesis using ok' [of c] by (simp add: chained_def)
    next
      case False
      then obtain ps' where "p + 8 \<le> c" "cell_chain s p ps'" using w by blast
      then have "cell_chain s1 p ps'" "p + 8 \<le> c" using keep [of p ps'] w d31 by simp_all
      then show ?thesis using ok' [of c] w d(2) small unat_of_nat32 [of c] unat_of_nat32 [of p]
        by (auto simp: chained_def)
    qed
    then show thesis using that [OF r _ small] True ps u by auto
  qed
qed

section \<open>The other calls\<close>

lemma linear_ctor_cap:
  "unat (lCapacity (linear_ctor sz chunk m)) = max 16 (min (2 ^ 31) ((unat sz + 7) div 8 * 8))"
proof -
  consider "unat sz < 16" | "16 \<le> unat sz" "unat sz \<le> 2 ^ 31" | "2 ^ 31 < unat sz" by linarith
  then show ?thesis
  proof cases
    case 1
    then have "sz < 16" by (simp add: word_less_nat_alt)
    moreover have "(unat sz + 7) div 8 * 8 \<le> 16" using 1 by simp
    ultimately show ?thesis by (simp add: linear_ctor_def Let_def)
  next
    case 2
    then have "\<not> sz < 16" "\<not> 0x80000000 < sz" by (simp_all add: word_less_nat_alt)
    moreover have "unat (round8 sz) = (unat sz + 7) div 8 * 8" using 2 by (intro round8_spec) simp
    moreover have "16 \<le> (unat sz + 7) div 8 * 8" "(unat sz + 7) div 8 * 8 \<le> 2 ^ 31" using 2 by auto
    ultimately show ?thesis by (simp add: linear_ctor_def Let_def)
  next
    case 3
    then have "\<not> sz < 16" "0x80000000 < sz" by (simp_all add: word_less_nat_alt)
    moreover have "2 ^ 31 \<le> (unat sz + 7) div 8 * 8" using 3 by auto
    ultimately show ?thesis by (simp add: linear_ctor_def Let_def)
  qed
qed

lemma linear_ctor_inv:
  assumes "chunk \<noteq> 0" "unat chunk + 2 ^ 31 \<le> 2 ^ 64 - 8"
  shows "lifo_inv (linear_ctor sz chunk m, [])"
proof -
  let ?s = "linear_ctor sz chunk m"
  have f: "lChunk ?s = chunk" "lCurrent ?s = 0" "lPrevious ?s = 0" by (simp_all add: linear_ctor_def Let_def)
  have "16 \<le> unat (lCapacity ?s)" "unat (lCapacity ?s) \<le> 2 ^ 31" by (simp_all add: linear_ctor_cap)
  with assms show ?thesis by (simp add: lifo_inv_def lin_ok_def f)
qed

lemma chained_ctor: "chunk \<noteq> 0 \<Longrightarrow> unat chunk + 2 ^ 31 \<le> 2 ^ 64 - 8 \<Longrightarrow> chained (linear_ctor sz chunk m)"
  using lifo_invD(1) [OF linear_ctor_inv, of chunk sz m] by (simp add: chained_def linear_ctor_def Let_def)

lemma chained_reset: "chained s \<Longrightarrow> chained (fst (linear_reset s))"
  by (simp add: chained_def linear_reset_def lin_ok_def)

lemma chained_alloc:
  assumes s: "chained s" and sz: "lin_sane sz"
  shows "chained (fst (linear_alloc s sz))"
proof (cases "lin_fits s sz")
  case False
  then show ?thesis using s linear_alloc_fail [of s sz] sz by (simp add: chained_def)
next
  case True
  have ok: "lin_ok s" using s by (simp add: chained_def)
  note B = lin_okD [OF ok]
  let ?c = "unat (lCurrent s)" and ?p = "unat (lPrevious s)"
  from linear_alloc_succeeds [OF ok sz True] obtain s' where
    al: "linear_alloc s sz = (s', cell_at s (?c + 8))" and ok': "lin_ok s'" and
    F: "lChunk s' = lChunk s" "unat (lCurrent s') = ?c + cell_bytes (unat sz)" "lPrevious s' = lCurrent s"
      "rec_PrevOffset s' (cell_at s ?c) = lPrevious s" and
    m: "\<And>a. \<not> (?c \<le> unat (a - lChunk s) \<and> unat (a - lChunk s) < ?c + 8) \<Longrightarrow> lmem s' a = lmem s a" by metis
  have C: "cell_at s' = cell_at s" using F(1) by (simp add: cell_at_def fun_eq_iff)
  have "\<exists>ps. cell_chain s' ?c ps"
  proof (cases "lCurrent s = 0 \<and> lPrevious s = 0")
    case True
    then show ?thesis using F(4) C by (intro exI [of _ "[]"]) simp
  next
    case False
    then obtain ps where ps: "?p + 8 \<le> ?c" "cell_chain s ?p ps" using s by (auto simp: chained_def)
    have "cell_chain s' ?p ps"
    proof (rule chain_cong [OF ps(2) F(1)])
      fix e assume "e \<in> set (?p # ps)"
      then have "e + 8 \<le> ?c" using chain_aligned [OF ps(2)] ps(1) by fastforce
      then have "rec_PrevOffset s' (cell_at s e) = rec_PrevOffset s (cell_at s e)"
        using B(2,6) by (intro record_kept m) (auto simp: cell_at_offset)
      then show "rec_PrevOffset s' (cell_at s e) AND OFFSET_MASK = rec_PrevOffset s (cell_at s e) AND OFFSET_MASK" by simp
    qed
    moreover have "lPrevious s AND OFFSET_MASK = of_nat ?p"
      using freed_bits(2) [of ?p] ps(1) B(2,6) by simp
    ultimately show ?thesis using ps(1) B(5) F(4) C by (intro exI [of _ "?p # ps"]) simp
  qed
  then show ?thesis using al ok' F(2,3) cell_bytes_le(1) [of "unat sz"] by (auto simp: chained_def)
qed

lemma chained_write:
  assumes s: "chained s" and a: "\<And>ps e. cell_chain s (unat (lPrevious s)) ps \<Longrightarrow> e \<in> set (unat (lPrevious s) # ps) \<Longrightarrow>
      \<not> (e \<le> unat (a - lChunk s) \<and> unat (a - lChunk s) < e + 8)"
  shows "chained (s\<lparr>lmem := (lmem s)(a := v)\<rparr>)"
proof -
  let ?s = "s\<lparr>lmem := (lmem s)(a := v)\<rparr>" and ?p = "unat (lPrevious s)"
  have ok: "lin_ok s" using s by (simp add: chained_def)
  have "cell_chain ?s ?p ps" if ps: "cell_chain s ?p ps" "?p + 8 \<le> unat (lCurrent s)" for ps
  proof (rule chain_cong [OF ps(1)])
    fix e assume e: "e \<in> set (?p # ps)"
    have le: "e \<le> ?p" using chain_aligned [OF ps(1) e] by simp
    have "cell_at s i \<noteq> a" if "e \<le> i" "i < e + 4" for i
      using a [OF ps(1) e] that le ps(2) lin_okD(2,6) [OF ok] cell_at_offset [of i s] by auto
    then have "rec_PrevOffset ?s (cell_at s e) = rec_PrevOffset s (cell_at s e)"
      using le ps(2) lin_okD(2,6) [OF ok] by (intro record_kept) auto
    then show "rec_PrevOffset ?s (cell_at s e) AND OFFSET_MASK = rec_PrevOffset s (cell_at s e) AND OFFSET_MASK" by simp
  qed simp
  then show ?thesis using s by (auto simp: chained_def lin_ok_def)
qed

text \<open>
  Any use of the allocator that does not write over the records of the chain: cells released in
  any order, twice, or after they were lost.
\<close>

inductive linear_use :: "linear \<Rightarrow> bool" where
  lu_ctor: "chunk \<noteq> 0 \<Longrightarrow> unat chunk + 2 ^ 31 \<le> 2 ^ 64 - 8 \<Longrightarrow> linear_use (linear_ctor sz chunk m)"
| lu_reset: "linear_use s \<Longrightarrow> linear_use (fst (linear_reset s))"
| lu_alloc: "linear_use s \<Longrightarrow> lin_sane sz \<Longrightarrow> linear_use (fst (linear_alloc s sz))"
| lu_free: "linear_use s \<Longrightarrow> 8 dvd d \<Longrightarrow> d + 8 \<le> unat (lCapacity s) \<Longrightarrow> linear_free s (cell_ptr s d) = Some s' \<Longrightarrow>
    linear_use s'"
| lu_write: "linear_use s \<Longrightarrow> (\<And>ps e. cell_chain s (unat (lPrevious s)) ps \<Longrightarrow> e \<in> set (unat (lPrevious s) # ps) \<Longrightarrow>
      \<not> (e \<le> unat (a - lChunk s) \<and> unat (a - lChunk s) < e + 8)) \<Longrightarrow>
    linear_use (s\<lparr>lmem := (lmem s)(a := v)\<rparr>)"

lemma linear_use_chained: "linear_use s \<Longrightarrow> chained s"
proof (induction rule: linear_use.induct)
  case (lu_free s d s')
  then show ?case using chained_free [of s d] by (metis option.inject)
next
  case (lu_write s a v)
  show ?case by (rule chained_write [OF lu_write.IH lu_write.hyps(2)])
qed (simp_all add: chained_ctor chained_reset chained_alloc)

text \<open>The states of the stack discipline are among them.\<close>

lemma linked_chain:
  "linked s L \<Longrightarrow> stacked t L \<Longrightarrow> t \<le> 2 ^ 31 \<Longrightarrow> q \<in> fst ` set L \<Longrightarrow> \<exists>ps. cell_chain s q ps"
proof (induction L arbitrary: t q)
  case (Cons x L)
  obtain d k where x: "x = (d, k)" by fastforce
  have st: "8 dvd d" "d + 8 + k \<le> t" "stacked d L" using Cons.prems(2) x by auto
  show ?case
  proof (cases "q = d")
    case True
    show ?thesis
    proof (cases "L = []")
      case True
      then show ?thesis using Cons.prems(1) x \<open>q = d\<close> by (intro exI [of _ "[]"]) auto
    next
      case False
      then obtain p where p: "p \<in> fst ` set L" "rec_PrevOffset s (cell_at s d) = of_nat p" using Cons.prems(1) x by auto
      have pd: "p + 8 \<le> d" using stacked_mem [OF st(3)] p(1) by fastforce
      obtain ps where "cell_chain s p ps" using Cons.IH [OF _ st(3) _ p(1)] Cons.prems(1,3) x st(2) by auto
      moreover have "(of_nat p :: u32) AND OFFSET_MASK = of_nat p" using pd st(2) Cons.prems(3) by (intro freed_bits) simp
      ultimately show ?thesis using True st(1) pd p(2) by (intro exI [of _ "p # ps"]) simp
    qed
  next
    case False
    then have "q \<in> fst ` set L" using Cons.prems(4) x by auto
    then show ?thesis using Cons.IH [OF _ st(3)] Cons.prems(1,3) x st(2) by auto
  qed
qed simp

lemma lifo_chained: "lifo_inv (s, L) \<Longrightarrow> chained s"
proof -
  assume I: "lifo_inv (s, L)"
  note D = lifo_invD [OF I]
  show ?thesis
  proof (cases "L = []")
    case True
    then show ?thesis using D by (simp add: chained_def)
  next
    case False
    then obtain k where "(unat (lPrevious s), k) \<in> set L" using D(6) by force
    then have "unat (lPrevious s) + 8 \<le> unat (lCurrent s)" using cell_bound(1) [OF I] by fastforce
    moreover have "\<exists>ps. cell_chain s (unat (lPrevious s)) ps"
      using linked_chain [OF D(3,2) _ D(6) [OF False]] lin_okD(2,6) [OF D(1)] by simp
    ultimately show ?thesis using D(1) by (simp add: chained_def)
  qed
qed

text \<open>
  Without a chain the loop need not end: when a record names its own cell, it never returns.
\<close>

lemma rollback_stuck:
  assumes "lPrevious s = of_nat d" "0 < d" "d < 2 ^ 31" "rec_PrevOffset s (cell_at s d) AND OFFSET_MASK = of_nat d" "cell_freed s d"
  shows "linear_rollback s (cell_at s d) = None"
proof (rule ccontr)
  define stuck where "stuck t r \<longleftrightarrow> r = cell_at t d \<and> lPrevious t = of_nat d \<and>
    rec_PrevOffset t (cell_at t d) AND OFFSET_MASK = of_nat d \<and> cell_freed t d" for t r
  have z: "(of_nat d :: u32) \<noteq> 0" using assms(2,3) unat_of_nat32 [of d] by (auto simp: word_eq_unat_iff)
  assume "linear_rollback s (cell_at s d) \<noteq> None"
  then obtain y where "linear_rollback s (cell_at s d) = Some y" by blast
  moreover have "\<not> stuck t r" if "linear_rollback t r = Some y" for t r y
  proof (rule linear_rollback.raw_induct [where P = "\<lambda>t r y. \<not> stuck t r", OF _ that])
    fix rollback t r y
    assume ih: "\<And>t r y. rollback t r = Some y \<Longrightarrow> \<not> stuck t r"
      and e: "(let s1 = t\<lparr>lCurrent := ucast (r - lChunk t)\<rparr> in
          if lCurrent s1 = 0 then Some (s1\<lparr>lPrevious := 0\<rparr>)
          else let r' = lChunk s1 + ucast (lPrevious s1);
                   s2 = s1\<lparr>lPrevious := rec_PrevOffset s1 r' AND OFFSET_MASK\<rparr>
               in if rec_PrevOffset s2 r' AND FREED_BIT = 0 then Some s2 else rollback s2 r') = Some y"
    show "\<not> stuck t r"
    proof
      assume k: "stuck t r"
      then have a: "lChunk t + ucast (of_nat d :: u32) = cell_at t d" using cell_word [of d t] assms(3) by simp
      have "rollback (t\<lparr>lCurrent := of_nat d, lPrevious := of_nat d\<rparr>) (cell_at t d) = Some y"
        using e k z a cell_offset_word [of t d] by (simp add: Let_def cell_freed_def stuck_def)
      from ih [OF this] k show False by (simp add: stuck_def)
    qed
  qed
  ultimately show False using assms(1,4,5) by (auto simp: stuck_def)
qed

end
