(* ===== verification/LinearProps.thy ===== *)
theory LinearProps
  imports LinearChain
begin

text \<open>
  The properties of the linear allocator: what \<open>alloc\<close> does on every state, safety under the
  stack discipline as a refinement of the abstract heap, and the orders and sizes for which
  the code breaks its promises.
\<close>

section \<open>The steps of a client that uses the allocator as a stack\<close>

text \<open>
  The calls of such a client: it releases only the top cell, and asks for a new cell with \<open>alloc\<close>,
  \<open>calloc\<close> or \<open>realloc\<close> of a null pointer.  Of \<open>realloc\<close> of a cell that it holds only the calls
  that change nothing are among them, those with size 0 and those that fail; the others leave
  a freed cell below the new one, which is not the stack discipline any more (see
  \<open>linear_realloc_loses_cell\<close> below).
\<close>

definition lifo_calloc :: "linear \<times> lcell list \<Rightarrow> u32 \<Rightarrow> u32 \<Rightarrow> (linear \<times> lcell list) \<times> ptr" where
  "lifo_calloc x num sz =
     (let (s', p) = linear_calloc (fst x) num sz
      in ((s', if p = 0 then snd x else (unat (lCurrent (fst x)), unat (num * sz)) # snd x), p))"

inductive lifo_step :: "linear \<times> lcell list \<Rightarrow> acall \<Rightarrow> linear \<times> lcell list \<Rightarrow> ptr \<Rightarrow> bool" where
  ls_alloc: "lin_sane sz \<Longrightarrow> lifo_alloc x sz = (x', p) \<Longrightarrow> lifo_step x (Alloc sz) x' p"
| ls_calloc: "lin_sane (num * sz) \<Longrightarrow> lifo_calloc x num sz = (x', p) \<Longrightarrow> lifo_step x (Calloc num sz) x' p"
| ls_free: "linear_free s (cell_ptr s d) = Some s' \<Longrightarrow>
    lifo_step (s, (d, k) # L) (Free (cell_ptr s d)) (s', L) 0"
| ls_dealloc: "unat sz \<le> k \<Longrightarrow> linear_dealloc s (cell_ptr s d) sz = Some s' \<Longrightarrow>
    lifo_step (s, (d, k) # L) (Dealloc (cell_ptr s d) sz) (s', L) 0"
| ls_realloc_null: "lin_sane sz \<Longrightarrow> linear_realloc s 0 sz = Some (s', p) \<Longrightarrow>
    lifo_step (s, L) (Realloc 0 sz) (s', if p = 0 then L else (unat (lCurrent s), unat sz) # L) p"
| ls_realloc_zero: "(d, k) \<in> set L \<Longrightarrow> linear_realloc s (cell_ptr s d) 0 = Some (s', p) \<Longrightarrow>
    lifo_step (s, L) (Realloc (cell_ptr s d) 0) (s', L) p"
| ls_realloc_fail: "(d, k) \<in> set L \<Longrightarrow> lin_sane sz \<Longrightarrow> linear_realloc s (cell_ptr s d) sz = Some (s', 0) \<Longrightarrow>
    lifo_step (s, L) (Realloc (cell_ptr s d) sz) (s', L) 0"
| ls_poke: "(d, k) \<in> set L \<Longrightarrow> in_region (cell_ptr s d, k) a \<Longrightarrow>
    lifo_step (s, L) (Poke a v) (s\<lparr>lmem := (lmem s)(a := v)\<rparr>, L) 0"

inductive_cases lifo_step_free: "lifo_step x (Free p) x' q"

inductive lifo_reachable :: "linear \<times> lcell list \<Rightarrow> bool" where
  lr_ctor: "chunk \<noteq> 0 \<Longrightarrow> unat chunk + 2 ^ 31 \<le> 2 ^ 64 - 8 \<Longrightarrow> lifo_reachable (linear_ctor sz chunk m, [])"
| lr_step: "lifo_reachable x \<Longrightarrow> lifo_step x c x' p \<Longrightarrow> lifo_reachable x'"

text \<open>Writes inside of a cell keep the invariant.\<close>

lemma write_inv:
  assumes I: "lifo_inv (s, L)" and m: "(d, k) \<in> set L"
    and out: "\<And>a. \<not> in_region (cell_ptr s d, k) a \<Longrightarrow> f a = lmem s a"
  shows "lifo_inv (s\<lparr>lmem := f\<rparr>, L)"
proof -
  let ?s' = "s\<lparr>lmem := f\<rparr>"
  note D = lifo_invD [OF I]
  have "linked ?s' L"
  proof (rule linked_cong [OF D(3)])
    fix e j assume n: "(e, j) \<in> set L"
    have "f (cell_at s i) = lmem s (cell_at s i)" if "e \<le> i" "i < e + 4" for i
    proof (rule out)
      have "unat (cell_at s i - lChunk s) = i"
        using cell_bound(2) [OF I n] that by (intro cell_at_offset) simp
      then show "\<not> in_region (cell_ptr s d, k) (cell_at s i)"
        using that cell_bound(2) [OF I m] stacked_apart [OF D(2) m n] region_offset [of d k s "cell_at s i"] by auto
    qed
    then show "rec_PrevOffset ?s' (cell_at s e) = rec_PrevOffset s (cell_at s e)"
      using cell_bound(2) [OF I n] by (intro record_kept) auto
  qed simp
  then show ?thesis using I by (auto simp: lifo_inv_def lin_ok_def)
qed

lemma poke_inv:
  "\<lbrakk>lifo_inv (s, L); (d, k) \<in> set L; in_region (cell_ptr s d, k) a\<rbrakk> \<Longrightarrow> lifo_inv (s\<lparr>lmem := (lmem s)(a := v)\<rparr>, L)"
  by (rule write_inv) auto

text \<open>\<open>calloc\<close> is \<open>alloc\<close> followed by a write of zeros to the whole cell.\<close>

lemma lifo_calloc_heap:
  assumes I: "lifo_inv x" and sz: "lin_sane (num * sz)" and c: "lifo_calloc x num sz = (x', p)"
  shows "lifo_inv x'" "heap_new (linear_regions x) (unat (num * sz)) (linear_regions x') p"
    "r \<in> linear_regions x \<Longrightarrow> in_region r a \<Longrightarrow> lmem (fst x') a = lmem (fst x) a"
    "p \<noteq> 0 \<Longrightarrow> in_region (p, unat (num * sz)) a \<Longrightarrow> lmem (fst x') a = 0"
proof -
  obtain s L where x: "x = (s, L)" by fastforce
  let ?n = "num * sz" and ?k = "unat (lCurrent s)"
  have "lifo_inv x' \<and> heap_new (linear_regions x) (unat ?n) (linear_regions x') p \<and>
    (r \<in> linear_regions x \<longrightarrow> in_region r a \<longrightarrow> lmem (fst x') a = lmem (fst x) a) \<and>
    (p \<noteq> 0 \<longrightarrow> in_region (p, unat ?n) a \<longrightarrow> lmem (fst x') a = 0)"
  proof (cases "snd (lifo_alloc x ?n) = 0")
    case True
    then have "linear_alloc s ?n = (fst (linear_alloc s ?n), 0)" by (cases "linear_alloc s ?n") (simp add: lifo_alloc_def x)
    moreover have "x' = fst (lifo_alloc x ?n)" "p = 0"
      using c True by (auto simp: lifo_calloc_def linear_calloc_def lifo_alloc_def x Let_def split: prod.splits if_splits)
    ultimately show ?thesis using lifo_alloc_heap [OF I sz] True by auto
  next
    case False
    obtain s1 where a: "lifo_alloc x ?n = ((s1, (?k, unat ?n) # L), cell_ptr s ?k)" "lChunk s1 = lChunk s"
      using lifo_alloc_cases [OF I [unfolded x] sz] False x by (metis snd_conv)
    have la: "linear_alloc s ?n = (s1, cell_ptr s ?k)" and np: "cell_ptr s ?k \<noteq> 0"
      using a(1) False by (auto simp: lifo_alloc_def x split: prod.splits)
    note A = lifo_alloc_heap [OF I sz, unfolded a(1) fst_conv snd_conv]
    have cp: "cell_ptr s1 = cell_ptr s" using a(2) by (simp add: cell_ptr_def cell_at_def fun_eq_iff)
    let ?f = "memset (lmem s1) (cell_ptr s ?k) 0 (unat ?n)"
    have x': "x' = (s1\<lparr>lmem := ?f\<rparr>, (?k, unat ?n) # L)" "p = cell_ptr s ?k"
      using c np by (auto simp: lifo_calloc_def linear_calloc_def x Let_def la)
    have f_out: "?f b = lmem s1 b" if "\<not> in_region (cell_ptr s ?k, unat ?n) b" for b
      using that by (intro memset_out) (simp add: in_region_def)
    have "lifo_inv x'" unfolding x' by (rule write_inv [OF A(1), of ?k "unat ?n"]) (use f_out cp in simp_all)
    moreover have R: "linear_regions x' = linear_regions (s1, (?k, unat ?n) # L)"
      unfolding x' by (rule regions_chunk) simp
    moreover have "lmem (fst x') a = lmem (fst x) a" if r: "r \<in> linear_regions x" "in_region r a"
    proof -
      have m: "(cell_ptr s ?k, unat ?n) \<in> linear_regions (s1, (?k, unat ?n) # L)" by (simp add: linear_regions_def cp)
      have "apart (cell_ptr s ?k, unat ?n) r"
        using A(2) np r(1) linear_regions_wf [OF A(1)] m
      proof (cases rule: heap_new.cases)
        case (heap_fresh j)
        then have "(cell_ptr s ?k, j) = (cell_ptr s ?k, unat ?n)"
          using heap_wf_fst [OF linear_regions_wf [OF A(1)] m, of j] by simp
        then show ?thesis using heap_fresh r(1) by auto
      qed (use np in simp)
      then have "\<not> in_region (cell_ptr s ?k, unat ?n) a" using r(2) by (auto simp: apart_def)
      then show ?thesis using f_out A(3) [OF r] by (simp add: x')
    qed
    moreover have "lmem (fst x') a = 0" if "in_region (p, unat ?n) a"
      using that by (simp add: x' memset_in in_region_def)
    ultimately show ?thesis using A(2) x'(2) by simp
  qed
  then show "lifo_inv x'" "heap_new (linear_regions x) (unat (num * sz)) (linear_regions x') p"
    "r \<in> linear_regions x \<Longrightarrow> in_region r a \<Longrightarrow> lmem (fst x') a = lmem (fst x) a"
    "p \<noteq> 0 \<Longrightarrow> in_region (p, unat (num * sz)) a \<Longrightarrow> lmem (fst x') a = 0" by blast+
qed

lemma lifo_free_heap:
  assumes I: "lifo_inv (s, (d, k) # L)" and f: "linear_free s (cell_ptr s d) = Some s'"
  shows "lifo_inv (s', L)" "linear_regions (s', L) = linear_regions (s, (d, k) # L) - {(cell_ptr s d, k)}"
    "unat (lCurrent s') = (if unat (lPrevious s) = d then d else unat (lCurrent s))"
proof -
  from lifo_free_spec [OF I] f have F: "lifo_inv (s', L)" "lChunk s' = lChunk s"
    "unat (lCurrent s') = (if unat (lPrevious s) = d then d else unat (lCurrent s))" by (metis option.inject)+
  show "lifo_inv (s', L)" "unat (lCurrent s') = (if unat (lPrevious s) = d then d else unat (lCurrent s))"
    using F by simp_all
  have "(cell_ptr s d, k) \<notin> linear_regions (s, L)"
  proof
    assume "(cell_ptr s d, k) \<in> linear_regions (s, L)"
    then obtain e where e: "(e, k) \<in> set L" "cell_ptr s e = cell_ptr s d" by (auto simp: linear_regions_def)
    have "e + 8 + k \<le> d" using stacked_mem [of d L e k] lifo_invD(2) [OF I] e(1) by simp
    moreover have "in_region (cell_ptr s d, k) (cell_ptr s e)" "in_region (cell_ptr s e, k) (cell_ptr s e)"
      using e(2) cell_bound(3) [OF I, of d k] by (simp_all add: in_region_def)
    ultimately show False
      using cell_bound(2) [OF I, of d k] cell_bound(2) [OF I, of e k] e(1) by (auto simp: region_offset)
  qed
  then show "linear_regions (s', L) = linear_regions (s, (d, k) # L) - {(cell_ptr s d, k)}"
    using regions_chunk [OF F(2)] by (simp add: regions_cons)
qed

text \<open>\<open>realloc\<close> of a null pointer is \<open>alloc\<close>; when it fails, or with size 0, nothing changes.\<close>

lemma linear_realloc_alloc:
  "lin_sane sz \<Longrightarrow> linear_realloc s 0 sz = Some (linear_alloc s sz)"
  by (auto simp: linear_realloc_def lin_sane_def case_prod_beta Let_def)

lemma linear_realloc_fail:
  assumes "linear_realloc s q sz = Some (s', 0)" "lin_ok s" "lin_sane sz" shows "s' = s"
proof -
  have "linear_alloc s sz = (s', 0)"
    using assms(1,3) by (cases "linear_alloc s sz") (auto simp: linear_realloc_def lin_sane_def Let_def split: if_splits)
  moreover have "\<not> lin_fits s sz"
  proof
    assume f: "lin_fits s sz"
    then have "cell_at s (unat (lCurrent s) + 8) \<noteq> 0"
      using cell_at_unat(2) [OF assms(2)] by (simp add: lin_fits_def)
    moreover obtain t where "linear_alloc s sz = (t, cell_at s (unat (lCurrent s) + 8))"
      using linear_alloc_succeeds [OF assms(2,3) f] by blast
    ultimately show False using \<open>linear_alloc s sz = (s', 0)\<close> by simp
  qed
  ultimately show ?thesis using linear_alloc_fail [OF assms(2,3)] by simp
qed

lemma lifo_free_step:
  assumes I: "lifo_inv (s, (d, k) # L)" and f: "linear_free s (cell_ptr s d) = Some s'"
  shows "lifo_inv (s', L)" "linear_regions (s', L) = linear_regions (s, (d, k) # L) - {(cell_ptr s d, k)}"
    "r \<in> linear_regions (s', L) \<Longrightarrow> in_region r a \<Longrightarrow> lmem s' a = lmem s a"
proof -
  show "lifo_inv (s', L)" "linear_regions (s', L) = linear_regions (s, (d, k) # L) - {(cell_ptr s d, k)}"
    using lifo_free_heap [OF assms] by blast+
  assume r: "r \<in> linear_regions (s', L)" "in_region r a"
  from lifo_free_spec [OF I] f have F: "lChunk s' = lChunk s"
    "\<And>a. \<not> (d \<le> unat (a - lChunk s) \<and> unat (a - lChunk s) < d + 4) \<Longrightarrow> lmem s' a = lmem s a" by (metis option.inject)+
  obtain e j where e: "(e, j) \<in> set L" "in_region (cell_ptr s e, j) a"
    using r regions_chunk [OF F(1)] by (auto simp: linear_regions_def)
  have "e + 8 + j \<le> d" using stacked_mem [of d L e j] lifo_invD(2) [OF I] e(1) by simp
  then have "unat (a - lChunk s) < d"
    using e region_offset [of e j s a] cell_bound(2) [OF I, of e j] by auto
  then show "lmem s' a = lmem s a" by (intro F(2)) simp
qed

lemma lifo_step_heap:
  "lifo_step x c x' p \<Longrightarrow> lifo_inv x \<Longrightarrow> lifo_inv x' \<and> heap_step (linear_regions x) c (linear_regions x') p \<and>
    (\<forall>r\<in>linear_regions x \<inter> linear_regions x'. \<forall>a. in_region r a \<longrightarrow> (\<forall>b v. c \<noteq> Poke b v) \<longrightarrow> lmem (fst x') a = lmem (fst x) a) \<and>
    (\<forall>num sz a. c = Calloc num sz \<longrightarrow> p \<noteq> 0 \<longrightarrow> in_region (p, unat (num * sz)) a \<longrightarrow> lmem (fst x') a = 0)"
proof (induction rule: lifo_step.induct)
  case (ls_alloc sz x x' p)
  note A = lifo_alloc_heap [OF ls_alloc(3,1), unfolded ls_alloc(2) fst_conv snd_conv]
  show ?case using A(1,2) by (auto intro: hs_alloc A(3))
next
  case (ls_calloc num sz x x' p)
  note C = lifo_calloc_heap [OF ls_calloc(3,1,2)]
  show ?case using C(1,2) by (auto intro: hs_calloc C(3,4))
next
  case (ls_free s d s' k L)
  have "(cell_ptr s d, k) \<in> linear_regions (s, (d, k) # L)" by (simp add: linear_regions_def)
  then show ?case using lifo_free_step [OF ls_free(2,1)] hs_free by simp
next
  case (ls_dealloc sz k s d s' L)
  have "(cell_ptr s d, k) \<in> linear_regions (s, (d, k) # L)" by (simp add: linear_regions_def)
  then show ?case using lifo_free_step [OF ls_dealloc(3) ls_dealloc(2) [unfolded linear_dealloc_def]] hs_dealloc ls_dealloc(1) by simp
next
  case (ls_realloc_null sz s s' p L)
  then have a: "lifo_alloc (s, L) sz = ((s', if p = 0 then L else (unat (lCurrent s), unat sz) # L), p)"
    by (simp add: lifo_alloc_def linear_realloc_alloc)
  note A = lifo_alloc_heap [OF ls_realloc_null(3,1), unfolded a fst_conv snd_conv]
  show ?case using A(1,2) by (auto intro: hs_realloc_null A(3))
next
  case (ls_realloc_zero d k L s s' p)
  then have "s' = s" "p = 0" by (auto simp: linear_realloc_def)
  moreover have "(cell_ptr s d, k) \<in> linear_regions (s, L)" using ls_realloc_zero(1) by (force simp: linear_regions_def)
  ultimately show ?case using ls_realloc_zero(3) by (auto intro: hs_realloc_fail)
next
  case (ls_realloc_fail d k L sz s s')
  then have "s' = s" using linear_realloc_fail [OF ls_realloc_fail(3) lifo_invD(1) [OF ls_realloc_fail(4)]] by simp
  moreover have "(cell_ptr s d, k) \<in> linear_regions (s, L)" using ls_realloc_fail(1) by (force simp: linear_regions_def)
  ultimately show ?case using ls_realloc_fail(4) by (auto intro: hs_realloc_fail)
next
  case (ls_poke d k L s a v)
  have "linear_regions (s\<lparr>lmem := (lmem s)(a := v)\<rparr>, L) = linear_regions (s, L)"
    by (rule regions_chunk) simp
  moreover have "(cell_ptr s d, k) \<in> linear_regions (s, L)" using ls_poke(1) by (force simp: linear_regions_def)
  ultimately show ?case using poke_inv [OF ls_poke(3,1,2)] ls_poke(2) by (auto intro: hs_poke)
qed

text \<open>
  C17: Under the stack discipline the linear allocator refines the abstract heap.  Every call of
  \<open>alloc\<close> and \<open>calloc\<close> (for sizes whose rounding does not wrap), of \<open>free\<close> and \<open>dealloc\<close> of the top
  cell, of \<open>realloc\<close> of a null pointer, with size 0 or without success, and every write to a cell
  keeps the invariant and is a step of the heap of the cells held, which never overlap; the calls
  leave the contents of the cells held before and after alone, and \<open>calloc\<close> returns zeros.
\<close>

theorem linear_lifo_refines_heap:
  assumes st: "lifo_step x c x' p" and I: "lifo_inv x"
  shows "lifo_inv x' \<and> heap_step (linear_regions x) c (linear_regions x') p \<and> heap_wf (linear_regions x') \<and>
    (\<forall>r\<in>linear_regions x \<inter> linear_regions x'. \<forall>a. in_region r a \<longrightarrow> (\<forall>b v. c \<noteq> Poke b v) \<longrightarrow> lmem (fst x') a = lmem (fst x) a) \<and>
    (\<forall>num sz a. c = Calloc num sz \<longrightarrow> p \<noteq> 0 \<longrightarrow> in_region (p, unat (num * sz)) a \<longrightarrow> lmem (fst x') a = 0)"
  using lifo_step_heap [OF assms] linear_regions_wf by (cases x') auto

definition demo_linear :: linear where
  "demo_linear = linear_ctor 100 0x1000 (\<lambda>_. 0)"

lemma demo_linear: "lifo_inv (demo_linear, [])" "lin_ok demo_linear" "lCurrent demo_linear = 0"
  "lCapacity demo_linear = 104" "lChunk demo_linear = 0x1000"
proof -
  show "lifo_inv (demo_linear, [])" unfolding demo_linear_def by (rule linear_ctor_inv) simp_all
  then show "lin_ok demo_linear" by (rule lifo_invD)
  show "lCurrent demo_linear = 0" "lChunk demo_linear = 0x1000" by (simp_all add: demo_linear_def linear_ctor_def)
  have "unat (lCapacity demo_linear) = 104" by (simp add: demo_linear_def linear_ctor_cap)
  then show "lCapacity demo_linear = 104" by (simp add: word_eq_unat_iff)
qed

theorem linear_lifo_refines_heap_witness:
  "\<exists>x' p. lifo_step (demo_linear, []) (Calloc 4 5) x' p \<and> p \<noteq> 0 \<and>
     heap_step {} (Calloc 4 5) (linear_regions x') p \<and> lmem (fst x') (p + 19) = 0"
proof -
  obtain x' p where a: "lifo_calloc (demo_linear, []) 4 5 = (x', p)" by fastforce
  have sz: "lin_sane 20" by (simp add: lin_sane_def)
  have "lin_fits demo_linear 20" by (simp add: lin_fits_def demo_linear cell_bytes_def)
  from linear_alloc_succeeds [OF demo_linear(2) sz this] obtain s' where
    "linear_alloc demo_linear 20 = (s', cell_at demo_linear 8)" by (auto simp: demo_linear)
  moreover have "cell_at demo_linear 8 \<noteq> 0" by (simp add: cell_at_def demo_linear)
  ultimately have p: "p \<noteq> 0" using a by (auto simp: lifo_calloc_def linear_calloc_def)
  have st: "lifo_step (demo_linear, []) (Calloc 4 5) x' p" by (rule ls_calloc [OF _ a]) (simp add: lin_sane_def)
  have e: "linear_regions (demo_linear, []) = {}" by (simp add: linear_regions_def)
  have "in_region (p, unat (4 * 5 :: u32)) (p + 19)" by (simp add: in_region_def)
  then show ?thesis using linear_lifo_refines_heap [OF st demo_linear(1)] st p unfolding e by blast
qed

text \<open>
  In every reachable state the cells held lie below \<open>used\<close>, which never exceeds the
  capacity, and do not overlap; when every cell has been released the whole bulk is free again.
\<close>

theorem linear_reachable_safe:
  assumes r: "lifo_reachable x"
  shows "linear_used (fst x) \<le> linear_capacity (fst x) \<and> heap_wf (linear_regions x) \<and>
    (\<forall>(d, k)\<in>set (snd x). d + 8 + k \<le> unat (linear_used (fst x))) \<and>
    (snd x = [] \<longrightarrow> linear_used (fst x) = 0)"
proof -
  have I: "lifo_inv x"
    using r
  proof (induction rule: lifo_reachable.induct)
    case (lr_ctor chunk sz m)
    then show ?case by (rule linear_ctor_inv)
  next
    case (lr_step x c x' p)
    then show ?case using lifo_step_heap by blast
  qed
  obtain s L where x: "x = (s, L)" by fastforce
  note D = lifo_invD [OF I [unfolded x]]
  have "(d, k) \<in> set L \<Longrightarrow> d + 8 + k \<le> unat (lCurrent s)" for d k
    using cell_bound(1) [OF I [unfolded x]] .
  then show ?thesis
    using D(4) lin_okD(6) [OF D(1)] linear_regions_wf [OF I [unfolded x]]
    by (auto simp: x linear_used_def linear_capacity_def word_le_nat_alt)
qed

theorem linear_reachable_safe_witness:
  "linear_used (linear_ctor 5 0x1000 (\<lambda>_. 1)) = 0"
  using linear_reachable_safe [OF lr_ctor [of "0x1000" 5 "\<lambda>_. 1"]] by simp

section \<open>alloc on every state\<close>

text \<open>
  C19: For a request that does not come within 15 bytes of 2^32, \<open>alloc\<close> fails and changes
  nothing exactly when the rounded cell does not fit below the reserve of 8 bytes; otherwise it
  returns the 8-byte aligned space behind a new record at the old stack pointer, moves the
  stack pointer by the cell and writes nothing but the record.
\<close>

theorem linear_alloc_correct:
  assumes ok: "lin_ok s" and sz: "lin_sane sz"
  defines "c \<equiv> unat (linear_used s)" and "n \<equiv> cell_bytes (unat sz)"
  shows "if unat (linear_available s) < n then linear_alloc s sz = (s, 0)
    else \<exists>s' p. linear_alloc s sz = (s', p) \<and> p \<noteq> 0 \<and> unat (p - lChunk s) = c + 8 \<and> 8 dvd c + 8 \<and>
      lin_ok s' \<and> unat (linear_used s') = c + n \<and> c + 8 + unat sz \<le> unat (linear_used s') \<and>
      linear_hwm s' = max (linear_hwm s) (linear_used s') \<and> lPrevious s' = linear_used s \<and>
      rec_PrevOffset s' (cell_at s c) = lPrevious s \<and>
      rec_CRC s' (cell_at s c) = lPrevious s XOR CRC_KEY \<and>
      (\<forall>a. \<not> (c \<le> unat (a - lChunk s) \<and> unat (a - lChunk s) < c + 8) \<longrightarrow> lmem s' a = lmem s a)"
proof -
  have f: "lin_fits s sz \<longleftrightarrow> \<not> unat (linear_available s) < n"
    using available_unat [OF ok] cell_bytes_le(1) [of "unat sz"] lin_okD(6) [OF ok]
    by (auto simp: lin_fits_def n_def)
  show ?thesis
  proof (cases "lin_fits s sz")
    case False
    then show ?thesis using f linear_alloc_fail [OF ok sz] by simp
  next
    case True
    from linear_alloc_succeeds [OF ok sz True] obtain s' where
      s': "linear_alloc s sz = (s', cell_at s (c + 8))" "lin_ok s'" "unat (lCurrent s') = c + n"
      "lPrevious s' = lCurrent s" "lHWMBytes s' = max (lHWMBytes s) (lCurrent s')"
      "rec_PrevOffset s' (cell_at s c) = lPrevious s" "rec_CRC s' (cell_at s c) = lPrevious s XOR CRC_KEY"
      "\<And>a. \<not> (c \<le> unat (a - lChunk s) \<and> unat (a - lChunk s) < c + 8) \<Longrightarrow> lmem s' a = lmem s a"
      unfolding c_def n_def linear_used_def by blast
    have le: "c + 8 \<le> unat (lCapacity s)" using True by (simp add: lin_fits_def c_def linear_used_def)
    then have "unat (cell_at s (c + 8) - lChunk s) = c + 8"
      using lin_okD(2) [OF ok] by (intro cell_at_offset) simp
    moreover have "8 dvd c" using lin_okD(5) [OF ok] by (simp add: c_def linear_used_def)
    moreover have "c + 8 + unat sz \<le> c + n" using cell_bytes_le(1) [of "unat sz"] by (simp add: n_def)
    ultimately show ?thesis
      using True f s' cell_at_unat(2) [OF ok le] by (simp add: linear_used_def linear_hwm_def)
  qed
qed

theorem linear_alloc_correct_witness:
  "unat (linear_used (fst (linear_alloc demo_linear 20))) = 32"
  using linear_alloc_correct [OF demo_linear(2), of 20] available_unat [OF demo_linear(2)]
  by (auto simp: lin_sane_def cell_bytes_def demo_linear linear_used_def)

text \<open>
  The value that \<open>available\<close> reports can never be allocated: a request for exactly that many
  bytes fails.
\<close>

theorem linear_available_too_much:
  assumes ok: "lin_ok s" and sz: "lin_sane (linear_available s)"
  shows "linear_alloc s (linear_available s) = (s, 0)"
proof (rule linear_alloc_fail [OF ok sz])
  show "\<not> lin_fits s (linear_available s)"
    using available_unat [OF ok] cell_bytes_le(1) [of "unat (linear_available s)"] sz
    by (auto simp: lin_fits_def lin_sane_def)
qed

theorem linear_available_too_much_witness:
  "linear_available demo_linear = 96 \<and> linear_alloc demo_linear 96 = (demo_linear, 0)"
proof -
  have "unat (linear_available demo_linear) = 96" by (simp add: available_unat demo_linear)
  then have e: "linear_available demo_linear = 96" by (simp add: word_eq_unat_iff)
  have "lin_sane 96" by (simp add: lin_sane_def)
  then show ?thesis using linear_available_too_much [OF demo_linear(2)] e by simp
qed

text \<open>
  The addition of the record wraps: a request for 2^32 - 8 bytes returns a pointer although
  no byte has been reserved, so the next request gets the same space.
\<close>

theorem linear_alloc_wraps:
  assumes "lCurrent s < lCapacity s"
  shows "\<exists>s'. linear_alloc s 0xFFFFFFF8 = (s', lChunk s + ucast (lCurrent s) + 8) \<and>
    linear_used s' = linear_used s"
proof -
  have z: "round8 (0xFFFFFFF8 + sizeof_FreeCellRecord) = 0"
    by (simp add: sizeof_FreeCellRecord_def round8_def)
  have a: "linear_alloc s 0xFFFFFFF8 = linear_push s 0"
    using assms by (simp add: linear_alloc_def Let_def z)
  show ?thesis
    by (simp add: a linear_push_def Let_def set_PrevOffset_def set_CRC_def linear_used_def sizeof_FreeCellRecord_def)
qed

theorem linear_alloc_wraps_witness:
  "\<exists>s'. linear_alloc demo_linear 0xFFFFFFF8 = (s', 0x1008) \<and> linear_used s' = 0"
  using linear_alloc_wraps [of demo_linear] by (simp add: demo_linear linear_used_def)

section \<open>Releasing out of order\<close>

lemmas linear_eval = linear_ctor_def linear_alloc_def linear_push_def Let_def linear_available_def
  sizeof_FreeCellRecord_def set_PrevOffset_def set_CRC_def rec_PrevOffset_def load32_store32_same
  load32_store32_apart round8_def CRC_KEY_def FREED_BIT_def OFFSET_MASK_def linear_free_def

definition trace_mem :: "nat \<Rightarrow> memory" where
  "trace_mem n = foldl (\<lambda>m (a, v). store32 m a v) (\<lambda>_. 0)
     (take n [(0x1000, 0), (0x1004, 0x5FEE1299), (0x1010, 0), (0x1014, 0x5FEE1299),
       (0x1020, 0x10), (0x1024, 0x5FEE1289), (0x1020, 0x80000010), (0x1000, 0x80000000)])"

definition trace_state :: "u32 \<Rightarrow> u32 \<Rightarrow> u32 \<Rightarrow> nat \<Rightarrow> linear" where
  "trace_state c p h n =
     \<lparr>lChunk = 0x1000, lCurrent = c, lPrevious = p, lCapacity = 128, lHWMBytes = h, lmem = trace_mem n\<rparr>"

lemmas trace_defs = trace_state_def trace_mem_def eval_nat_numeral

lemma trace_allocs:
  "linear_alloc (linear_ctor 128 0x1000 (\<lambda>_. 0)) 8 = (trace_state 16 0 16 2, 0x1008)"
  "linear_alloc (trace_state 16 0 16 2) 8 = (trace_state 32 16 32 4, 0x1018)"
  "linear_alloc (trace_state 32 16 32 4) 8 = (trace_state 48 32 48 6, 0x1028)"
  by (simp_all add: linear_eval trace_state_def trace_mem_def)

lemma trace_free_C: "linear_free (trace_state 48 32 48 6) 0x1028 = Some (trace_state 32 0 48 7)"
  by (simp add: linear_eval trace_state_def trace_mem_def)
    (subst linear_rollback.simps, simp add: linear_eval, subst linear_rollback.simps, simp add: linear_eval)

lemma trace_free_A: "linear_free (trace_state 32 0 48 7) 0x1008 = Some (trace_state 0 0 48 8)"
  by (simp add: linear_eval trace_state_def trace_mem_def) (subst linear_rollback.simps, simp add: linear_eval)


text \<open>Three cells of which the middle one has been released: the release of the top one releases both.\<close>

definition freed_below :: linear where
  "freed_below = set_PrevOffset 0x1010 0x80000000 (trace_state 48 32 48 6)"


text \<open>
  A request whose size wraps makes the loop endless: the second of two such requests gets a record
  that names its own cell.
\<close>

theorem linear_free_hangs:
  "\<exists>s2 s3. linear_alloc (trace_state 16 0 16 2) 0xFFFFFFF8 = (s2, 0x1018) \<and>
     linear_alloc s2 0xFFFFFFF8 = (s3, 0x1018) \<and> linear_free s3 0x1018 = None"
proof -
  define m where "m = store32 (store32 (trace_mem 2) 0x1010 0) 0x1014 0x5FEE1299"
  define s2 where "s2 = \<lparr>lChunk = 0x1000, lCurrent = 16, lPrevious = 16, lCapacity = 128, lHWMBytes = 16, lmem = m\<rparr>"
  define s3 where "s3 = s2\<lparr>lmem := store32 (store32 m 0x1010 16) 0x1014 0x5FEE1289\<rparr>"
  have a: "linear_alloc (trace_state 16 0 16 2) 0xFFFFFFF8 = (s2, 0x1018)" "linear_alloc s2 0xFFFFFFF8 = (s3, 0x1018)"
    by (simp_all add: linear_eval trace_state_def s2_def s3_def m_def)
  let ?s = "s3\<lparr>lmem := store32 (lmem s3) 0x1010 0x80000010\<rparr>"
  have "linear_rollback ?s (cell_at ?s 16) = None"
    by (rule rollback_stuck) (simp_all add: cell_freed_def cell_at_def linear_eval s2_def s3_def)
  moreover have "linear_free s3 0x1018 = linear_rollback ?s (cell_at ?s 16)"
    by (simp add: linear_eval cell_at_def s2_def s3_def)
  ultimately show ?thesis using a by metis
qed

text \<open>
  The rollback of \<open>free\<close> loses a live cell.  Three cells A, B, C of 8 bytes are allocated, then
  C and A are released while B is kept; after that the allocator is empty although B is in use,
  and the next request returns memory that contains B.
\<close>

theorem linear_free_loses_cell:
  "\<exists>s1 s2 s3 s4 s5 s6. linear_alloc (linear_ctor 128 0x1000 (\<lambda>_. 0)) 8 = (s1, 0x1008) \<and>
     linear_alloc s1 8 = (s2, 0x1018) \<and> linear_alloc s2 8 = (s3, 0x1028) \<and>
     linear_free s3 0x1028 = Some s4 \<and> linear_free s4 0x1008 = Some s5 \<and> linear_used s5 = 0 \<and>
     linear_alloc s5 24 = (s6, 0x1008) \<and> \<not> apart (0x1018, 8) (0x1008, 24)"
proof (intro exI conjI)
  show "linear_alloc (linear_ctor 128 0x1000 (\<lambda>_. 0)) 8 = (trace_state 16 0 16 2, 0x1008)"
    "linear_alloc (trace_state 16 0 16 2) 8 = (trace_state 32 16 32 4, 0x1018)"
    "linear_alloc (trace_state 32 16 32 4) 8 = (trace_state 48 32 48 6, 0x1028)"
    "linear_free (trace_state 48 32 48 6) 0x1028 = Some (trace_state 32 0 48 7)"
    "linear_free (trace_state 32 0 48 7) 0x1008 = Some (trace_state 0 0 48 8)"
    by (fact trace_allocs trace_free_C trace_free_A)+
  show "linear_used (trace_state 0 0 48 8) = 0" by (simp add: linear_used_def trace_state_def)
  have "snd (linear_alloc (trace_state 0 0 48 8) 24) = 0x1008"
    by (simp add: linear_eval trace_state_def)
  then show "linear_alloc (trace_state 0 0 48 8) 24 = (fst (linear_alloc (trace_state 0 0 48 8) 24), 0x1008)"
    by (metis prod.collapse)
  have "in_region (0x1018, 8) 0x1018 \<and> in_region (0x1008, 24) 0x1018" by (simp add: in_region_def)
  then show "\<not> apart (0x1018, 8) (0x1008, 24)" by (auto simp: apart_def)
qed

lemma load32_memcpy_apart:
  "of_nat n \<le> b - q \<Longrightarrow> of_nat n \<le> q - b \<Longrightarrow> 4 \<le> n \<Longrightarrow> n < 2 ^ 32 \<Longrightarrow> load32 (memcpy m q p n) b = load32 m b"
  using apart_offsets [of n b q] by (intro load32_cong) (simp add: memcpy_def)

text \<open>
  A \<open>realloc\<close> that moves the top cell leaves a freed cell below the new one, and after two of them
  the cells may be released from the top down and a live one is lost all the same: the next
  request returns memory that contains the cell at \<open>0x1028\<close>.
\<close>

theorem linear_realloc_loses_cell:
  "(let (s1, _) = linear_alloc (linear_ctor 128 0x1000 (\<lambda>_. 0)) 8; (s2, a) = linear_alloc s1 8 in
    Option.bind (linear_realloc s2 a 8) (\<lambda>(s3, live). let (s4, b) = linear_alloc s3 8 in
    Option.bind (linear_realloc s4 b 8) (\<lambda>(s5, c).
    Option.bind (linear_free s5 c) (\<lambda>s6. let (s7, d) = linear_alloc s6 8 in
    Option.bind (linear_free s7 d) (\<lambda>s8. Some (live, linear_used s8, snd (linear_alloc s8 24))))))) =
   Some (0x1028, 16, 0x1018)"
  by (simp add: linear_eval linear_realloc_def load32_memcpy_apart)
    (subst linear_rollback.simps, simp add: linear_eval linear_realloc_def linear_used_def load32_memcpy_apart)+

end
