(* ===== verification/AllocSlots.thy ===== *)
theory AllocSlots
  imports BuddyProps LinearProps
begin

text \<open>
  The static slot tables of BuddyAllocator and LinearAllocator (create, destory, instance) in
  src/allocators.cpp, and the STL-compatible template \<open>Allocator\<close> of include/xpf/allocators.h
  over the interface of AllocIface.
\<close>

section \<open>Slots\<close>

definition MAXSLOT :: u16 where
  "MAXSLOT = 256"

text \<open>The array of 256 instance pointers of one of the two classes; None is the null pointer.\<close>

type_synonym 'h slots = "'h option list"

definition no_instances :: "'h slots" where
  "no_instances = replicate 256 None"

definition slot_destory :: "'h slots \<Rightarrow> u16 \<Rightarrow> 'h slots" where
  "slot_destory g slotId =
     (if slotId \<ge> MAXSLOT then g
      else if g ! unat slotId \<noteq> None then g[unat slotId := None] else g)"

definition slot_instance :: "'h slots \<Rightarrow> u16 \<Rightarrow> 'h option" where
  "slot_instance g slotId = (if slotId \<ge> MAXSLOT then None else g ! unat slotId)"

text \<open>\<open>chunk\<close> and \<open>m\<close> stand for the result of malloc, as in the constructors.\<close>

definition buddy_create :: "buddy slots \<Rightarrow> u32 \<Rightarrow> u16 \<Rightarrow> ptr \<Rightarrow> memory \<Rightarrow> (buddy slots \<times> u32) option" where
  "buddy_create g sz slotId chunk m =
     (if slotId \<ge> MAXSLOT then Some (g, 0)
      else let g1 = slot_destory g slotId in
        case buddy_ctor sz chunk m of
          None \<Rightarrow> None
        | Some a \<Rightarrow> Some (g1[unat slotId := Some a], buddy_capacity a))"

definition linear_create :: "linear slots \<Rightarrow> u32 \<Rightarrow> u16 \<Rightarrow> ptr \<Rightarrow> memory \<Rightarrow> linear slots \<times> u32" where
  "linear_create g sz slotId chunk m =
     (if slotId \<ge> MAXSLOT then (g, 0)
      else let g1 = slot_destory g slotId; a = linear_ctor sz chunk m in
        (g1[unat slotId := Some a], linear_capacity a))"

definition slots_ok :: "'h slots \<Rightarrow> bool" where
  "slots_ok g \<longleftrightarrow> length g = 256"

lemma slot_less: "slotId < MAXSLOT \<Longrightarrow> unat slotId < 256"
  by (simp add: MAXSLOT_def word_less_nat_alt)

lemma slot_destory_ok: "slots_ok g \<Longrightarrow> slots_ok (slot_destory g slotId)"
  by (simp add: slots_ok_def slot_destory_def)

lemma slot_destory_instance:
  "slots_ok g \<Longrightarrow> slot_instance (slot_destory g slotId) k = (if k = slotId then None else slot_instance g k)"
  using slot_less [of slotId] slot_less [of k]
  by (auto simp: slots_ok_def slot_destory_def slot_instance_def nth_list_update word_eq_unat_iff word_le_nat_alt word_less_nat_alt)

lemma slot_store_instance:
  "slots_ok g \<Longrightarrow> slotId < MAXSLOT \<Longrightarrow>
   slot_instance (g[unat slotId := Some a]) k = (if k = slotId then Some a else slot_instance g k)"
  using slot_less [of slotId]
  by (auto simp: slots_ok_def slot_instance_def nth_list_update word_eq_unat_iff word_le_nat_alt word_less_nat_alt)

text \<open>
  \<open>create\<close> puts a fresh allocator of the promoted size into its slot, replacing what was there,
  returns its capacity, and leaves the other slots alone; a slot number of 256 or more is
  refused with 0 and nothing changes.
\<close>

theorem buddy_create_correct:
  assumes g: "slots_ok g" and c: "chunk \<noteq> 0" "unat chunk + 2 ^ 31 \<le> 2 ^ 64"
  shows "\<exists>g' r. buddy_create g sz slotId chunk m = Some (g', r) \<and> slots_ok g' \<and>
    (if slotId < MAXSLOT
     then (\<exists>a. slot_instance g' slotId = Some a \<and> buddy_reachable a \<and> live a = {} \<and> r = buddy_capacity a \<and> r \<noteq> 0) \<and>
       (\<forall>k. k \<noteq> slotId \<longrightarrow> slot_instance g' k = slot_instance g k)
     else g' = g \<and> r = 0)"
proof (cases "slotId < MAXSLOT")
  case False
  then show ?thesis using g by (simp add: buddy_create_def not_less)
next
  case True
  from buddy_ctor_spec [OF c, of sz m] obtain a n where a: "buddy_ctor sz chunk m = Some a" "live a = {}"
    "unat (Capacity a) = 2 ^ (n + 3)" by blast
  let ?g' = "(slot_destory g slotId)[unat slotId := Some a]"
  have cr: "buddy_create g sz slotId chunk m = Some (?g', buddy_capacity a)"
    using a(1) by (simp add: buddy_create_def True [unfolded not_le [symmetric]])
  have "slots_ok ?g'" using slot_destory_ok [OF g, of slotId] by (simp add: slots_ok_def)
  moreover have "slot_instance ?g' k = (if k = slotId then Some a else slot_instance g k)" for k
    by (simp add: slot_store_instance [OF slot_destory_ok [OF g] True] slot_destory_instance [OF g])
  moreover have "buddy_capacity a \<noteq> 0" using a(3) by (auto simp: buddy_capacity_def)
  moreover have "buddy_reachable a" by (rule br_ctor [OF c a(1)])
  ultimately show ?thesis using cr True a(2) by (intro exI [of _ ?g'] exI [of _ "buddy_capacity a"]) simp
qed

theorem buddy_create_correct_witness:
  "\<exists>g r. buddy_create no_instances 64 3 0x1000 (\<lambda>_. 0) = Some (g, r) \<and> slot_instance g 3 \<noteq> None \<and> r \<noteq> 0"
  using buddy_create_correct [of no_instances "0x1000" 64 3 "\<lambda>_. 0"]
  by (auto simp: slots_ok_def no_instances_def MAXSLOT_def)

text \<open>
  A destroyed slot has no instance, the other slots keep theirs, and destroying an empty or an
  impossible slot changes nothing.
\<close>

theorem destory_correct:
  assumes g: "slots_ok g"
  shows "slot_instance (slot_destory g slotId) slotId = None \<and>
    (\<forall>k. k \<noteq> slotId \<longrightarrow> slot_instance (slot_destory g slotId) k = slot_instance g k) \<and>
    (slot_instance g slotId = None \<longrightarrow> slot_destory g slotId = g)"
  using slot_destory_instance [OF g] by (auto simp: slot_destory_def slot_instance_def)

theorem destory_correct_witness:
  "slot_instance (slot_destory (no_instances[7 := Some demo_heap]) 7) 7 = None"
  using destory_correct [of "no_instances[7 := Some demo_heap]" 7] by (simp add: slots_ok_def no_instances_def)

section \<open>The STL-compatible allocator\<close>

datatype stl_error = BadAlloc

text \<open>
  \<open>n * sizeof(value_type)\<close> is computed in size_t (64 bits) and converted to the u32 parameter
  of \<open>alloc\<close> and \<open>dealloc\<close>.
\<close>

definition stl_bytes :: "u32 \<Rightarrow> u64 \<Rightarrow> u32" where
  "stl_bytes n szT = ucast (ucast n * szT)"

definition stl_allocate :: "('s \<Rightarrow> u32 \<Rightarrow> 's \<times> ptr) \<Rightarrow> 's \<Rightarrow> u32 \<Rightarrow> u64 \<Rightarrow> 's \<times> (stl_error + ptr)" where
  "stl_allocate alloc s n szT =
     (let (s', p) = alloc s (stl_bytes n szT) in
      if p = 0 then (s', Inl BadAlloc) else (s', Inr p))"

definition stl_deallocate :: "('s \<Rightarrow> ptr \<Rightarrow> u32 \<Rightarrow> 's) \<Rightarrow> 's \<Rightarrow> ptr \<Rightarrow> u32 \<Rightarrow> u64 \<Rightarrow> 's" where
  "stl_deallocate dealloc s p n szT = dealloc s p (stl_bytes n szT)"

definition stl_max_size :: "('s \<Rightarrow> u32) \<Rightarrow> 's \<Rightarrow> u64 \<Rightarrow> u32" where
  "stl_max_size capacity s szT = ucast (ucast (capacity s) div szT)"

lemma stl_bytes_mod: "unat (stl_bytes n szT) = unat n * unat szT mod 2 ^ 32"
proof -
  have "unat (stl_bytes n szT) = unat (ucast n * szT :: u64) mod 2 ^ 32"
    by (simp add: stl_bytes_def unsigned_ucast_eq take_bit_eq_mod)
  also have "unat (ucast n * szT :: u64) = unat n * unat szT mod 2 ^ 64"
    by (simp add: unat_word_ariths unat_ucast_32_64)
  finally show ?thesis by (simp add: mod_mod_cancel)
qed

lemma stl_bytes_exact:
  assumes "unat n * unat szT < 2 ^ 32"
  shows "unat (stl_bytes n szT) = unat n * unat szT"
proof -
  have "unat (ucast n * szT) = unat n * unat szT"
    using assms unat_mult_lem [of "ucast n :: u64" szT] by (simp add: unat_ucast_32_64)
  then have "ucast n * szT = of_nat (unat n * unat szT)" by (metis of_nat_unat ucast_id)
  then show ?thesis using assms by (simp add: stl_bytes_def ucast_of_nat_32 unat_of_nat32 del: of_nat_mult)
qed

context bulk_allocator
begin

lemma allocate_region:
  assumes s: "ok s" "sane (stl_bytes n szT)" and fit: "unat n * unat szT < 2 ^ 32"
    and r: "stl_allocate alloc s n szT = (s', Inr p)"
  shows "ok s' \<and> p \<noteq> 0 \<and> (\<exists>k. unat n * unat szT \<le> k \<and> (p, k) \<in> regions s' \<and> (\<forall>q\<in>regions s. apart (p, k) q))"
proof -
  have a: "alloc s (stl_bytes n szT) = (s', p)" "p \<noteq> 0"
    using r by (auto simp: stl_allocate_def Let_def split: prod.splits if_splits)
  then show ?thesis
    using alloc_result [OF s] alloc_ok [OF s] by (auto simp: stl_bytes_exact [OF fit])
qed

lemma allocate_bad_alloc:
  assumes s: "ok s" "sane (stl_bytes n szT)" and r: "stl_allocate alloc s n szT = (s', Inl e)"
  shows "regions s' = regions s"
proof -
  have "alloc s (stl_bytes n szT) = (s', 0)"
    using r by (auto simp: stl_allocate_def Let_def split: prod.splits if_splits)
  then show ?thesis using alloc_heap [OF s] by (auto elim: heap_new_cases)
qed

end

text \<open>
  C36: \<open>allocate\<close> over the buddy allocator.  The number of bytes that it asks for is the size of
  the array modulo 2^32.  It throws bad_alloc, and changes nothing, exactly when that number is
  greater than what \<open>available\<close> reports or nothing is available.  Otherwise it returns storage of
  at least that number of bytes as a new block, disjoint from every block in use, whose bytes it
  leaves alone; the storage holds all elements if the array is smaller than 2^32 bytes.
\<close>

theorem stl_allocate_buddy:
  assumes s: "buddy_ok s"
  shows "if buddy_available s = 0 \<or> unat (buddy_available s) < unat n * unat szT mod 2 ^ 32
    then stl_allocate buddy_alloc s n szT = (s, Inl BadAlloc)
    else \<exists>s' p k. stl_allocate buddy_alloc s n szT = (s', Inr p) \<and> buddy_ok s' \<and> p \<noteq> 0 \<and>
      unat n * unat szT mod 2 ^ 32 \<le> k \<and> buddy_regions s' = insert (p, k) (buddy_regions s) \<and>
      (\<forall>q\<in>buddy_regions s. apart (p, k) q \<and> (\<forall>a. in_region q a \<longrightarrow> bmem s' a = bmem s a)) \<and>
      (unat n * unat szT < 2 ^ 32 \<longrightarrow> unat n * unat szT \<le> k)"
proof -
  let ?z = "stl_bytes n szT"
  have f: "alloc_fails s ?z \<longleftrightarrow> buddy_available s = 0 \<or> unat (buddy_available s) < unat n * unat szT mod 2 ^ 32"
    by (simp add: alloc_fails_def word_less_nat_alt stl_bytes_mod)
  show ?thesis
  proof (cases "alloc_fails s ?z")
    case True
    then have "stl_allocate buddy_alloc s n szT = (s, Inl BadAlloc)"
      by (simp add: stl_allocate_def alloc_fail [OF s])
    then show ?thesis using f True by simp
  next
    case False
    obtain s' p where a: "buddy_alloc s ?z = (s', p)" by fastforce
    have p: "p \<noteq> 0"
      using alloc_succeeds [OF s False] baddr_nonnull(1) [OF buddy_okD(2) [OF s]] a by (metis prod.inject)
    have "heap_new (buddy_regions s) (unat ?z) (buddy_regions s') p"
      using bud.alloc_heap [OF s TrueI, of ?z] a by simp
    then obtain k where k: "unat ?z \<le> k" "buddy_regions s' = insert (p, k) (buddy_regions s)"
      "\<forall>q\<in>buddy_regions s. apart (p, k) q" using p by (cases rule: heap_new.cases) auto
    have "buddy_ok s'" using bud.alloc_ok [OF s TrueI, of ?z] a by simp
    moreover have "bmem s' b = bmem s b" if "q \<in> buddy_regions s" "in_region q b" for q b
      using bud.alloc_frame [OF s TrueI that, of ?z] a by simp
    moreover have "stl_allocate buddy_alloc s n szT = (s', Inr p)" using a p by (simp add: stl_allocate_def)
    ultimately show ?thesis using f False p k unfolding stl_bytes_mod
      by (intro if_not_P [THEN iffD2]; simp) (intro exI [of _ k], auto)
  qed
qed

theorem stl_allocate_buddy_witness:
  "stl_allocate buddy_alloc demo_heap 17 4 = (demo_heap, Inl BadAlloc) \<and>
   (\<exists>s' p k. stl_allocate buddy_alloc demo_heap 5 4 = (s', Inr p) \<and> p \<noteq> 0 \<and> 20 \<le> k \<and> buddy_regions s' = {(p, k)})"
proof -
  have "buddy_regions demo_heap = {}" by (simp add: buddy_regions_def demo_heap)
  then show ?thesis
    using stl_allocate_buddy [OF demo_heap(2), of 17 4] stl_allocate_buddy [OF demo_heap(2), of 5 4]
    by (auto simp: demo_heap)
qed

text \<open>
  The same over the linear allocator used as a stack, for requests that do not wrap.
\<close>

theorem stl_allocate_linear:
  assumes s: "lifo_inv x" and sane: "lin_sane (stl_bytes n szT)" and fit: "unat n * unat szT < 2 ^ 32"
    and r: "stl_allocate lifo_alloc x n szT = (x', res)"
  shows "case res of
      Inr p \<Rightarrow> lifo_inv x' \<and> p \<noteq> 0 \<and>
        (\<exists>k. unat n * unat szT \<le> k \<and> (p, k) \<in> linear_regions x' \<and> (\<forall>q\<in>linear_regions x. apart (p, k) q))
    | Inl e \<Rightarrow> linear_regions x' = linear_regions x"
  using lin.allocate_region [OF s sane fit] lin.allocate_bad_alloc [OF s sane] r
  by (cases res) auto

theorem stl_allocate_linear_witness:
  "case snd (stl_allocate lifo_alloc (demo_linear, []) 5 4) of Inr p \<Rightarrow> p \<noteq> 0 | Inl e \<Rightarrow> True"
proof -
  obtain x' res where r: "stl_allocate lifo_alloc (demo_linear, []) 5 4 = (x', res)" by fastforce
  have "unat (stl_bytes 5 4) = 20" by (simp add: stl_bytes_exact)
  then have "lin_sane (stl_bytes 5 4)" by (simp add: lin_sane_def)
  from stl_allocate_linear [OF demo_linear(1) this _ r] show ?thesis by (simp add: r split: sum.splits)
qed

text \<open>
  A larger array is not refused: a request for 2^30 + 1 elements of 4 bytes over the buddy
  allocator is served with a block of 16 bytes.
\<close>

theorem stl_allocate_wraps:
  assumes ok: "buddy_ok s" and av: "16 \<le> unat (buddy_available s)"
  shows "\<exists>s' x. stl_allocate buddy_alloc s 0x40000001 4 = (s', Inr (baddr s x)) \<and>
    live s' = insert x (live s) \<and> bsz (tiers s) (fst x) = 16"
proof -
  have b: "stl_bytes 0x40000001 4 = 4" by (simp add: stl_bytes_def unsigned_ucast_eq)
  have nf: "\<not> alloc_fails s 4" using av by (auto simp: alloc_fails_def word_less_nat_alt)
  from alloc_succeeds [OF ok nf] obtain s' t c where a: "buddy_alloc s 4 = (s', baddr s (t, c))"
    "best_tier s 4 t" "is_block (tiers s) (t, c)" "live s' = insert (t, c) (live s)" by metis
  have "baddr s (t, c) \<noteq> 0" using baddr_nonnull(1) [OF buddy_okD(2) [OF ok] a(3)] .
  then have "stl_allocate buddy_alloc s 0x40000001 4 = (s', Inr (baddr s (t, c)))"
    by (simp add: stl_allocate_def b a(1))
  moreover have "\<not> (t < tiers s - 1 \<and> tiers s - 1 < tiers s \<and> 4 \<le> bsz (tiers s) (tiers s - 1))"
    using a(2) by (auto simp: best_tier_def)
  then have "tiers s + 3 - t = 4" using a(2) by (auto simp: best_tier_def bsz_def)
  then have "bsz (tiers s) t = 16" by (simp add: bsz_def)
  ultimately show ?thesis using a(4) by (intro exI [of _ s'] exI [of _ "(t, c)"]) simp
qed

theorem stl_allocate_wraps_witness:
  "\<exists>s' p. stl_allocate buddy_alloc demo_heap 0x40000001 4 = (s', Inr p)"
  using stl_allocate_wraps [OF demo_heap(2)] by (auto simp: demo_heap)

end
