(* ===== verification/Base64.thy ===== *)
theory Base64
  imports Prelude
begin

text \<open>
  src/base64.cpp: Base64::encode and Base64::decode with the table \<open>chtab\<close> and the index function
  \<open>idxofch\<close>.  A char is a byte; a null pointer argument is None.  The output buffer is the
  caller's array, of any length: an update past its end is lost here and is a memory error in the
  code, so the theorems ask for the room the code asks for and show that no more is touched.  The
  signed lengths are mathematical integers; the code's are exact up to 1610612733 bytes of input.
\<close>

section \<open>The program\<close>

definition ascii :: "string \<Rightarrow> u8 list" where
  "ascii s = map of_char s"

definition PAD :: u8 where
  "PAD = 61"

definition chtab :: "u8 list" where
  "chtab = ascii ''ABCDEFGHIJKLMNOPQRSTUVWXYZabcdefghijklmnopqrstuvwxyz0123456789+/''"

text \<open>The int result -1 is the word with all bits set.\<close>

definition idxofch :: "u8 \<Rightarrow> u32" where
  "idxofch ch =
     (if 65 \<le> ch \<and> ch \<le> 90 then ucast (ch - 65)
      else if 97 \<le> ch \<and> ch \<le> 122 then ucast (ch - 97) + 26
      else if 48 \<le> ch \<and> ch \<le> 57 then ucast (ch - 48) + 52
      else if ch = 43 then 62
      else if ch = 47 then 63
      else if ch = PAD then 0
      else - 1)"

text \<open>The loop of \<open>encode\<close>.\<close>

function enc_loop :: "u8 list \<Rightarrow> nat \<Rightarrow> nat \<Rightarrow> nat \<Rightarrow> nat \<Rightarrow> u8 \<Rightarrow> u8 list \<Rightarrow> u8 list" where
  "enc_loop inp inputlen enclen outidx inidx temp out =
     (if outidx < enclen
      then let ch = inp ! inidx; md = inidx mod 3;
               (outidx1, temp1, out1) =
                 (if md = 0
                  then (outidx + 1, push_bit 4 (ch AND 0x03),
                        out[outidx := chtab ! unat (drop_bit 2 ch AND 0x3f)])
                  else if md = 1
                  then (outidx + 1, push_bit 2 (ch AND 0x0f),
                        out[outidx := chtab ! unat ((drop_bit 4 ch AND 0x0f) OR temp)])
                  else (outidx + 2, temp,
                        out[outidx := chtab ! unat ((drop_bit 6 ch AND 0x03) OR temp),
                            outidx + 1 := chtab ! unat (ch AND 0x3f)]));
               inidx1 = inidx + 1
           in if inputlen \<le> inidx1 \<and> md \<noteq> 2
              then let out2 = out1[outidx1 := chtab ! unat temp1, outidx1 + 1 := PAD]
                in if md = 0
                   then enc_loop inp inputlen enclen (outidx1 + 3) inidx1 temp1 (out2[outidx1 + 2 := PAD])
                   else enc_loop inp inputlen enclen (outidx1 + 2) inidx1 temp1 out2
              else enc_loop inp inputlen enclen outidx1 inidx1 temp1 out1
      else out)"
  by pat_completeness auto
termination
  by (relation "measure (\<lambda>(inp, inputlen, enclen, outidx, inidx, temp, out). enclen - outidx)")
    (auto split: if_splits)

declare enc_loop.simps [simp del]

definition b64_encode ::
  "u8 list \<Rightarrow> int \<Rightarrow> u8 list option \<Rightarrow> int option \<Rightarrow> int \<times> u8 list option \<times> int option" where
  "b64_encode inp inputlen output outputlen =
     (if inputlen < 0 then (- 1, output, outputlen)
      else let enclen = (inputlen + 2) div 3 * 4 in
        case (output, outputlen) of
          (Some out, Some outlen) \<Rightarrow>
            if outlen < enclen then (- 1, output, Some enclen)
            else (enclen, Some (enc_loop inp (nat inputlen) (nat enclen) 0 0 0 out), outputlen)
        | _ \<Rightarrow> (enclen, output, map_option (\<lambda>_. enclen) outputlen))"

text \<open>The loop of \<open>decode\<close>; the result is the return value and the buffer.\<close>

function dec_loop :: "u8 list \<Rightarrow> nat \<Rightarrow> nat \<Rightarrow> nat \<Rightarrow> u8 list \<Rightarrow> int \<times> u8 list" where
  "dec_loop inp inputlen inidx outidx out =
     (if inidx < inputlen
      then let ch1 = idxofch (inp ! inidx); ch2 = idxofch (inp ! (inidx + 1));
               ch3 = idxofch (inp ! (inidx + 2)); ch4 = idxofch (inp ! (inidx + 3))
           in if ch1 = - 1 \<or> ch2 = - 1 \<or> ch3 = - 1 \<or> ch4 = - 1 \<or> inp ! inidx = PAD \<or> inp ! (inidx + 1) = PAD
              then (- 1, out)
              else let out1 = out[outidx := ucast (push_bit 2 ch1 OR (drop_bit 4 ch2 AND 0x03))] in
                if inp ! (inidx + 2) = PAD then (int (outidx + 1), out1)
                else let out2 = out1[outidx + 1 := ucast (push_bit 4 (ch2 AND 0x0f) OR (drop_bit 2 ch3 AND 0x0f))] in
                  if inp ! (inidx + 3) = PAD then (int (outidx + 2), out2)
                  else let out3 = out2[outidx + 2 := ucast (push_bit 6 (ch3 AND 0x03) OR ch4)] in
                    dec_loop inp inputlen (inidx + 4) (outidx + 3) out3
      else (int outidx, out))"
  by pat_completeness auto
termination
  by (relation "measure (\<lambda>(inp, inputlen, inidx, outidx, out). inputlen - inidx)") auto

declare dec_loop.simps [simp del]

definition dec_len :: "u8 list \<Rightarrow> int \<Rightarrow> int" where
  "dec_len inp inputlen =
     (let declen = inputlen div 4 * 3 in
      if inputlen \<ge> 4
      then declen - (if inp ! nat (inputlen - 1) = PAD then 1 else 0)
             - (if inp ! nat (inputlen - 2) = PAD then 1 else 0)
      else declen)"

definition b64_decode ::
  "u8 list \<Rightarrow> int \<Rightarrow> u8 list option \<Rightarrow> int option \<Rightarrow> int \<times> u8 list option \<times> int option" where
  "b64_decode inp inputlen output outputlen =
     (if inputlen < 0 \<or> inputlen mod 4 \<noteq> 0 then (- 1, output, outputlen)
      else let declen = dec_len inp inputlen in
        case (output, outputlen) of
          (Some out, Some outlen) \<Rightarrow>
            if outlen < declen then (- 1, output, Some declen)
            else let (r, out') = dec_loop inp (nat inputlen) 0 0 out in (r, Some out', outputlen)
        | _ \<Rightarrow> (declen, output, map_option (\<lambda>_. declen) outputlen))"

section \<open>The encoding of RFC 4648\<close>

text \<open>
  Three bytes make a group of 24 bits, read as four digits of six bits.  The alphabet and the
  padding character are those of table 1 of the RFC, by their ASCII codes, independent of the
  table of the program.
\<close>

definition group24 :: "u8 \<Rightarrow> u8 \<Rightarrow> u8 \<Rightarrow> u32" where
  "group24 a b c = push_bit 16 (ucast a) OR push_bit 8 (ucast b) OR ucast c"

definition rfc_digit :: "nat \<Rightarrow> u8" where
  "rfc_digit v = (if v < 26 then of_nat (0x41 + v) else if v < 52 then of_nat (0x61 + (v - 26))
     else if v < 62 then of_nat (0x30 + (v - 52)) else if v = 62 then 0x2B else 0x2F)"

definition digit :: "u32 \<Rightarrow> nat \<Rightarrow> u8" where
  "digit g i = rfc_digit (unat (take_bit 6 (drop_bit (18 - 6 * i) g)))"

fun b64_spec :: "u8 list \<Rightarrow> u8 list" where
  "b64_spec [] = []"
| "b64_spec [a] = (let g = group24 a 0 0 in [digit g 0, digit g 1, 0x3D, 0x3D])"
| "b64_spec [a, b] = (let g = group24 a b 0 in [digit g 0, digit g 1, digit g 2, 0x3D])"
| "b64_spec (a # b # c # r) =
     (let g = group24 a b c in [digit g 0, digit g 1, digit g 2, digit g 3] @ b64_spec r)"

declare b64_spec.simps [simp del]

lemma b64_spec_simps [simp]:
  "b64_spec [] = []"
  "b64_spec [a] = (let g = group24 a 0 0 in [digit g 0, digit g 1, PAD, PAD])"
  "b64_spec [a, b] = (let g = group24 a b 0 in [digit g 0, digit g 1, digit g 2, PAD])"
  "b64_spec (a # b # c # r) =
     (let g = group24 a b c in [digit g 0, digit g 1, digit g 2, digit g 3] @ b64_spec r)"
  by (simp_all add: b64_spec.simps PAD_def)

text \<open>The table of the program is the alphabet.\<close>

lemma chtab_digits: "chtab = map rfc_digit [0..<64]"
  by (simp add: chtab_def ascii_def rfc_digit_def upt_rec)

lemma chtab_nth: "n < 64 \<Longrightarrow> chtab ! n = rfc_digit n"
  by (simp add: chtab_digits)

lemma take6_less: "unat (take_bit 6 (w :: u32)) < 64"
  using unsigned_take_bit_eq [of 6 w, where 'a = nat] by (simp add: take_bit_eq_mod)

lemma digit_chtab: "digit g i = chtab ! unat (take_bit 6 (drop_bit (18 - 6 * i) g))"
  by (simp add: digit_def chtab_nth take6_less)

lemma length_b64_spec: "length (b64_spec xs) = (length xs + 2) div 3 * 4"
proof (induction xs rule: b64_spec.induct)
  case (4 a b c r)
  have "(length (a # b # c # r) + 2) div 3 = (length r + 2) div 3 + 1" by (simp add: div_add_self2)
  with 4 show ?case by (simp add: Let_def)
qed (simp_all add: Let_def)

subsection \<open>The digits computed by the loop\<close>

lemma bit_small_masks:
  "bit (0x03 :: 'a::len word) j \<longleftrightarrow> j < 2 \<and> j < LENGTH('a)" "bit (0x0f :: 'a::len word) j \<longleftrightarrow> j < 4 \<and> j < LENGTH('a)"
  "bit (0x3f :: 'a::len word) j \<longleftrightarrow> j < 6 \<and> j < LENGTH('a)"
proof -
  have m: "(0x03 :: 'a word) = mask 2" "(0x0f :: 'a word) = mask 4" "(0x3f :: 'a word) = mask 6"
    by (simp_all add: mask_eq_exp_minus_1)
  show "bit (0x03 :: 'a::len word) j \<longleftrightarrow> j < 2 \<and> j < LENGTH('a)" "bit (0x0f :: 'a::len word) j \<longleftrightarrow> j < 4 \<and> j < LENGTH('a)"
    "bit (0x3f :: 'a::len word) j \<longleftrightarrow> j < 6 \<and> j < LENGTH('a)"
    unfolding m by (auto simp: bit_mask_iff)
qed

lemmas bit_ops = bit_and_iff bit_or_iff bit_push_bit_iff bit_drop_bit_eq bit_take_bit_iff bit_ucast_iff
  bit_small_masks

lemma u8_digit_eq:
  assumes "\<And>j. j < 6 \<Longrightarrow> bit w j \<longleftrightarrow> bit g (k + j)" "\<And>j. 6 \<le> j \<Longrightarrow> \<not> bit (w :: u8) j"
  shows "unat w = unat (take_bit 6 (drop_bit k (g :: u32)))"
proof -
  have "ucast w = take_bit 6 (drop_bit k g)"
  proof (rule bit_word_eqI)
    fix j assume "j < LENGTH(32)"
    then show "bit (ucast w :: u32) j \<longleftrightarrow> bit (take_bit 6 (drop_bit k g)) j"
      using assms(1) [of j] assms(2) [of j] bit_u8_lt [of w j]
      by (cases "j < 6") (auto simp: bit_ops ac_simps)
  qed
  moreover have "unat (ucast w :: u32) = unat w"
    by (simp add: unsigned_ucast_eq take_bit_nat_eq_self_iff less_le_trans [OF unsigned_less])
  ultimately show ?thesis by simp
qed

lemma enc_digits:
  "chtab ! unat (drop_bit 2 a AND 0x3f) = digit (group24 a b c) 0"
  "chtab ! unat ((drop_bit 4 b AND 0x0f) OR push_bit 4 (a AND 0x03)) = digit (group24 a b c) 1"
  "chtab ! unat ((drop_bit 6 c AND 0x03) OR push_bit 2 (b AND 0x0f)) = digit (group24 a b c) 2"
  "chtab ! unat (c AND 0x3f) = digit (group24 a b c) 3"
  "chtab ! unat (push_bit 4 (a AND 0x03)) = digit (group24 a 0 c) 1"
  "chtab ! unat (push_bit 2 (b AND 0x0f)) = digit (group24 a b 0) 2"
  unfolding digit_chtab group24_def
  by (rule arg_cong [where f = "(!) chtab"]; rule u8_digit_eq; simp only: bit_ops bit_0_eq bot_apply bot_bool_def;
      auto dest: bit_u8_lt)+

section \<open>The loop computes the encoding\<close>

lemma four_cells: "4 \<le> length Q \<Longrightarrow> \<exists>q0 q1 q2 q3 Q'. Q = q0 # q1 # q2 # q3 # Q'"
  by (auto simp: numeral_eq_Suc Suc_le_length_iff)

lemma drop_nth: "drop i inp = xs \<Longrightarrow> k < length xs \<Longrightarrow> inp ! (i + k) = xs ! k"
  by (metis drop_eq_Nil2 less_nat_zero_code linorder_le_cases list.size(3) nth_drop)

lemma drop_length: "drop i inp = xs \<Longrightarrow> xs \<noteq> [] \<Longrightarrow> length inp = i + length xs"
  by (metis drop_eq_Nil2 le_add_diff_inverse length_drop linorder_le_cases)

lemma enc_loop_spec:
  assumes "drop (3 * k) inp = xs" "length P = 4 * k" "length (b64_spec xs) \<le> length Q"
    "enclen = length P + length (b64_spec xs)"
  shows "enc_loop inp (length inp) enclen (length P) (3 * k) temp (P @ Q) =
     P @ b64_spec xs @ drop (length (b64_spec xs)) Q"
  using assms
proof (induction xs arbitrary: k P Q temp rule: b64_spec.induct)
  case 1
  then show ?case by (simp add: enc_loop.simps)
next
  case (2 a)
  obtain q0 q1 q2 q3 Q' where Q: "Q = q0 # q1 # q2 # q3 # Q'" using four_cells [of Q] 2(3) by (auto simp: Let_def)
  have n: "length inp = 3 * k + 1" "inp ! (3 * k) = a"
    using drop_length [OF 2(1)] drop_nth [OF 2(1), of 0] by simp_all
  have e: "enclen = length P + 4" using 2(4) by (simp add: Let_def)
  have s1: "enc_loop inp (length inp) enclen (length P) (3 * k) temp (P @ Q) =
    P @ b64_spec [a] @ Q'"
    by (subst enc_loop.simps)
      (simp add: Let_def e n Q list_update_append enc_digits(1) [of _ 0 0] enc_digits(5) [of _ 0] enc_loop.simps
        del: push_bit_and)
  then show ?case by (simp add: Q Let_def)
next
  case (3 a b)
  obtain q0 q1 q2 q3 Q' where Q: "Q = q0 # q1 # q2 # q3 # Q'" using four_cells [of Q] 3(3) by (auto simp: Let_def)
  have n: "length inp = 3 * k + 2" "inp ! (3 * k) = a" "inp ! Suc (3 * k) = b"
    using drop_length [OF 3(1)] drop_nth [OF 3(1), of 0] drop_nth [OF 3(1), of 1] by simp_all
  have e: "enclen = length P + 4" using 3(4) by (simp add: Let_def)
  have s1: "enc_loop inp (length inp) enclen (length P) (3 * k) temp (P @ Q) =
      enc_loop inp (length inp) enclen (length P + 1) (3 * k + 1) (push_bit 4 (a AND 0x03))
        (P @ digit (group24 a b 0) 0 # q1 # q2 # q3 # Q')"
    by (subst enc_loop.simps) (simp add: Let_def e n Q list_update_append enc_digits(1) [of _ b 0] del: push_bit_and)
  have s2: "\<dots> = P @ b64_spec [a, b] @ Q'"
    by (subst enc_loop.simps)
      (simp add: Let_def e n list_update_append enc_digits(2) [of _ _ 0] enc_digits(6) [of _ a] enc_loop.simps
        del: push_bit_and)
  show ?case unfolding s1 s2 by (simp add: Q Let_def)
next
  case (4 a b c r)
  obtain q0 q1 q2 q3 Q' where Q: "Q = q0 # q1 # q2 # q3 # Q'" using four_cells [of Q] 4(4) by (auto simp: Let_def)
  have n: "length inp = 3 * k + 3 + length r" "inp ! (3 * k) = a" "inp ! Suc (3 * k) = b" "inp ! Suc (Suc (3 * k)) = c"
    using drop_length [OF 4(2)] drop_nth [OF 4(2), of 0] drop_nth [OF 4(2), of 1] drop_nth [OF 4(2), of 2] by simp_all
  have e: "enclen = length P + 4 + length (b64_spec r)" using 4(5) by (simp add: Let_def)
  have m2: "Suc (Suc (3 * k)) mod 3 = 2" by presburger
  let ?g = "group24 a b c"
  have s1: "enc_loop inp (length inp) enclen (length P) (3 * k) temp (P @ Q) =
      enc_loop inp (length inp) enclen (length P + 1) (3 * k + 1) (push_bit 4 (a AND 0x03))
        (P @ digit ?g 0 # q1 # q2 # q3 # Q')"
    by (subst enc_loop.simps) (simp add: Let_def e n Q list_update_append enc_digits(1) [of _ b c] del: push_bit_and)
  have s2: "\<dots> = enc_loop inp (length inp) enclen (length P + 2) (3 * k + 2) (push_bit 2 (b AND 0x0f))
        (P @ digit ?g 0 # digit ?g 1 # q2 # q3 # Q')"
    by (subst enc_loop.simps) (simp add: Let_def e n list_update_append enc_digits(2) [of _ _ c] del: push_bit_and)
  have s3: "\<dots> = enc_loop inp (length inp) enclen (Suc (Suc (Suc (Suc (length P))))) (Suc (Suc (Suc (3 * k)))) (push_bit 2 (b AND 0x0f))
        (P @ digit ?g 0 # digit ?g 1 # digit ?g 2 # digit ?g 3 # Q')"
    by (subst enc_loop.simps)
      (simp add: Let_def e n m2 list_update_append enc_digits(3) [of _ _ a] enc_digits(4) [of _ a b] del: push_bit_and)
  let ?P = "P @ [digit ?g 0, digit ?g 1, digit ?g 2, digit ?g 3]"
  have d: "drop (3 * Suc k) inp = r"
  proof -
    have "drop (3 + 3 * k) inp = drop 3 (drop (3 * k) inp)" by simp
    then show ?thesis unfolding 4(2) by simp
  qed
  have ih: "enc_loop inp (length inp) enclen (length ?P) (3 * Suc k) (push_bit 2 (b AND 0x0f)) (?P @ Q') =
      ?P @ b64_spec r @ drop (length (b64_spec r)) Q'"
    using 4(3,4) e by (intro 4(1) d) (simp_all add: Q Let_def)
  have c: "Suc (Suc (Suc (Suc (length P)))) = length ?P" "Suc (Suc (Suc (3 * k))) = 3 * Suc k"
    "P @ digit ?g 0 # digit ?g 1 # digit ?g 2 # digit ?g 3 # Q' = ?P @ Q'" by simp_all
  show ?case unfolding s1 s2 s3 c ih by (simp add: Q Let_def)
qed

section \<open>Decoding what was encoded\<close>

lemma chtab_index: "i < 64 \<Longrightarrow> idxofch (chtab ! i) = of_nat i \<and> chtab ! i \<noteq> PAD"
proof -
  have tab: "map idxofch chtab = map of_nat [0..<64]"
    by (simp add: chtab_def ascii_def idxofch_def PAD_def upt_rec)
  have len: "length chtab = 64" by (simp add: chtab_def ascii_def)
  have "PAD \<notin> set chtab" by (simp add: chtab_def ascii_def PAD_def)
  moreover assume i: "i < 64"
  ultimately have "chtab ! i \<noteq> PAD" using len by (metis nth_mem)
  moreover have "idxofch (chtab ! i) = of_nat i"
    using arg_cong [OF tab, of "\<lambda>xs. xs ! i"] i len by simp
  ultimately show ?thesis by simp
qed

lemma take6_valid: "take_bit 6 (w :: u32) \<noteq> - 1"
proof -
  have "unat (- 1 :: u32) = 2 ^ 32 - 1" by (simp add: unsigned_minus_1_eq_mask mask_eq_exp_minus_1)
  with take6_less [of w] show ?thesis by auto
qed

lemma idx_digit:
  "idxofch (digit g i) = take_bit 6 (drop_bit (18 - 6 * i) g)" "digit g i \<noteq> PAD"
  using chtab_index [OF take6_less, of "drop_bit (18 - 6 * i) g"] by (simp_all add: digit_chtab)

lemma idx_PAD: "idxofch PAD \<noteq> - 1"
  by (simp add: idxofch_def PAD_def)

lemma u8_eqI: "(\<forall>n\<in>{0, 1, 2, 3, 4, 5, 6, 7}. bit v n = bit w n) \<Longrightarrow> (v :: u8) = w"
proof (rule bit_word_eqI)
  fix n assume a: "\<forall>n\<in>{0, 1, 2, 3, 4, 5, 6, 7}. bit v n = bit w n" and "n < LENGTH(8)"
  then have "n < 8" by simp
  then have "n = 0 \<or> n = 1 \<or> n = 2 \<or> n = 3 \<or> n = 4 \<or> n = 5 \<or> n = 6 \<or> n = 7" by linarith
  with a show "bit v n = bit w n" by blast
qed

lemma dec_bytes:
  fixes a b c :: u8
  defines "ch i \<equiv> take_bit 6 (drop_bit (18 - 6 * i) (group24 a b c))"
  shows "ucast (push_bit 2 (ch 0) OR (drop_bit 4 (ch 1) AND 0x03)) = a"
    "ucast (push_bit 4 (ch 1 AND 0x0f) OR (drop_bit 2 (ch 2) AND 0x0f)) = b"
    "ucast (push_bit 6 (ch 2 AND 0x03) OR ch 3) = c"
  unfolding ch_def group24_def
  by (rule u8_eqI; simp only: bit_ops comp_apply ball_simps; auto simp: numeral_2_eq_2 dest: bit_u8_lt)+

lemma dec_loop_spec:
  assumes "drop (4 * k) inp = b64_spec xs" "length P = 3 * k" "length xs \<le> length Q" "4 * k \<le> length inp"
  shows "dec_loop inp (length inp) (4 * k) (length P) (P @ Q) =
     (int (length P + length xs), P @ xs @ drop (length xs) Q)"
  using assms
proof (induction xs arbitrary: k P Q rule: b64_spec.induct)
  case 1
  then show ?case by (subst dec_loop.simps) simp
next
  case (2 a)
  obtain q Q' where Q: "Q = q # Q'" using 2(3) by (cases Q) auto
  let ?g = "group24 a 0 0"
  have d: "drop (4 * k) inp = [digit ?g 0, digit ?g 1, PAD, PAD]" using 2(1) by (simp add: Let_def)
  have n: "length inp = 4 * k + 4" "inp ! (4 * k) = digit ?g 0" "inp ! Suc (4 * k) = digit ?g 1"
    "inp ! Suc (Suc (4 * k)) = PAD" "inp ! (4 * k + 3) = PAD"
    using drop_length [OF d] drop_nth [OF d, of 0] drop_nth [OF d, of 1] drop_nth [OF d, of 2] drop_nth [OF d, of 3]
    by (simp_all add: numeral_eq_Suc)
  show ?case
    by (subst dec_loop.simps)
      (simp add: Let_def n idx_PAD take6_valid idx_digit Q list_update_append dec_bytes(1) [of a 0 0, simplified])
next
  case (3 a b)
  obtain q0 q1 Q' where Q: "Q = q0 # q1 # Q'" using 3(3) by (auto simp: Suc_le_length_iff)
  let ?g = "group24 a b 0"
  have d: "drop (4 * k) inp = [digit ?g 0, digit ?g 1, digit ?g 2, PAD]" using 3(1) by (simp add: Let_def)
  have n: "length inp = 4 * k + 4" "inp ! (4 * k) = digit ?g 0" "inp ! Suc (4 * k) = digit ?g 1"
    "inp ! Suc (Suc (4 * k)) = digit ?g 2" "inp ! (4 * k + 3) = PAD"
    using drop_length [OF d] drop_nth [OF d, of 0] drop_nth [OF d, of 1] drop_nth [OF d, of 2] drop_nth [OF d, of 3]
    by (simp_all add: numeral_eq_Suc)
  show ?case
    by (subst dec_loop.simps)
      (simp add: Let_def n idx_PAD take6_valid idx_digit Q list_update_append
        dec_bytes(1,2) [of a b 0, simplified])
next
  case (4 a b c r)
  obtain q0 q1 q2 Q' where Q: "Q = q0 # q1 # q2 # Q'" using 4(4) by (auto simp: Suc_le_length_iff)
  let ?g = "group24 a b c"
  have d: "drop (4 * k) inp = digit ?g 0 # digit ?g 1 # digit ?g 2 # digit ?g 3 # b64_spec r"
    using 4(2) by (simp add: Let_def)
  have n: "length inp = 4 * k + 4 + length (b64_spec r)" "inp ! (4 * k) = digit ?g 0" "inp ! Suc (4 * k) = digit ?g 1"
    "inp ! Suc (Suc (4 * k)) = digit ?g 2" "inp ! (4 * k + 3) = digit ?g 3"
    using drop_length [OF d] drop_nth [OF d, of 0] drop_nth [OF d, of 1] drop_nth [OF d, of 2] drop_nth [OF d, of 3]
    by (simp_all add: numeral_eq_Suc)
  let ?P = "P @ [a, b, c]"
  have "drop (4 + 4 * k) inp = drop 4 (drop (4 * k) inp)" by simp
  then have d': "drop (4 * Suc k) inp = b64_spec r" unfolding d by simp
  have ih: "dec_loop inp (length inp) (4 * Suc k) (length ?P) (?P @ Q') =
      (int (length ?P + length r), ?P @ r @ drop (length r) Q')"
    using 4(3,4) n(1) by (intro 4(1) d') (simp_all add: Q)
  have s: "dec_loop inp (length inp) (4 * k) (length P) (P @ Q) =
      dec_loop inp (length inp) (4 * k + 4) (length P + 3) (P @ a # b # c # Q')"
    by (subst dec_loop.simps)
      (simp add: Let_def n take6_valid idx_digit Q list_update_append
        dec_bytes [of a b c, simplified])
  have c: "4 * k + 4 = 4 * Suc k" "length P + 3 = length ?P" "P @ a # b # c # Q' = ?P @ Q'" by simp_all
  show ?case unfolding s unfolding c ih by (simp add: Q)
qed

section \<open>Any input\<close>

text \<open>
  The buffer beyond \<open>dec_len\<close> is never written and the result never exceeds it: the padding
  characters that shorten \<open>dec_len\<close> also stop the loop before it gets there.
\<close>

lemma dec_loop_bounds:
  assumes "length inp = 4 * N" "0 < N" "k \<le> N"
    and D: "D + (if inp ! (4 * N - 1) = PAD then 1 else 0) + (if inp ! (4 * N - 2) = PAD then 1 else 0) = 3 * N"
    and "dec_loop inp (4 * N) (4 * k) (3 * k) out = (r, out')"
  shows "(r = - 1 \<or> 0 \<le> r \<and> r \<le> (if k < N then int D else int (3 * k))) \<and> drop D out' = drop D out \<and>
    length out' = length out"
  using assms(3,5)
proof (induction "N - k" arbitrary: k out)
  case 0
  then show ?case by (subst (asm) dec_loop.simps) auto
next
  case (Suc j)
  then have kN: "4 * k < 4 * N" "k < N" by simp_all
  have D2: "3 * N \<le> D + 2" using D by (simp split: if_splits)
  have w1: "3 * k < D" using D2 kN by simp
  have w2: "3 * k + 1 < D" if "inp ! (4 * k + 2) \<noteq> PAD"
  proof (cases "Suc k = N")
    case True
    then have "4 * N - 2 = 4 * k + 2" by auto
    with D that have "3 * N \<le> D + 1" by (simp split: if_splits)
    with True show ?thesis by auto
  qed (use D2 kN in auto)
  have w3: "3 * k + 2 < D" if "inp ! (4 * k + 2) \<noteq> PAD" "inp ! (4 * k + 3) \<noteq> PAD"
  proof (cases "Suc k = N")
    case True
    then have "4 * N - 2 = 4 * k + 2" "4 * N - 1 = 4 * k + 3" by auto
    with D that have "3 * N = D" by simp
    with True show ?thesis by auto
  qed (use D2 kN in auto)
  let ?ch = "\<lambda>i. idxofch (inp ! (4 * k + i))"
  let ?o1 = "out[3 * k := ucast (push_bit 2 (idxofch (inp ! (4 * k))) OR (drop_bit 4 (?ch 1) AND 0x03))]"
  let ?o2 = "?o1[3 * k + 1 := ucast (push_bit 4 (?ch 1 AND 0x0f) OR (drop_bit 2 (?ch 2) AND 0x0f))]"
  let ?o3 = "?o2[3 * k + 2 := ucast (push_bit 6 (?ch 2 AND 0x03) OR ?ch 3)]"
  note U = Suc.prems(2) [unfolded dec_loop.simps [of inp "4 * N" "4 * k"] Let_def, unfolded kN(1) if_P [OF TrueI]]
  consider "r = - 1" "out' = out" | "inp ! (4 * k + 2) = PAD" "r = int (3 * k + 1)" "out' = ?o1"
    | "inp ! (4 * k + 2) \<noteq> PAD" "r = int (3 * k + 2)" "out' = ?o2"
    | "inp ! (4 * k + 2) \<noteq> PAD" "inp ! (4 * k + 3) \<noteq> PAD"
      "dec_loop inp (4 * N) (4 * k + 4) (3 * k + 3) ?o3 = (r, out')"
    using U kN by (auto split: if_splits)
  then show ?case
  proof cases
    case 4
    have e: "4 * k + 4 = 4 * Suc k" "3 * k + 3 = 3 * Suc k" by simp_all
    have "(r = - 1 \<or> 0 \<le> r \<and> r \<le> (if Suc k < N then int D else int (3 * Suc k))) \<and> drop D out' = drop D ?o3 \<and>
        length out' = length ?o3"
      using Suc.hyps(2) kN by (intro Suc.hyps(1) 4(3) [unfolded e]) simp_all
    then show ?thesis using w1 w2 [OF 4(1)] w3 [OF 4(1,2)] kN D2 by (auto split: if_splits)
  qed (use w1 w2 kN in auto)
qed

text \<open>The padding of an encoding tells the length of what was encoded.\<close>

lemma digit_not_PAD [simp]: "digit g i \<noteq> PAD" "PAD \<noteq> digit g i"
  using idx_digit(2) [of g i] by auto

lemma b64_spec_tail:
  "xs \<noteq> [] \<Longrightarrow> 4 \<le> length (b64_spec xs) \<and> (last (b64_spec xs) = PAD \<longleftrightarrow> length xs mod 3 \<noteq> 0) \<and>
     (last (butlast (b64_spec xs)) = PAD \<longleftrightarrow> length xs mod 3 = 1)"
proof (induction xs rule: b64_spec.induct)
  case (4 a b c r)
  have m: "length (a # b # c # r) mod 3 = length r mod 3" by (simp add: mod_add_self2)
  show ?case
  proof (cases "r = []")
    case True
    then show ?thesis by (simp add: Let_def)
  next
    case False
    then have "4 \<le> length (b64_spec r)" using 4 by simp
    then have "b64_spec r \<noteq> []" "butlast (b64_spec r) \<noteq> []" by (auto simp: butlast_conv_take)
    then show ?thesis using 4 False unfolding m by (simp add: Let_def butlast_append)
  qed
qed (simp_all add: Let_def)

lemma last_two: "2 \<le> length e \<Longrightarrow> e ! (length e - 1) = last e \<and> e ! (length e - 2) = last (butlast e)"
proof -
  assume l: "2 \<le> length e"
  then have "butlast e \<noteq> []" "e \<noteq> []" by (auto simp: butlast_conv_take)
  with l show ?thesis by (simp add: last_conv_nth nth_butlast numeral_2_eq_2)
qed

lemma dec_len_spec: "dec_len (b64_spec xs) (int (length (b64_spec xs))) = int (length xs)"
proof (cases "xs = []")
  case True
  then show ?thesis by (simp add: dec_len_def)
next
  case False
  let ?e = "b64_spec xs"
  note T = b64_spec_tail [OF False]
  have i: "nat (int (length ?e) - 1) = length ?e - 1" "nat (int (length ?e) - 2) = length ?e - 2" using T by auto
  have p: "?e ! (length ?e - 1) = PAD \<longleftrightarrow> length xs mod 3 \<noteq> 0" "?e ! (length ?e - 2) = PAD \<longleftrightarrow> length xs mod 3 = 1"
    using last_two [of ?e] T by simp_all
  have q: "int (length ?e) div 4 * 3 = int ((length xs + 2) div 3 * 3)" by (simp add: length_b64_spec)
  have "length xs mod 3 = 0 \<or> length xs mod 3 = 1 \<or> length xs mod 3 = 2" by linarith
  then have "(length xs + 2) div 3 * 3 = length xs + (if length xs mod 3 \<noteq> 0 then 1 else 0) + (if length xs mod 3 = 1 then 1 else 0)"
    by (elim disjE) (simp_all; presburger)+
  then show ?thesis using T unfolding dec_len_def i p q Let_def by simp
qed

text \<open>
  Errors and queries: a length that is negative (or for \<open>decode\<close> no multiple of four) and a
  buffer that is too small give -1, the latter with the required length stored; without a
  buffer both functions only report the required length.
\<close>

lemma base64_errors:
  "inputlen < 0 \<Longrightarrow> b64_encode inp inputlen output outputlen = (- 1, output, outputlen)"
  "inputlen < 0 \<or> inputlen mod 4 \<noteq> 0 \<Longrightarrow> b64_decode inp inputlen output outputlen = (- 1, output, outputlen)"
  "0 \<le> inputlen \<Longrightarrow> outlen < (inputlen + 2) div 3 * 4 \<Longrightarrow>
     b64_encode inp inputlen (Some out) (Some outlen) = (- 1, Some out, Some ((inputlen + 2) div 3 * 4))"
  "0 \<le> inputlen \<Longrightarrow> b64_encode inp inputlen None (Some outlen) =
     ((inputlen + 2) div 3 * 4, None, Some ((inputlen + 2) div 3 * 4))"
  by (auto simp: b64_encode_def b64_decode_def Let_def)

text \<open>With the room they ask for, the functions compute the encoding and its inverse.\<close>

lemma encode_result:
  assumes "int (length (b64_spec inp)) \<le> outlen" "length (b64_spec inp) \<le> length out"
  shows "b64_encode inp (int (length inp)) (Some out) (Some outlen) =
     (int (length (b64_spec inp)), Some (b64_spec inp @ drop (length (b64_spec inp)) out), Some outlen)"
proof -
  let ?n = "length (b64_spec inp)"
  have e: "(int (length inp) + 2) div 3 * 4 = int ?n"
    by (simp add: length_b64_spec zdiv_int)
  have "enc_loop inp (length inp) ?n 0 0 0 out = b64_spec inp @ drop ?n out"
    using enc_loop_spec [of 0 inp inp "[]" out ?n 0] assms(2) by simp
  then show ?thesis using assms(1) by (simp add: b64_encode_def Let_def e)
qed

lemma encode_result_length:
  assumes "b64_encode inp (int (length inp)) (Some ebuf) (Some elen) = (n, code, m)" "n \<noteq> - 1"
  shows "int (length (b64_spec inp)) \<le> elen"
proof -
  have e: "(int (length inp) + 2) div 3 * 4 = int (length (b64_spec inp))"
    by (simp add: length_b64_spec zdiv_int)
  show ?thesis using assms by (simp add: b64_encode_def Let_def e split: if_splits)
qed

lemma decode_result:
  assumes "int (length xs) \<le> outlen" "length xs \<le> length out"
  shows "b64_decode (b64_spec xs) (int (length (b64_spec xs))) (Some out) (Some outlen) =
     (int (length xs), Some (xs @ drop (length xs) out), Some outlen)"
proof -
  let ?e = "b64_spec xs"
  have l: "int (length ?e) mod 4 = 0" by (simp add: length_b64_spec)
  have d: "dec_loop ?e (length ?e) 0 0 out = (int (length xs), xs @ drop (length xs) out)"
    using dec_loop_spec [of 0 ?e xs "[]" out] assms(2) by simp
  have "dec_len ?e (int (length ?e)) = int (length xs)" by (rule dec_len_spec)
  then show ?thesis using assms(1) l by (simp add: b64_decode_def Let_def d)
qed

section \<open>Properties\<close>

text \<open>
  C24: \<open>encode\<close> computes the RFC 4648 encoding: with an output buffer of at least the required
  length it returns that length and writes exactly the encoding to the front of the buffer.
\<close>

theorem encode_correct:
  assumes "int (length (b64_spec inp)) \<le> outlen" "length (b64_spec inp) \<le> length out"
  shows "b64_encode inp (int (length inp)) (Some out) (Some outlen) =
     (int (length (b64_spec inp)), Some (b64_spec inp @ drop (length (b64_spec inp)) out), Some outlen)"
  by (rule encode_result [OF assms])

theorem encode_correct_witness:
  "b64_encode (ascii ''Man!'') 4 (Some (replicate 9 0)) (Some 9) = (8, Some (ascii ''TWFuIQ=='' @ [0]), Some 9) \<and>
   b64_encode [0xFB, 0xEF, 0xFF] 3 (Some (replicate 4 0)) (Some 4) = (4, Some (ascii ''++//''), Some 4)"
proof -
  have s: "b64_spec (ascii ''Man!'') = ascii ''TWFuIQ==''" "b64_spec [0xFB, 0xEF, 0xFF] = ascii ''++//''"
    by code_simp+
  show ?thesis using encode_correct [of "ascii ''Man!''" 9 "replicate 9 0"]
      encode_correct [of "[0xFB, 0xEF, 0xFF]" 4 "replicate 4 0"] unfolding s
    by (simp add: ascii_def eval_nat_numeral)
qed

text \<open>
  C28: \<open>decode\<close> inverts \<open>encode\<close>: whenever \<open>encode\<close> returns a length (and its buffer is as long as
  it was told), \<open>decode\<close> of the characters it wrote gives back the original bytes and their
  number, in any buffer that has room for them.
\<close>

theorem decode_encode:
  assumes "b64_encode inp (int (length inp)) (Some ebuf) (Some elen) = (n, Some code, m)" "n \<noteq> - 1"
    and "elen \<le> int (length ebuf)"
    and "int (length inp) \<le> outlen" "length inp \<le> length out"
  shows "b64_decode (take (nat n) code) n (Some out) (Some outlen) =
     (int (length inp), Some (inp @ drop (length inp) out), Some outlen)"
proof -
  note l = encode_result_length [OF assms(1,2)]
  have "n = int (length (b64_spec inp))" "take (nat n) code = b64_spec inp"
    using encode_result [of inp elen ebuf] l assms(1,3) by auto
  then show ?thesis using decode_result [OF assms(4,5)] by simp
qed

theorem decode_encode_witness:
  "\<exists>code. b64_encode [1, 2, 3, 4] 4 (Some (replicate 9 0)) (Some 9) = (8, Some code, Some 9) \<and>
     b64_decode (take 8 code) 8 (Some (replicate 5 7)) (Some 5) = (4, Some [1, 2, 3, 4, 7], Some 5)"
proof -
  have s: "b64_spec [1, 2, 3, 4] = ascii ''AQIDBA==''" by code_simp
  let ?code = "ascii ''AQIDBA=='' @ [0]"
  have e: "b64_encode [1, 2, 3, 4] (int (length [1, 2, 3, 4 :: u8])) (Some (replicate 9 0)) (Some 9) = (8, Some ?code, Some 9)"
    using encode_result [of "[1, 2, 3, 4]" 9 "replicate 9 0"] unfolding s by (simp add: ascii_def eval_nat_numeral)
  have "b64_decode (take (nat 8) ?code) 8 (Some (replicate 5 7)) (Some 5) =
      (int (length [1, 2, 3, 4 :: u8]), Some ([1, 2, 3, 4] @ drop (length [1, 2, 3, 4 :: u8]) (replicate 5 7)), Some 5)"
    by (rule decode_encode [OF e]) (simp_all add: eval_nat_numeral)
  with e show ?thesis by (intro exI [of _ ?code]) (simp add: eval_nat_numeral)
qed

text \<open>
  On any input whose length is as stated, \<open>decode\<close> with a buffer of the length it asks for
  leaves the rest of the buffer alone and returns -1 or a length that is not larger than the one
  it asked for.
\<close>

theorem decode_in_bounds:
  assumes len: "length inp = 4 * N" and buf: "dec_len inp (int (4 * N)) \<le> outlen"
    and r: "b64_decode inp (int (4 * N)) (Some out) (Some outlen) = (r, Some out', n)"
  shows "(r = - 1 \<or> 0 \<le> r \<and> r \<le> dec_len inp (int (4 * N))) \<and> length out' = length out \<and>
    drop (nat (dec_len inp (int (4 * N)))) out' = drop (nat (dec_len inp (int (4 * N)))) out"
proof -
  have d: "dec_loop inp (4 * N) 0 0 out = (r, out')"
    using r buf nat_int [of "4 * N"]
    by (simp add: b64_decode_def Let_def split: prod.splits del: nat_int)
  show ?thesis
  proof (cases "N = 0")
    case True
    with d show ?thesis by (simp add: dec_loop.simps dec_len_def)
  next
    case False
    let ?p = "(if inp ! (4 * N - 1) = PAD then 1 else 0) + (if inp ! (4 * N - 2) = PAD then 1 else 0) :: nat"
    have i: "nat (int (4 * N) - 1) = 4 * N - 1" "nat (int (4 * N) - 2) = 4 * N - 2" using False by auto
    have l: "dec_len inp (int (4 * N)) = int (3 * N) - int ?p"
      using False unfolding dec_len_def i Let_def by simp
    then have e: "int (3 * N - ?p) = dec_len inp (int (4 * N))" using False by auto
    then have n: "nat (dec_len inp (int (4 * N))) = 3 * N - ?p" by (metis nat_int)
    have "3 * N - ?p + (if inp ! (4 * N - 1) = PAD then 1 else 0) + (if inp ! (4 * N - 2) = PAD then 1 else 0) = 3 * N"
      using False by auto
    from dec_loop_bounds [OF len _ _ this, of 0 out r out'] d False
    have "(r = - 1 \<or> 0 \<le> r \<and> r \<le> int (3 * N - ?p)) \<and> drop (3 * N - ?p) out' = drop (3 * N - ?p) out \<and>
        length out' = length out" by simp
    then show ?thesis unfolding n e by blast
  qed
qed

theorem decode_in_bounds_witness:
  "\<exists>r out'. b64_decode (ascii ''A=BC'') 4 (Some [1, 2, 3, 4]) (Some 4) = (r, Some out', Some 4) \<and> drop 3 out' = [4]"
proof -
  have l: "dec_len (ascii ''A=BC'') 4 = 3" by code_simp
  obtain r out' where r: "b64_decode (ascii ''A=BC'') 4 (Some [1, 2, 3, 4]) (Some 4) = (r, Some out', Some 4)"
    using l by (cases "dec_loop (ascii ''A=BC'') 4 0 0 [1, 2, 3, 4]") (simp add: b64_decode_def)
  with decode_in_bounds [of "ascii ''A=BC''" 1 4 "[1, 2, 3, 4]"] l show ?thesis by (simp add: ascii_def)
qed

text \<open>
  Not only encodings are accepted: ``AA=A'', with a padding character before a digit, decodes
  to one byte.
\<close>

theorem decode_accepts_malformed:
  "b64_decode (ascii ''AA=A'') 4 (Some [9, 9]) (Some 2) = (1, Some [0, 9], Some 2) \<and>
   (\<forall>xs. b64_spec xs \<noteq> ascii ''AA=A'')"
proof
  have "dec_len (ascii ''AA=A'') 4 = 2" by code_simp
  moreover have "dec_loop (ascii ''AA=A'') 4 0 0 [9, 9] = (1, [0, 9])" by code_simp
  ultimately show "b64_decode (ascii ''AA=A'') 4 (Some [9, 9]) (Some 2) = (1, Some [0, 9], Some 2)"
    by (simp add: b64_decode_def)
  have "last (ascii ''AA=A'') \<noteq> PAD" "last (butlast (ascii ''AA=A'')) = PAD" by (simp_all add: ascii_def PAD_def)
  then show "\<forall>xs. b64_spec xs \<noteq> ascii ''AA=A''"
    using b64_spec_tail by (metis ascii_def b64_spec.simps(1) list.distinct(1) list.simps(9) one_neq_zero)
qed

end
