(* ===== verification/UtfConv.thy ===== *)
theory UtfConv
  imports Prelude "HOL-Library.Monad_Syntax"
begin

text \<open>
  src/utfconv.cpp: the six reader and writer classes and \<open>utfConvInner\<close>.  A buffer is a list of
  code units and \<open>Current\<close> an index into it; every access is checked, so None is an access
  outside of the buffer (or, for the loop, not returning).  A count of -1 (any negative value)
  means a null-terminated source or an unlimited destination.
\<close>

section \<open>Status codes and buffers\<close>

definition END_OF_STREAM :: u32 where "END_OF_STREAM = 0xFFFFFFFF"
definition BAD_FORMAT :: u32 where "BAD_FORMAT = 0xFFFFFFFE"
definition SUCCESS :: u32 where "SUCCESS = 0"

definition get_unit :: "'u list \<Rightarrow> nat \<Rightarrow> 'u option" where
  "get_unit xs i = (if i < length xs then Some (xs ! i) else None)"

definition put_unit :: "'u list \<Rightarrow> nat \<Rightarrow> 'u \<Rightarrow> 'u list option" where
  "put_unit xs i v = (if i < length xs then Some (xs[i := v]) else None)"

record 'u ucr =
  rbuf :: "'u list"
  rpos :: nat
  rrem :: int

record 'u ucw =
  wbuf :: "'u list"
  wpos :: nat
  wrem :: int

definition reader :: "'u list \<Rightarrow> int \<Rightarrow> 'u ucr" where
  "reader buf cnt = \<lparr>rbuf = buf, rpos = 0, rrem = cnt\<rparr>"

definition writer :: "'u list \<Rightarrow> int \<Rightarrow> 'u ucw" where
  "writer buf cnt = \<lparr>wbuf = buf, wpos = 0, wrem = cnt\<rparr>"

section \<open>Readers\<close>

text \<open>The number of subsequent bytes and the payload of a lead byte; None for a byte that is none.\<close>

definition utf8_lead :: "u8 \<Rightarrow> (nat \<times> u32) option" where
  "utf8_lead c =
     (if c AND 0x80 = 0 then Some (0, ucast c)
      else if c AND 0xE0 = 0xC0 then Some (1, ucast (c AND 0x1F))
      else if c AND 0xF0 = 0xE0 then Some (2, ucast (c AND 0x0F))
      else if c AND 0xF8 = 0xF0 then Some (3, ucast (c AND 0x07))
      else if c AND 0xFC = 0xF8 then Some (4, ucast (c AND 0x03))
      else if c AND 0xFE = 0xFC then Some (5, ucast (c AND 0x01))
      else None)"

text \<open>The loop over the subsequent bytes.\<close>

fun utf8_tail :: "nat \<Rightarrow> u32 \<Rightarrow> u8 ucr \<Rightarrow> (u32 \<times> u8 ucr) option" where
  "utf8_tail 0 cp r = Some (cp, r\<lparr>rpos := rpos r + 1\<rparr>)"
| "utf8_tail (Suc n) cp r =
     (let r1 = r\<lparr>rpos := rpos r + 1\<rparr> in
      do { b \<leftarrow> get_unit (rbuf r1) (rpos r1);
           if b AND 0xC0 = 0x80
           then utf8_tail n (push_bit 6 cp OR (ucast b AND 0x3F)) r1
           else Some (BAD_FORMAT, r1) })"

definition utf8_read :: "u8 ucr \<Rightarrow> (u32 \<times> u8 ucr) option" where
  "utf8_read r =
     (if rrem r = 0 then Some (END_OF_STREAM, r)
      else do { c \<leftarrow> get_unit (rbuf r) (rpos r);
        if c = 0 then Some (END_OF_STREAM, r)
        else case utf8_lead c of
          None \<Rightarrow> Some (BAD_FORMAT, r)
        | Some (sbcnt, cp) \<Rightarrow>
            if rrem r > 0 \<and> rrem r < int sbcnt + 1 then Some (END_OF_STREAM, r)
            else utf8_tail sbcnt cp (if rrem r > 0 then r\<lparr>rrem := rrem r - (int sbcnt + 1)\<rparr> else r) })"

definition ucs2_read :: "u16 ucr \<Rightarrow> (u32 \<times> u16 ucr) option" where
  "ucs2_read r =
     (if rrem r = 0 then Some (END_OF_STREAM, r)
      else do { c \<leftarrow> get_unit (rbuf r) (rpos r);
        if c = 0 then Some (END_OF_STREAM, r)
        else if 0xD800 \<le> c \<and> c \<le> 0xDBFF
        then if rrem r > 0 \<and> rrem r < 2 then Some (END_OF_STREAM, r)
          else let r1 = (if rrem r > 0 then r\<lparr>rrem := rrem r - 2\<rparr> else r);
                   r2 = r1\<lparr>rpos := rpos r1 + 1\<rparr>
            in do { t \<leftarrow> get_unit (rbuf r2) (rpos r2);
              if 0xDC00 \<le> t \<and> t \<le> 0xDFFF
              then Some ((push_bit 10 (ucast (c - 0xD800)) OR ucast (t - 0xDC00)) + 0x10000,
                         r2\<lparr>rpos := rpos r2 + 1\<rparr>)
              else Some (BAD_FORMAT, r2) }
        else if 0xDC00 \<le> c \<and> c \<le> 0xDFFF then Some (BAD_FORMAT, r)
        else let r1 = (if rrem r > 0 then r\<lparr>rrem := rrem r - 1\<rparr> else r)
          in Some (ucast c, r1\<lparr>rpos := rpos r1 + 1\<rparr>) })"

definition ucs4_read :: "u32 ucr \<Rightarrow> (u32 \<times> u32 ucr) option" where
  "ucs4_read r =
     (if rrem r = 0 then Some (END_OF_STREAM, r)
      else do { c \<leftarrow> get_unit (rbuf r) (rpos r);
        if c = 0 then Some (END_OF_STREAM, r)
        else let r1 = (if rrem r > 0 then r\<lparr>rrem := rrem r - 1\<rparr> else r)
          in Some (c, r1\<lparr>rpos := rpos r1 + 1\<rparr>) })"

section \<open>Writers\<close>

definition utf8_sbcnt :: "u32 \<Rightarrow> nat" where
  "utf8_sbcnt cp =
     (if cp \<ge> 0x4000000 then 5
      else if cp \<ge> 0x200000 then 4
      else if cp \<ge> 0x10000 then 3
      else if cp \<ge> 0x800 then 2
      else if cp \<ge> 0x80 then 1
      else 0)"

text \<open>The loop that writes the subsequent bytes from the last to the first.\<close>

fun utf8_put_tail :: "u8 list \<Rightarrow> nat \<Rightarrow> nat \<Rightarrow> u32 \<Rightarrow> (u8 list \<times> u32) option" where
  "utf8_put_tail buf p 0 cp = Some (buf, cp)"
| "utf8_put_tail buf p (Suc i) cp =
     do { buf1 \<leftarrow> put_unit buf (p + Suc i) (0x80 OR ucast (cp AND 0x3F));
          utf8_put_tail buf1 p i (drop_bit 6 cp) }"

definition utf8_lead_byte :: "nat \<Rightarrow> u32 \<Rightarrow> u8" where
  "utf8_lead_byte sbcnt cp =
     (if sbcnt = 1 then 0xC0 OR ucast (cp AND 0x1F)
      else if sbcnt = 2 then 0xE0 OR ucast (cp AND 0x0F)
      else if sbcnt = 3 then 0xF0 OR ucast (cp AND 0x07)
      else if sbcnt = 4 then 0xF8 OR ucast (cp AND 0x03)
      else if sbcnt = 5 then 0xFC OR ucast (cp AND 0x01)
      else ucast (cp AND 0xFF))"

definition utf8_write :: "u8 ucw \<Rightarrow> u32 \<Rightarrow> (u32 \<times> u8 ucw) option" where
  "utf8_write w cp =
     (if wrem w = 0 then Some (END_OF_STREAM, w)
      else let sbcnt = utf8_sbcnt cp in
        if wrem w > 0 \<and> wrem w < int sbcnt + 1 then Some (END_OF_STREAM, w)
        else let w1 = (if wrem w > 0 then w\<lparr>wrem := wrem w - (int sbcnt + 1)\<rparr> else w)
          in do { (buf1, cp1) \<leftarrow> utf8_put_tail (wbuf w1) (wpos w1) sbcnt cp;
                  buf2 \<leftarrow> put_unit buf1 (wpos w1) (utf8_lead_byte sbcnt cp1);
                  Some (SUCCESS, w1\<lparr>wbuf := buf2, wpos := wpos w1 + (sbcnt + 1)\<rparr>) })"

definition ucs2_write :: "u16 ucw \<Rightarrow> u32 \<Rightarrow> (u32 \<times> u16 ucw) option" where
  "ucs2_write w cp =
     (if wrem w = 0 then Some (END_OF_STREAM, w)
      else if cp > 0x10FFFF then Some (SUCCESS, w)
      else if cp \<ge> 0x10000
      then if wrem w > 0 \<and> wrem w < 2 then Some (END_OF_STREAM, w)
        else let w1 = (if wrem w > 0 then w\<lparr>wrem := wrem w - 2\<rparr> else w); c = cp - 0x10000
          in do { buf1 \<leftarrow> put_unit (wbuf w1) (wpos w1) (ucast (drop_bit 10 (c AND 0xFFC00)) + 0xD800);
                  buf2 \<leftarrow> put_unit buf1 (wpos w1 + 1) (ucast (c AND 0x3FF) + 0xDC00);
                  Some (SUCCESS, w1\<lparr>wbuf := buf2, wpos := wpos w1 + 2\<rparr>) }
      else let w1 = (if wrem w > 0 then w\<lparr>wrem := wrem w - 1\<rparr> else w)
        in do { buf1 \<leftarrow> put_unit (wbuf w1) (wpos w1) (ucast cp);
                Some (SUCCESS, w1\<lparr>wbuf := buf1, wpos := wpos w1 + 1\<rparr>) })"

definition ucs4_write :: "u32 ucw \<Rightarrow> u32 \<Rightarrow> (u32 \<times> u32 ucw) option" where
  "ucs4_write w cp =
     (if wrem w = 0 then Some (END_OF_STREAM, w)
      else let w1 = (if wrem w > 0 then w\<lparr>wrem := wrem w - 1\<rparr> else w)
        in do { buf1 \<leftarrow> put_unit (wbuf w1) (wpos w1) cp;
                Some (SUCCESS, w1\<lparr>wbuf := buf1, wpos := wpos w1 + 1\<rparr>) })"

text \<open>\<open>closure\<close> is the same in the three writers.\<close>

definition uc_closure :: "'a::len word ucw \<Rightarrow> (u32 \<times> 'a word ucw) option" where
  "uc_closure w =
     (if wrem w \<noteq> 0
      then do { buf1 \<leftarrow> put_unit (wbuf w) (wpos w) 0; Some (SUCCESS, w\<lparr>wbuf := buf1\<rparr>) }
      else Some (END_OF_STREAM, w))"

section \<open>utfConvInner\<close>

text \<open>The loop over any reader and writer; the calls go through the interfaces IUcReader and IUcWriter.\<close>

partial_function (option) conv_loop ::
  "('r \<Rightarrow> (u32 \<times> 'r) option) \<Rightarrow> ('w \<Rightarrow> u32 \<Rightarrow> (u32 \<times> 'w) option) \<Rightarrow> ('w \<Rightarrow> (u32 \<times> 'w) option) \<Rightarrow>
   'r \<Rightarrow> 'w \<Rightarrow> int \<Rightarrow> (int \<times> 'w) option" where
  "conv_loop rd wr cl r w cnt =
     do { (cp, r1) \<leftarrow> rd r;
          if cp = END_OF_STREAM \<or> cp = BAD_FORMAT
          then do { (st, w1) \<leftarrow> cl w; Some (cnt, w1) }
          else do { (st, w1) \<leftarrow> wr w cp;
                    if st \<noteq> SUCCESS then Some (cnt, w1)
                    else conv_loop rd wr cl r1 w1 (cnt + 1) } }"

declare conv_loop.simps [code]

text \<open>A buffer with the width of its units; \<open>UOther\<close> stands for character types of any other width.\<close>

datatype units = U8 "u8 list" | U16 "u16 list" | U32 "u32 list" | UOther

definition conv_to :: "('r \<Rightarrow> (u32 \<times> 'r) option) \<Rightarrow> 'r \<Rightarrow> units \<Rightarrow> int \<Rightarrow> (int \<times> units) option" where
  "conv_to rd r dst dcnt =
     (case dst of
        U32 d \<Rightarrow> map_option (\<lambda>(n, w). (n, U32 (wbuf w))) (conv_loop rd ucs4_write uc_closure r (writer d dcnt) 0)
      | U16 d \<Rightarrow> map_option (\<lambda>(n, w). (n, U16 (wbuf w))) (conv_loop rd ucs2_write uc_closure r (writer d dcnt) 0)
      | U8 d \<Rightarrow> map_option (\<lambda>(n, w). (n, U8 (wbuf w))) (conv_loop rd utf8_write uc_closure r (writer d dcnt) 0)
      | UOther \<Rightarrow> Some (- 1, dst))"

definition utfConv :: "units \<Rightarrow> units \<Rightarrow> int \<Rightarrow> int \<Rightarrow> (int \<times> units) option" where
  "utfConv src dst scnt dcnt =
     (case src of
        U32 s \<Rightarrow> conv_to ucs4_read (reader s scnt) dst dcnt
      | U16 s \<Rightarrow> conv_to ucs2_read (reader s scnt) dst dcnt
      | U8 s \<Rightarrow> conv_to utf8_read (reader s scnt) dst dcnt
      | UOther \<Rightarrow> Some (- 1, dst))"

end
