(* ===== verification/UtfSpec.thy ===== *)
theory UtfSpec
  imports UtfConv
begin

text \<open>
  The interfaces IUcReader and IUcWriter of src/utfconv.cpp as contracts.  \<open>uc_reader\<close> and
  \<open>uc_writer\<close> hold the memory safety laws that hold for any input; \<open>uc_decoder\<close> and
  \<open>uc_encoder\<close> add what a reader or writer of an encoding \<open>enc\<close> does on well-formed text.
  The two clients are the loop of \<open>utfConvInner\<close> on arbitrary and on well-formed sources.
\<close>

section \<open>Safety contracts\<close>

text \<open>A counted buffer: the count is not negative and the counted units lie inside.\<close>

definition rd_bounded :: "'u ucr \<Rightarrow> bool" where
  "rd_bounded r \<longleftrightarrow> 0 \<le> rrem r \<and> rpos r + nat (rrem r) \<le> length (rbuf r)"

definition wr_bounded :: "'u ucw \<Rightarrow> bool" where
  "wr_bounded w \<longleftrightarrow> 0 \<le> wrem w \<and> wpos w + nat (wrem w) \<le> length (wbuf w)"

text \<open>What a step of a writer may change: the units from its position up to its new position.\<close>

definition wr_step :: "'u ucw \<Rightarrow> 'u ucw \<Rightarrow> bool" where
  "wr_step w w' \<longleftrightarrow> wr_bounded w' \<and> wpos w \<le> wpos w' \<and>
     int (wpos w') + wrem w' = int (wpos w) + wrem w \<and> length (wbuf w') = length (wbuf w) \<and>
     (\<forall>i. i < wpos w \<or> wpos w' \<le> i \<longrightarrow> wbuf w' ! i = wbuf w ! i)"

lemma wr_step_refl: "wr_bounded w \<Longrightarrow> wr_step w w"
  by (simp add: wr_step_def)

lemma wr_step_trans: "wr_step w w' \<Longrightarrow> wr_step w' w'' \<Longrightarrow> wr_step w w''"
  by (auto simp: wr_step_def)

locale uc_reader =
  fixes rd :: "'r ucr \<Rightarrow> (u32 \<times> 'r ucr) option"
  assumes read_safe: "rd_bounded r \<Longrightarrow>
    \<exists>cp r'. rd r = Some (cp, r') \<and>
      (cp = END_OF_STREAM \<or> cp = BAD_FORMAT \<or> rd_bounded r' \<and> rrem r' < rrem r)"

locale uc_writer =
  fixes wr :: "'w::len word ucw \<Rightarrow> u32 \<Rightarrow> (u32 \<times> 'w word ucw) option"
  assumes write_safe: "wr_bounded w \<Longrightarrow> \<exists>st w'. wr w cp = Some (st, w') \<and> wr_step w w'"

text \<open>The null that \<open>closure\<close> writes is the one unit past the written text, if there is room.\<close>

lemma closure_safe:
  assumes "wr_bounded w"
  obtains st w' where "uc_closure w = Some (st, w')" "wpos w' = wpos w" "wrem w' = wrem w"
    "wbuf w' = (if wrem w = 0 then wbuf w else (wbuf w)[wpos w := 0])"
proof (cases "wrem w = 0")
  case True
  then show ?thesis by (intro that [of END_OF_STREAM w]) (auto simp: uc_closure_def)
next
  case False
  then have "wpos w < length (wbuf w)" using assms by (auto simp: wr_bounded_def)
  then show ?thesis using False
    by (intro that [of SUCCESS "w\<lparr>wbuf := (wbuf w)[wpos w := 0]\<rparr>"]) (auto simp: uc_closure_def put_unit_def)
qed

text \<open>The state of the destination after a conversion of a counted source.\<close>

definition dst_kept :: "'u ucw \<Rightarrow> 'u list \<Rightarrow> bool" where
  "dst_kept w d' \<longleftrightarrow> length d' = length (wbuf w) \<and>
     (\<forall>i. i < wpos w \<or> wpos w + nat (wrem w) \<le> i \<longrightarrow> d' ! i = wbuf w ! i)"

lemma dst_kept_step:
  assumes "wr_step w w'" "dst_kept w' d'" shows "dst_kept w d'"
proof -
  have "wpos w' + nat (wrem w') = wpos w + nat (wrem w)" "wpos w \<le> wpos w'"
    using assms by (auto simp: wr_step_def wr_bounded_def)
  then show ?thesis using assms unfolding dst_kept_def wr_step_def
    by (metis le_add1 less_le_trans order_trans)
qed

lemma dst_kept_closure:
  assumes "wr_bounded w" shows "\<exists>st w'. uc_closure w = Some (st, w') \<and> dst_kept w (wbuf w')"
proof -
  obtain st w' where w': "uc_closure w = Some (st, w')"
    "wbuf w' = (if wrem w = 0 then wbuf w else (wbuf w)[wpos w := 0])"
    using closure_safe [OF assms] by metis
  have "0 \<le> wrem w" using assms by (simp add: wr_bounded_def)
  then have "dst_kept w (wbuf w')"
    by (auto simp: dst_kept_def w'(2) nth_list_update)
  then show ?thesis using w'(1) by blast
qed

locale uc_safe = uc_reader rd + uc_writer wr
  for rd :: "'r ucr \<Rightarrow> (u32 \<times> 'r ucr) option" and wr :: "'w::len word ucw \<Rightarrow> u32 \<Rightarrow> (u32 \<times> 'w word ucw) option"
begin

text \<open>On counted buffers the loop returns and stays inside, whatever the source holds.\<close>

lemma conv_loop_safe:
  "\<lbrakk>rd_bounded r; wr_bounded w\<rbrakk> \<Longrightarrow>
   \<exists>n w'. conv_loop rd wr uc_closure r w k = Some (n, w') \<and>
     k \<le> n \<and> n \<le> k + rrem r \<and> dst_kept w (wbuf w')"
proof (induction "nat (rrem r)" arbitrary: r w k rule: less_induct)
  case less
  obtain cp r' where rd: "rd r = Some (cp, r')"
    and rd': "cp = END_OF_STREAM \<or> cp = BAD_FORMAT \<or> rd_bounded r' \<and> rrem r' < rrem r"
    using read_safe [OF less.prems(1)] by blast
  have r0: "0 \<le> rrem r" using less.prems by (simp add: rd_bounded_def)
  show ?case
  proof (cases "cp = END_OF_STREAM \<or> cp = BAD_FORMAT")
    case True
    obtain st w' where "uc_closure w = Some (st, w')" "dst_kept w (wbuf w')"
      using dst_kept_closure [OF less.prems(2)] by blast
    then show ?thesis using rd True r0 by (subst conv_loop.simps) auto
  next
    case False
    then have r': "rd_bounded r'" "rrem r' < rrem r" using rd' by auto
    obtain st w' where wr: "wr w cp = Some (st, w')" and st: "wr_step w w'"
      using write_safe [OF less.prems(2)] by blast
    show ?thesis
    proof (cases "st = SUCCESS")
      case True
      have "nat (rrem r') < nat (rrem r)" "wr_bounded w'"
        using r' st by (auto simp: rd_bounded_def wr_step_def)
      then obtain n w'' where IH: "conv_loop rd wr uc_closure r' w' (k + 1) = Some (n, w'')"
        "k + 1 \<le> n" "n \<le> k + 1 + rrem r'" "dst_kept w' (wbuf w'')"
        using less.hyps r'(1) by blast
      have "conv_loop rd wr uc_closure r w k = Some (n, w'')"
        using rd wr IH(1) False True by (subst conv_loop.simps) auto
      then show ?thesis using IH r'(2) dst_kept_step [OF st] by auto
    next
      case False2: False
      have "dst_kept w (wbuf w')" using st
        by (intro dst_kept_step [OF st]) (auto simp: dst_kept_def)
      moreover have "conv_loop rd wr uc_closure r w k = Some (k, w')"
        using rd wr False False2 by (subst conv_loop.simps) auto
      ultimately show ?thesis using r0 by auto
    qed
  qed
qed

end

section \<open>Codecs\<close>

text \<open>
  The text at a reader's position: the code points whose encodings follow, and that they end
  there, by the count or by a null.
\<close>

definition src_at :: "(u32 \<Rightarrow> 'u::len word list) \<Rightarrow> 'u word ucr \<Rightarrow> u32 list \<Rightarrow> bool" where
  "src_at enc r cps \<longleftrightarrow> (\<exists>pre post. rbuf r = pre @ concat (map enc cps) @ post \<and> rpos r = length pre \<and>
     (rrem r = int (length (concat (map enc cps))) \<or>
      (rrem r < 0 \<or> rrem r > int (length (concat (map enc cps)))) \<and> post \<noteq> [] \<and> hd post = 0))"

text \<open>The longest prefix of the code points whose encoding fits into \<open>n\<close> units.\<close>

fun fit :: "(u32 \<Rightarrow> 'u list) \<Rightarrow> int \<Rightarrow> u32 list \<Rightarrow> u32 list" where
  "fit enc n [] = []"
| "fit enc n (cp # cps) =
     (if n < 0 then cp # fit enc n cps
      else if int (length (enc cp)) \<le> n then cp # fit enc (n - int (length (enc cp))) cps else [])"

text \<open>
  A destination with room: the count if there is one, otherwise room for all of the text and
  the null.
\<close>

definition dst_room :: "(u32 \<Rightarrow> 'u list) \<Rightarrow> 'u ucw \<Rightarrow> u32 list \<Rightarrow> bool" where
  "dst_room enc w cps \<longleftrightarrow>
     (if wrem w < 0 then wpos w + length (concat (map enc cps)) < length (wbuf w)
      else wpos w + nat (wrem w) \<le> length (wbuf w))"

text \<open>
  The destination after the conversion: the encoding of the prefix that fits, then a null if
  the text was written whole and room is left, and the old contents everywhere else.
\<close>

definition dst_text :: "(u32 \<Rightarrow> 'u::len word list) \<Rightarrow> 'u word ucw \<Rightarrow> u32 list \<Rightarrow> 'u word list" where
  "dst_text enc w cps =
     (let out = concat (map enc (fit enc (wrem w) cps));
          full = (fit enc (wrem w) cps = cps \<and> int (length out) \<noteq> wrem w);
          txt = out @ (if full then [0] else [])
      in take (wpos w) (wbuf w) @ txt @ drop (wpos w + length txt) (wbuf w))"

locale uc_decoder = uc_reader rd
  for rd :: "'r::len word ucr \<Rightarrow> (u32 \<times> 'r word ucr) option" +
  fixes renc :: "u32 \<Rightarrow> 'r word list" and rok :: "u32 \<Rightarrow> bool"
  assumes rok: "rok cp \<Longrightarrow> cp \<noteq> END_OF_STREAM \<and> cp \<noteq> BAD_FORMAT"
    and read_end: "rrem r = 0 \<or> rpos r < length (rbuf r) \<and> rbuf r ! rpos r = 0 \<Longrightarrow> rd r = Some (END_OF_STREAM, r)"
    and read_enc: "\<lbrakk>rok cp; n < 0 \<or> int (length (renc cp)) \<le> n\<rbrakk> \<Longrightarrow>
      rd \<lparr>rbuf = pre @ renc cp @ post, rpos = length pre, rrem = n\<rparr> =
      Some (cp, \<lparr>rbuf = pre @ renc cp @ post, rpos = length pre + length (renc cp),
                 rrem = (if n < 0 then n else n - int (length (renc cp)))\<rparr>)"

locale uc_encoder = uc_writer wr
  for wr :: "'w::len word ucw \<Rightarrow> u32 \<Rightarrow> (u32 \<times> 'w word ucw) option" +
  fixes wenc :: "u32 \<Rightarrow> 'w word list" and wok :: "u32 \<Rightarrow> bool"
  assumes wenc_ne: "wok cp \<Longrightarrow> wenc cp \<noteq> []"
    and write_full: "\<lbrakk>wok cp; 0 \<le> wrem w; wrem w < int (length (wenc cp))\<rbrakk> \<Longrightarrow> wr w cp = Some (END_OF_STREAM, w)"
    and write_enc: "\<lbrakk>wok cp; n < 0 \<or> int (length (wenc cp)) \<le> n; length old = length (wenc cp)\<rbrakk> \<Longrightarrow>
      wr \<lparr>wbuf = pre @ old @ post, wpos = length pre, wrem = n\<rparr> cp =
      Some (SUCCESS, \<lparr>wbuf = pre @ wenc cp @ post, wpos = length pre + length (wenc cp),
                      wrem = (if n < 0 then n else n - int (length (wenc cp)))\<rparr>)"

lemma src_at_end:
  assumes "src_at enc r []" shows "rrem r = 0 \<or> rpos r < length (rbuf r) \<and> rbuf r ! rpos r = 0"
  using assms by (auto simp: src_at_def hd_conv_nth nth_append)


lemma src_at_Cons:
  assumes "src_at enc r (cp # cps)"
  obtains pre post where "r = \<lparr>rbuf = pre @ enc cp @ post, rpos = length pre, rrem = rrem r\<rparr>"
    "rrem r < 0 \<or> int (length (enc cp)) \<le> rrem r"
    "src_at enc \<lparr>rbuf = pre @ enc cp @ post, rpos = length pre + length (enc cp),
       rrem = (if rrem r < 0 then rrem r else rrem r - int (length (enc cp)))\<rparr> cps"
proof -
  obtain pre post where P: "rbuf r = pre @ concat (map enc (cp # cps)) @ post" "rpos r = length pre"
    "rrem r = int (length (concat (map enc (cp # cps)))) \<or>
     (rrem r < 0 \<or> rrem r > int (length (concat (map enc (cp # cps))))) \<and> post \<noteq> [] \<and> hd post = 0"
    using assms unfolding src_at_def by blast
  show ?thesis
  proof (rule that [of pre "concat (map enc cps) @ post"])
    show "r = \<lparr>rbuf = pre @ enc cp @ concat (map enc cps) @ post, rpos = length pre, rrem = rrem r\<rparr>"
      using P by (simp add: ucr.equality)
    show "rrem r < 0 \<or> int (length (enc cp)) \<le> rrem r" using P(3) by auto
    show "src_at enc \<lparr>rbuf = pre @ enc cp @ concat (map enc cps) @ post, rpos = length pre + length (enc cp),
       rrem = (if rrem r < 0 then rrem r else rrem r - int (length (enc cp)))\<rparr> cps"
      unfolding src_at_def using P(3)
      by (intro exI [of _ "pre @ enc cp"] exI [of _ post]) auto
  qed
qed

lemma dst_room_split:
  assumes "dst_room enc w (cp # cps)" "wrem w < 0 \<or> int (length (enc cp)) \<le> wrem w"
  obtains pre old post where "w = \<lparr>wbuf = pre @ old @ post, wpos = length pre, wrem = wrem w\<rparr>"
    "length old = length (enc cp)"
proof -
  have L: "wpos w + length (enc cp) \<le> length (wbuf w)"
    using assms by (auto simp: dst_room_def split: if_splits)
  let ?pre = "take (wpos w) (wbuf w)" and ?old = "take (length (enc cp)) (drop (wpos w) (wbuf w))"
    and ?post = "drop (length (enc cp)) (drop (wpos w) (wbuf w))"
  have "wbuf w = ?pre @ ?old @ ?post" by (metis append_take_drop_id)
  moreover have "length ?pre = wpos w" "length ?old = length (enc cp)" using L by auto
  ultimately show ?thesis by (intro that [of ?pre ?old ?post]) (simp_all add: ucw.equality)
qed

lemma dst_text_full:
  assumes "0 \<le> wrem w" "wrem w < int (length (enc cp))"
  shows "dst_text enc w (cp # cps) = wbuf w"
  using assms by (simp add: dst_text_def)

lemma dst_text_step:
  assumes "wrem w < 0 \<or> int (length (enc cp)) \<le> wrem w" "w = \<lparr>wbuf = pre @ old @ post, wpos = length pre, wrem = wrem w\<rparr>"
    "length old = length (enc cp)"
    "w' = \<lparr>wbuf = pre @ enc cp @ post, wpos = length pre + length (enc cp),
           wrem = (if wrem w < 0 then wrem w else wrem w - int (length (enc cp)))\<rparr>"
  shows "dst_text enc w (cp # cps) = dst_text enc w' cps"
    and "dst_room enc w (cp # cps) \<Longrightarrow> dst_room enc w' cps"
proof -
  have B: "wbuf w = pre @ old @ post" "wpos w = length pre" using assms(2) by (metis ucw.select_convs)+
  show "dst_text enc w (cp # cps) = dst_text enc w' cps"
    using assms(1) by (auto simp: dst_text_def B assms(3,4) Let_def)
  show "dst_room enc w' cps" if "dst_room enc w (cp # cps)"
    using that assms(1) by (auto simp: dst_room_def B assms(3,4) split: if_splits)
qed

lemma closure_text:
  assumes "dst_room enc w []"
  shows "\<exists>st w'. uc_closure w = Some (st, w') \<and> wbuf w' = dst_text enc w []"
proof (cases "wrem w = 0")
  case True
  then show ?thesis by (simp add: uc_closure_def dst_text_def)
next
  case False
  then have "wpos w < length (wbuf w)" using assms by (auto simp: dst_room_def split: if_splits)
  then show ?thesis using False
    by (simp add: uc_closure_def put_unit_def dst_text_def upd_conv_take_nth_drop)
qed

locale uc_conv = uc_decoder rd renc rok + uc_encoder wr wenc wok
  for rd :: "'r::len word ucr \<Rightarrow> (u32 \<times> 'r word ucr) option" and renc rok
    and wr :: "'w::len word ucw \<Rightarrow> u32 \<Rightarrow> (u32 \<times> 'w word ucw) option" and wenc wok
begin

sublocale safe: uc_safe rd wr
  by unfold_locales

text \<open>On well-formed text the loop returns, counts the code points that fit and writes their encoding.\<close>

lemma conv_loop_text:
  "\<lbrakk>src_at renc r cps; \<forall>cp \<in> set cps. rok cp \<and> wok cp; dst_room wenc w cps\<rbrakk> \<Longrightarrow>
   \<exists>w'. conv_loop rd wr uc_closure r w k = Some (k + int (length (fit wenc (wrem w) cps)), w') \<and>
     wbuf w' = dst_text wenc w cps"
proof (induction cps arbitrary: r w k)
  case Nil
  obtain st w' where c: "uc_closure w = Some (st, w')" "wbuf w' = dst_text wenc w []"
    using closure_text [OF Nil.prems(3)] by blast
  show ?case using c read_end [OF src_at_end [OF Nil.prems(1)]]
    by (subst conv_loop.simps) simp
next
  case (Cons cp cps)
  obtain pre post where r: "r = \<lparr>rbuf = pre @ renc cp @ post, rpos = length pre, rrem = rrem r\<rparr>"
    "rrem r < 0 \<or> int (length (renc cp)) \<le> rrem r"
    "src_at renc \<lparr>rbuf = pre @ renc cp @ post, rpos = length pre + length (renc cp),
       rrem = (if rrem r < 0 then rrem r else rrem r - int (length (renc cp)))\<rparr> cps"
    using src_at_Cons [OF Cons.prems(1)] by blast
  let ?r' = "\<lparr>rbuf = pre @ renc cp @ post, rpos = length pre + length (renc cp),
       rrem = (if rrem r < 0 then rrem r else rrem r - int (length (renc cp)))\<rparr>"
  have ok: "rok cp" "wok cp" using Cons.prems(2) by auto
  have rd: "rd r = Some (cp, ?r')" using read_enc [OF ok(1) r(2), of pre post] r(1) by metis
  have cp: "\<not> (cp = END_OF_STREAM \<or> cp = BAD_FORMAT)" using rok [OF ok(1)] by blast
  show ?case
  proof (cases "wrem w < 0 \<or> int (length (wenc cp)) \<le> wrem w")
    case True
    obtain wpre old wpost where w: "w = \<lparr>wbuf = wpre @ old @ wpost, wpos = length wpre, wrem = wrem w\<rparr>"
      "length old = length (wenc cp)"
      using dst_room_split [OF Cons.prems(3) True] by blast
    let ?w' = "\<lparr>wbuf = wpre @ wenc cp @ wpost, wpos = length wpre + length (wenc cp),
           wrem = (if wrem w < 0 then wrem w else wrem w - int (length (wenc cp)))\<rparr>"
    have wr: "wr w cp = Some (SUCCESS, ?w')" using write_enc [OF ok(2) True w(2)] w(1) by metis
    note S = dst_text_step [where enc = wenc and w' = ?w' and cp = cp and cps = cps, OF True w(1) w(2) refl]
    obtain w'' where IH: "conv_loop rd wr uc_closure ?r' ?w' (k + 1) =
        Some (k + 1 + int (length (fit wenc (wrem ?w') cps)), w'')" "wbuf w'' = dst_text wenc ?w' cps"
      using Cons.IH [OF r(3) _ S(2) [OF Cons.prems(3)], of "k + 1"] Cons.prems(2) by auto
    have "conv_loop rd wr uc_closure r w k = conv_loop rd wr uc_closure ?r' ?w' (k + 1)"
      using rd wr cp by (subst conv_loop.simps) simp
    moreover have "int (length (fit wenc (wrem w) (cp # cps))) = 1 + int (length (fit wenc (wrem ?w') cps))"
      using True by auto
    ultimately show ?thesis using IH S(1) by (auto simp: add.assoc)
  next
    case False
    then have "wr w cp = Some (END_OF_STREAM, w)" using write_full [OF ok(2)] by auto
    then have "conv_loop rd wr uc_closure r w k = Some (k, w)"
      using rd cp by (subst conv_loop.simps) (simp add: END_OF_STREAM_def SUCCESS_def)
    then show ?thesis using False dst_text_full [of w wenc cp cps] by (auto simp: linorder_not_le)
  qed
qed

end

end
