(* ===== verification/UtfCodecs.thy ===== *)
theory UtfCodecs
  imports UtfSpec
begin

text \<open>
  The three encodings written as arithmetic on code points (UTF-8 in its original range up to
  2^31, UTF-16, UTF-32), and the proofs that the readers and writers of src/utfconv.cpp meet the
  contracts of \<open>UtfSpec\<close> for them.
\<close>

section \<open>Reference encodings\<close>

fun tail_bytes :: "nat \<Rightarrow> nat \<Rightarrow> u8 list" where
  "tail_bytes 0 n = []"
| "tail_bytes (Suc m) n = of_nat (0x80 + n div 64 ^ m mod 64) # tail_bytes m n"

definition tail_count :: "nat \<Rightarrow> nat" where
  "tail_count n = (if n < 2^7 then 0 else if n < 2^11 then 1 else if n < 2^16 then 2
                   else if n < 2^21 then 3 else if n < 2^26 then 4 else 5)"

definition lead_mark :: "nat \<Rightarrow> nat" where
  "lead_mark m = [0, 0xC0, 0xE0, 0xF0, 0xF8, 0xFC] ! m"

definition utf8_enc :: "u32 \<Rightarrow> u8 list" where
  "utf8_enc cp = (let n = unat cp; m = tail_count n in
     of_nat (lead_mark m + n div 64 ^ m) # tail_bytes m n)"

definition utf8_ok :: "u32 \<Rightarrow> bool" where
  "utf8_ok cp \<longleftrightarrow> 0 < unat cp \<and> unat cp < 2 ^ 31"

definition ucs2_enc :: "u32 \<Rightarrow> u16 list" where
  "ucs2_enc cp = (let n = unat cp in
     if n < 0x10000 then [of_nat n]
     else [of_nat (0xD800 + (n - 0x10000) div 1024), of_nat (0xDC00 + (n - 0x10000) mod 1024)])"

definition ucs2_ok :: "u32 \<Rightarrow> bool" where
  "ucs2_ok cp \<longleftrightarrow> 0 < unat cp \<and> unat cp < 0x110000 \<and> \<not> (0xD800 \<le> unat cp \<and> unat cp < 0xE000)"

definition ucs4_enc :: "u32 \<Rightarrow> u32 list" where
  "ucs4_enc cp = [cp]"

definition ucs4_ok :: "u32 \<Rightarrow> bool" where
  "ucs4_ok cp \<longleftrightarrow> 0 < unat cp \<and> cp \<noteq> END_OF_STREAM \<and> cp \<noteq> BAD_FORMAT"

section \<open>Bytes\<close>

lemma u8_cases: obtains k where "k < 256" "(b :: u8) = of_nat k"
proof
  show "unat b < 256" using unsigned_less [of b] by simp
qed simp

lemma lead_table: "list_all (\<lambda>k. utf8_lead (of_nat k) =
    (if k < 0x80 then Some (0, of_nat k) else if k < 0xC0 then None
     else if k < 0xE0 then Some (1, of_nat (k - 0xC0)) else if k < 0xF0 then Some (2, of_nat (k - 0xE0))
     else if k < 0xF8 then Some (3, of_nat (k - 0xF0)) else if k < 0xFC then Some (4, of_nat (k - 0xF8))
     else if k < 0xFE then Some (5, of_nat (k - 0xFC)) else None)) [0..<256]"
  by code_simp

lemma tail_table: "list_all (\<lambda>k. ((of_nat k :: u8) AND 0xC0 = 0x80) = (0x80 \<le> k \<and> k < 0xC0) \<and>
    (ucast (of_nat k :: u8) AND 0x3F :: u32) = of_nat (k mod 64)) [0..<256]"
  by code_simp

lemma utf8_lead_of_nat:
  assumes "k < 256"
  shows "utf8_lead (of_nat k) =
    (if k < 0x80 then Some (0, of_nat k) else if k < 0xC0 then None
     else if k < 0xE0 then Some (1, of_nat (k - 0xC0)) else if k < 0xF0 then Some (2, of_nat (k - 0xE0))
     else if k < 0xF8 then Some (3, of_nat (k - 0xF0)) else if k < 0xFC then Some (4, of_nat (k - 0xF8))
     else if k < 0xFE then Some (5, of_nat (k - 0xFC)) else None)"
proof -
  have "k \<in> {0..<256}" using assms by simp
  from bspec [OF lead_table [unfolded list_all_iff set_upt] this] show ?thesis .
qed

lemma tail_byte_of_nat:
  assumes "k < 256"
  shows "(of_nat k :: u8) AND 0xC0 = 0x80 \<longleftrightarrow> 0x80 \<le> k \<and> k < 0xC0"
    and "(ucast (of_nat k :: u8) AND 0x3F :: u32) = of_nat (k mod 64)"
proof -
  have "k \<in> {0..<256}" using assms by simp
  note T = bspec [OF tail_table [unfolded list_all_iff set_upt] this]
  show "(of_nat k :: u8) AND 0xC0 = 0x80 \<longleftrightarrow> 0x80 \<le> k \<and> k < 0xC0" using T by blast
  show "(ucast (of_nat k :: u8) AND 0x3F :: u32) = of_nat (k mod 64)" using T by blast
qed

text \<open>More bits at the right end.\<close>

lemma append_bits:
  assumes "k < 2 ^ b"
  shows "push_bit b (of_nat x :: u32) OR of_nat k = of_nat (x * 2 ^ b + k)"
proof -
  have "push_bit b (of_nat x :: u32) AND of_nat k = 0"
  proof (rule bit_eqI)
    fix n
    have "\<not> bit k n" if "b \<le> n"
    proof -
      have "k < 2 ^ n" using less_le_trans [OF assms power_increasing [OF that, of "2 :: nat"]] by simp
      then show ?thesis by (simp add: bit_iff_odd)
    qed
    then show "bit (push_bit b (of_nat x :: u32) AND of_nat k) n = bit 0 n"
      by (auto simp: bit_simps bit_of_nat_word_iff32)
  qed
  then have "push_bit b (of_nat x :: u32) OR of_nat k = push_bit b (of_nat x) + of_nat k"
    by (simp add: disjunctive_add_eq_or)
  then show ?thesis by (simp add: push_bit_eq_mult)
qed

lemma append_six_bits: "k < 64 \<Longrightarrow> push_bit 6 (of_nat x :: u32) OR of_nat k = of_nat (x * 64 + k)"
  using append_bits [of k 6 x] by simp

lemma unat_and_mask: "unat (w AND mask k :: 'a::len word) = unat w mod 2 ^ k"
  by (simp only: take_bit_eq_mask [symmetric] unsigned_take_bit_eq) (simp add: take_bit_eq_mod)

lemma mask_nums:
  "(mask 6 :: u32) = 0x3F" "(mask 5 :: u32) = 0x1F" "(mask 4 :: u32) = 0x0F" "(mask 3 :: u32) = 0x07"
  "(mask 2 :: u32) = 0x03" "(mask 1 :: u32) = 0x01" "(mask 8 :: u32) = 0xFF" "(mask 10 :: u32) = 0x3FF"
  by (simp_all add: mask_eq_exp_minus_1)

lemma low_bits [simp]:
  fixes w :: u32
  shows "unat (w AND 0x3F) = unat w mod 64" "unat (w AND 0x1F) = unat w mod 32"
    "unat (w AND 0x0F) = unat w mod 16" "unat (w AND 0x07) = unat w mod 8"
    "unat (w AND 0x03) = unat w mod 4" "unat (w AND 0x01) = unat w mod 2"
    "unat (w AND 0xFF) = unat w mod 256" "unat (w AND 0x3FF) = unat w mod 1024"
  unfolding mask_nums [symmetric] unat_and_mask by simp_all

lemma ucast_low: "ucast (w :: u32) = (of_nat (unat w) :: 'a::len word)"
  by simp

text \<open>A marker in the high bits and a small value below it.\<close>

lemma mark_or:
  assumes "n < 64" 
  shows "(0x80 :: u8) OR of_nat n = of_nat (0x80 + n)"
    and "n < 32 \<Longrightarrow> (0xC0 :: u8) OR of_nat n = of_nat (0xC0 + n)"
    and "n < 16 \<Longrightarrow> (0xE0 :: u8) OR of_nat n = of_nat (0xE0 + n)"
    and "n < 8 \<Longrightarrow> (0xF0 :: u8) OR of_nat n = of_nat (0xF0 + n)"
    and "n < 4 \<Longrightarrow> (0xF8 :: u8) OR of_nat n = of_nat (0xF8 + n)"
    and "n < 2 \<Longrightarrow> (0xFC :: u8) OR of_nat n = of_nat (0xFC + n)"
proof -
  have "list_all (\<lambda>n. (0x80 :: u8) OR of_nat n = of_nat (0x80 + n) \<and>
     (n < 32 \<longrightarrow> (0xC0 :: u8) OR of_nat n = of_nat (0xC0 + n)) \<and>
     (n < 16 \<longrightarrow> (0xE0 :: u8) OR of_nat n = of_nat (0xE0 + n)) \<and>
     (n < 8 \<longrightarrow> (0xF0 :: u8) OR of_nat n = of_nat (0xF0 + n)) \<and>
     (n < 4 \<longrightarrow> (0xF8 :: u8) OR of_nat n = of_nat (0xF8 + n)) \<and>
     (n < 2 \<longrightarrow> (0xFC :: u8) OR of_nat n = of_nat (0xFC + n))) [0..<64]"
    by code_simp
  moreover have "n \<in> {0..<64}" using assms by simp
  ultimately have T: "(0x80 :: u8) OR of_nat n = of_nat (0x80 + n) \<and>
     (n < 32 \<longrightarrow> (0xC0 :: u8) OR of_nat n = of_nat (0xC0 + n)) \<and>
     (n < 16 \<longrightarrow> (0xE0 :: u8) OR of_nat n = of_nat (0xE0 + n)) \<and>
     (n < 8 \<longrightarrow> (0xF0 :: u8) OR of_nat n = of_nat (0xF0 + n)) \<and>
     (n < 4 \<longrightarrow> (0xF8 :: u8) OR of_nat n = of_nat (0xF8 + n)) \<and>
     (n < 2 \<longrightarrow> (0xFC :: u8) OR of_nat n = of_nat (0xFC + n))"
    unfolding list_all_iff set_upt by blast
  show "(0x80 :: u8) OR of_nat n = of_nat (0x80 + n)"
    and "n < 32 \<Longrightarrow> (0xC0 :: u8) OR of_nat n = of_nat (0xC0 + n)"
    and "n < 16 \<Longrightarrow> (0xE0 :: u8) OR of_nat n = of_nat (0xE0 + n)"
    and "n < 8 \<Longrightarrow> (0xF0 :: u8) OR of_nat n = of_nat (0xF0 + n)"
    and "n < 4 \<Longrightarrow> (0xF8 :: u8) OR of_nat n = of_nat (0xF8 + n)"
    and "n < 2 \<Longrightarrow> (0xFC :: u8) OR of_nat n = of_nat (0xFC + n)"
    using T by blast+
qed

lemma unat_drop6 [simp]: "unat (drop_bit 6 (w :: u32)) = unat w div 64"
  using unat_lt_2p32 [of w] by (simp only: unsigned_drop_bit_eq) (simp add: drop_bit_eq_div take_bit_eq_mod)

section \<open>Tails\<close>

lemma length_tail_bytes [simp]: "length (tail_bytes m n) = m"
  by (induction m) simp_all

lemma tail_bytes_snoc: "tail_bytes (Suc m) n = tail_bytes m (n div 64) @ [of_nat (0x80 + n mod 64)]"
  by (induction m) (simp_all add: div_mult2_eq)

lemma utf8_tail_bytes:
  assumes "n < 2 ^ 32"
  shows "utf8_tail m (of_nat (n div 64 ^ m)) \<lparr>rbuf = pre @ x # tail_bytes m n @ post, rpos = length pre, rrem = k\<rparr> =
    Some (of_nat n, \<lparr>rbuf = pre @ x # tail_bytes m n @ post, rpos = length pre + m + 1, rrem = k\<rparr>)"
proof (induction m arbitrary: pre x)
  case (Suc m)
  let ?t = "n div 64 ^ m mod 64"
  have t: "?t < 64" by simp
  have "(0x80 + a) mod 64 = a" if "a < 64" for a :: nat
    using that mod_mult_self1 [of a 2 64] by (simp add: add.commute)
  then have M: "(0x80 + ?t) mod 64 = ?t" using t by blast
  have S: "n div 64 ^ Suc m * 64 + ?t = n div 64 ^ m"
    by (metis div_mult2_eq div_mult_mod_eq mult.commute power_Suc)
  have A: "push_bit 6 (of_nat (n div 64 ^ Suc m) :: u32) OR of_nat ?t = of_nat (n div 64 ^ m)"
    using append_six_bits [OF t] S by metis
  have B: "(of_nat (0x80 + ?t) :: u8) AND 0xC0 = 0x80"
    "(ucast (of_nat (0x80 + ?t) :: u8) AND 0x3F :: u32) = of_nat ?t"
    using tail_byte_of_nat [of "0x80 + ?t"] t M by (simp_all del: of_nat_add)
  show ?case
    using Suc.IH [of "pre @ [x]" "of_nat (0x80 + ?t)"] A B
    by (simp add: get_unit_def nth_append Let_def del: of_nat_add push_bit_and push_bit_of_1)
qed simp

lemma utf8_put_tail_bytes:
  "utf8_put_tail (pre @ x # old @ post) (length pre) (length old) cp =
   Some (pre @ x # tail_bytes (length old) (unat cp) @ post, of_nat (unat cp div 64 ^ length old))"
proof (induction "length old" arbitrary: old cp post)
  case 0
  then show ?case by simp
next
  case (Suc m)
  then obtain old' b where old: "old = old' @ [b]" "length old' = m" by (metis length_Suc_conv_rev)
  have byte: "(0x80 :: u8) OR ucast (cp AND 0x3F) = of_nat (0x80 + unat cp mod 64)"
    using mark_or(1) [of "unat cp mod 64"] unfolding ucast_low low_bits by simp
  show ?case
    using Suc.hyps(1) [of old' "of_nat (0x80 + unat cp mod 64) # post" "drop_bit 6 cp"] old byte
    by (simp add: put_unit_def list_update_append tail_bytes_snoc div_mult2_eq mult.commute
        del: of_nat_add tail_bytes.simps(2))
qed

section \<open>UTF-8\<close>

lemma utf8_lead_enc:
  assumes "0 < n" "n < 2 ^ 31"
  defines "m \<equiv> tail_count n"
  defines "h \<equiv> n div 64 ^ m"
  shows "utf8_lead (of_nat (lead_mark m + h)) = Some (m, of_nat h)"
    and "0 < lead_mark m + h" "lead_mark m + h < 256"
    and "m \<le> 5" "m = 0 \<Longrightarrow> h = n" "m = 1 \<Longrightarrow> h < 32" "m = 2 \<Longrightarrow> h < 16" "m = 3 \<Longrightarrow> h < 8" "m = 4 \<Longrightarrow> h < 4"
      "m = 5 \<Longrightarrow> h < 2"
proof -
  have H: "m = 0 \<and> n < 128 \<and> h = n \<or> m = 1 \<and> h < 32 \<or> m = 2 \<and> h < 16 \<or> m = 3 \<and> h < 8 \<or> m = 4 \<and> h < 4 \<or> m = 5 \<and> h < 2"
    using assms(1,2) unfolding m_def h_def tail_count_def by auto
  then show "m \<le> 5" "m = 0 \<Longrightarrow> h = n" "m = 1 \<Longrightarrow> h < 32" "m = 2 \<Longrightarrow> h < 16" "m = 3 \<Longrightarrow> h < 8" "m = 4 \<Longrightarrow> h < 4"
      "m = 5 \<Longrightarrow> h < 2" by auto
  show B: "lead_mark m + h < 256" using H by (auto simp: lead_mark_def)
  show "0 < lead_mark m + h" using H assms(1) by (auto simp: lead_mark_def)
  show "utf8_lead (of_nat (lead_mark m + h)) = Some (m, of_nat h)"
    unfolding utf8_lead_of_nat [OF B] using H
    by (elim disjE conjE) (simp_all add: lead_mark_def del: of_nat_add of_nat_diff)
qed

lemma length_utf8_enc [simp]: "length (utf8_enc cp) = tail_count (unat cp) + 1"
  by (simp add: utf8_enc_def Let_def)

lemma utf8_read_enc:
  assumes ok: "utf8_ok cp" and n: "n < 0 \<or> int (length (utf8_enc cp)) \<le> n"
  shows "utf8_read \<lparr>rbuf = pre @ utf8_enc cp @ post, rpos = length pre, rrem = n\<rparr> =
    Some (cp, \<lparr>rbuf = pre @ utf8_enc cp @ post, rpos = length pre + length (utf8_enc cp),
               rrem = (if n < 0 then n else n - int (length (utf8_enc cp)))\<rparr>)"
proof -
  let ?N = "unat cp" let ?m = "tail_count ?N" let ?h = "?N div 64 ^ ?m"
  note L = utf8_lead_enc [of ?N]
  have N: "0 < ?N" "?N < 2 ^ 31" "?N < 2 ^ 32" using ok by (simp_all add: utf8_ok_def)
  have E: "utf8_enc cp = of_nat (lead_mark ?m + ?h) # tail_bytes ?m ?N" by (simp add: utf8_enc_def Let_def)
  have Z: "(of_nat (lead_mark ?m + ?h) :: u8) \<noteq> 0"
    using L(2,3) N by (simp add: word_eq_unat_iff unat_of_nat8 del: of_nat_add)
  have T: "utf8_tail ?m (of_nat ?h) \<lparr>rbuf = pre @ utf8_enc cp @ post, rpos = length pre, rrem = k\<rparr> =
    Some (cp, \<lparr>rbuf = pre @ utf8_enc cp @ post, rpos = length pre + length (utf8_enc cp), rrem = k\<rparr>)" for k
    using utf8_tail_bytes [OF N(3), of ?m pre "of_nat (lead_mark ?m + ?h)" post k] by (simp add: E)
  have g: "get_unit (pre @ utf8_enc cp @ post) (length pre) = Some (of_nat (lead_mark ?m + ?h))"
    by (simp add: get_unit_def E nth_append)
  have "n \<noteq> 0" using n by auto
  then show ?thesis using n T g Z L(1) [OF N(1,2)]
    by (auto simp: utf8_read_def simp del: of_nat_add)
qed

lemma tail_count_sbcnt: "tail_count (unat cp) = utf8_sbcnt cp"
  by (simp add: tail_count_def utf8_sbcnt_def word_le_nat_alt linorder_not_le [symmetric] del: not_le)

lemma utf8_lead_byte_mark:
  "unat v < 128 \<Longrightarrow> utf8_lead_byte 0 v = of_nat (lead_mark 0 + unat v)" (is "?A0 \<Longrightarrow> ?B0")
  "unat v < 32 \<Longrightarrow> utf8_lead_byte 1 v = of_nat (lead_mark 1 + unat v)" (is "?A1 \<Longrightarrow> ?B1")
  "unat v < 16 \<Longrightarrow> utf8_lead_byte 2 v = of_nat (lead_mark 2 + unat v)" (is "?A2 \<Longrightarrow> ?B2")
  "unat v < 8 \<Longrightarrow> utf8_lead_byte 3 v = of_nat (lead_mark 3 + unat v)" (is "?A3 \<Longrightarrow> ?B3")
  "unat v < 4 \<Longrightarrow> utf8_lead_byte 4 v = of_nat (lead_mark 4 + unat v)" (is "?A4 \<Longrightarrow> ?B4")
  "unat v < 2 \<Longrightarrow> utf8_lead_byte 5 v = of_nat (lead_mark 5 + unat v)" (is "?A5 \<Longrightarrow> ?B5")
proof -
  have low: "(ucast w :: u8) = of_nat n" if "unat w = n" for w :: u32 and n using that by auto
  have m: "?A1 \<Longrightarrow> (0xC0 :: u8) OR of_nat (unat v) = of_nat (0xC0 + unat v)"
    "?A2 \<Longrightarrow> (0xE0 :: u8) OR of_nat (unat v) = of_nat (0xE0 + unat v)"
    "?A3 \<Longrightarrow> (0xF0 :: u8) OR of_nat (unat v) = of_nat (0xF0 + unat v)"
    "?A4 \<Longrightarrow> (0xF8 :: u8) OR of_nat (unat v) = of_nat (0xF8 + unat v)"
    "?A5 \<Longrightarrow> (0xFC :: u8) OR of_nat (unat v) = of_nat (0xFC + unat v)"
    by (rule mark_or; linarith)+
  have "utf8_lead_byte 0 v = ucast (v AND 0xFF)" "utf8_lead_byte 1 v = 0xC0 OR ucast (v AND 0x1F)"
    "utf8_lead_byte 2 v = 0xE0 OR ucast (v AND 0x0F)" "utf8_lead_byte 3 v = 0xF0 OR ucast (v AND 0x07)"
    "utf8_lead_byte 4 v = 0xF8 OR ucast (v AND 0x03)" "utf8_lead_byte 5 v = 0xFC OR ucast (v AND 0x01)"
    unfolding utf8_lead_byte_def by simp_all
  note u = this [unfolded low [OF low_bits(7)] low [OF low_bits(2)] low [OF low_bits(3)] low [OF low_bits(4)]
      low [OF low_bits(5)] low [OF low_bits(6)]]
  have lm: "lead_mark 1 = 0xC0" "lead_mark 2 = 0xE0" "lead_mark 3 = 0xF0" "lead_mark 4 = 0xF8" "lead_mark 5 = 0xFC"
    by (simp_all add: lead_mark_def)
  show "?A0 \<Longrightarrow> ?B0" unfolding u by (simp add: lead_mark_def)
  show "?B1" if a: "?A1" using m(1) [OF a] unfolding u lm mod_less [OF a] by blast
  show "?B2" if a: "?A2" using m(2) [OF a] unfolding u lm mod_less [OF a] by blast
  show "?B3" if a: "?A3" using m(3) [OF a] unfolding u lm mod_less [OF a] by blast
  show "?B4" if a: "?A4" using m(4) [OF a] unfolding u lm mod_less [OF a] by blast
  show "?B5" if a: "?A5" using m(5) [OF a] unfolding u lm mod_less [OF a] by blast
qed

lemma utf8_lead_byte_enc:
  assumes "utf8_ok cp"
  shows "utf8_lead_byte (utf8_sbcnt cp) (of_nat (unat cp div 64 ^ utf8_sbcnt cp)) = hd (utf8_enc cp)"
proof -
  let ?N = "unat cp" let ?m = "tail_count ?N" let ?h = "?N div 64 ^ ?m" let ?v = "of_nat ?h :: u32"
  note L = utf8_lead_enc [of ?N]
  have N: "0 < ?N" "?N < 2 ^ 31" "?N < 2 ^ 32" using assms by (simp_all add: utf8_ok_def)
  have h: "unat ?v = ?h"
    by (rule unat_of_nat32) (use N(3) div_le_dividend [of ?N "64 ^ ?m"] in linarith)
  have z: "?h < 128" if "?m = 0" using that N by (auto simp: tail_count_def split: if_splits)
  note B = utf8_lead_byte_mark [of ?v, unfolded h]
  consider "?m = 0" | "?m = 1" | "?m = 2" | "?m = 3" | "?m = 4" | "?m = 5" using L(4) [OF N(1,2)] by linarith
  then have "utf8_lead_byte ?m ?v = of_nat (lead_mark ?m + ?h)"
  proof cases
    case 1 show ?thesis using B(1) [OF z [OF 1]] unfolding 1 .
  next
    case 2 show ?thesis using B(2) [OF L(6) [OF N(1,2) 2]] unfolding 2 .
  next
    case 3 show ?thesis using B(3) [OF L(7) [OF N(1,2) 3]] unfolding 3 .
  next
    case 4 show ?thesis using B(4) [OF L(8) [OF N(1,2) 4]] unfolding 4 .
  next
    case 5 show ?thesis using B(5) [OF L(9) [OF N(1,2) 5]] unfolding 5 .
  next
    case 6 show ?thesis using B(6) [OF L(10) [OF N(1,2) 6]] unfolding 6 .
  qed
  then show ?thesis unfolding tail_count_sbcnt [symmetric] h by (simp add: utf8_enc_def Let_def)
qed

lemma utf8_write_enc:
  assumes ok: "utf8_ok cp" and n: "n < 0 \<or> int (length (utf8_enc cp)) \<le> n" and l: "length old = length (utf8_enc cp)"
  shows "utf8_write \<lparr>wbuf = pre @ old @ post, wpos = length pre, wrem = n\<rparr> cp =
    Some (SUCCESS, \<lparr>wbuf = pre @ utf8_enc cp @ post, wpos = length pre + length (utf8_enc cp),
                    wrem = (if n < 0 then n else n - int (length (utf8_enc cp)))\<rparr>)"
proof -
  let ?m = "utf8_sbcnt cp"
  obtain x old' where old: "old = x # old'" "length old' = ?m"
    using l by (cases old) (auto simp: tail_count_sbcnt)
  have E: "utf8_enc cp = hd (utf8_enc cp) # tail_bytes ?m (unat cp)"
    by (simp add: utf8_enc_def Let_def tail_count_sbcnt)
  have "n \<noteq> 0" using n by auto
  then show ?thesis using n utf8_put_tail_bytes [of pre x old' post cp] old utf8_lead_byte_enc [OF ok]
    by (auto simp: E [symmetric] utf8_write_def Let_def put_unit_def tail_count_sbcnt list_update_append)
qed

lemma utf8_tail_safe:
  "rpos r + n < length (rbuf r) \<Longrightarrow>
   \<exists>cp' r'. utf8_tail n cp r = Some (cp', r') \<and> (cp' = BAD_FORMAT \<or> r' = r\<lparr>rpos := rpos r + n + 1\<rparr>)"
proof (induction n cp r rule: utf8_tail.induct)
  case (2 n cp r)
  then show ?case by (auto simp: get_unit_def Let_def)
qed simp

lemma utf8_read_safe:
  assumes "rd_bounded r"
  shows "\<exists>cp r'. utf8_read r = Some (cp, r') \<and>
    (cp = END_OF_STREAM \<or> cp = BAD_FORMAT \<or> rd_bounded r' \<and> rrem r' < rrem r)"
proof (cases "rrem r = 0")
  case False
  then have b: "0 < rrem r" "rpos r + nat (rrem r) \<le> length (rbuf r)" using assms by (auto simp: rd_bounded_def)
  then have g: "get_unit (rbuf r) (rpos r) = Some (rbuf r ! rpos r)" by (simp add: get_unit_def)
  show ?thesis
  proof (cases "rbuf r ! rpos r = 0 \<or> utf8_lead (rbuf r ! rpos r) = None")
    case True
    then show ?thesis using False g by (auto simp: utf8_read_def)
  next
    case nz: False
    then obtain m cp where l: "utf8_lead (rbuf r ! rpos r) = Some (m, cp)" by auto
    show ?thesis
    proof (cases "rrem r < int m + 1")
      case True
      then show ?thesis using False g nz l b by (auto simp: utf8_read_def)
    next
      case fits: False
      let ?r = "r\<lparr>rrem := rrem r - (int m + 1)\<rparr>"
      have "rpos ?r + m < length (rbuf ?r)" using b fits by (simp add: nat_le_iff)
      then obtain cp' r' where t: "utf8_tail m cp ?r = Some (cp', r')"
        "cp' = BAD_FORMAT \<or> r' = ?r\<lparr>rpos := rpos ?r + m + 1\<rparr>"
        using utf8_tail_safe by blast
      have "utf8_read r = Some (cp', r')" using False g nz l b fits t(1) by (simp add: utf8_read_def)
      moreover have "rd_bounded (?r\<lparr>rpos := rpos ?r + m + 1\<rparr>)"
        using b fits by (auto simp: rd_bounded_def nat_le_iff)
      ultimately show ?thesis using t(2) by auto
    qed
  qed
qed (simp add: utf8_read_def)

text \<open>Writing \<open>n\<close> units at the position of a counted destination that has them.\<close>

lemma wr_step_put:
  assumes "wr_bounded w" "0 < wrem w" "int (length new) \<le> wrem w"
    "w' = w\<lparr>wbuf := take (wpos w) (wbuf w) @ new @ drop (wpos w + length new) (wbuf w),
           wpos := wpos w + length new, wrem := wrem w - int (length new)\<rparr>"
  shows "wr_step w w'"
  using assms by (auto simp: wr_step_def wr_bounded_def nth_append min_def nat_le_iff)

lemma wr_split:
  assumes "wr_bounded w" "int n \<le> wrem w"
  obtains pre old post where "wbuf w = pre @ old @ post" "wpos w = length pre" "length old = n"
proof -
  have "wpos w + n \<le> length (wbuf w)" using assms by (auto simp: wr_bounded_def nat_le_iff)
  moreover have "wbuf w = take (wpos w) (wbuf w) @ take n (drop (wpos w) (wbuf w)) @ drop n (drop (wpos w) (wbuf w))"
    by (metis append_take_drop_id)
  ultimately show ?thesis
    by (intro that [of "take (wpos w) (wbuf w)" "take n (drop (wpos w) (wbuf w))" "drop n (drop (wpos w) (wbuf w))"]) simp_all
qed

lemma utf8_write_safe:
  assumes "wr_bounded w"
  shows "\<exists>st w'. utf8_write w cp = Some (st, w') \<and> wr_step w w'"
proof (cases "wrem w = 0 \<or> wrem w < int (utf8_sbcnt cp) + 1")
  case True
  then show ?thesis using assms wr_step_refl [OF assms] by (auto simp: utf8_write_def wr_bounded_def)
next
  case False
  then have p: "0 < wrem w" "int (utf8_sbcnt cp + 1) \<le> wrem w" using assms by (auto simp: wr_bounded_def)
  obtain pre old post where w: "wbuf w = pre @ old @ post" "wpos w = length pre" "length old = utf8_sbcnt cp + 1"
    using wr_split [OF assms p(2)] .
  then obtain x old' where old: "old = x # old'" "length old' = utf8_sbcnt cp" by (cases old) auto
  let ?m = "utf8_sbcnt cp"
  let ?new = "utf8_lead_byte ?m (of_nat (unat cp div 64 ^ ?m)) # tail_bytes ?m (unat cp)"
  have "utf8_write w cp = Some (SUCCESS,
      w\<lparr>wrem := wrem w - int (length ?new), wbuf := pre @ ?new @ post, wpos := wpos w + length ?new\<rparr>)"
    using False p utf8_put_tail_bytes [of pre x old' post cp] w old
    by (simp add: utf8_write_def Let_def put_unit_def list_update_append)
  moreover have "wr_step w (w\<lparr>wrem := wrem w - int (length ?new), wbuf := pre @ ?new @ post, wpos := wpos w + length ?new\<rparr>)"
    by (rule wr_step_put [OF assms p(1), where new = ?new]) (use p w old in simp_all)
  ultimately show ?thesis by blast
qed

section \<open>UTF-16 and UTF-32\<close>

lemma length_ucs2_enc [simp]: "length (ucs2_enc cp) = (if unat cp < 0x10000 then 1 else 2)"
  by (simp add: ucs2_enc_def Let_def)

lemma unat_of_nat16: "n < 2 ^ 16 \<Longrightarrow> unat (of_nat n :: u16) = n"
  by (simp add: unsigned_of_nat take_bit_nat_eq_self)

lemma unat_ucast_16_32: "unat (ucast (w :: u16) :: u32) = unat w"
  by (simp add: unsigned_ucast_eq take_bit_nat_eq_self unsigned_less less_le_trans [OF unsigned_less])

lemma ucs2_read_enc:
  assumes ok: "ucs2_ok cp" and n: "n < 0 \<or> int (length (ucs2_enc cp)) \<le> n"
  shows "ucs2_read \<lparr>rbuf = pre @ ucs2_enc cp @ post, rpos = length pre, rrem = n\<rparr> =
    Some (cp, \<lparr>rbuf = pre @ ucs2_enc cp @ post, rpos = length pre + length (ucs2_enc cp),
               rrem = (if n < 0 then n else n - int (length (ucs2_enc cp)))\<rparr>)"
proof (cases "unat cp < 0x10000")
  case True
  obtain c :: u16 where c: "c = of_nat (unat cp)" by blast
  have u: "unat c = unat cp" unfolding c using True by (intro unat_of_nat16) simp
  have "(ucast c :: u32) = cp" using u unat_ucast_16_32 [of c] by (simp add: word_eq_unat_iff)
  moreover have "c \<noteq> 0" "\<not> (0xD800 \<le> c \<and> c \<le> 0xDBFF)" "\<not> (0xDC00 \<le> c \<and> c \<le> 0xDFFF)"
    using ok u by (auto simp: ucs2_ok_def word_le_nat_alt word_eq_unat_iff)
  moreover have "ucs2_enc cp = [c]" using True unfolding ucs2_enc_def c by simp
  ultimately show ?thesis using n True
    by (auto simp: ucs2_read_def Let_def get_unit_def nth_append)
next
  case False
  let ?n = "unat cp - 0x10000"
  define h l where hl: "h = ?n div 1024" "l = ?n mod 1024"
  have N: "?n < 1024 * 1024" using ok False by (simp add: ucs2_ok_def)
  have b: "h < 1024" unfolding hl using N by (simp add: less_mult_imp_div_less)
  have b2: "l < 1024" unfolding hl by simp
  have b3: "h * 1024 + l = ?n" unfolding hl by simp
  define c t :: u16 where ct: "c = of_nat (0xD800 + h)" "t = of_nat (0xDC00 + l)"
  have E: "ucs2_enc cp = [c, t]" using False unfolding ucs2_enc_def hl ct Let_def by (simp only: if_False)
  have u: "unat c = 0xD800 + h" "unat t = 0xDC00 + l"
    unfolding ct using b b2 by (intro unat_of_nat16, simp)+
  have r: "c \<noteq> 0" "0xD800 \<le> c" "c \<le> 0xDBFF" "0xDC00 \<le> t" "t \<le> 0xDFFF"
    using u b b2 by (simp_all add: word_le_nat_alt word_eq_unat_iff)
  have "unat (c - 0xD800) = h" "unat (t - 0xDC00) = l" using u r by (simp_all add: unat_sub)
  then have d: "ucast (c - 0xD800) = (of_nat h :: u32)" "ucast (t - 0xDC00) = (of_nat l :: u32)"
    by (metis of_nat_unat)+
  have p: "push_bit 10 (ucast (c - 0xD800) :: u32) OR ucast (t - 0xDC00) = of_nat ?n"
    unfolding d b3 [symmetric] using append_bits [of l 10 h] b2 by simp
  have "?n + 0x10000 = unat cp" using False by simp
  then have "of_nat ?n + (0x10000 :: u32) = cp" by (metis of_nat_add of_nat_numeral of_nat_unat ucast_id)
  then have v: "(push_bit 10 (ucast (c - 0xD800)) OR ucast (t - 0xDC00)) + 0x10000 = cp" by (simp only: p)
  have l2: "length (ucs2_enc cp) = 2" using False by simp
  have g: "get_unit (pre @ [c, t] @ post) (length pre) = Some c"
    "get_unit (pre @ [c, t] @ post) (length pre + 1) = Some t"
    by (simp_all add: get_unit_def nth_append)
  have "n \<noteq> 0" "\<not> (n > 0 \<and> n < 2)" using n l2 by auto
  then show ?thesis unfolding l2 unfolding E ucs2_read_def Let_def using r g v
    by simp
qed

lemma ucs2_read_safe:
  assumes "rd_bounded r"
  shows "\<exists>cp r'. ucs2_read r = Some (cp, r') \<and>
    (cp = END_OF_STREAM \<or> cp = BAD_FORMAT \<or> rd_bounded r' \<and> rrem r' < rrem r)"
proof (cases "rrem r = 0")
  case False
  then have b: "0 < rrem r" "rpos r + nat (rrem r) \<le> length (rbuf r)" using assms by (auto simp: rd_bounded_def)
  then have g: "rpos r < length (rbuf r)" "rrem r < 2 \<or> Suc (rpos r) < length (rbuf r)" by auto
  then show ?thesis using b
    by (auto simp: ucs2_read_def get_unit_def rd_bounded_def Let_def nat_le_iff)
qed (simp add: ucs2_read_def)

text \<open>The two units of a code point above the basic plane.\<close>

lemma surrogates:
  fixes cp :: u32
  assumes "0x10000 \<le> unat cp" "unat cp < 0x110000"
  shows "(ucast (drop_bit 10 ((cp - 0x10000) AND 0xFFC00)) + 0xD800 :: u16) = of_nat (0xD800 + (unat cp - 0x10000) div 1024)"
    "(ucast ((cp - 0x10000) AND 0x3FF) + 0xDC00 :: u16) = of_nat (0xDC00 + (unat cp - 0x10000) mod 1024)"
proof -
  let ?c = "cp - 0x10000"
  have c: "unat ?c = unat cp - 0x10000" using assms by (simp add: unat_sub_if' word_le_nat_alt)
  have "drop_bit 10 (?c AND 0xFFC00) = drop_bit 10 ?c AND 0x3FF"
    by (simp add: drop_bit_and)
  moreover have "unat (drop_bit 10 ?c AND 0x3FF) = (unat cp - 0x10000) div 1024"
  proof -
    have "unat (drop_bit 10 ?c) = unat ?c div 1024"
      using unat_lt_2p32 [of ?c] by (simp only: unsigned_drop_bit_eq) (simp add: drop_bit_eq_div take_bit_eq_mod)
    then show ?thesis unfolding low_bits using c assms(2) by simp
  qed
  ultimately have "unat (drop_bit 10 (?c AND 0xFFC00)) = (unat cp - 0x10000) div 1024" by simp
  then have "(ucast (drop_bit 10 (?c AND 0xFFC00)) :: u16) = of_nat ((unat cp - 0x10000) div 1024)"
    by (simp only: ucast_low)
  then show "(ucast (drop_bit 10 (?c AND 0xFFC00)) + 0xD800 :: u16) = of_nat (0xD800 + (unat cp - 0x10000) div 1024)"
    by (simp only: of_nat_add) simp
  have "(ucast (?c AND 0x3FF) :: u16) = of_nat ((unat cp - 0x10000) mod 1024)"
    by (simp only: ucast_low low_bits c)
  then show "(ucast (?c AND 0x3FF) + 0xDC00 :: u16) = of_nat (0xDC00 + (unat cp - 0x10000) mod 1024)"
    by (simp only: of_nat_add) simp
qed

lemma ucs2_write_enc:
  assumes ok: "ucs2_ok cp" and n: "n < 0 \<or> int (length (ucs2_enc cp)) \<le> n" and l: "length old = length (ucs2_enc cp)"
  shows "ucs2_write \<lparr>wbuf = pre @ old @ post, wpos = length pre, wrem = n\<rparr> cp =
    Some (SUCCESS, \<lparr>wbuf = pre @ ucs2_enc cp @ post, wpos = length pre + length (ucs2_enc cp),
                    wrem = (if n < 0 then n else n - int (length (ucs2_enc cp)))\<rparr>)"
proof -
  have r: "cp \<le> 0x10FFFF" "n \<noteq> 0" using ok n by (auto simp: ucs2_ok_def word_le_nat_alt split: if_splits)
  show ?thesis
  proof (cases "unat cp < 0x10000")
    case True
    then obtain x where "old = [x]" using l by (auto simp: length_Suc_conv)
    moreover have "ucs2_enc cp = [ucast cp]" using True by (simp add: ucs2_enc_def)
    ultimately show ?thesis using True r n
      by (auto simp: ucs2_write_def put_unit_def Let_def word_le_nat_alt word_less_nat_alt)
  next
    case False
    then obtain x y where old: "old = [x, y]" using l by (auto simp: length_Suc_conv numeral_2_eq_2)
    have s: "0x10000 \<le> unat cp" "unat cp < 0x110000" using False ok by (auto simp: ucs2_ok_def)
    have "ucs2_enc cp = [ucast (drop_bit 10 ((cp - 0x10000) AND 0xFFC00)) + 0xD800, ucast ((cp - 0x10000) AND 0x3FF) + 0xDC00]"
      using False unfolding surrogates [OF s] ucs2_enc_def Let_def by simp
    then show ?thesis using False r n old
      by (auto simp: ucs2_write_def put_unit_def Let_def word_le_nat_alt word_less_nat_alt list_update_append)
  qed
qed

lemma ucs2_write_safe:
  assumes "wr_bounded w"
  shows "\<exists>st w'. ucs2_write w cp = Some (st, w') \<and> wr_step w w'"
proof (cases "wrem w = 0 \<or> 0x10FFFF < cp \<or> 0x10000 \<le> cp \<and> wrem w < 2")
  case True
  then show ?thesis using assms wr_step_refl [OF assms] by (auto simp: ucs2_write_def wr_bounded_def)
next
  case False
  then have p: "0 < wrem w" using assms by (auto simp: wr_bounded_def)
  then have g: "wpos w < length (wbuf w)" "wrem w < 2 \<or> Suc (wpos w) < length (wbuf w)"
    using assms by (auto simp: wr_bounded_def)
  then show ?thesis using False p assms
    by (auto simp: ucs2_write_def put_unit_def Let_def wr_step_def wr_bounded_def nat_le_iff nth_list_update)
qed

lemma ucs4_write_safe:
  assumes "wr_bounded w"
  shows "\<exists>st w'. ucs4_write w cp = Some (st, w') \<and> wr_step w w'"
proof (cases "wrem w = 0")
  case True
  then show ?thesis using wr_step_refl [OF assms] by (auto simp: ucs4_write_def)
next
  case False
  then show ?thesis using assms
    by (auto simp: ucs4_write_def put_unit_def Let_def wr_step_def wr_bounded_def nat_le_iff nth_list_update)
qed

end
