(* ===== verification/UtfProps.thy ===== *)
theory UtfProps
  imports UtfCodecs
begin

text \<open>
  The interpretations of the contracts of \<open>UtfSpec\<close> on the readers and writers of
  src/utfconv.cpp, and the properties of \<open>utfConv\<close>: memory safety on any input, the
  conversion of well-formed text, and the round trip.
\<close>

section \<open>The codecs meet the contracts\<close>

lemma utf8_ok_valid: "utf8_ok cp \<Longrightarrow> cp \<noteq> END_OF_STREAM \<and> cp \<noteq> BAD_FORMAT"
  by (auto simp: utf8_ok_def END_OF_STREAM_def BAD_FORMAT_def)

lemma ucs2_ok_valid: "ucs2_ok cp \<Longrightarrow> cp \<noteq> END_OF_STREAM \<and> cp \<noteq> BAD_FORMAT"
  by (auto simp: ucs2_ok_def END_OF_STREAM_def BAD_FORMAT_def)

lemma enc_ne: "utf8_enc cp \<noteq> []" "ucs2_enc cp \<noteq> []" "ucs4_enc cp \<noteq> []"
  by (simp_all add: utf8_enc_def ucs2_enc_def ucs4_enc_def Let_def)

lemma utf8_write_full:
  "0 \<le> wrem w \<Longrightarrow> wrem w < int (length (utf8_enc cp)) \<Longrightarrow> utf8_write w cp = Some (END_OF_STREAM, w)"
  by (auto simp: utf8_write_def tail_count_sbcnt)

lemma ucs2_write_full:
  "ucs2_ok cp \<Longrightarrow> 0 \<le> wrem w \<Longrightarrow> wrem w < int (length (ucs2_enc cp)) \<Longrightarrow> ucs2_write w cp = Some (END_OF_STREAM, w)"
  by (auto simp: ucs2_write_def ucs2_ok_def word_le_nat_alt word_less_nat_alt split: if_splits)

lemma ucs4_read_safe:
  assumes "rd_bounded r"
  shows "\<exists>cp r'. ucs4_read r = Some (cp, r') \<and>
    (cp = END_OF_STREAM \<or> cp = BAD_FORMAT \<or> rd_bounded r' \<and> rrem r' < rrem r)"
proof (cases "rrem r = 0")
  case False
  then show ?thesis using assms
    by (auto simp: ucs4_read_def get_unit_def rd_bounded_def Let_def nat_le_iff)
qed (simp add: ucs4_read_def)

interpretation utf8_dec: uc_decoder utf8_read utf8_enc utf8_ok
proof unfold_locales
  show "utf8_read r = Some (END_OF_STREAM, r)" if "rrem r = 0 \<or> rpos r < length (rbuf r) \<and> rbuf r ! rpos r = 0" for r
    using that by (auto simp: utf8_read_def get_unit_def)
qed (rule utf8_read_safe utf8_ok_valid utf8_read_enc; assumption)+

interpretation ucs2_dec: uc_decoder ucs2_read ucs2_enc ucs2_ok
proof unfold_locales
  show "ucs2_read r = Some (END_OF_STREAM, r)" if "rrem r = 0 \<or> rpos r < length (rbuf r) \<and> rbuf r ! rpos r = 0" for r
    using that by (auto simp: ucs2_read_def get_unit_def)
qed (rule ucs2_read_safe ucs2_ok_valid ucs2_read_enc; assumption)+

interpretation ucs4_dec: uc_decoder ucs4_read ucs4_enc ucs4_ok
  by unfold_locales (rule ucs4_read_safe, assumption,
      auto simp: ucs4_read_def get_unit_def ucs4_enc_def ucs4_ok_def nth_append Let_def)

interpretation utf8_encd: uc_encoder utf8_write utf8_enc utf8_ok
  by unfold_locales (rule utf8_write_safe enc_ne utf8_write_full utf8_write_enc; assumption)+

interpretation ucs2_encd: uc_encoder ucs2_write ucs2_enc ucs2_ok
  by unfold_locales (rule ucs2_write_safe enc_ne ucs2_write_full ucs2_write_enc; assumption)+

interpretation ucs4_encd: uc_encoder ucs4_write ucs4_enc ucs4_ok
proof unfold_locales
  fix cp :: u32 and n :: int and old pre post :: "u32 list"
  assume "n < 0 \<or> int (length (ucs4_enc cp)) \<le> n" "length old = length (ucs4_enc cp)"
  then show "ucs4_write \<lparr>wbuf = pre @ old @ post, wpos = length pre, wrem = n\<rparr> cp =
      Some (SUCCESS, \<lparr>wbuf = pre @ ucs4_enc cp @ post, wpos = length pre + length (ucs4_enc cp),
                      wrem = (if n < 0 then n else n - int (length (ucs4_enc cp)))\<rparr>)"
    by (auto simp: ucs4_write_def put_unit_def ucs4_enc_def length_Suc_conv Let_def)
qed (rule ucs4_write_safe, assumption, auto simp: ucs4_enc_def ucs4_write_def)

interpretation c88: uc_conv utf8_read utf8_enc utf8_ok utf8_write utf8_enc utf8_ok by unfold_locales
interpretation c82: uc_conv utf8_read utf8_enc utf8_ok ucs2_write ucs2_enc ucs2_ok by unfold_locales
interpretation c84: uc_conv utf8_read utf8_enc utf8_ok ucs4_write ucs4_enc ucs4_ok by unfold_locales
interpretation c28: uc_conv ucs2_read ucs2_enc ucs2_ok utf8_write utf8_enc utf8_ok by unfold_locales
interpretation c22: uc_conv ucs2_read ucs2_enc ucs2_ok ucs2_write ucs2_enc ucs2_ok by unfold_locales
interpretation c24: uc_conv ucs2_read ucs2_enc ucs2_ok ucs4_write ucs4_enc ucs4_ok by unfold_locales
interpretation c48: uc_conv ucs4_read ucs4_enc ucs4_ok utf8_write utf8_enc utf8_ok by unfold_locales
interpretation c42: uc_conv ucs4_read ucs4_enc ucs4_ok ucs2_write ucs2_enc ucs2_ok by unfold_locales
interpretation c44: uc_conv ucs4_read ucs4_enc ucs4_ok ucs4_write ucs4_enc ucs4_ok by unfold_locales

section \<open>Buffers of any width\<close>

fun units_length :: "units \<Rightarrow> nat" where
  "units_length (U8 s) = length s" | "units_length (U16 s) = length s"
| "units_length (U32 s) = length s" | "units_length UOther = 0"

text \<open>The source holds exactly this text, ended by the count or a null.\<close>

fun holds_text :: "units \<Rightarrow> int \<Rightarrow> u32 list \<Rightarrow> bool" where
  "holds_text (U8 s) n cps \<longleftrightarrow> src_at utf8_enc (reader s n) cps \<and> (\<forall>cp \<in> set cps. utf8_ok cp)"
| "holds_text (U16 s) n cps \<longleftrightarrow> src_at ucs2_enc (reader s n) cps \<and> (\<forall>cp \<in> set cps. ucs2_ok cp)"
| "holds_text (U32 s) n cps \<longleftrightarrow> src_at ucs4_enc (reader s n) cps \<and> (\<forall>cp \<in> set cps. ucs4_ok cp)"
| "holds_text UOther n cps \<longleftrightarrow> False"

text \<open>The destination has room as its count says, and its encoding can express the text.\<close>

fun has_room :: "units \<Rightarrow> int \<Rightarrow> u32 list \<Rightarrow> bool" where
  "has_room (U8 d) n cps \<longleftrightarrow> dst_room utf8_enc (writer d n) cps \<and> (\<forall>cp \<in> set cps. utf8_ok cp)"
| "has_room (U16 d) n cps \<longleftrightarrow> dst_room ucs2_enc (writer d n) cps \<and> (\<forall>cp \<in> set cps. ucs2_ok cp)"
| "has_room (U32 d) n cps \<longleftrightarrow> dst_room ucs4_enc (writer d n) cps \<and> (\<forall>cp \<in> set cps. ucs4_ok cp)"
| "has_room UOther n cps \<longleftrightarrow> False"

fun fit_count :: "units \<Rightarrow> int \<Rightarrow> u32 list \<Rightarrow> int" where
  "fit_count (U8 d) n cps = int (length (fit utf8_enc n cps))"
| "fit_count (U16 d) n cps = int (length (fit ucs2_enc n cps))"
| "fit_count (U32 d) n cps = int (length (fit ucs4_enc n cps))"
| "fit_count UOther n cps = 0"

fun written_text :: "units \<Rightarrow> int \<Rightarrow> u32 list \<Rightarrow> units" where
  "written_text (U8 d) n cps = U8 (dst_text utf8_enc (writer d n) cps)"
| "written_text (U16 d) n cps = U16 (dst_text ucs2_enc (writer d n) cps)"
| "written_text (U32 d) n cps = U32 (dst_text ucs4_enc (writer d n) cps)"
| "written_text UOther n cps = UOther"

lemma wrem_writer [simp]: "wrem (writer d n) = n" "wpos (writer d n) = 0" "wbuf (writer d n) = d"
  by (simp_all add: writer_def)

text \<open>One conversion of well-formed text, for any pair of widths.\<close>

lemma utfConv_text:
  assumes "holds_text src scnt cps" "has_room dst dcnt cps"
  shows "utfConv src dst scnt dcnt = Some (fit_count dst dcnt cps, written_text dst dcnt cps)"
  using assms
  by (cases src; cases dst)
    (auto simp: utfConv_def conv_to_def
      dest: c88.conv_loop_text [where k = 0] c82.conv_loop_text [where k = 0] c84.conv_loop_text [where k = 0]
        c28.conv_loop_text [where k = 0] c22.conv_loop_text [where k = 0] c24.conv_loop_text [where k = 0]
        c48.conv_loop_text [where k = 0] c42.conv_loop_text [where k = 0] c44.conv_loop_text [where k = 0])

text \<open>Two buffers of one width and length that agree from index \<open>k\<close> on.\<close>

fun agree_from :: "nat \<Rightarrow> units \<Rightarrow> units \<Rightarrow> bool" where
  "agree_from k (U8 a) (U8 b) \<longleftrightarrow> length a = length b \<and> drop k a = drop k b"
| "agree_from k (U16 a) (U16 b) \<longleftrightarrow> length a = length b \<and> drop k a = drop k b"
| "agree_from k (U32 a) (U32 b) \<longleftrightarrow> length a = length b \<and> drop k a = drop k b"
| "agree_from k UOther UOther \<longleftrightarrow> True"
| "agree_from k _ _ \<longleftrightarrow> False"

lemma dst_kept_drop:
  assumes "dst_kept w d'" "wpos w = 0" "0 \<le> wrem w"
  shows "length (wbuf w) = length d' \<and> drop (nat (wrem w)) (wbuf w) = drop (nat (wrem w)) d'"
  using assms by (auto simp: dst_kept_def intro!: nth_equalityI)

lemma bounded_start:
  "0 \<le> n \<Longrightarrow> n \<le> int (length b) \<Longrightarrow> rd_bounded (reader b n)"
  "0 \<le> n \<Longrightarrow> n \<le> int (length d) \<Longrightarrow> wr_bounded (writer d n)"
  by (auto simp: rd_bounded_def wr_bounded_def reader_def writer_def)

text \<open>The loop between two counted buffers, as the two dispatches use it.\<close>

lemma conv_counted:
  assumes "uc_safe rd wr" "0 \<le> n" "n \<le> int (length b)" "0 \<le> k" "k \<le> int (length d)"
  obtains c w' where "conv_loop rd wr uc_closure (reader b n) (writer d k) 0 = Some (c, w')"
    "0 \<le> c" "c \<le> n" "length d = length (wbuf w')" "drop (nat k) d = drop (nat k) (wbuf w')"
proof -
  obtain c w' where C: "conv_loop rd wr uc_closure (reader b n) (writer d k) 0 = Some (c, w')"
    "0 \<le> c" "c \<le> rrem (reader b n)" "dst_kept (writer d k) (wbuf w')"
    using uc_safe.conv_loop_safe [OF assms(1) bounded_start(1) [OF assms(2,3)] bounded_start(2) [OF assms(4,5)], where k = 0]
    by auto
  then show ?thesis using dst_kept_drop [OF C(4)] assms by (intro that [of c w']) (auto simp: reader_def)
qed

lemma conv_to_safe:
  assumes rd: "uc_reader rd" and b: "0 \<le> n" "n \<le> int (length b)" and d: "0 \<le> k" "k \<le> int (units_length dst)" "dst \<noteq> UOther"
  shows "\<exists>c dst'. conv_to rd (reader b n) dst k = Some (c, dst') \<and> 0 \<le> c \<and> c \<le> n \<and> agree_from (nat k) dst dst'"
proof (cases dst)
  case (U8 x)
  with d have x: "k \<le> int (length x)" by simp
  obtain c w' where "conv_loop rd utf8_write uc_closure (reader b n) (writer x k) 0 = Some (c, w')"
    "0 \<le> c" "c \<le> n" "length x = length (wbuf w')" "drop (nat k) x = drop (nat k) (wbuf w')"
    using conv_counted [OF uc_safe.intro [OF rd utf8_encd.uc_writer_axioms] b d(1) x] by blast
  then show ?thesis by (auto simp: U8 conv_to_def)
next
  case (U16 x)
  with d have x: "k \<le> int (length x)" by simp
  obtain c w' where "conv_loop rd ucs2_write uc_closure (reader b n) (writer x k) 0 = Some (c, w')"
    "0 \<le> c" "c \<le> n" "length x = length (wbuf w')" "drop (nat k) x = drop (nat k) (wbuf w')"
    using conv_counted [OF uc_safe.intro [OF rd ucs2_encd.uc_writer_axioms] b d(1) x] by blast
  then show ?thesis by (auto simp: U16 conv_to_def)
next
  case (U32 x)
  with d have x: "k \<le> int (length x)" by simp
  obtain c w' where "conv_loop rd ucs4_write uc_closure (reader b n) (writer x k) 0 = Some (c, w')"
    "0 \<le> c" "c \<le> n" "length x = length (wbuf w')" "drop (nat k) x = drop (nat k) (wbuf w')"
    using conv_counted [OF uc_safe.intro [OF rd ucs4_encd.uc_writer_axioms] b d(1) x] by blast
  then show ?thesis by (auto simp: U32 conv_to_def)
qed (use d in simp)

section \<open>Properties\<close>

text \<open>
  C30: Memory safety and error result of \<open>utfConv\<close> on any input, well-formed or not: with a
  character type of an unsupported width it returns -1 and leaves the destination alone;
  otherwise, when the counts lie within the buffers, it returns (no access is outside of the
  first \<open>scnt\<close> and \<open>dcnt\<close> units), the number of code points is at most the source count, and
  no unit of the destination from \<open>dcnt\<close> on is changed.
\<close>

theorem utf_conv_safe:
  assumes "0 \<le> scnt" "scnt \<le> int (units_length src)" "0 \<le> dcnt" "dcnt \<le> int (units_length dst)"
  shows "if src = UOther \<or> dst = UOther then utfConv src dst scnt dcnt = Some (- 1, dst)
    else \<exists>n dst'. utfConv src dst scnt dcnt = Some (n, dst') \<and> 0 \<le> n \<and> n \<le> scnt \<and> agree_from (nat dcnt) dst dst'"
proof (cases "src = UOther \<or> dst = UOther")
  case True
  then show ?thesis by (cases src; cases dst) (auto simp: utfConv_def conv_to_def)
next
  case False
  then have "\<exists>n dst'. utfConv src dst scnt dcnt = Some (n, dst') \<and> 0 \<le> n \<and> n \<le> scnt \<and> agree_from (nat dcnt) dst dst'"
    using assms conv_to_safe [OF utf8_dec.uc_reader_axioms assms(1) _ assms(3,4)]
      conv_to_safe [OF ucs2_dec.uc_reader_axioms assms(1) _ assms(3,4)]
      conv_to_safe [OF ucs4_dec.uc_reader_axioms assms(1) _ assms(3,4)]
    by (cases src) (simp_all add: utfConv_def)
  then show ?thesis using False by simp
qed

text \<open>A truncated UTF-8 source, a null inside it, and two units of room for the result.\<close>

theorem utf_conv_safe_witness:
  "utfConv (U8 [0x41, 0xE2, 0x82]) (U16 [1, 2, 3]) 3 2 = Some (1, U16 [0x41, 0, 3]) \<and>
   (\<exists>n dst'. utfConv (U8 [0x41, 0xE2, 0x82]) (U16 [1, 2, 3]) 3 2 = Some (n, dst') \<and> 0 \<le> n \<and> n \<le> 3 \<and>
      agree_from (nat 2) (U16 [1, 2, 3]) dst')"
proof
  show "utfConv (U8 [0x41, 0xE2, 0x82]) (U16 [1, 2, 3]) 3 2 = Some (1, U16 [0x41, 0, 3])" by code_simp
  show "\<exists>n dst'. utfConv (U8 [0x41, 0xE2, 0x82]) (U16 [1, 2, 3]) 3 2 = Some (n, dst') \<and> 0 \<le> n \<and> n \<le> 3 \<and>
      agree_from (nat 2) (U16 [1, 2, 3]) dst'"
    using utf_conv_safe [of 3 "U8 [0x41, 0xE2, 0x82]" 2 "U16 [1, 2, 3]"] by simp
qed


text \<open>The three characters 0x41, 0x20AC, 0x1F600 from UTF-8 to UTF-16, with room for two of them.\<close>

abbreviation sample8 :: "u8 list" where
  "sample8 \<equiv> [0x41, 0xE2, 0x82, 0xAC, 0xF0, 0x9F, 0x98, 0x80]"

lemma utf8_enc_by:
  "unat cp = n \<Longrightarrow> tail_count n = m \<Longrightarrow> utf8_enc cp = of_nat (lead_mark m + n div 64 ^ m) # tail_bytes m n"
  unfolding utf8_enc_def Let_def by simp

lemma sample8_enc: "concat (map utf8_enc [0x41, 0x20AC, 0x1F600]) = sample8"
proof -
  have "utf8_enc 0x41 = [0x41]"
    by (subst utf8_enc_by [where n = "0x41" and m = 0]) (simp_all add: tail_count_def lead_mark_def)
  moreover have "utf8_enc 0x20AC = [0xE2, 0x82, 0xAC]"
    by (subst utf8_enc_by [where n = "0x20AC" and m = "Suc (Suc 0)"]) (simp_all add: tail_count_def lead_mark_def)
  moreover have "utf8_enc 0x1F600 = [0xF0, 0x9F, 0x98, 0x80]"
    by (subst utf8_enc_by [where n = "0x1F600" and m = "Suc (Suc (Suc 0))"]) (simp_all add: tail_count_def lead_mark_def)
  ultimately show ?thesis by simp
qed

lemma sample_holds: "holds_text (U8 sample8) 8 [0x41, 0x20AC, 0x1F600]"
proof -
  have "src_at utf8_enc (reader sample8 8) [0x41, 0x20AC, 0x1F600]"
    unfolding src_at_def sample8_enc by (intro exI [of _ "[]"]) (simp add: reader_def)
  then show ?thesis by (simp add: utf8_ok_def)
qed


lemma fit_unbounded: "n < 0 \<Longrightarrow> fit enc n cps = cps"
  by (induction cps) simp_all

lemma dst_text_src_at:
  assumes "n < 0"
  shows "src_at enc (reader (dst_text enc (writer d n) cps) (- 1)) cps"
  using assms unfolding src_at_def
  by (intro exI [of _ "[]"] exI [of _ "0 # drop (length (concat (map enc cps)) + 1) d"])
    (simp add: dst_text_def fit_unbounded reader_def Let_def)

lemma written_holds:
  "n < 0 \<Longrightarrow> has_room dst n cps \<Longrightarrow> holds_text (written_text dst n cps) (- 1) cps"
  by (cases dst) (auto intro: dst_text_src_at)

lemma fit_count_unbounded: "n < 0 \<Longrightarrow> has_room dst n cps \<Longrightarrow> fit_count dst n cps = int (length cps)"
  by (cases dst) (auto simp: fit_unbounded)

text \<open>
  Round trip: text converted to any width that can express it and back, through buffers
  with enough room, is the same text, null-terminated, and both calls count all code points.
\<close>

theorem utf_conv_roundtrip:
  assumes "holds_text src scnt cps" "has_room mid (- 1) cps" "has_room back (- 1) cps"
  shows "\<exists>mid' back'. utfConv src mid scnt (- 1) = Some (int (length cps), mid') \<and>
    utfConv mid' back (- 1) (- 1) = Some (int (length cps), back') \<and>
    back' = written_text back (- 1) cps \<and> holds_text back' (- 1) cps"
  using utfConv_text [OF assms(1,2)] utfConv_text [OF written_holds [OF _ assms(2)] assms(3)]
    written_holds [OF _ assms(3)] fit_count_unbounded [OF _ assms(2)] fit_count_unbounded [OF _ assms(3)]
  by simp

theorem utf_conv_roundtrip_witness:
  "\<exists>mid' back'. utfConv (U8 sample8) (U16 (replicate 5 9)) 8 (- 1) = Some (3, mid') \<and>
    utfConv mid' (U8 (replicate 9 9)) (- 1) (- 1) = Some (3, back') \<and> back' = U8 (sample8 @ [0])"
proof -
  have "has_room (U16 (replicate 5 9)) (- 1) [0x41, 0x20AC, 0x1F600]"
    "has_room (U8 (replicate 9 9)) (- 1) [0x41, 0x20AC, 0x1F600]"
    by (simp_all add: dst_room_def writer_def ucs2_ok_def utf8_ok_def tail_count_def)
  note utf_conv_roundtrip [OF sample_holds this]
  moreover have "written_text (U8 (replicate 9 9)) (- 1) [0x41, 0x20AC, 0x1F600] = U8 (sample8 @ [0])"
    using sample8_enc by (simp add: dst_text_def fit_unbounded writer_def Let_def)
  ultimately show ?thesis by auto
qed

text \<open>
  Two corners of the contract in the header comment of utfConv.  A code point beyond 0x10FFFF is
  counted as converted although the UTF-16 writer drops it; and when a code point does not fit,
  no null is written although room is left.
\<close>

theorem utf_conv_corners:
  "utfConv (U32 [0x110000, 0]) (U16 [7, 7]) (- 1) (- 1) = Some (1, U16 [0, 7]) \<and>
   utfConv (U32 [0x41, 0x20AC, 0]) (U8 [9, 9, 9]) (- 1) 3 = Some (1, U8 [0x41, 9, 9])"
  by code_simp

end
