(* ===== verification/UtfString.thy ===== *)
theory UtfString
  imports UtfProps
begin

text \<open>
  The converters of whole strings of include/xpf/utfconv.h: to\_utf8, to\_ucs2, to\_ucs4 and to\_wchar.
  A string is the list of its units, tagged with their width.  The buffer that \<open>new\<close> gives is an
  argument: its contents are arbitrary, its length is the one that is asked for.
\<close>

section \<open>The program\<close>

text \<open>\<open>c_str\<close>: the units and a null.\<close>

fun c_str :: "units \<Rightarrow> units" where
  "c_str (U8 s) = U8 (s @ [0])" | "c_str (U16 s) = U16 (s @ [0])" | "c_str (U32 s) = U32 (s @ [0])"
| "c_str UOther = UOther"

text \<open>The default constructor, and the assignment of a C string; None is a read past the end of the buffer.\<close>

fun empty_like :: "units \<Rightarrow> units" where
  "empty_like (U8 s) = U8 []" | "empty_like (U16 s) = U16 []" | "empty_like (U32 s) = U32 []"
| "empty_like UOther = UOther"

definition upto_null :: "'a::len word list \<Rightarrow> 'a word list option" where
  "upto_null s = (if 0 \<in> set s then Some (takeWhile (\<lambda>c. c \<noteq> 0) s) else None)"

fun assign_c_string :: "units \<Rightarrow> units option" where
  "assign_c_string (U8 b) = map_option U8 (upto_null b)"
| "assign_c_string (U16 b) = map_option U16 (upto_null b)"
| "assign_c_string (U32 b) = map_option U32 (upto_null b)"
| "assign_c_string UOther = Some UOther"

text \<open>The length of the buffer, computed in \<open>size_t\<close> and kept in 32 bits; the counts are passed as s32.\<close>

definition conv_blen :: "units \<Rightarrow> u32" where
  "conv_blen src = of_nat (units_length src * 8 + 1)"

definition convert_string :: "units \<Rightarrow> units \<Rightarrow> units option" where
  "convert_string buf src =
     (if units_length src = 0 then Some (empty_like buf)
      else do { (n, dst) \<leftarrow> utfConv (c_str src) buf (sint (of_nat (units_length src) :: u32)) (sint (conv_blen src));
                if n > 0 then assign_c_string dst else Some (empty_like buf) })"

definition to_utf8 :: "u8 list \<Rightarrow> units \<Rightarrow> units option" where
  "to_utf8 buf src = convert_string (U8 buf) src"

definition to_ucs2 :: "u16 list \<Rightarrow> units \<Rightarrow> units option" where
  "to_ucs2 buf src = convert_string (U16 buf) src"

definition to_ucs4 :: "u32 list \<Rightarrow> units \<Rightarrow> units option" where
  "to_ucs4 buf src = convert_string (U32 buf) src"

text \<open>A \<open>wchar_t\<close> has 32 bits on POSIX hosts.\<close>

definition to_wchar :: "u32 list \<Rightarrow> units \<Rightarrow> units option" where
  "to_wchar buf src = convert_string (U32 buf) src"

section \<open>Text\<close>

text \<open>The string is exactly this text, and the encoding of a buffer can express a text.\<close>

fun is_text :: "units \<Rightarrow> u32 list \<Rightarrow> bool" where
  "is_text (U8 s) cps \<longleftrightarrow> s = concat (map utf8_enc cps) \<and> (\<forall>cp \<in> set cps. utf8_ok cp)"
| "is_text (U16 s) cps \<longleftrightarrow> s = concat (map ucs2_enc cps) \<and> (\<forall>cp \<in> set cps. ucs2_ok cp)"
| "is_text (U32 s) cps \<longleftrightarrow> s = concat (map ucs4_enc cps) \<and> (\<forall>cp \<in> set cps. ucs4_ok cp)"
| "is_text UOther cps \<longleftrightarrow> False"

fun can_express :: "units \<Rightarrow> u32 list \<Rightarrow> bool" where
  "can_express (U8 b) cps \<longleftrightarrow> (\<forall>cp \<in> set cps. utf8_ok cp)"
| "can_express (U16 b) cps \<longleftrightarrow> (\<forall>cp \<in> set cps. ucs2_ok cp)"
| "can_express (U32 b) cps \<longleftrightarrow> (\<forall>cp \<in> set cps. ucs4_ok cp)"
| "can_express UOther cps \<longleftrightarrow> False"

fun in_units :: "units \<Rightarrow> u32 list \<Rightarrow> units" where
  "in_units (U8 b) cps = U8 (concat (map utf8_enc cps))"
| "in_units (U16 b) cps = U16 (concat (map ucs2_enc cps))"
| "in_units (U32 b) cps = U32 (concat (map ucs4_enc cps))"
| "in_units UOther cps = UOther"

lemma is_text_in_units: "is_text src cps \<longleftrightarrow> can_express src cps \<and> src = in_units src cps"
  by (cases src) auto

lemma in_units_same: "in_units (in_units src cps) cps = in_units src cps" "can_express (in_units src cps) cps = can_express src cps"
  by (cases src; simp)+

subsection \<open>No encoding has a null or more than six units\<close>

lemma of_nat_nonzero:
  assumes "0 < n" "n < 2 ^ LENGTH('a)"
  shows "(of_nat n :: 'a::len word) \<noteq> 0"
proof
  assume "(of_nat n :: 'a word) = 0"
  then have "unat (of_nat n :: 'a word) = 0" by simp
  with assms show False by (simp add: unsigned_of_nat take_bit_nat_eq_self)
qed

lemma tail_bytes_nonzero: "0 \<notin> set (tail_bytes m n)"
proof (induction m)
  case (Suc m)
  have "n div 64 ^ m mod 64 < 64" by simp
  then have "(of_nat (0x80 + n div 64 ^ m mod 64) :: u8) \<noteq> 0"
    by (intro of_nat_nonzero) (simp, simp)
  with Suc show ?case by (simp del: of_nat_add)
qed simp

lemma lead_byte_nonzero:
  assumes "0 < n" "n < 2 ^ 31"
  shows "(of_nat (lead_mark (tail_count n) + n div 64 ^ tail_count n) :: u8) \<noteq> 0"
proof (rule of_nat_nonzero)
  show "0 < lead_mark (tail_count n) + n div 64 ^ tail_count n" "lead_mark (tail_count n) + n div 64 ^ tail_count n < 2 ^ LENGTH(8)"
    using assms by (auto simp: tail_count_def lead_mark_def)
qed

lemma utf8_enc_nonzero: "utf8_ok cp \<Longrightarrow> 0 \<notin> set (utf8_enc cp)"
  using lead_byte_nonzero [of "unat cp"] tail_bytes_nonzero
  by (simp add: utf8_ok_def utf8_enc_def Let_def del: of_nat_add)

lemma ucs2_units_nonzero:
  assumes "0 < n" "n < 0x110000"
  shows "0 \<notin> set (if n < 0x10000 then [of_nat n :: u16]
     else [of_nat (0xD800 + (n - 0x10000) div 1024), of_nat (0xDC00 + (n - 0x10000) mod 1024)])"
proof -
  have "n < 0x10000 \<Longrightarrow> (of_nat n :: u16) \<noteq> 0" using assms by (intro of_nat_nonzero) simp_all
  moreover have "(of_nat (0xD800 + (n - 0x10000) div 1024) :: u16) \<noteq> 0"
    using assms by (intro of_nat_nonzero) (simp, simp)
  moreover have "(n - 0x10000) mod 1024 < 1024" by simp
  then have "(of_nat (0xDC00 + (n - 0x10000) mod 1024) :: u16) \<noteq> 0" by (intro of_nat_nonzero) (simp, simp)
  ultimately show ?thesis by (simp del: of_nat_add)
qed

lemma ucs2_enc_nonzero: "ucs2_ok cp \<Longrightarrow> 0 \<notin> set (ucs2_enc cp)"
  using ucs2_units_nonzero [of "unat cp"] by (simp add: ucs2_ok_def ucs2_enc_def Let_def del: of_nat_add)

lemma ucs4_enc_nonzero: "ucs4_ok cp \<Longrightarrow> 0 \<notin> set (ucs4_enc cp)"
  by (auto simp: ucs4_ok_def ucs4_enc_def)

lemma enc_length: "length (utf8_enc cp) \<le> 6" "length (ucs2_enc cp) \<le> 6" "length (ucs4_enc cp) \<le> 6"
  by (simp_all add: utf8_enc_def ucs2_enc_def ucs4_enc_def Let_def tail_count_def)

section \<open>The conversions keep the text\<close>

lemma concat_length_ge: "(\<And>x. enc x \<noteq> []) \<Longrightarrow> length cps \<le> length (concat (map enc cps))"
proof (induction cps)
  case (Cons x cps)
  have "0 < length (enc x)" using Cons.prems by simp
  moreover have "length cps \<le> length (concat (map enc cps))" using Cons by simp
  ultimately show ?case by (cases "enc x") auto
qed simp

lemma concat_length_le: "(\<And>x. length (enc x) \<le> 6) \<Longrightarrow> length (concat (map enc cps)) \<le> 6 * length cps"
proof (induction cps)
  case (Cons x cps)
  have "length (enc x) \<le> 6" using Cons.prems by simp
  moreover have "length (concat (map enc cps)) \<le> 6 * length cps" using Cons by simp
  ultimately show ?case by simp
qed simp

lemma fit_all: "int (length (concat (map enc cps))) \<le> n \<Longrightarrow> fit enc n cps = cps"
proof (induction cps arbitrary: n)
  case (Cons x cps)
  then show ?case by simp
qed simp

text \<open>A buffer that is larger than the text reads back as the text.\<close>

lemma read_back:
  assumes "length (concat (map enc cps)) < n" "length d = n" "0 \<notin> set (concat (map enc cps))"
  shows "upto_null (dst_text enc (writer d (int n)) cps) = Some (concat (map enc cps))"
proof -
  have "fit enc (int n) cps = cps" using assms(1) by (intro fit_all) simp
  then have "dst_text enc (writer d (int n)) cps = concat (map enc cps) @ 0 # drop (Suc (length (concat (map enc cps)))) d"
    using assms(1) by (simp add: dst_text_def Let_def)
  moreover have "takeWhile (\<lambda>c. c \<noteq> 0) (concat (map enc cps) @ 0 # e) = concat (map enc cps)" for e
    using assms(3) by (subst takeWhile_append2) auto
  ultimately show ?thesis by (simp add: upto_null_def)
qed

lemma src_whole: "src_at enc (reader (concat (map enc cps) @ [0]) (int (length (concat (map enc cps))))) cps"
  unfolding src_at_def by (intro exI [of _ "[]"] exI [of _ "[0]"]) (simp add: reader_def)

lemma holds_c_str: "is_text src cps \<Longrightarrow> holds_text (c_str src) (int (units_length src)) cps"
  using src_whole [of utf8_enc cps] src_whole [of ucs2_enc cps] src_whole [of ucs4_enc cps] by (cases src) auto

lemma units_length_ge: "is_text src cps \<Longrightarrow> length cps \<le> units_length src"
  using concat_length_ge [OF enc_ne(1)] concat_length_ge [OF enc_ne(2)] concat_length_ge [OF enc_ne(3)]
  by (cases src) auto

lemma written_reads_back:
  assumes "can_express buf cps" "units_length buf = n" "6 * length cps < n"
  shows "has_room buf (int n) cps" "fit_count buf (int n) cps = int (length cps)"
    "assign_c_string (written_text buf (int n) cps) = Some (in_units buf cps)"
proof -
  note l = concat_length_le [where enc = utf8_enc and cps = cps, OF enc_length(1)]
    concat_length_le [where enc = ucs2_enc and cps = cps, OF enc_length(2)]
    concat_length_le [where enc = ucs4_enc and cps = cps, OF enc_length(3)]
  show "has_room buf (int n) cps" using assms(1,2) by (cases buf) (auto simp: dst_room_def)
  show "fit_count buf (int n) cps = int (length cps)" using assms l by (cases buf) (auto simp: fit_all)
  show "assign_c_string (written_text buf (int n) cps) = Some (in_units buf cps)"
  proof (cases buf)
    case (U8 d)
    then have "0 \<notin> set (concat (map utf8_enc cps))" using assms(1) utf8_enc_nonzero by auto
    then show ?thesis using U8 assms l(1) read_back [of utf8_enc cps n d] by simp
  next
    case (U16 d)
    then have "0 \<notin> set (concat (map ucs2_enc cps))" using assms(1) ucs2_enc_nonzero by auto
    then show ?thesis using U16 assms l(2) read_back [of ucs2_enc cps n d] by simp
  next
    case (U32 d)
    then have "0 \<notin> set (concat (map ucs4_enc cps))" using assms(1) ucs4_enc_nonzero by auto
    then show ?thesis using U32 assms l(3) read_back [of ucs4_enc cps n d] by simp
  qed (use assms in simp)
qed

lemma sint_of_nat32: "n < 2 ^ 31 \<Longrightarrow> sint (of_nat n :: u32) = int n"
  by (simp add: signed_of_nat signed_take_bit_int_eq_self)

lemma convert_string_text:
  assumes "is_text src cps" "can_express buf cps" "units_length buf = 8 * units_length src + 1"
    "8 * units_length src + 1 < 2 ^ 31"
  shows "convert_string buf src = Some (in_units buf cps)"
proof (cases "units_length src = 0")
  case True
  with units_length_ge [OF assms(1)] have "cps = []" by simp
  with True show ?thesis by (cases buf) (auto simp: convert_string_def)
next
  case False
  let ?n = "8 * units_length src + 1"
  have n: "sint (of_nat (units_length src) :: u32) = int (units_length src)" "sint (conv_blen src) = int ?n"
    using assms(4) sint_of_nat32 [of "units_length src"] sint_of_nat32 [of ?n]
    by (simp_all add: conv_blen_def mult.commute del: of_nat_add of_nat_mult of_nat_Suc)
  have "6 * length cps < ?n" using units_length_ge [OF assms(1)] by simp
  note w = written_reads_back [OF assms(2,3) this]
  have c: "cps \<noteq> []" using assms(1) False by (cases src) auto
  have "utfConv (c_str src) buf (int (units_length src)) (int ?n) = Some (fit_count buf (int ?n) cps, written_text buf (int ?n) cps)"
    using utfConv_text [OF holds_c_str [OF assms(1)] w(1)] .
  then show ?thesis using False c w(2,3) by (simp add: convert_string_def n)
qed

section \<open>Properties\<close>

text \<open>
  C34: A string that holds well-formed text in UTF-8, UTF-16 or UTF-32 is converted to the string that
  holds the same text in the encoding of the result, whatever the new buffer contained, if that
  encoding can express it, and back to the string that it was, provided that eight times the length
  of each string plus one stays below 2^31 (the code computes it at 32 bits, and cuts the result of
  longer strings, see \<open>conv_blen_wraps\<close>); no unit is read or written outside of the buffers.
\<close>

theorem string_conversions:
  assumes "is_text src cps" "can_express buf cps" "units_length buf = 8 * units_length src + 1"
    and "8 * units_length src + 1 < 2 ^ 31"
    and "in_units ret cps = src" "units_length ret = 8 * units_length (in_units buf cps) + 1"
    and "8 * units_length (in_units buf cps) + 1 < 2 ^ 31"
  shows "convert_string buf src = Some (in_units buf cps) \<and> is_text (in_units buf cps) cps \<and>
    convert_string ret (in_units buf cps) = Some src"
proof -
  have m: "is_text (in_units buf cps) cps" using assms(2) by (simp add: is_text_in_units in_units_same)
  have "can_express ret cps" using assms(1,5) by (cases ret; cases src) auto
  from convert_string_text [OF m this assms(6,7)] convert_string_text [OF assms(1-4)] m assms(5)
  show ?thesis by simp
qed

text \<open>The letter A and the Euro sign, from UTF-16 to UTF-8 and back.\<close>

theorem string_conversions_witness:
  "to_utf8 (replicate 17 9) (U16 [0x41, 0x20AC]) = Some (U8 [0x41, 0xE2, 0x82, 0xAC]) \<and>
   to_ucs2 (replicate 33 9) (U8 [0x41, 0xE2, 0x82, 0xAC]) = Some (U16 [0x41, 0x20AC])"
proof -
  have "utf8_enc 0x41 = [0x41]" by (subst utf8_enc_by [where n = "0x41" and m = 0]) (simp_all add: tail_count_def lead_mark_def)
  moreover have "utf8_enc 0x20AC = [0xE2, 0x82, 0xAC]"
    by (subst utf8_enc_by [where n = "0x20AC" and m = "Suc (Suc 0)"]) (simp_all add: tail_count_def lead_mark_def)
  ultimately have u: "in_units (U8 d) [0x41, 0x20AC] = U8 [0x41, 0xE2, 0x82, 0xAC]" for d by simp
  have w: "in_units (U16 d) [0x41, 0x20AC] = U16 [0x41, 0x20AC]" for d by (simp add: ucs2_enc_def)
  have a: "is_text (U16 [0x41, 0x20AC]) [0x41, 0x20AC]" by (simp add: ucs2_ok_def ucs2_enc_def)
  have b: "can_express (U8 (replicate 17 9)) [0x41, 0x20AC]" by (simp add: utf8_ok_def)
  have "convert_string (U8 (replicate 17 9)) (U16 [0x41, 0x20AC]) = Some (U8 [0x41, 0xE2, 0x82, 0xAC]) \<and>
      is_text (U8 [0x41, 0xE2, 0x82, 0xAC]) [0x41, 0x20AC] \<and>
      convert_string (U16 (replicate 33 9)) (U8 [0x41, 0xE2, 0x82, 0xAC]) = Some (U16 [0x41, 0x20AC])"
    by (rule string_conversions [OF a b, where ret = "U16 (replicate 33 9)", unfolded u w]) simp_all
  then show ?thesis unfolding to_utf8_def to_ucs2_def by blast
qed

text \<open>The length of the buffer wraps: a string of 2^29 units gets a buffer of one unit, and the result is cut.\<close>

lemma conv_blen_wraps: "units_length src = 2 ^ 29 \<Longrightarrow> conv_blen src = 1"
  by (simp add: conv_blen_def)

end
