(* ===== verification/XString.thy ===== *)
theory XString
  imports Prelude "HOL-Library.Signed_Division" "HOL-Library.Monad_Syntax"
begin

text \<open>
  xpfstring of src/include/xpf/string.h without \<open>printf\<close>.  A string over the character type T
  is a list of words of T's width; the members of \<open>std::basic_string\<close> it is built on are the
  list operations they are documented to be.  None stands for an exception of the standard
  library or an access outside of a buffer.
\<close>

section \<open>Characters\<close>

type_synonym 'a str = "'a word list"

definition to_c8 :: "'a::len word \<Rightarrow> u8" where
  "to_c8 ch = ucast ch"

definition chr :: "char \<Rightarrow> 'a::len word" where
  "chr c = of_nat (of_char c)"

definition lit :: "string \<Rightarrow> 'a::len str" where
  "lit s = List.map chr s"

text \<open>The string up to the first null, as a C string is read.\<close>

definition c_string :: "'a::len str \<Rightarrow> 'a str" where
  "c_string s = takeWhile (\<lambda>c. c \<noteq> 0) s"

section \<open>std::basic\_string\<close>

definition std_substr :: "'a str \<Rightarrow> nat \<Rightarrow> nat \<Rightarrow> 'a str option" where
  "std_substr s pos n = (if pos \<le> length s then Some (take n (drop pos s)) else None)"

definition find_first_not_of :: "'a::len str \<Rightarrow> 'a str \<Rightarrow> nat option" where
  "find_first_not_of s cs = (let n = length (takeWhile (\<lambda>c. c \<in> set cs) s) in if n = length s then None else Some n)"

definition find_last_not_of :: "'a::len str \<Rightarrow> 'a str \<Rightarrow> nat option" where
  "find_last_not_of s cs =
     (let n = length (takeWhile (\<lambda>c. c \<in> set cs) (rev s)) in if n = length s then None else Some (length s - 1 - n))"

section \<open>Constructors and assignments that forward to the base class\<close>

text \<open>\<open>mem\<close> is what is readable from a pointer on; \<open>len\<close> None is \<open>npos\<close>.\<close>

definition str_empty :: "'a str" where
  "str_empty = []"

definition str_copy :: "'a str \<Rightarrow> 'a str" where
  "str_copy s = s"

definition str_sub :: "'a str \<Rightarrow> nat \<Rightarrow> nat option \<Rightarrow> 'a str option" where
  "str_sub s pos len = std_substr s pos (case len of None \<Rightarrow> length s | Some n \<Rightarrow> n)"

definition str_c :: "'a::len str \<Rightarrow> 'a str option" where
  "str_c mem = (if 0 \<in> set mem then Some (c_string mem) else None)"

definition str_n :: "'a str \<Rightarrow> nat \<Rightarrow> 'a str option" where
  "str_n mem n = (if n \<le> length mem then Some (take n mem) else None)"

definition str_fill :: "nat \<Rightarrow> 'a word \<Rightarrow> 'a str" where
  "str_fill n c = replicate n c"

definition str_range :: "'a str \<Rightarrow> nat \<Rightarrow> nat \<Rightarrow> 'a str option" where
  "str_range s i j = (if i \<le> j \<and> j \<le> length s then Some (take (j - i) (drop i s)) else None)"

text \<open>The assignments discard the old value.\<close>

definition assign_copy :: "'a str \<Rightarrow> 'a str \<Rightarrow> 'a str" where
  "assign_copy self s = str_copy s"

definition assign_c :: "'a str \<Rightarrow> 'a::len str \<Rightarrow> 'a str option" where
  "assign_c self mem = str_c mem"

definition assign_char :: "'a str \<Rightarrow> 'a word \<Rightarrow> 'a str" where
  "assign_char self c = str_fill 1 c"

section \<open>Assignment and constructors from numbers\<close>

text \<open>
  The template \<open>operator=(const B*)\<close>.  A null pointer clears the string, a pointer to the own
  buffer (\<open>own\<close>) leaves it, and otherwise the units up to the null are cast to T and appended
  to what the string holds.  char, the type of 8-bit units, is signed.
\<close>

definition unit_cast :: "'b::len word \<Rightarrow> 'a::len word" where
  "unit_cast c = (if LENGTH('b) = 8 then scast c else ucast c)"

definition assign_units :: "'a::len str \<Rightarrow> bool \<Rightarrow> 'b::len str option \<Rightarrow> 'a str" where
  "assign_units self own src =
     (case src of
        None \<Rightarrow> []
      | Some c \<Rightarrow> if own then self else foldl (\<lambda>r ch. r @ [unit_cast ch]) self (c_string c))"

text \<open>The template constructor assigns to a new string.\<close>

definition str_units :: "'b::len str \<Rightarrow> 'a::len str" where
  "str_units c = assign_units [] False (Some c)"

text \<open>
  Assignment of a string literal, an array of char: for T = char the overload of
  \<open>operator=(const T*)\<close> is the better match, which replaces; for other T it is the template.
\<close>

definition assign_lit :: "'a::len str \<Rightarrow> string \<Rightarrow> 'a str" where
  "assign_lit self t = (if LENGTH('a) = 8 then lit t else assign_units self False (Some (lit t :: 8 str)))"

text \<open>The digit loop: from the end of the buffer to the front, with C's division.\<close>

fun digits_loop :: "nat \<Rightarrow> int \<Rightarrow> u8 list \<Rightarrow> nat \<times> u8 list" where
  "digits_loop 0 val buf = (0, buf)"
| "digits_loop (Suc idx) val buf =
     (if val = 0 then (Suc idx, buf)
      else digits_loop idx (val sdiv 10) (buf[idx := of_int (0x30 + val smod 10)]))"

definition neg_s32 :: "int \<Rightarrow> int" where "neg_s32 v = signed_take_bit 31 (0 - v)"
definition neg_s64 :: "int \<Rightarrow> int" where "neg_s64 v = signed_take_bit 63 (0 - v)"

text \<open>What the four constructors share: \<open>n\<close> is the size of the buffer.\<close>

definition put_number :: "nat \<Rightarrow> bool \<Rightarrow> int \<Rightarrow> 'a::len str" where
  "put_number n negative val =
     (let tmpbuf = replicate n 0 in
      if val = 0 then str_units (drop (n - 2) (tmpbuf[n - 2 := 0x30]))
      else let (idx, buf) = digits_loop (n - 1) val tmpbuf
        in if negative then str_units (drop (idx - 1) (buf[idx - 1 := 0x2D]))
           else str_units (drop idx buf))"

definition str_of_s32 :: "u32 \<Rightarrow> 'a::len str" where
  "str_of_s32 v = (let val = sint v in if val < 0 then put_number 16 True (neg_s32 val) else put_number 16 False val)"

definition str_of_u32 :: "u32 \<Rightarrow> 'a::len str" where
  "str_of_u32 v = put_number 16 False (uint v)"

definition str_of_s64 :: "u64 \<Rightarrow> 'a::len str" where
  "str_of_s64 v = (let val = sint v in if val < 0 then put_number 32 True (neg_s64 val) else put_number 32 False val)"

definition str_of_u64 :: "u64 \<Rightarrow> 'a::len str" where
  "str_of_u64 v = put_number 32 False (uint v)"

section \<open>Doubles\<close>

text \<open>
  An IEEE double: sign, mantissa (not negative) and binary exponent, or one of the special
  values.  \<open>sprintf\<close> with \<open>%0.6f\<close> rounds the exact value half to even at the sixth decimal.
\<close>

datatype f64 = Fin bool int int | Inf bool | NaN bool

function dec_digits :: "int \<Rightarrow> u8 list" where
  "dec_digits n = (if n < 10 then [of_int (0x30 + n)] else dec_digits (n div 10) @ [of_int (0x30 + n mod 10)])"
  by pat_completeness auto
termination by (relation "measure nat") auto

declare dec_digits.simps [simp del]

definition round_even :: "int \<Rightarrow> int \<Rightarrow> int" where
  "round_even a b = (let q = a div b; r = 2 * (a mod b) in
     if r < b \<or> r = b \<and> even q then q else q + 1)"

definition f64_micro :: "int \<Rightarrow> int \<Rightarrow> int" where
  "f64_micro m e = (if e \<ge> 0 then m * 2 ^ nat e * 10 ^ 6 else round_even (m * 10 ^ 6) (2 ^ nat (- e)))"

definition pad_zeros :: "nat \<Rightarrow> u8 list \<Rightarrow> u8 list" where
  "pad_zeros n s = replicate (n - length s) 0x30 @ s"

definition sprintf_6f :: "f64 \<Rightarrow> u8 list" where
  "sprintf_6f v = (case v of
     Fin s m e \<Rightarrow> (let q = f64_micro m e in (if s then [0x2D] else []) @ dec_digits (q div 10 ^ 6) @ [0x2E] @ pad_zeros 6 (dec_digits (q mod 10 ^ 6)))
   | Inf s \<Rightarrow> (if s then [0x2D] else []) @ lit ''inf''
   | NaN s \<Rightarrow> (if s then [0x2D] else []) @ lit ''nan'')"

text \<open>The buffer of the constructor has 128 bytes; a longer result overruns it.\<close>

definition str_of_f64 :: "f64 \<Rightarrow> 'a::len str option" where
  "str_of_f64 v = (let s = sprintf_6f v in if length s < 128 then Some (str_units s) else None)"

section \<open>Case\<close>

definition lower_char :: "'a::len word \<Rightarrow> 'a word" where
  "lower_char ch = (let ch8 = to_c8 ch in if 0x41 \<le> ch8 \<and> ch8 \<le> 0x5A then ucast (ch8 + 0x20) else ch)"

definition upper_char :: "'a::len word \<Rightarrow> 'a word" where
  "upper_char ch = (let ch8 = to_c8 ch in if 0x61 \<le> ch8 \<and> ch8 \<le> 0x7A then ucast (ch8 - 0x20) else ch)"

definition make_lower :: "'a::len str \<Rightarrow> 'a str" where
  "make_lower s = foldl (\<lambda>r ch. r @ [lower_char ch]) [] s"

definition make_upper :: "'a::len str \<Rightarrow> 'a str" where
  "make_upper s = foldl (\<lambda>r ch. r @ [upper_char ch]) [] s"

definition equals_ignore_case :: "'a::len str \<Rightarrow> 'a str \<Rightarrow> int \<Rightarrow> int \<Rightarrow> bool option" where
  "equals_ignore_case s other pos len =
     (if pos < 0 then Some False
      else let upos = nat pos; ulen = (if len < 0 then length other else nat len);
               str1 = make_lower s; str2 = make_lower other
        in do { snip \<leftarrow> std_substr str1 upos ulen; Some (snip = str2) })"

section \<open>trim and split\<close>

definition trim :: "'a::len str \<Rightarrow> 'a str \<Rightarrow> 'a str option" where
  "trim s whitespace =
     (case find_first_not_of s whitespace of
        None \<Rightarrow> Some []
      | Some b \<Rightarrow> (case find_last_not_of s whitespace of
          None \<Rightarrow> std_substr s b (length s)
        | Some e \<Rightarrow> if e < b then Some [] else std_substr s b (e - b + 1)))"

text \<open>
  The outer loop of \<open>split\<close> at index \<open>i\<close>; the inner loop only looks for the first delimiter
  equal to the character.  The constructor from pointer and length reads that many characters.
\<close>

fun split_loop :: "'a::len str \<Rightarrow> 'a str \<Rightarrow> bool \<Rightarrow> bool \<Rightarrow> nat \<Rightarrow> 'a str \<Rightarrow> nat \<Rightarrow> bool \<Rightarrow> 'a str list \<Rightarrow> nat \<times> 'a str list" where
  "split_loop s delim ignoreEmpty keep i [] lastpos lastSep ret = (lastpos, ret)"
| "split_loop s delim ignoreEmpty keep i (ch # chs) lastpos lastSep ret =
     (if ch \<in> set delim
      then let ret' = (if (\<not> ignoreEmpty \<or> i - lastpos \<noteq> 0) \<and> \<not> lastSep
                       then ret @ [take (i - lastpos) (drop lastpos s)] else ret)
        in split_loop s delim ignoreEmpty keep (i + 1) chs (if keep then i else i + 1) True ret'
      else split_loop s delim ignoreEmpty keep (i + 1) chs lastpos False ret)"

text \<open>
  \<open>size() - 1\<close> is a 64-bit subtraction, so it is 2^64 - 1 for the empty string; asking for that
  many characters throws \<open>std::length_error\<close>.
\<close>

definition split :: "'a::len str \<Rightarrow> 'a str list \<Rightarrow> 'a str \<Rightarrow> bool \<Rightarrow> bool \<Rightarrow> ('a str list \<times> nat) option" where
  "split s ret delim ignoreEmpty keep =
     (if delim = [] then Some (ret, 0)
      else let (lastpos, ret1) = split_loop s delim ignoreEmpty keep 0 s 0 False ret;
               last = (int (length s) - 1) mod 2 ^ 64
        in if last > int lastpos
           then if last \<le> int (length s)
             then let ret2 = ret1 @ [take (nat last - lastpos) (drop lastpos s)] in Some (ret2, length ret2 - length ret)
             else None
           else Some (ret1, length ret1 - length ret))"

section \<open>hash, begin\_with, end\_with\<close>

text \<open>The string followed by its terminator, as \<open>c_str()\<close> gives it; \<open>i\<close> counts the characters still to read.\<close>

fun hash_loop :: "nat \<Rightarrow> u32 \<Rightarrow> 'a::len str \<Rightarrow> u32 option" where
  "hash_loop 0 h cs = Some h"
| "hash_loop (Suc i) h [] = None"
| "hash_loop (Suc i) h (c # cs) = hash_loop i (h * 38 + drop_bit 24 h + ucast c) cs"

definition hash :: "'a::len str \<Rightarrow> u32 \<Rightarrow> int \<Rightarrow> int \<Rightarrow> u32 option" where
  "hash s modulus len offset =
     (let ulen = (if len < 0 then of_nat (length s) else of_int len :: u32);
          uoff = (if offset < 0 then 0 else of_int offset :: u32)
      in if unat (uoff + ulen) > length s then Some 0
         else case drop (unat uoff) (s @ [0]) of
           [] \<Rightarrow> None
         | c # cs \<Rightarrow> do { h \<leftarrow> hash_loop (unat ulen) (ucast c) cs;
                          if modulus = 0 then None else Some (h mod modulus) })"

definition begin_with :: "'a::len str \<Rightarrow> 'a str \<Rightarrow> bool \<Rightarrow> bool option" where
  "begin_with s t ignoreCase =
     (if length s < length t then Some False
      else do { snip \<leftarrow> std_substr s 0 (length t);
                if ignoreCase then equals_ignore_case snip t 0 (- 1) else Some (snip = t) })"

definition end_with :: "'a::len str \<Rightarrow> 'a str \<Rightarrow> bool \<Rightarrow> bool option" where
  "end_with s t ignoreCase =
     (if length s < length t then Some False
      else do { snip \<leftarrow> std_substr s (length s - length t) (length t);
                if ignoreCase then equals_ignore_case snip t 0 (- 1) else Some (snip = t) })"

end
