(* ===== verification/XStringProps.thy ===== *)
theory XStringProps
  imports XString "HOL-Library.Sublist"
begin

text \<open>
  Properties of xpfstring: the constructors from integers print the decimal numeral, \<open>trim\<close>,
  \<open>begin_with\<close> and \<open>end_with\<close> meet list specifications, and what \<open>split\<close> and the
  case-insensitive comparison really do.
\<close>

section \<open>Characters\<close>

text \<open>Characters of 8 bits as numbers.\<close>

lemma chr8 [simp]:
  "(chr CHR ''%'' :: u8) = 0x25" "(chr CHR ''-'' :: u8) = 0x2D" "(chr CHR ''+'' :: u8) = 0x2B"
  "(chr CHR '' '' :: u8) = 0x20" "(chr CHR ''#'' :: u8) = 0x23" "(chr CHR ''0'' :: u8) = 0x30"
  "(chr CHR ''*'' :: u8) = 0x2A" "(chr CHR ''.'' :: u8) = 0x2E" "(chr CHR ''l'' :: u8) = 0x6C"
  "(chr CHR ''h'' :: u8) = 0x68" "(chr CHR ''j'' :: u8) = 0x6A" "(chr CHR ''z'' :: u8) = 0x7A"
  "(chr CHR ''t'' :: u8) = 0x74" "(chr CHR ''L'' :: u8) = 0x4C" "(chr CHR ''c'' :: u8) = 0x63"
  "(chr CHR ''p'' :: u8) = 0x70" "(chr CHR ''s'' :: u8) = 0x73" "(chr CHR ''x'' :: u8) = 0x78"
  "(chr CHR ''X'' :: u8) = 0x58" "(chr CHR ''d'' :: u8) = 0x64" "(chr CHR ''i'' :: u8) = 0x69"
  "(chr CHR ''u'' :: u8) = 0x75" "(chr CHR ''o'' :: u8) = 0x6F" "(chr CHR ''f'' :: u8) = 0x66"
  "(chr CHR ''?'' :: u8) = 0x3F" "(chr CHR '':'' :: u8) = 0x3A" "(chr CHR ''='' :: u8) = 0x3D"
  "(chr CHR '','' :: u8) = 0x2C" "(chr CHR ''/'' :: u8) = 0x2F"
  by (simp_all add: chr_def)

lemma to_c8_id [simp]: "to_c8 (c :: u8) = c"
  by (simp add: to_c8_def)

section \<open>Decimal digits\<close>

text \<open>The value of a sequence of digits.\<close>

definition digits_value :: "'a::len str \<Rightarrow> int" where
  "digits_value s = foldl (\<lambda>v c. v * 10 + (uint c - 0x30)) 0 s"

definition is_digit :: "'a::len word \<Rightarrow> bool" where
  "is_digit c \<longleftrightarrow> 0x30 \<le> uint c \<and> uint c \<le> 0x39"

text \<open>
  A strict reader of decimal numerals: at least one digit, nothing but digits after an optional
  minus sign, no leading zero but in the numeral 0, and no minus sign before 0.
\<close>

definition read_nat :: "'a::len str \<Rightarrow> int option" where
  "read_nat ds =
     (if ds \<noteq> [] \<and> (\<forall>c \<in> set ds. is_digit c) \<and> (uint (hd ds) = 0x30 \<longrightarrow> length ds = 1) then Some (digits_value ds) else None)"

definition read_numeral :: "'a::len str \<Rightarrow> int option" where
  "read_numeral s =
     (if s \<noteq> [] \<and> uint (hd s) = 0x2D
      then (case read_nat (tl s) of Some n \<Rightarrow> if n = 0 then None else Some (- n) | None \<Rightarrow> None)
      else read_nat s)"

lemma uint_digit: "0 \<le> d \<Longrightarrow> d < 10 \<Longrightarrow> uint (of_int (0x30 + d) :: u8) = 0x30 + d"
  by (subst uint_word_of_int_eq) (simp add: take_bit_int_eq_self)

lemma dec_digits_digit: "0 \<le> n \<Longrightarrow> \<forall>c \<in> set (dec_digits n). is_digit c"
proof (induction n rule: dec_digits.induct)
  case (1 n)
  have "0 \<le> n div 10" using 1 by simp
  then show ?case using 1 uint_digit [of n] uint_digit [of "n mod 10"]
    by (subst dec_digits.simps) (auto simp: is_digit_def simp del: of_int_add)
qed

lemma dec_digits_value: "0 \<le> n \<Longrightarrow> digits_value (dec_digits n) = n"
proof (induction n rule: dec_digits.induct)
  case (1 n)
  have "0 \<le> n div 10" using 1 by simp
  then show ?case using 1 uint_digit [of n] uint_digit [of "n mod 10"]
    by (subst dec_digits.simps) (auto simp: digits_value_def simp del: of_int_add)
qed

lemma dec_digits_ne: "dec_digits n \<noteq> []"
  by (subst dec_digits.simps) simp

text \<open>No leading zero.\<close>

lemma dec_digits_hd: "0 < n \<Longrightarrow> uint (hd (dec_digits n)) \<noteq> 0x30"
proof (induction n rule: dec_digits.induct)
  case (1 n)
  then show ?case using uint_digit [of n]
    by (subst dec_digits.simps) (auto simp: dec_digits_ne simp del: of_int_add)
qed

lemma dec_digits_length: "10 ^ k \<le> n \<Longrightarrow> k < length (dec_digits n)"
proof (induction k arbitrary: n)
  case 0
  then show ?case by (simp add: dec_digits_ne)
next
  case (Suc k)
  have "(1 :: int) \<le> 10 ^ k" by simp
  moreover have "10 * 10 ^ k \<le> n" using Suc.prems by simp
  ultimately have n: "10 \<le> n" by linarith
  have "10 ^ k * 10 div 10 \<le> n div 10" by (rule zdiv_mono1) (use Suc.prems in simp_all)
  then show ?case using Suc.IH n by (subst dec_digits.simps) simp
qed

lemma digits_loop_digits:
  "\<lbrakk>0 < val; val < 10 ^ idx; idx \<le> length buf\<rbrakk> \<Longrightarrow>
   \<exists>i b. digits_loop idx val buf = (i, b) \<and> length b = length buf \<and> i + length (dec_digits val) = idx \<and>
     drop i b = dec_digits val @ drop idx buf"
proof (induction idx arbitrary: val buf)
  case (Suc idx)
  let ?buf = "buf[idx := of_int (0x30 + val mod 10)]"
  have D: "digits_loop (Suc idx) val buf = digits_loop idx (val div 10) ?buf"
    using Suc.prems(1) by (simp add: signed_divide_int_def signed_modulo_int_def sgn_if)
  have dr: "drop idx ?buf = of_int (0x30 + val mod 10) # drop (Suc idx) buf"
    using Suc.prems(3) by (simp add: Cons_nth_drop_Suc [symmetric] del: of_int_add)
  show ?case
  proof (cases "val < 10")
    case True
    then have "val div 10 = 0" "val mod 10 = val" using Suc.prems(1) by simp_all
    moreover have "digits_loop idx 0 ?buf = (idx, ?buf)" by (cases idx) simp_all
    ultimately show ?thesis using D dr True
      by (auto simp: dec_digits.simps [of val] simp del: of_int_add)
  next
    case False
    have "0 < val div 10" "val div 10 < 10 ^ idx" "idx \<le> length ?buf" using False Suc.prems by auto
    from Suc.IH [OF this] obtain i b where ib: "digits_loop idx (val div 10) ?buf = (i, b)"
      "length b = length buf" "i + length (dec_digits (val div 10)) = idx"
      "drop i b = dec_digits (val div 10) @ drop idx ?buf" by auto
    then show ?thesis using D dr False
      by (auto simp: dec_digits.simps [of val] simp del: of_int_add)
  qed
qed simp

lemma foldl_snoc_map: "foldl (\<lambda>r ch. r @ [f ch]) r s = r @ List.map f s"
  by (induction s arbitrary: r) simp_all

lemma assign_units_eq:
  "assign_units self own (Some c) = (if own then self else self @ List.map unit_cast (c_string c))"
  by (simp add: assign_units_def foldl_snoc_map)

lemma str_units_eq: "str_units c = List.map unit_cast (c_string c)"
  by (simp add: str_units_def assign_units_eq)

text \<open>Characters of ASCII keep their number.\<close>

lemma unit_cast_u8 [simp]: "(unit_cast (c :: u8) :: u8) = c"
  by (simp add: unit_cast_def)

lemma map_unit_cast_u8 [simp]: "List.map unit_cast (s :: 8 str) = (s :: 8 str)"
  by (simp add: map_idI)

lemma unit_cast_ascii: "uint (c :: u8) < 128 \<Longrightarrow> unit_cast c = ucast c"
proof -
  assume "uint c < 128"
  then have "take_bit 7 (uint c) = uint c" by (intro take_bit_int_eq_self) simp_all
  moreover have "\<not> bit (uint c) 7" using \<open>uint c < 128\<close> by (simp add: bit_iff_odd)
  ultimately have "sint c = uint c" by (simp add: sint_uint signed_take_bit_def)
  then have "scast c = ucast c" unfolding scast_eq ucast_eq by (rule arg_cong)
  then show ?thesis by (simp add: unit_cast_def)
qed

lemma map_unit_cast: "\<forall>c \<in> set s. uint (c :: u8) < 128 \<Longrightarrow> List.map unit_cast s = List.map ucast s"
  by (simp add: unit_cast_ascii)

lemma str_units_map:
  assumes "\<forall>c \<in> set s. c \<noteq> 0 \<and> uint (c :: u8) < 128" shows "str_units (s @ 0 # t) = List.map ucast s"
proof -
  have "c_string (s @ 0 # t) = s" using assms by (simp add: c_string_def takeWhile_append)
  then show ?thesis using assms by (simp add: str_units_eq map_unit_cast)
qed

lemma digit_nz: "is_digit c \<Longrightarrow> c \<noteq> 0 \<and> uint c < 128"
  by (auto simp: is_digit_def)

lemma put_number_digits:
  assumes "0 \<le> val" "val < 10 ^ (n - 2)" "2 < n"
  shows "put_number n negative val = List.map ucast ((if negative \<and> val \<noteq> 0 then [0x2D] else []) @ dec_digits val)"
proof (cases "val = 0")
  case True
  have "drop (n - 2) ((replicate n 0)[n - 2 := 0x30 :: u8]) = 0x30 # [0]"
    using assms(3) by (simp add: drop_update_swap numeral_2_eq_2)
  then show ?thesis using True str_units_map [of "[0x30]" "[]"]
    by (simp add: put_number_def Let_def dec_digits.simps)
next
  case False
  then have v: "0 < val" "val < 10 ^ (n - 1)" "n - 1 \<le> length (replicate n (0 :: u8))"
    using assms by (auto intro: less_le_trans power_increasing)
  obtain i b where ib: "digits_loop (n - 1) val (replicate n 0) = (i, b)" "length b = n"
    "i + length (dec_digits val) = n - 1" "drop i b = dec_digits val @ drop (n - 1) (replicate n 0)"
    using digits_loop_digits [OF v] by auto
  have z: "drop (n - 1) (replicate n (0 :: u8)) = [0]" using assms(3) by simp
  show ?thesis
  proof (cases negative)
    case neg: True
    have len: "length (dec_digits val) \<le> n - 2"
      using digits_loop_digits [OF v(1) assms(2), of "replicate n 0"] by auto
    then have i: "0 < i" using ib(3) assms(3) by simp
    have "drop (i - 1) (b[i - 1 := 0x2D]) = 0x2D # drop i b"
      using i ib(2,3) by (simp add: Cons_nth_drop_Suc [symmetric])
    then show ?thesis using False neg ib z dec_digits_digit [of val] assms(1) str_units_map [of "0x2D # dec_digits val" "[]"]
      by (auto simp: put_number_def Let_def dest: digit_nz)
  next
    case False
    then show ?thesis using \<open>val \<noteq> 0\<close> ib z dec_digits_digit [of val] assms(1) str_units_map [of "dec_digits val" "[]"]
      by (auto simp: put_number_def Let_def dest: digit_nz)
  qed
qed

lemma uint_ucast8: "8 \<le> LENGTH('a::len) \<Longrightarrow> uint (ucast (c :: u8) :: 'a word) = uint c"
proof -
  assume a: "8 \<le> LENGTH('a)"
  have "uint c < 2 ^ 8" using unsigned_less [of c] by simp
  also have "(2 :: int) ^ 8 \<le> 2 ^ LENGTH('a)" using a by (intro power_increasing) simp_all
  finally show ?thesis by (simp add: unsigned_ucast_eq take_bit_int_eq_self)
qed

lemma digits_value_ucast:
  assumes "8 \<le> LENGTH('a::len)"
  shows "digits_value (List.map ucast s :: 'a str) = digits_value (s :: 8 str)"
proof -
  have "foldl (\<lambda>v c. v * 10 + (uint c - 0x30)) k (List.map ucast s :: 'a str) = foldl (\<lambda>v c. v * 10 + (uint c - 0x30)) k s" for k
    by (induction s arbitrary: k) (simp_all add: uint_ucast8 [OF assms])
  then show ?thesis by (simp add: digits_value_def)
qed

lemma is_digit_ucast: "8 \<le> LENGTH('a::len) \<Longrightarrow> is_digit (ucast (c :: u8) :: 'a word) \<longleftrightarrow> is_digit c"
  by (simp add: is_digit_def uint_ucast8)

lemma read_dec_digits:
  assumes "0 \<le> val" "8 \<le> LENGTH('a::len)"
  shows "read_nat (List.map ucast (dec_digits val) :: 'a str) = Some val"
proof -
  let ?d = "List.map ucast (dec_digits val) :: 'a str"
  have dv: "digits_value ?d = val"
    using digits_value_ucast [OF assms(2), of "dec_digits val"] dec_digits_value [OF assms(1)] by simp
  have "uint (hd ?d) = uint (hd (dec_digits val))"
    using dec_digits_ne uint_ucast8 [OF assms(2)] by (metis hd_map)
  then have "uint (hd ?d) = 0x30 \<longrightarrow> length ?d = 1"
    using dec_digits_hd [of val] assms(1) by (cases "val = 0") (auto simp: dec_digits.simps [of 0])
  then show ?thesis using dv dec_digits_digit [OF assms(1)] dec_digits_ne [of val]
    by (simp add: read_nat_def is_digit_ucast [OF assms(2)])
qed

text \<open>The printed number reads back as the number; the two most negative values are left out.\<close>

lemma put_number_value:
  assumes "0 \<le> val" "val < 10 ^ (n - 2)" "2 < n" "8 \<le> LENGTH('a::len)" "negative \<longrightarrow> val \<noteq> 0"
  shows "read_numeral (put_number n negative val :: 'a str) = Some (if negative then - val else val)"
proof -
  let ?d = "List.map ucast (dec_digits val) :: 'a str"
  note r = read_dec_digits [OF assms(1,4)]
  have minus: "uint (ucast (0x2D :: u8) :: 'a word) = 0x2D"
    unfolding uint_ucast8 [OF assms(4)] by simp
  have "hd ?d \<in> set ?d" using dec_digits_ne by (metis hd_in_set map_is_Nil_conv)
  then have "is_digit (hd ?d)" using r unfolding read_nat_def by (metis option.distinct(1))
  then have "uint (hd ?d) \<noteq> 0x2D" by (simp add: is_digit_def)
  then show ?thesis using put_number_digits [OF assms(1-3), of negative, where 'a = 'a] assms(5) r minus
    by (auto simp: read_numeral_def)
qed

section \<open>Searching\<close>

lemma trim_both: "trim s ws = Some (rev (dropWhile (\<lambda>c. c \<in> set ws) (rev (dropWhile (\<lambda>c. c \<in> set ws) s))))"
proof (cases "\<forall>c \<in> set s. c \<in> set ws")
  case True
  then have t: "takeWhile (\<lambda>c. c \<in> set ws) s = s" and d: "dropWhile (\<lambda>c. c \<in> set ws) s = []" by simp_all
  have "find_first_not_of s ws = None" unfolding find_first_not_of_def t by simp
  then show ?thesis unfolding d by (simp add: trim_def)
next
  case False
  let ?P = "\<lambda>c. c \<in> set ws"
  obtain c where c: "c \<in> set s" "\<not> ?P c" using False by blast
  define a m where "a = takeWhile ?P s" and "m = dropWhile ?P s"
  have s: "s = a @ m" by (simp add: a_def m_def)
  have "m \<noteq> []" using c by (auto simp: m_def)
  define t b where "t = takeWhile ?P (rev m)" and "b = dropWhile ?P (rev m)"
  have rm: "rev m = t @ b" by (simp add: t_def b_def)
  have hd: "\<not> ?P (hd m)" using \<open>m \<noteq> []\<close> hd_dropWhile [of ?P s] by (simp add: m_def)
  have b: "b \<noteq> []"
  proof
    assume "b = []"
    then have "\<forall>x \<in> set m. ?P x" unfolding b_def by simp
    then show False using hd \<open>m \<noteq> []\<close> by simp
  qed
  then have tr: "takeWhile ?P (rev s) = t"
  proof -
    have "takeWhile ?P (rev m @ rev a) = takeWhile ?P (rev m)"
      using b unfolding b_def by (metis dropWhile_eq_Nil_conv takeWhile_append1)
    then show ?thesis by (simp add: s t_def)
  qed
  have la: "length a < length s" using \<open>m \<noteq> []\<close> s by simp
  have ls: "length s = length a + length t + length b" using s rm by (metis add.assoc length_append length_rev)
  have m: "m = rev b @ rev t" using rm by (metis rev_append rev_rev_ident)
  have "find_first_not_of s ws = Some (length a)"
    using la by (simp add: find_first_not_of_def a_def [symmetric])
  moreover have "find_last_not_of s ws = Some (length s - 1 - length t)"
    using b ls by (simp add: find_last_not_of_def tr)
  moreover have "length s - 1 - length t = length a + (length b - 1)" using ls b by (cases b) auto
  moreover have "std_substr s (length a) (length b) = Some (rev b)"
    using s m by (simp add: std_substr_def)
  ultimately have "trim s ws = Some (rev b)" using b
    by (simp add: trim_def)
  then show ?thesis by (simp add: b_def m_def)
qed

lemma str_c_read: "0 \<notin> set s \<Longrightarrow> str_c (s @ 0 # rest) = Some s"
  unfolding str_c_def c_string_def by (subst takeWhile_append2) auto

lemma str_range_sub: "\<lbrakk>i \<le> j; j \<le> length s\<rbrakk> \<Longrightarrow> str_range s i j = str_sub s i (Some (j - i))"
  by (simp add: str_range_def str_sub_def std_substr_def)

lemma make_lower_map: "make_lower s = List.map lower_char s"
  by (simp add: make_lower_def foldl_snoc_map)

lemma make_upper_map: "make_upper s = List.map upper_char s"
  by (simp add: make_upper_def foldl_snoc_map)

text \<open>The lower case of an ASCII letter, by its code.\<close>

definition ascii_lower :: "'a::len word \<Rightarrow> 'a word" where
  "ascii_lower c = (if 65 \<le> uint c \<and> uint c \<le> 90 then c + 32 else c)"

lemma lower_char_ascii:
  assumes "8 \<le> LENGTH('a::len)" "uint (c :: 'a word) < 256" shows "lower_char c = ascii_lower c"
proof -
  have u: "uint (ucast c :: u8) = uint c" using assms(2) by (simp add: unsigned_ucast_eq take_bit_int_eq_self)
  have le: "0x41 \<le> (ucast c :: u8) \<and> (ucast c :: u8) \<le> 0x5A \<longleftrightarrow> 65 \<le> uint c \<and> uint c \<le> 90"
    by (simp add: word_le_def u)
  have "(ucast ((ucast c :: u8) + 0x20) :: 'a word) = c + 32" if "uint c \<le> 90"
  proof -
    have "uint ((ucast c :: u8) + 0x20) = uint c + 32" using that u
      by (simp add: uint_word_ariths take_bit_int_eq_self)
    then have "ucast ((ucast c :: u8) + 0x20) = (of_int (uint c + 32) :: 'a word)" by (metis ucast_eq)
    then show ?thesis by simp
  qed
  then show ?thesis using le by (auto simp: lower_char_def ascii_lower_def to_c8_def Let_def)
qed

lemma make_lower_ascii:
  "\<lbrakk>8 \<le> LENGTH('a::len); \<forall>c \<in> set s. uint c < 256\<rbrakk> \<Longrightarrow> make_lower (s :: 'a str) = List.map ascii_lower s"
  by (simp add: make_lower_map lower_char_ascii)

lemma equals_ignore_case_eq:
  "equals_ignore_case s t 0 (- 1) = Some (take (length t) (make_lower s) = make_lower t)"
  by (simp add: equals_ignore_case_def std_substr_def)

lemma prefix_take: "prefix u v \<longleftrightarrow> take (length u) v = u"
  by (metis append_take_drop_id prefix_def append_eq_conv_conj)

lemma begin_with_eq:
  "begin_with s t ic = Some (if ic then prefix (make_lower t) (make_lower s) else prefix t s)"
proof (cases "length s < length t")
  case True
  then have "\<not> prefix t s" "\<not> prefix (make_lower t) (make_lower s)"
    by (auto dest!: prefix_length_le simp: make_lower_map)
  then show ?thesis using True by (simp add: begin_with_def)
next
  case False
  show ?thesis using False
    by (simp add: begin_with_def std_substr_def equals_ignore_case_eq prefix_take make_lower_map take_map)
qed

lemma end_with_eq:
  "end_with s t ic = Some (if ic then suffix (make_lower t) (make_lower s) else suffix t s)"
proof (cases "length s < length t")
  case True
  then have "\<not> suffix t s" "\<not> suffix (make_lower t) (make_lower s)"
    by (auto dest!: suffix_length_le simp: make_lower_map)
  then show ?thesis using True by (simp add: end_with_def)
next
  case False
  have p: "length u \<le> length v \<Longrightarrow> suffix u v \<longleftrightarrow> drop (length v - length u) v = u" for u v :: "'a str"
    by (metis append_take_drop_id suffix_def suffix_drop append_eq_conv_conj length_append diff_add_inverse2)
  show ?thesis using False
    by (simp add: end_with_def std_substr_def equals_ignore_case_eq p make_lower_map drop_map)
qed

section \<open>Splitting\<close>

lemma split_loop_token:
  "set t \<inter> set delim = {} \<Longrightarrow> split_loop s delim ie kp i (t @ rest) lp ls ret =
     split_loop s delim ie kp (i + length t) rest lp (ls \<and> t = []) ret"
  by (induction t arbitrary: i ls) auto

lemma split_loop_tokens:
  "\<lbrakk>\<forall>(t, d) \<in> set tds. t \<noteq> [] \<and> set t \<inter> set delim = {} \<and> d \<in> set delim;
    s = pre @ concat (map (\<lambda>(t, d). t @ [d]) tds) @ rest\<rbrakk> \<Longrightarrow>
   \<exists>ls'. split_loop s delim True False (length pre) (concat (map (\<lambda>(t, d). t @ [d]) tds) @ rest) (length pre) ls ret =
     split_loop s delim True False (length s - length rest) rest (length s - length rest) ls' (ret @ map fst tds)"
proof (induction tds arbitrary: pre ls ret)
  case Nil
  then show ?case by auto
next
  case (Cons td tds)
  obtain t d where td: "td = (t, d)" "t \<noteq> []" "set t \<inter> set delim = {}" "d \<in> set delim"
    using Cons.prems(1) by (cases td) auto
  have "s = (pre @ t @ [d]) @ concat (map (\<lambda>(t, d). t @ [d]) tds) @ rest" using Cons.prems(2) td(1) by simp
  from Cons.IH [OF _ this, of True "ret @ [t]"] Cons.prems(1)
  obtain ls' where "split_loop s delim True False (length (pre @ t @ [d])) (concat (map (\<lambda>(t, d). t @ [d]) tds) @ rest)
      (length (pre @ t @ [d])) True (ret @ [t]) =
     split_loop s delim True False (length s - length rest) rest (length s - length rest) ls' ((ret @ [t]) @ map fst tds)"
    by auto
  moreover have "take (length t) (drop (length pre) s) = t" using Cons.prems(2) td(1) by simp
  ultimately show ?case using td split_loop_token [OF td(3), of s True False "length pre"
      "d # concat (map (\<lambda>(t, d). t @ [d]) tds) @ rest" "length pre" ls ret]
    by (intro exI [of _ ls']) (simp add: Let_def)
qed

text \<open>What follows the last separator loses its last character, and vanishes if it has only one.\<close>

lemma split_tokens_eq:
  assumes "\<forall>(t, d) \<in> set tds. t \<noteq> [] \<and> set t \<inter> set delim = {} \<and> d \<in> set delim"
    and "set rest \<inter> set delim = {}" "delim \<noteq> []" "tds \<noteq> [] \<or> rest \<noteq> []"
    and "length (concat (map (\<lambda>(t, d). t @ [d]) tds) @ rest) < 2 ^ 64"
  shows "split (concat (map (\<lambda>(t, d). t @ [d]) tds) @ rest) ret delim True False =
    (let out = map fst tds @ (if 2 \<le> length rest then [butlast rest] else []) in Some (ret @ out, length out))"
proof -
  let ?s = "concat (map (\<lambda>(t, d). t @ [d]) tds) @ rest"
  obtain ls where L: "split_loop ?s delim True False 0 ?s 0 False ret =
     split_loop ?s delim True False (length ?s - length rest) rest (length ?s - length rest) ls (ret @ map fst tds)"
    using split_loop_tokens [OF assms(1), of ?s "[]" rest False ret] by auto
  have L2: "split_loop ?s delim True False 0 ?s 0 False ret = (length ?s - length rest, ret @ map fst tds)"
    unfolding L using split_loop_token [OF assms(2), of ?s True False _ "[]"] by simp
  have "0 < length ?s"
  proof (cases tds)
    case (Cons td tds')
    then show ?thesis by (cases td) simp
  qed (use assms(4) in simp)
  moreover have "(int n - 1) mod 2 ^ 64 = int (n - 1)" if "0 < n" "n < 2 ^ 64" for n :: nat
    using that by (simp add: of_nat_diff)
  ultimately have last: "(int (length ?s) - 1) mod 2 ^ 64 = int (length ?s - 1)"
    using assms(5) by blast
  have "2 \<le> length rest \<longleftrightarrow> length ?s - length rest < length ?s - 1" by auto
  moreover have "take (length ?s - 1 - (length ?s - length rest)) (drop (length ?s - length rest) ?s) = butlast rest"
    by (simp add: butlast_conv_take)
  ultimately show ?thesis unfolding split_def L2 Let_def prod.case last nat_int using assms(3)
    by auto
qed

section \<open>Properties\<close>

lemma sint_range: "- (2 ^ (LENGTH('a::len) - 1)) \<le> sint (w :: 'a word) \<and> sint w < 2 ^ (LENGTH('a) - 1)"
  using sint_greater_eq [of w] sint_less [of w] by simp

text \<open>Negation is exact except at the most negative value.\<close>

lemma neg_exact:
  assumes "sint (i :: u32) < 0" "i \<noteq> 0x80000000"
  shows "neg_s32 (sint i) = - sint i" "- sint i < 10 ^ 14"
proof -
  have "sint i \<noteq> sint (0x80000000 :: u32)" using assms(2) by (metis signed_word_eqI)
  then have "sint i \<noteq> - (2 ^ 31)" by simp
  then have "- (2 ^ 31) < sint i" using sint_range [of i] by simp
  then show "neg_s32 (sint i) = - sint i" "- sint i < 10 ^ 14"
    using assms(1) by (simp_all add: neg_s32_def signed_take_bit_int_eq_self)
qed

lemma neg_exact64:
  assumes "sint (i :: u64) < 0" "i \<noteq> 0x8000000000000000"
  shows "neg_s64 (sint i) = - sint i" "- sint i < 10 ^ 30"
proof -
  have "sint i \<noteq> sint (0x8000000000000000 :: u64)" using assms(2) by (metis signed_word_eqI)
  then have "sint i \<noteq> - (2 ^ 63)" by simp
  then have "- (2 ^ 63) < sint i" using sint_range [of i] by simp
  then show "neg_s64 (sint i) = - sint i" "- sint i < 10 ^ 30"
    using assms(1) by (simp_all add: neg_s64_def signed_take_bit_int_eq_self)
qed

text \<open>
  C39: The constructors from integers print the canonical decimal numeral of the number, in
  characters of any width: a reader that accepts only a minus sign for negative numbers and
  digits without a leading zero gives the number back, for all 32-bit and 64-bit values except
  the two most negative ones.
\<close>

theorem number_roundtrip:
  assumes "8 \<le> LENGTH('a::len)" "i \<noteq> 0x80000000" "l \<noteq> 0x8000000000000000"
  shows "read_numeral (str_of_u32 u :: 'a str) = Some (uint u) \<and> read_numeral (str_of_s32 i :: 'a str) = Some (sint i) \<and>
    read_numeral (str_of_u64 v :: 'a str) = Some (uint v) \<and> read_numeral (str_of_s64 l :: 'a str) = Some (sint l)"
proof (intro conjI)
  have u: "uint u < 10 ^ 14" using uint_bounded [of u] by simp
  have v: "uint v < 10 ^ 30" using uint_bounded [of v] by simp
  have i: "sint i < 10 ^ 14" using sint_range [of i] by simp
  have l: "sint l < 10 ^ 30" using sint_range [of l] by simp
  show "read_numeral (str_of_u32 u :: 'a str) = Some (uint u)"
    using put_number_value [of "uint u" 16 False] u assms(1) by (simp add: str_of_u32_def)
  show "read_numeral (str_of_u64 v :: 'a str) = Some (uint v)"
    using put_number_value [of "uint v" 32 False] v assms(1) by (simp add: str_of_u64_def)
  show "read_numeral (str_of_s32 i :: 'a str) = Some (sint i)"
    using put_number_value [of "sint i" 16 False, where 'a = 'a] put_number_value [of "- sint i" 16 True, where 'a = 'a]
      neg_exact [OF _ assms(2)] i assms(1)
    by (simp add: str_of_s32_def Let_def)
  show "read_numeral (str_of_s64 l :: 'a str) = Some (sint l)"
    using put_number_value [of "sint l" 32 False, where 'a = 'a] put_number_value [of "- sint l" 32 True, where 'a = 'a]
      neg_exact64 [OF _ assms(3)] l assms(1)
    by (simp add: str_of_s64_def Let_def)
qed

theorem number_roundtrip_witness:
  "(str_of_s32 (- 2147483647) :: 8 str) = lit ''-2147483647'' \<and>
   read_numeral (str_of_s32 (- 2147483647) :: 8 str) = Some (- 2147483647) \<and>
   (str_of_u32 0 :: 8 str) = lit ''0'' \<and> read_numeral (str_of_u32 0 :: 8 str) = Some 0"
proof (intro conjI)
  show "(str_of_s32 (- 2147483647) :: 8 str) = lit ''-2147483647''" by code_simp
  show "(str_of_u32 0 :: 8 str) = lit ''0''" by code_simp
  note r = number_roundtrip [where 'a = 8 and i = "- 2147483647" and l = 0 and u = 0 and v = 0]
  have "read_numeral (str_of_s32 (- 2147483647) :: 8 str) = Some (sint (- 2147483647 :: u32))" using r by simp
  then show "read_numeral (str_of_s32 (- 2147483647) :: 8 str) = Some (- 2147483647)" by simp
  show "read_numeral (str_of_u32 0 :: 8 str) = Some 0" using r by simp
qed

text \<open>
  C40: \<open>trim\<close> never throws and strips the given characters from both ends; \<open>begin_with\<close> and
  \<open>end_with\<close> never throw and decide prefix and suffix.  With case ignored they do so up to the
  case of ASCII letters, on strings whose characters are below 256.
  \<open>equals_ignore_case\<close> with its default arguments does not decide equality: it is true exactly
  when the other string is a prefix up to case.
\<close>

theorem string_searching:
  assumes "8 \<le> LENGTH('a::len)"
  shows "trim s ws = Some (rev (dropWhile (\<lambda>c. c \<in> set ws) (rev (dropWhile (\<lambda>c. c \<in> set ws) (s :: 'a str))))) \<and>
   begin_with s t False = Some (prefix t s) \<and>
   end_with s t False = Some (suffix t s) \<and>
   ((\<forall>c \<in> set s \<union> set t. uint c < 256) \<longrightarrow>
     begin_with s t True = Some (prefix (List.map ascii_lower t) (List.map ascii_lower s)) \<and>
     end_with s t True = Some (suffix (List.map ascii_lower t) (List.map ascii_lower s)) \<and>
     equals_ignore_case s t 0 (- 1) = Some (prefix (List.map ascii_lower t) (List.map ascii_lower s)))"
proof (intro conjI impI)
  assume "\<forall>c \<in> set s \<union> set t. uint c < 256"
  then have l: "make_lower s = List.map ascii_lower s" "make_lower t = List.map ascii_lower t"
    using make_lower_ascii [OF assms] by simp_all
  show "begin_with s t True = Some (prefix (List.map ascii_lower t) (List.map ascii_lower s))"
    "end_with s t True = Some (suffix (List.map ascii_lower t) (List.map ascii_lower s))"
    by (simp_all add: begin_with_eq end_with_eq l)
  have "take (length t) (make_lower s) = make_lower t \<longleftrightarrow> prefix (make_lower t) (make_lower s)"
    unfolding prefix_take by (simp add: make_lower_map)
  then show "equals_ignore_case s t 0 (- 1) = Some (prefix (List.map ascii_lower t) (List.map ascii_lower s))"
    by (simp add: equals_ignore_case_eq l)
qed (simp_all add: trim_both begin_with_eq end_with_eq)

theorem string_searching_witness:
  "trim (lit '' xPf '' :: 8 str) (lit '' '') = Some (lit ''xPf'') \<and>
   begin_with (lit '' xPf '' :: 8 str) (lit '' Xp'') True = Some True \<and>
   begin_with (lit '' xPf '' :: 8 str) (lit '' Xp'') False = Some False \<and>
   end_with (lit '' xPf '' :: 8 str) (lit ''g '') True = Some False \<and>
   equals_ignore_case (lit '' xPf '' :: 8 str) (lit '' XP'') 0 (- 1) = Some True"
proof -
  note r = string_searching [where 'a = 8 and s = "lit '' xPf ''"]
  have c: "\<forall>c \<in> set (lit '' xPf '' :: 8 str) \<union> set t. uint c < 256" for t :: "8 str"
    using uint_bounded [where 'a = 8] by simp
  have lw: "List.map ascii_lower (lit '' xPf '' :: 8 str) = lit '' xpf ''"
    "List.map ascii_lower (lit '' Xp'' :: 8 str) = lit '' xp''" "List.map ascii_lower (lit '' XP'' :: 8 str) = lit '' xp''"
    "List.map ascii_lower (lit ''g '' :: 8 str) = lit ''g ''" by code_simp+
  show ?thesis using r [of "lit '' ''" "lit '' Xp''"] r [of _ "lit ''g ''"] r [of _ "lit '' XP''"] c
    by (simp add: lw) (simp add: lit_def chr_def suffix_def)
qed

text \<open>
  \<open>split\<close> of a text that consists of non-empty tokens, each followed by a separator, and a
  rest without separator appends the tokens in order and then the rest without its last
  character, if it has at least two.
\<close>

theorem split_tokens:
  assumes "\<forall>(t, d) \<in> set tds. t \<noteq> [] \<and> set t \<inter> set delim = {} \<and> d \<in> set delim"
    and "set rest \<inter> set delim = {}" "delim \<noteq> []" "tds \<noteq> [] \<or> rest \<noteq> []"
    and "length (concat (map (\<lambda>(t, d). t @ [d]) tds) @ rest) < 2 ^ 64"
  shows "split (concat (map (\<lambda>(t, d). t @ [d]) tds) @ rest) ret delim True False =
    (let out = map fst tds @ (if 2 \<le> length rest then [butlast rest] else []) in Some (ret @ out, length out))"
  by (rule split_tokens_eq [OF assms])

theorem split_tokens_witness:
  "split (lit ''ab,c;def'' :: 8 str) [] (lit '',;'') True False = Some ([lit ''ab'', lit ''c'', lit ''de''], 3)"
  using split_tokens [of "[(lit ''ab'', chr CHR '',''), (lit ''c'', chr CHR '';'')]" "lit '',;'' :: 8 str" "lit ''def''" "[]"]
  by (simp add: lit_def chr_def)

text \<open>Assignment of a string of another character type appends to what the string holds.\<close>

lemma assign_units_appends:
  "assign_units (lit ''ab'' :: 16 str) False (Some (lit ''c'' :: 8 str)) = lit ''abc''"
  by code_simp

text \<open>
  Corners of the string class.  The most negative s32 prints no digits; the lower case of a
  wide string changes the letter 0x141; \<open>split\<close> of the empty string throws; a double of 130
  digits overruns the buffer of the constructor; and "abcd" equals "ABC" without case.
\<close>

theorem string_corners:
  "(str_of_s32 0x80000000 :: 8 str) = lit ''-./,),(-*,('' \<and>
   make_lower [0x141 :: 16 word] = [0x61] \<and>
   split ([] :: 8 str) [] (lit '','') True False = None \<and>
   (str_of_f64 (Fin False 1 430) :: 8 str option) = None \<and>
   equals_ignore_case (lit ''abcd'' :: 8 str) (lit ''ABC'') 0 (- 1) = Some True"
proof (intro conjI)
  show "(str_of_s32 0x80000000 :: 8 str) = lit ''-./,),(-*,(''" by code_simp
  show "make_lower [0x141 :: 16 word] = [0x61]" by code_simp
  show "split ([] :: 8 str) [] (lit '','') True False = None" by code_simp
  show "equals_ignore_case (lit ''abcd'' :: 8 str) (lit ''ABC'') 0 (- 1) = Some True" by code_simp
  have "128 < length (dec_digits (2 ^ 430))" by (rule dec_digits_length) simp
  then show "(str_of_f64 (Fin False 1 430) :: 8 str option) = None"
    by (simp add: str_of_f64_def sprintf_6f_def f64_micro_def Let_def)
qed

end
