(* ===== verification/Printf.thy ===== *)
theory Printf
  imports XString
begin

text \<open>
  \<open>xpfstring::printf\<close> of src/include/xpf/string.h: the state machine over the format, the
  conversions and the layout.  The arguments are the values \<open>va_arg\<close> reads, in order; None
  stands for undefined behaviour or an exception: an argument missing or of another type, a
  width or precision beyond \<open>int\<close>, an append of a negative count, an overrun of the buffer of
  the constructor from \<open>f64\<close>.  Pointers have 64 bits.
\<close>

section \<open>State\<close>

datatype 'c arg = AInt u32 | ALong u64 | ADouble f64 | AStr "'c list"

datatype pf_st = ST_TEXT | ST_FLAGS | ST_WIDTH | ST_PERCISION | ST_SUBSPEC | ST_SPEC

definition FLAG_LEFTJUSTIFY :: u16 where "FLAG_LEFTJUSTIFY = 0x1"
definition FLAG_FORCESIGN :: u16 where "FLAG_FORCESIGN = 0x2"
definition FLAG_BLANKSIGN :: u16 where "FLAG_BLANKSIGN = 0x4"
definition FLAG_PREFIXSUFFIX :: u16 where "FLAG_PREFIXSUFFIX = 0x8"
definition FLAG_LEFTPADZERO :: u16 where "FLAG_LEFTPADZERO = 0x10"
definition FLAG_WIDTH_SPECIFIED :: u16 where "FLAG_WIDTH_SPECIFIED = 0x100"
definition FLAG_WIDTH_PARAM :: u16 where "FLAG_WIDTH_PARAM = 0x200"
definition FLAG_PERCISION_SPECIFIED :: u16 where "FLAG_PERCISION_SPECIFIED = 0x400"
definition FLAG_PERCISION_PARAM :: u16 where "FLAG_PERCISION_PARAM = 0x800"
definition FLAG_FMT_LONG :: u16 where "FLAG_FMT_LONG = 0x1000"
definition FLAG_FMT_LONGLONG :: u16 where "FLAG_FMT_LONGLONG = 0x2000"
definition FLAG_FMT_HALF :: u16 where "FLAG_FMT_HALF = 0x4000"
definition FLAG_FMT_HALFHALF :: u16 where "FLAG_FMT_HALFHALF = 0x8000"

lemmas flag_defs = FLAG_LEFTJUSTIFY_def FLAG_FORCESIGN_def FLAG_BLANKSIGN_def FLAG_PREFIXSUFFIX_def
  FLAG_LEFTPADZERO_def FLAG_WIDTH_SPECIFIED_def FLAG_WIDTH_PARAM_def FLAG_PERCISION_SPECIFIED_def
  FLAG_PERCISION_PARAM_def FLAG_FMT_LONG_def FLAG_FMT_LONGLONG_def FLAG_FMT_HALF_def FLAG_FMT_HALFHALF_def

record 'c pf =
  pf_out :: "'c list"
  pf_state :: pf_st
  pf_width :: int
  pf_percision :: int
  pf_flag :: u16
  pf_ap :: "'c arg list"

definition has :: "'a word pf \<Rightarrow> u16 \<Rightarrow> bool" where
  "has s f \<longleftrightarrow> pf_flag s AND f \<noteq> 0"

definition put :: "'a str \<Rightarrow> 'a word pf \<Rightarrow> 'a word pf" where
  "put t s = s\<lparr>pf_out := pf_out s @ t\<rparr>"

section \<open>va\_arg\<close>

fun va_int :: "'a word arg list \<Rightarrow> (u32 \<times> 'a word arg list) option" where
  "va_int (AInt v # ap) = Some (v, ap)" | "va_int _ = None"

fun va_longlong :: "'a word arg list \<Rightarrow> (u64 \<times> 'a word arg list) option" where
  "va_longlong (ALong v # ap) = Some (v, ap)" | "va_longlong _ = None"

fun va_double :: "'a word arg list \<Rightarrow> (f64 \<times> 'a word arg list) option" where
  "va_double (ADouble v # ap) = Some (v, ap)" | "va_double _ = None"

fun va_str :: "'a::len word arg list \<Rightarrow> ('a str \<times> 'a word arg list) option" where
  "va_str (AStr v # ap) = Some (c_string v, ap)" | "va_str _ = None"

definition read_params :: "'a word pf \<Rightarrow> 'a word pf option" where
  "read_params s =
     do { s1 \<leftarrow> (if has s FLAG_WIDTH_PARAM
                then map_option (\<lambda>(v, ap). s\<lparr>pf_width := sint v, pf_ap := ap\<rparr>) (va_int (pf_ap s)) else Some s);
          (if has s1 FLAG_PERCISION_PARAM
           then map_option (\<lambda>(v, ap). s1\<lparr>pf_percision := sint v, pf_ap := ap\<rparr>) (va_int (pf_ap s1)) else Some s1) }"

section \<open>The characters of a specification\<close>

definition pf_text :: "'a::len word \<Rightarrow> 'a word pf \<Rightarrow> 'a word pf" where
  "pf_text ch s =
     (if to_c8 ch = chr CHR ''%'' then s\<lparr>pf_width := 0, pf_percision := 0, pf_flag := 0, pf_state := ST_FLAGS\<rparr>
      else put [ch] s)"

text \<open>None: the character is none of the flags and is read again in the next state.\<close>

definition pf_flags :: "u8 \<Rightarrow> u16 \<Rightarrow> u16 option" where
  "pf_flags c flag =
     (if c = chr CHR ''-'' then Some (flag OR FLAG_LEFTJUSTIFY)
      else if c = chr CHR ''+'' then Some ((flag OR FLAG_FORCESIGN) AND NOT FLAG_BLANKSIGN)
      else if c = chr CHR '' '' then Some ((flag OR FLAG_BLANKSIGN) AND NOT FLAG_FORCESIGN)
      else if c = chr CHR ''#'' then Some (flag OR FLAG_PREFIXSUFFIX)
      else if c = chr CHR ''0'' then Some (flag OR FLAG_LEFTPADZERO)
      else None)"

definition is_dec :: "u8 \<Rightarrow> bool" where
  "is_dec c \<longleftrightarrow> 0x30 \<le> c \<and> c \<le> 0x39"

definition add_digit :: "int \<Rightarrow> u8 \<Rightarrow> int option" where
  "add_digit w c = (let w0 = (if w < 0 then 0 else w); w1 = w0 * 10 + (uint c - 0x30) in
     if w1 < 2 ^ 31 then Some w1 else None)"

text \<open>The result says whether the character was consumed.\<close>

definition pf_width_char :: "u8 \<Rightarrow> 'a word pf \<Rightarrow> (bool \<times> 'a word pf) option" where
  "pf_width_char c s =
     (if is_dec c
      then map_option (\<lambda>w. (True, s\<lparr>pf_flag := pf_flag s OR FLAG_WIDTH_SPECIFIED, pf_width := w\<rparr>)) (add_digit (pf_width s) c)
      else if c = chr CHR ''*''
      then Some (True, s\<lparr>pf_flag := pf_flag s OR FLAG_WIDTH_SPECIFIED OR FLAG_WIDTH_PARAM\<rparr>)
      else if c = chr CHR ''.''
      then Some (True, s\<lparr>pf_flag := pf_flag s OR FLAG_PERCISION_SPECIFIED, pf_state := ST_PERCISION\<rparr>)
      else Some (False, s\<lparr>pf_state := ST_SUBSPEC\<rparr>))"

definition pf_percision_char :: "u8 \<Rightarrow> 'a word pf \<Rightarrow> (bool \<times> 'a word pf) option" where
  "pf_percision_char c s =
     (if is_dec c then map_option (\<lambda>w. (True, s\<lparr>pf_percision := w\<rparr>)) (add_digit (pf_percision s) c)
      else if c = chr CHR ''*'' then Some (True, s\<lparr>pf_flag := pf_flag s OR FLAG_PERCISION_PARAM\<rparr>)
      else Some (False, s\<lparr>pf_state := ST_SUBSPEC\<rparr>))"

text \<open>How many characters the sub-specifier takes: 0 for none, 2 for \<open>ll\<close> and \<open>hh\<close>.\<close>

definition pf_subspec :: "u8 \<Rightarrow> 'a::len str \<Rightarrow> 'a word pf \<Rightarrow> nat \<times> 'a word pf" where
  "pf_subspec c rest s =
     (if c = chr CHR ''l''
      then if rest \<noteq> [] \<and> hd rest = chr CHR ''l'' then (2, s\<lparr>pf_flag := pf_flag s OR FLAG_FMT_LONGLONG\<rparr>)
           else (1, s\<lparr>pf_flag := pf_flag s OR FLAG_FMT_LONG\<rparr>)
      else if c = chr CHR ''h''
      then if rest \<noteq> [] \<and> hd rest = chr CHR ''h'' then (2, s\<lparr>pf_flag := pf_flag s OR FLAG_FMT_HALFHALF\<rparr>)
           else (1, s\<lparr>pf_flag := pf_flag s OR FLAG_FMT_HALF\<rparr>)
      else if c \<in> {chr CHR ''j'', chr CHR ''z'', chr CHR ''t'', chr CHR ''L''} then (1, s)
      else (0, s\<lparr>pf_state := ST_SPEC\<rparr>))"

section \<open>The specifiers c and s\<close>

definition blanks :: "int \<Rightarrow> 'a::len str" where
  "blanks n = replicate (nat n) (chr CHR '' '')"

definition zeros :: "int \<Rightarrow> 'a::len str" where
  "zeros n = replicate (nat n) (chr CHR ''0'')"

definition spec_c :: "'a::len word pf \<Rightarrow> 'a word pf option" where
  "spec_c s0 =
     do { s \<leftarrow> read_params s0;
          let postpad = (if pf_width s > 1 \<and> has s FLAG_LEFTJUSTIFY then pf_width s - 1 else 0);
          let prepad = (if pf_width s > 1 \<and> \<not> has s FLAG_LEFTJUSTIFY then pf_width s - 1 else 0);
          (v, ap) \<leftarrow> va_int (pf_ap s);
          Some (put (blanks prepad @ (if v \<noteq> 0 then [ucast v] else []) @ blanks postpad) (s\<lparr>pf_ap := ap\<rparr>)) }"

definition spec_percent :: "'a::len word pf \<Rightarrow> 'a word pf option" where
  "spec_percent s0 = map_option (put [chr CHR ''%'']) (read_params s0)"

text \<open>The loop that counts the characters of a string argument, up to the precision.\<close>

fun count_chars :: "bool \<Rightarrow> int \<Rightarrow> 'a str \<Rightarrow> int \<Rightarrow> int" where
  "count_chars prec percision [] cnt = cnt"
| "count_chars prec percision (c # cs) cnt =
     (if prec \<and> cnt \<ge> percision then percision else count_chars prec percision cs (cnt + 1))"

definition append_n :: "'a str \<Rightarrow> int \<Rightarrow> 'a str option" where
  "append_n v cnt = (if 0 \<le> cnt then Some (take (nat cnt) v) else None)"

definition spec_s :: "'a::len word pf \<Rightarrow> 'a word pf option" where
  "spec_s s0 =
     do { s1 \<leftarrow> read_params s0;
          (v, ap) \<leftarrow> va_str (pf_ap s1);
          let s = s1\<lparr>pf_ap := ap\<rparr>;
          if \<not> has s (FLAG_WIDTH_SPECIFIED OR FLAG_PERCISION_SPECIFIED)
          then do { let cnt = count_chars False 0 v 0;
                    if cnt > 0 then map_option (\<lambda>t. put t s) (append_n v cnt) else Some s }
          else do { let cnt = count_chars (has s FLAG_PERCISION_SPECIFIED) (pf_percision s) v 0;
                    let pad = (if has s FLAG_WIDTH_SPECIFIED \<and> pf_width s > cnt then pf_width s - cnt else 0);
                    t \<leftarrow> append_n v cnt;
                    Some (put (if has s FLAG_LEFTJUSTIFY then t @ blanks pad else blanks pad @ t) s) } }"

section \<open>The value of a numeric specifier\<close>

definition hextable :: "u8 list" where
  "hextable = lit ''0123456789abcdef''"

text \<open>
  The digit loops of the four hexadecimal and octal conversions: \<open>b\<close> bits per digit, \<open>Suc k\<close>
  digits left, the next one \<open>b * k\<close> bits up.
\<close>

fun radix_loop :: "nat \<Rightarrow> nat \<Rightarrow> 'v::len word \<Rightarrow> bool \<Rightarrow> 'a::len str \<Rightarrow> 'a str" where
  "radix_loop b 0 v leadingZero valstr = valstr"
| "radix_loop b (Suc k) v leadingZero valstr =
     (let digit = ucast (hextable ! unat (drop_bit (b * k) v AND mask b))
      in if leadingZero \<and> digit = chr CHR ''0'' then radix_loop b k v leadingZero valstr
         else radix_loop b k v False (valstr @ [digit]))"

definition radix_string :: "nat \<Rightarrow> nat \<Rightarrow> 'v::len word \<Rightarrow> 'a::len str" where
  "radix_string b n v = (let valstr = radix_loop b n v True [] in if valstr = [] then [chr CHR ''0''] else valstr)"

definition is_signed :: "u8 \<Rightarrow> bool" where "is_signed c \<longleftrightarrow> c = chr CHR ''d'' \<or> c = chr CHR ''i''"
definition is_hex :: "u8 \<Rightarrow> bool" where "is_hex c \<longleftrightarrow> c = chr CHR ''x'' \<or> c = chr CHR ''X''"
definition is_oct :: "u8 \<Rightarrow> bool" where "is_oct c \<longleftrightarrow> c = chr CHR ''o''"
definition is_float :: "u8 \<Rightarrow> bool" where "is_float c \<longleftrightarrow> c = chr CHR ''f''"

text \<open>The values that are 8 bytes wide.\<close>

definition value_longlong :: "u8 \<Rightarrow> 'a::len word arg list \<Rightarrow> ('a str \<times> 'a word arg list) option" where
  "value_longlong c ap =
     do { (v, ap') \<leftarrow> va_longlong ap;
          Some (if is_signed c then str_of_s64 v
                else if is_hex c then (let t = radix_string 4 16 v in if c = chr CHR ''X'' then make_upper t else t)
                else if is_oct c then radix_string 3 22 v
                else str_of_u64 v, ap') }"

definition shrink :: "u16 \<Rightarrow> u32 \<Rightarrow> u32" where
  "shrink flag v =
     (if flag AND FLAG_FMT_HALF \<noteq> 0 then v AND 0xFFFF
      else if flag AND FLAG_FMT_HALFHALF \<noteq> 0 then v AND 0xFF else v)"

text \<open>The values that are 4 bytes wide, and doubles.\<close>

definition value_int :: "u8 \<Rightarrow> u16 \<Rightarrow> 'a::len word arg list \<Rightarrow> ('a str \<times> 'a word arg list) option" where
  "value_int c flag ap =
     (if is_float c
      then do { (v, ap') \<leftarrow> va_double ap; t \<leftarrow> str_of_f64 v; Some (t, ap') }
      else do { (v, ap') \<leftarrow> va_int ap;
                let v' = shrink flag v;
                Some (if is_signed c then str_of_s32 v'
                      else if is_hex c then (let t = radix_string 4 8 v' in if c = chr CHR ''X'' then make_upper t else t)
                      else if is_oct c then radix_string 3 11 v'
                      else str_of_u32 v', ap') })"

section \<open>Layout of a number\<close>

text \<open>A read of \<open>valstr[i]\<close>: the terminator is at the end.\<close>

definition char_at :: "'a::len str \<Rightarrow> nat \<Rightarrow> 'a word" where
  "char_at s i = (if i < length s then s ! i else 0)"

definition is_zero_str :: "'a::len str \<Rightarrow> bool" where
  "is_zero_str s \<longleftrightarrow> char_at s 0 = chr CHR ''0'' \<and> char_at s 1 = 0"

definition find_dot :: "'a::len str \<Rightarrow> nat option" where
  "find_dot s = (let n = length (takeWhile (\<lambda>c. c \<noteq> chr CHR ''.'') s) in if n = length s then None else Some n)"

text \<open>Neither width nor precision.\<close>

definition layout_plain :: "u8 \<Rightarrow> 'a::len str \<Rightarrow> 'a word pf \<Rightarrow> 'a word pf" where
  "layout_plain c valstr s =
     (let neg = (char_at valstr 0 = chr CHR ''-'');
          sign = (if (is_signed c \<or> is_float c) \<and> \<not> neg
                  then (if has s FLAG_FORCESIGN then [chr CHR ''+''] else []) @ (if has s FLAG_BLANKSIGN then [chr CHR '' ''] else [])
                  else []);
          valstr1 = (if is_float c \<and> has s FLAG_PREFIXSUFFIX \<and> find_dot valstr = None then valstr @ [chr CHR ''.''] else valstr);
          prefix = (if (is_hex c \<or> is_oct c) \<and> has s FLAG_PREFIXSUFFIX \<and> \<not> is_zero_str valstr1
                    then chr CHR ''0'' # (if is_oct c then [] else [ucast c]) else [])
      in put (sign @ prefix @ valstr1) s)"

definition number_prefix :: "u8 \<Rightarrow> bool \<Rightarrow> 'a::len word pf \<Rightarrow> 'a str" where
  "number_prefix c neg s =
     (if is_signed c \<or> is_float c
      then if neg then [chr CHR ''-'']
           else if has s FLAG_FORCESIGN then [chr CHR ''+'']
           else if has s FLAG_BLANKSIGN then [chr CHR '' ''] else []
      else if (is_hex c \<or> is_oct c) \<and> has s FLAG_PREFIXSUFFIX
      then chr CHR ''0'' # (if is_hex c then [ucast c] else [])
      else [])"

text \<open>Trimming and padding of the decimals of a double.\<close>

definition float_percision :: "'a::len str \<Rightarrow> 'a word pf \<Rightarrow> 'a str option" where
  "float_percision valstr s =
     (case find_dot valstr of
        None \<Rightarrow> if pf_percision s > 0 \<or> has s FLAG_PREFIXSUFFIX
                then Some (valstr @ [chr CHR ''.''] @ zeros (pf_percision s)) else Some valstr
      | Some idx \<Rightarrow>
          let restcnt = int (length valstr) - int idx - 1 in
          if restcnt > pf_percision s
          then if pf_percision s = 0 \<and> \<not> has s FLAG_PREFIXSUFFIX then Some (take idx valstr)
               else if int idx + pf_percision s + 1 \<ge> 0 then Some (take (nat (int idx + pf_percision s + 1)) valstr)
               else Some valstr
          else Some (valstr @ zeros (pf_percision s - restcnt)))"

definition apply_percision :: "u8 \<Rightarrow> 'a::len str \<Rightarrow> 'a str \<Rightarrow> 'a word pf \<Rightarrow> 'a str option" where
  "apply_percision c prefix valstr s =
     (if \<not> is_float c \<and> pf_percision s = 0 \<and> is_zero_str valstr
      then Some (let valstr1 = assign_lit valstr '''' in
                 if is_signed c
                 then (if has s FLAG_FORCESIGN then assign_lit valstr1 ''+''
                       else if has s FLAG_BLANKSIGN then assign_lit valstr1 '' '' else valstr1)
                 else valstr1)
      else let v = (if char_at valstr 0 = chr CHR ''-'' then drop 1 valstr else valstr) in
        if is_float c then map_option (\<lambda>t. prefix @ t) (float_percision v s)
        else let cnt = (if pf_percision s > int (length v) then pf_percision s - int (length v) else 0)
          in Some (prefix @ zeros cnt @ v))"

definition place_percision :: "'a::len str \<Rightarrow> 'a word pf \<Rightarrow> 'a word pf" where
  "place_percision valstr s =
     (let cnt = (if pf_width s > int (length valstr) then pf_width s - int (length valstr) else 0)
      in put (if has s FLAG_LEFTJUSTIFY then valstr @ blanks cnt else blanks cnt @ valstr) s)"

definition place_width :: "'a::len str \<Rightarrow> 'a str \<Rightarrow> 'a word pf \<Rightarrow> 'a word pf" where
  "place_width prefix valstr s =
     (let v = (if char_at valstr 0 = chr CHR ''-'' then drop 1 valstr else valstr);
          fulllen = int (length prefix + length v);
          padlen = (if pf_width s > fulllen then pf_width s - fulllen else 0)
      in put (if has s FLAG_LEFTJUSTIFY then prefix @ v @ blanks padlen
              else if has s FLAG_LEFTPADZERO then prefix @ zeros padlen @ v
              else blanks padlen @ prefix @ v) s)"

definition layout_number :: "u8 \<Rightarrow> 'a::len str \<Rightarrow> 'a word pf \<Rightarrow> 'a word pf option" where
  "layout_number c valstr s =
     (if \<not> has s (FLAG_WIDTH_SPECIFIED OR FLAG_PERCISION_SPECIFIED) then Some (layout_plain c valstr s)
      else let s1 = (if has s (FLAG_PERCISION_SPECIFIED OR FLAG_LEFTJUSTIFY)
                     then s\<lparr>pf_flag := pf_flag s AND NOT FLAG_LEFTPADZERO\<rparr> else s);
               prefix = number_prefix c (char_at valstr 0 = chr CHR ''-'') s1
        in if has s1 FLAG_PERCISION_SPECIFIED
           then map_option (\<lambda>t. place_percision t s1) (apply_percision c prefix valstr s1)
           else Some (place_width prefix valstr s1))"

definition spec_number :: "u8 \<Rightarrow> 'a::len word pf \<Rightarrow> 'a word pf option" where
  "spec_number c s0 =
     do { s \<leftarrow> read_params s0;
          (valstr, ap) \<leftarrow> (if has s FLAG_FMT_LONGLONG then value_longlong c (pf_ap s) else value_int c (pf_flag s) (pf_ap s));
          layout_number c valstr (s\<lparr>pf_ap := ap\<rparr>) }"

text \<open>The preparation of \<open>%p\<close>, which goes on as \<open>%x\<close>.\<close>

definition spec_p :: "'a word pf \<Rightarrow> 'a word pf" where
  "spec_p s =
     (let flag = (pf_flag s AND (FLAG_WIDTH_SPECIFIED OR FLAG_WIDTH_PARAM OR FLAG_PERCISION_SPECIFIED OR FLAG_PERCISION_PARAM))
                 OR FLAG_PERCISION_SPECIFIED OR FLAG_PREFIXSUFFIX;
          p8 = (if pf_percision s < 8 then 8 else pf_percision s);
          p16 = (if p8 < 16 then 16 else p8)
      in s\<lparr>pf_flag := flag OR FLAG_FMT_LONGLONG, pf_percision := p16\<rparr>)"

text \<open>The switch over the specifier; all specifiers for doubles are treated as \<open>f\<close>.\<close>

definition pf_spec :: "u8 \<Rightarrow> 'a::len word pf \<Rightarrow> 'a word pf option" where
  "pf_spec c s =
     map_option (\<lambda>s'. s'\<lparr>pf_state := ST_TEXT\<rparr>)
      (if c = chr CHR ''c'' then spec_c s
       else if c = chr CHR ''%'' then spec_percent s
       else if c = chr CHR ''p'' then spec_number (chr CHR ''x'') (spec_p s)
       else if c \<in> set (lit ''FgGeEAaf'') then spec_number (chr CHR ''f'') s
       else if c \<in> set (lit ''xXodiu'') then spec_number c s
       else if c = chr CHR ''s'' then spec_s s
       else Some s)"

section \<open>The loop over the format\<close>

text \<open>A state that gives the character back hands it to a later state of this order.\<close>

fun st_rank :: "pf_st \<Rightarrow> nat" where
  "st_rank ST_TEXT = 0" | "st_rank ST_FLAGS = 4" | "st_rank ST_WIDTH = 3" | "st_rank ST_PERCISION = 2"
| "st_rank ST_SUBSPEC = 1" | "st_rank ST_SPEC = 0"

function pf_run :: "'a::len str \<Rightarrow> 'a word pf \<Rightarrow> 'a word pf option" where
  "pf_run [] s = Some s"
| "pf_run (ch # rest) s =
     (let c = to_c8 ch in
      case pf_state s of
        ST_TEXT \<Rightarrow> pf_run rest (pf_text ch s)
      | ST_FLAGS \<Rightarrow> (case pf_flags c (pf_flag s) of
            Some f \<Rightarrow> pf_run rest (s\<lparr>pf_flag := f\<rparr>)
          | None \<Rightarrow> pf_run (ch # rest) (s\<lparr>pf_state := ST_WIDTH\<rparr>))
      | ST_WIDTH \<Rightarrow> (case pf_width_char c s of
            None \<Rightarrow> None
          | Some (True, s') \<Rightarrow> pf_run rest s'
          | Some (False, s') \<Rightarrow> pf_run (ch # rest) (s\<lparr>pf_state := ST_SUBSPEC\<rparr>))
      | ST_PERCISION \<Rightarrow> (case pf_percision_char c s of
            None \<Rightarrow> None
          | Some (True, s') \<Rightarrow> pf_run rest s'
          | Some (False, s') \<Rightarrow> pf_run (ch # rest) (s\<lparr>pf_state := ST_SUBSPEC\<rparr>))
      | ST_SUBSPEC \<Rightarrow>
          (if fst (pf_subspec c rest s) = 0 then pf_run (ch # rest) (s\<lparr>pf_state := ST_SPEC\<rparr>)
           else pf_run (drop (fst (pf_subspec c rest s) - 1) rest) (snd (pf_subspec c rest s)))
      | ST_SPEC \<Rightarrow> (case pf_spec c s of None \<Rightarrow> None | Some s' \<Rightarrow> pf_run rest s'))"
  by pat_completeness auto
termination
  by (relation "measures [\<lambda>(f, s). length f, \<lambda>(f, s). st_rank (pf_state s)]") auto

definition pf_init :: "'a word arg list \<Rightarrow> 'a word pf" where
  "pf_init ap = \<lparr>pf_out = [], pf_state = ST_TEXT, pf_width = 0, pf_percision = 0, pf_flag = 0, pf_ap = ap\<rparr>"

definition printf :: "'a::len str \<Rightarrow> 'a word arg list \<Rightarrow> ('a str \<times> u32) option" where
  "printf fmt ap = map_option (\<lambda>s. (pf_out s, of_nat (length (pf_out s)))) (pf_run (c_string fmt) (pf_init ap))"

end
