(* ===== verification/PrintfParse.thy ===== *)
theory PrintfParse
  imports Printf XStringProps
begin

text \<open>
  How the state machine of \<open>printf\<close> reads an integer specification: a record of its parts, its
  text, and the state in which the specifier is reached.  All for strings of 8-bit characters.
\<close>

section \<open>Specifications and their text\<close>

record ispec =
  sp_left :: bool
  sp_plus :: bool
  sp_blank :: bool
  sp_zero :: bool
  sp_width :: "int option"
  sp_prec :: "int option"
  sp_conv :: u8

definition spec_ok :: "ispec \<Rightarrow> bool" where
  "spec_ok sp \<longleftrightarrow> \<not> (sp_plus sp \<and> sp_blank sp) \<and>
     (case sp_width sp of None \<Rightarrow> True | Some w \<Rightarrow> 0 < w \<and> w < 2 ^ 31) \<and>
     (case sp_prec sp of None \<Rightarrow> True | Some p \<Rightarrow> 0 \<le> p \<and> p < 2 ^ 31) \<and>
     sp_conv sp \<in> set (lit ''diuxXo'')"

definition flag_text :: "ispec \<Rightarrow> 8 str" where
  "flag_text sp = (if sp_left sp then lit ''-'' else []) @ (if sp_plus sp then lit ''+'' else []) @
     (if sp_blank sp then lit '' '' else []) @ (if sp_zero sp then lit ''0'' else [])"

definition width_text :: "ispec \<Rightarrow> 8 str" where
  "width_text sp = (case sp_width sp of None \<Rightarrow> [] | Some w \<Rightarrow> dec_digits w)"

definition prec_text :: "ispec \<Rightarrow> 8 str" where
  "prec_text sp = (case sp_prec sp of None \<Rightarrow> [] | Some p \<Rightarrow> lit ''.'' @ dec_digits p)"

definition spec_text :: "ispec \<Rightarrow> 8 str" where
  "spec_text sp = lit ''%'' @ flag_text sp @ width_text sp @ prec_text sp @ [sp_conv sp]"

section \<open>Flags\<close>

definition fl :: "bool \<Rightarrow> u16 \<Rightarrow> u16" where
  "fl b f = (if b then f else 0)"

definition spec_flags :: "ispec \<Rightarrow> u16" where
  "spec_flags sp = fl (sp_left sp) FLAG_LEFTJUSTIFY OR fl (sp_plus sp) FLAG_FORCESIGN OR
     fl (sp_blank sp) FLAG_BLANKSIGN OR fl (sp_zero sp) FLAG_LEFTPADZERO OR
     fl (sp_width sp \<noteq> None) FLAG_WIDTH_SPECIFIED OR fl (sp_prec sp \<noteq> None) FLAG_PERCISION_SPECIFIED"

lemma flags_run:
  assumes "pf_state s = ST_FLAGS" "pf_flag s = 0" "\<not> (sp_plus sp \<and> sp_blank sp)"
  shows "pf_run (flag_text sp @ rest) s = pf_run rest (s\<lparr>pf_flag := fl (sp_left sp) FLAG_LEFTJUSTIFY OR
     fl (sp_plus sp) FLAG_FORCESIGN OR fl (sp_blank sp) FLAG_BLANKSIGN OR fl (sp_zero sp) FLAG_LEFTPADZERO\<rparr>)"
  using assms
  by (cases s; cases "sp_left sp"; cases "sp_plus sp"; cases "sp_blank sp"; cases "sp_zero sp")
    (simp_all add: flag_text_def lit_def pf_flags_def fl_def flag_defs)

text \<open>A character that is no flag ends the flags.\<close>

lemma flags_end:
  fixes c :: u8
  assumes "pf_state s = ST_FLAGS" "c \<notin> set (lit ''-+ #0'')"
  shows "pf_run (c # rest) s = pf_run (c # rest) (s\<lparr>pf_state := ST_WIDTH\<rparr>)"
  using assms by (subst pf_run.simps) (simp add: pf_flags_def lit_def Let_def)

section \<open>Digits\<close>

abbreviation dval :: "int \<Rightarrow> 8 str \<Rightarrow> int" where
  "dval k s \<equiv> foldl (\<lambda>v c. v * 10 + (uint c - 0x30)) k s"

lemma dval_mono: "\<forall>c \<in> set s. is_digit c \<Longrightarrow> 0 \<le> k \<Longrightarrow> k \<le> dval k s"
proof (induction s arbitrary: k)
  case (Cons c s)
  then have "0 \<le> k * 10 + (uint c - 0x30)" "k \<le> k * 10 + (uint c - 0x30)" by (auto simp: is_digit_def)
  then show ?case using Cons.IH [of "k * 10 + (uint c - 0x30)"] Cons.prems by fastforce
qed simp

lemma is_dec_digit: "is_dec c \<longleftrightarrow> is_digit c"
  by (simp add: is_dec_def is_digit_def word_le_def)

lemma add_digit_ok:
  assumes "is_digit c" "0 \<le> k" "k * 10 + (uint c - 0x30) < 2 ^ 31"
  shows "add_digit k c = Some (k * 10 + (uint c - 0x30))"
  using assms by (simp add: add_digit_def Let_def)

lemma width_run:
  "\<lbrakk>pf_state s = ST_WIDTH; 0 \<le> pf_width s; \<forall>c \<in> set ds. is_digit c; dval (pf_width s) ds < 2 ^ 31\<rbrakk> \<Longrightarrow>
   pf_run (ds @ rest) s =
     pf_run rest (if ds = [] then s else s\<lparr>pf_flag := pf_flag s OR FLAG_WIDTH_SPECIFIED, pf_width := dval (pf_width s) ds\<rparr>)"
proof (induction ds arbitrary: s)
  case (Cons c ds)
  let ?w = "pf_width s * 10 + (uint c - 0x30)"
  let ?s = "s\<lparr>pf_flag := pf_flag s OR FLAG_WIDTH_SPECIFIED, pf_width := ?w\<rparr>"
  have c: "is_digit c" and w: "0 \<le> ?w" using Cons.prems by (auto simp: is_digit_def)
  have "?w < 2 ^ 31" using dval_mono [of ds ?w] Cons.prems w by simp
  then have "pf_run ((c # ds) @ rest) s = pf_run (ds @ rest) ?s"
    using Cons.prems(1) c add_digit_ok [OF c Cons.prems(2)]
    by (simp add: pf_width_char_def is_dec_digit Let_def)
  also have "\<dots> = pf_run rest (if ds = [] then ?s else ?s\<lparr>pf_flag := pf_flag ?s OR FLAG_WIDTH_SPECIFIED, pf_width := dval ?w ds\<rparr>)"
    using Cons.IH [of ?s] Cons.prems w by simp
  finally show ?case by (simp add: or.assoc)
qed simp

lemma prec_run:
  "\<lbrakk>pf_state s = ST_PERCISION; 0 \<le> pf_percision s; \<forall>c \<in> set ds. is_digit c; dval (pf_percision s) ds < 2 ^ 31\<rbrakk> \<Longrightarrow>
   pf_run (ds @ rest) s = pf_run rest (s\<lparr>pf_percision := dval (pf_percision s) ds\<rparr>)"
proof (induction ds arbitrary: s)
  case (Cons c ds)
  let ?w = "pf_percision s * 10 + (uint c - 0x30)"
  let ?s = "s\<lparr>pf_percision := ?w\<rparr>"
  have c: "is_digit c" and w: "0 \<le> ?w" using Cons.prems by (auto simp: is_digit_def)
  have "?w < 2 ^ 31" using dval_mono [of ds ?w] Cons.prems w by simp
  then have "pf_run ((c # ds) @ rest) s = pf_run (ds @ rest) ?s"
    using Cons.prems(1) c add_digit_ok [OF c Cons.prems(2)]
    by (simp add: pf_percision_char_def is_dec_digit Let_def)
  also have "\<dots> = pf_run rest (?s\<lparr>pf_percision := dval ?w ds\<rparr>)"
    using Cons.IH [of ?s] Cons.prems w by simp
  finally show ?case by simp
qed simp

section \<open>The whole specification\<close>

definition spec_state :: "ispec \<Rightarrow> u8 pf \<Rightarrow> u8 pf" where
  "spec_state sp s = s\<lparr>pf_state := ST_SPEC, pf_flag := spec_flags sp,
     pf_width := (case sp_width sp of None \<Rightarrow> 0 | Some w \<Rightarrow> w),
     pf_percision := (case sp_prec sp of None \<Rightarrow> 0 | Some p \<Rightarrow> p)\<rparr>"

lemma conv_run:
  fixes c :: u8
  assumes "c \<in> set (lit ''diuxXo'')"
  shows "pf_state s = ST_WIDTH \<Longrightarrow> pf_run (c # rest) s = pf_run (c # rest) (s\<lparr>pf_state := ST_SPEC\<rparr>)"
    and "pf_state s = ST_PERCISION \<Longrightarrow> pf_run (c # rest) s = pf_run (c # rest) (s\<lparr>pf_state := ST_SPEC\<rparr>)"
proof -
  have c: "\<not> is_dec c" "c \<notin> {0x2A, 0x2E, 0x6C, 0x68, 0x6A, 0x7A, 0x74, 0x4C}"
    using assms by (auto simp: lit_def is_dec_def)
  have S: "pf_run (c # rest) (s\<lparr>pf_state := ST_SUBSPEC\<rparr>) = pf_run (c # rest) (s\<lparr>pf_state := ST_SPEC\<rparr>)" for s
    using c by (subst pf_run.simps) (simp add: pf_subspec_def Let_def)
  show "pf_run (c # rest) s = pf_run (c # rest) (s\<lparr>pf_state := ST_SPEC\<rparr>)" if "pf_state s = ST_WIDTH"
    using that c S by (subst pf_run.simps) (simp add: pf_width_char_def Let_def)
  show "pf_run (c # rest) s = pf_run (c # rest) (s\<lparr>pf_state := ST_SPEC\<rparr>)" if "pf_state s = ST_PERCISION"
    using that c S by (subst pf_run.simps) (simp add: pf_percision_char_def Let_def)
qed

text \<open>Reading the text of a specification leads to its specifier with exactly its parts.\<close>

lemma spec_run:
  assumes ok: "spec_ok sp" and s: "pf_state s = ST_TEXT"
  shows "pf_run (spec_text sp @ rest) s = pf_run (sp_conv sp # rest) (spec_state sp s)"
proof -
  have fl: "fl True k = k" "fl False k = 0" for k by (simp_all add: fl_def)
  let ?f = "fl (sp_left sp) FLAG_LEFTJUSTIFY OR fl (sp_plus sp) FLAG_FORCESIGN OR fl (sp_blank sp) FLAG_BLANKSIGN OR
    fl (sp_zero sp) FLAG_LEFTPADZERO"
  let ?c = "sp_conv sp"
  let ?s = "s\<lparr>pf_width := 0, pf_percision := 0, pf_flag := ?f, pf_state := ST_WIDTH\<rparr>"
  let ?tail = "width_text sp @ prec_text sp @ ?c # rest"
  have conv: "?c \<in> set (lit ''diuxXo'')" and pb: "\<not> (sp_plus sp \<and> sp_blank sp)" using ok by (auto simp: spec_ok_def)
  have "pf_run (spec_text sp @ rest) s =
      pf_run (flag_text sp @ ?tail) (s\<lparr>pf_width := 0, pf_percision := 0, pf_flag := 0, pf_state := ST_FLAGS\<rparr>)"
    using s by (simp add: spec_text_def lit_def pf_text_def)
  also have "\<dots> = pf_run ?tail (s\<lparr>pf_width := 0, pf_percision := 0, pf_flag := ?f, pf_state := ST_FLAGS\<rparr>)"
    using flags_run [OF _ _ pb, of "s\<lparr>pf_width := 0, pf_percision := 0, pf_flag := 0, pf_state := ST_FLAGS\<rparr>" ?tail]
    by (cases s) simp
  also have "\<dots> = pf_run ?tail ?s"
  proof -
    obtain x xs where t: "?tail = x # xs" "x \<notin> set (lit ''-+ #0'')"
    proof (cases "sp_width sp")
      case None
      show ?thesis
      proof (cases "sp_prec sp")
        case None
        then show ?thesis using \<open>sp_width sp = None\<close> conv
          by (intro that [of ?c rest]) (auto simp: width_text_def prec_text_def lit_def)
      next
        case (Some p)
        then show ?thesis using \<open>sp_width sp = None\<close>
          by (intro that [of "0x2E" "dec_digits p @ ?c # rest"]) (auto simp: width_text_def prec_text_def lit_def)
      qed
    next
      case (Some w)
      then have w: "0 < w" using ok by (auto simp: spec_ok_def)
      have "is_digit (hd (dec_digits w))" using dec_digits_digit [of w] dec_digits_ne [of w] w by simp
      then have "hd (dec_digits w) \<notin> set (lit ''-+ #0'')" using dec_digits_hd [OF w]
        by (auto simp: lit_def is_digit_def)
      then show ?thesis using Some dec_digits_ne [of w]
        by (intro that [of "hd (dec_digits w)" "tl (dec_digits w) @ prec_text sp @ ?c # rest"])
          (simp_all add: width_text_def)
    qed
    show ?thesis unfolding t(1)
      using flags_end [OF _ t(2), of "s\<lparr>pf_width := 0, pf_percision := 0, pf_flag := ?f, pf_state := ST_FLAGS\<rparr>"] by (cases s) simp
  qed
  also have "\<dots> = pf_run (prec_text sp @ ?c # rest) (?s\<lparr>pf_flag := ?f OR fl (sp_width sp \<noteq> None) FLAG_WIDTH_SPECIFIED,
      pf_width := (case sp_width sp of None \<Rightarrow> 0 | Some w \<Rightarrow> w)\<rparr>)" (is "_ = pf_run _ ?s4")
  proof (cases "sp_width sp")
    case None
    then show ?thesis by (cases s) (simp add: width_text_def fl)
  next
    case (Some w)
    then have w: "0 < w" "w < 2 ^ 31" using ok by (auto simp: spec_ok_def)
    have v: "dval 0 (dec_digits w) = w" using dec_digits_value [of w] w by (simp add: digits_value_def)
    have "pf_run (dec_digits w @ prec_text sp @ ?c # rest) ?s =
      pf_run (prec_text sp @ ?c # rest) (?s\<lparr>pf_flag := ?f OR FLAG_WIDTH_SPECIFIED, pf_width := w\<rparr>)"
      using width_run [of ?s "dec_digits w"] v w dec_digits_digit [of w] dec_digits_ne [of w] by simp
    then show ?thesis using Some by (cases s) (simp add: width_text_def fl)
  qed
  also have "\<dots> = pf_run (?c # rest) (spec_state sp s)"
  proof (cases "sp_prec sp")
    case None
    have "?s4\<lparr>pf_state := ST_SPEC\<rparr> = spec_state sp s"
      using None by (cases s) (simp add: spec_state_def spec_flags_def fl or.assoc)
    then show ?thesis using conv_run(1) [OF conv, of ?s4] None by (simp add: prec_text_def)
  next
    case (Some p)
    then have p: "0 \<le> p" "p < 2 ^ 31" using ok by (auto simp: spec_ok_def)
    have v: "dval 0 (dec_digits p) = p" using dec_digits_value [of p] p by (simp add: digits_value_def)
    let ?s5 = "?s4\<lparr>pf_flag := pf_flag ?s4 OR FLAG_PERCISION_SPECIFIED, pf_state := ST_PERCISION\<rparr>"
    have "pf_run (prec_text sp @ ?c # rest) ?s4 = pf_run (dec_digits p @ ?c # rest) ?s5"
      using Some by (cases s) (simp add: prec_text_def lit_def pf_width_char_def is_dec_def Let_def)
    also have "\<dots> = pf_run (?c # rest) (?s5\<lparr>pf_percision := p\<rparr>)"
      using prec_run [of ?s5 "dec_digits p"] v p dec_digits_digit [of p] by simp
    also have "\<dots> = pf_run (?c # rest) (?s5\<lparr>pf_percision := p, pf_state := ST_SPEC\<rparr>)"
      using conv_run(2) [OF conv, of "?s5\<lparr>pf_percision := p\<rparr>"] by simp
    also have "?s5\<lparr>pf_percision := p, pf_state := ST_SPEC\<rparr> = spec_state sp s"
      using Some by (cases s) (simp add: spec_state_def spec_flags_def fl or.assoc)
    finally show ?thesis .
  qed
  finally show ?thesis .
qed

end
