(* ===== verification/PrintfProps.thy ===== *)
theory PrintfProps
  imports PrintfParse
begin

text \<open>
  \<open>printf\<close> on the integer specifications refines the C standard's description of them: digits
  with a precision, a sign, and padding with blanks or zeros up to a width; and the corners
  where it does not.
\<close>

section \<open>Reference\<close>

function radix_digits :: "int \<Rightarrow> int \<Rightarrow> 8 str" where
  "radix_digits B n = (if n < B \<or> B < 2 then [hextable ! nat n] else radix_digits B (n div B) @ [hextable ! nat (n mod B)])"
  by pat_completeness auto
termination
  by (relation "measure (\<lambda>(B, n). nat n)") (auto intro!: int_div_less_self)

declare radix_digits.simps [simp del]

text \<open>
  The digits of the C standard, by their ASCII codes and independent of the table of the
  program; \<open>radix_digits\<close>, which uses the table, only serves the proofs.
\<close>

definition c_digit :: "bool \<Rightarrow> nat \<Rightarrow> u8" where
  "c_digit upper n = (if n < 10 then of_nat (0x30 + n) else of_nat ((if upper then 0x41 else 0x61) + (n - 10)))"

function c_radix :: "bool \<Rightarrow> int \<Rightarrow> int \<Rightarrow> 8 str" where
  "c_radix upper B n =
     (if n < B \<or> B < 2 then [c_digit upper (nat n)] else c_radix upper B (n div B) @ [c_digit upper (nat (n mod B))])"
  by pat_completeness auto
termination
  by (relation "measure (\<lambda>(u, B, n). nat n)") (auto intro!: int_div_less_self)

declare c_radix.simps [simp del]

lemma c_digit_table: "n < 16 \<Longrightarrow> hextable ! n = c_digit False n \<and> upper_char (c_digit False n) = c_digit True n"
proof -
  have "list_all (\<lambda>n. hextable ! n = c_digit False n \<and> upper_char (c_digit False n) = c_digit True n) [0..<16]" by code_simp
  then show "n < 16 \<Longrightarrow> ?thesis" by (simp add: list_all_iff)
qed

lemma c_radix_digits:
  "\<lbrakk>B = 8 \<or> B = 16; 0 \<le> n\<rbrakk> \<Longrightarrow>
   c_radix False B n = radix_digits B n \<and> c_radix True B n = make_upper (radix_digits B n)"
proof (induction B n rule: radix_digits.induct)
  case (1 B n)
  have d: "hextable ! nat k = c_digit False (nat k) \<and> upper_char (c_digit False (nat k)) = c_digit True (nat k)"
    if "0 \<le> k" "k < B" for k
    using c_digit_table [of "nat k"] that 1(2) by auto
  show ?case
  proof (cases "n < B \<or> B < 2")
    case True
    then show ?thesis using d [of n] 1(2,3) by (auto simp: c_radix.simps radix_digits.simps [of B n] make_upper_map)
  next
    case False
    have B: "0 < B" using 1(2) by auto
    then have ih: "c_radix False B (n div B) = radix_digits B (n div B) \<and>
        c_radix True B (n div B) = make_upper (radix_digits B (n div B))"
      using 1(1) [OF False 1(2)] 1(3) by (simp add: pos_imp_zdiv_nonneg_iff)
    show ?thesis unfolding c_radix.simps [of _ B n] radix_digits.simps [of B n] if_not_P [OF False]
      using ih d [of "n mod B"] B by (simp add: make_upper_map)
  qed
qed

definition c_negative :: "ispec \<Rightarrow> u32 \<Rightarrow> bool" where
  "c_negative sp v \<longleftrightarrow> is_signed (sp_conv sp) \<and> sint v < 0"

definition c_digits :: "ispec \<Rightarrow> u32 \<Rightarrow> 8 str" where
  "c_digits sp v =
     (if sp_conv sp = 0x64 \<or> sp_conv sp = 0x69 then dec_digits \<bar>sint v\<bar>
      else if sp_conv sp = 0x78 then c_radix False 16 (uint v)
      else if sp_conv sp = 0x58 then c_radix True 16 (uint v)
      else if sp_conv sp = 0x6F then c_radix False 8 (uint v)
      else dec_digits (uint v))"

lemma c_digits_eq:
  "c_digits sp v =
     (if is_signed (sp_conv sp) then dec_digits \<bar>sint v\<bar>
      else if sp_conv sp = chr CHR ''x'' then radix_digits 16 (uint v)
      else if sp_conv sp = chr CHR ''X'' then make_upper (radix_digits 16 (uint v))
      else if sp_conv sp = chr CHR ''o'' then radix_digits 8 (uint v)
      else dec_digits (uint v))"
  using c_radix_digits [of 16 "uint v"] c_radix_digits [of 8 "uint v"] by (simp add: c_digits_def is_signed_def)

definition c_sign :: "ispec \<Rightarrow> u32 \<Rightarrow> 8 str" where
  "c_sign sp v =
     (if \<not> is_signed (sp_conv sp) then []
      else if sint v < 0 then lit ''-'' else if sp_plus sp then lit ''+'' else if sp_blank sp then lit '' '' else [])"

definition c_body :: "ispec \<Rightarrow> u32 \<Rightarrow> 8 str" where
  "c_body sp v =
     (case sp_prec sp of None \<Rightarrow> c_digits sp v
      | Some p \<Rightarrow> if p = 0 \<and> v = 0 then [] else zeros (p - int (length (c_digits sp v))) @ c_digits sp v)"

definition c_format :: "ispec \<Rightarrow> u32 \<Rightarrow> 8 str" where
  "c_format sp v =
     (let t = c_sign sp v @ c_body sp v;
          pad = (case sp_width sp of None \<Rightarrow> 0 | Some w \<Rightarrow> w - int (length t))
      in if sp_left sp then t @ blanks pad
         else if sp_zero sp \<and> sp_prec sp = None then c_sign sp v @ zeros pad @ c_body sp v
         else blanks pad @ t)"

section \<open>Hexadecimal and octal digits\<close>

fun fixed_digits :: "int \<Rightarrow> nat \<Rightarrow> int \<Rightarrow> 8 str" where
  "fixed_digits B 0 n = []"
| "fixed_digits B (Suc k) n = fixed_digits B k (n div B) @ [hextable ! nat (n mod B)]"

lemma fixed_digits_Cons:
  "0 < B \<Longrightarrow> fixed_digits B (Suc k) n = hextable ! nat (n div B ^ k mod B) # fixed_digits B k n"
proof (induction k arbitrary: n)
  case (Suc k)
  have "fixed_digits B (Suc (Suc k)) n = fixed_digits B (Suc k) (n div B) @ [hextable ! nat (n mod B)]" by simp
  also have "\<dots> = hextable ! nat (n div B div B ^ k mod B) # fixed_digits B k (n div B) @ [hextable ! nat (n mod B)]"
    using Suc by simp
  also have "n div B div B ^ k = n div B ^ Suc k" using Suc.prems by (simp add: zdiv_zmult2_eq)
  finally show ?case by simp
qed simp

lemma zdiv_less:
  assumes "0 < (b :: int)" "n < c * b" shows "n div b < c"
proof (rule ccontr)
  assume "\<not> n div b < c"
  then have "c * b \<le> n div b * b" using assms(1) by (intro mult_right_mono) simp_all
  moreover have "n div b * b + n mod b = n" "0 \<le> n mod b" using assms(1) by simp_all
  ultimately show False using assms(2) by linarith
qed

text \<open>Only the low digits matter.\<close>

lemma fixed_digits_mod:
  "\<lbrakk>0 < B; n mod B ^ k = m mod B ^ k\<rbrakk> \<Longrightarrow> fixed_digits B k n = fixed_digits B k m"
proof (induction k arbitrary: n m)
  case (Suc k)
  have e: "x mod B ^ Suc k = B * (x div B mod B ^ k) + x mod B" for x
    using zmod_zmult2_eq [of "B ^ k" x B] Suc.prems(1) by simp
  have "n mod B = m mod B" using Suc.prems(2) by (metis dvd_triv_left mod_mod_cancel power_Suc)
  moreover have "n div B mod B ^ k = m div B mod B ^ k"
    using Suc.prems e [of n] e [of m] \<open>n mod B = m mod B\<close> by simp
  ultimately show ?case using Suc.IH [of "n div B" "m div B"] Suc.prems(1) by simp
qed simp

lemma radix_digits_fixed:
  "\<lbrakk>2 \<le> B; B ^ k \<le> n; n < B ^ Suc k\<rbrakk> \<Longrightarrow> radix_digits B n = fixed_digits B (Suc k) n"
proof (induction k arbitrary: n)
  case 0
  then show ?case by (subst radix_digits.simps) simp
next
  case (Suc k)
  have p: "1 \<le> B ^ k" using Suc.prems(1) by simp
  have "B * 1 \<le> B * B ^ k" using Suc.prems(1) p by (intro mult_left_mono) simp_all
  then have n: "\<not> n < B" using Suc.prems(2) by simp
  have "B ^ k \<le> n div B"
    using zdiv_mono1 [OF Suc.prems(2), of B] Suc.prems(1) by simp
  moreover have "n div B < B ^ Suc k"
  proof -
    have "n < B ^ Suc k * B" using Suc.prems(3) by (simp add: ac_simps)
    then show ?thesis using zdiv_less [of B n "B ^ Suc k"] Suc.prems(1) by simp
  qed
  ultimately have "radix_digits B (n div B) = fixed_digits B (Suc k) (n div B)"
    using Suc.IH Suc.prems(1) by blast
  then show ?case using n Suc.prems(1) by (subst radix_digits.simps) simp
qed

text \<open>One digit of the loop.\<close>

lemma radix_digit:
  assumes "b = 3 \<or> b = 4"
  shows "unat (drop_bit (b * k) (v :: u32) AND mask b) = nat (uint v div (2 ^ b) ^ k mod 2 ^ b)"
proof -
  have "uint v < 2 ^ 32" using unsigned_less [of v] by simp
  then have "uint (drop_bit (b * k) v AND mask b) = uint v div (2 ^ b) ^ k mod 2 ^ b"
    by (simp only: take_bit_eq_mask [symmetric] unsigned_take_bit_eq unsigned_drop_bit_eq)
      (simp add: take_bit_eq_mod drop_bit_eq_div power_mult take_bit_int_eq_self)
  then show ?thesis by (metis unat_eq_nat_uint)
qed

lemma hex_zero:
  assumes "0 \<le> d" "d < 16" shows "(hextable ! nat d = 0x30) = (d = 0)"
proof -
  have "list_all (\<lambda>i. (hextable ! i = 0x30) = (i = 0)) [0..<16]" by code_simp
  moreover have "nat d \<in> set [0..<16]" using assms by simp
  ultimately show ?thesis using assms(1) unfolding list_all_iff by fastforce
qed

lemma radix_loop_fixed:
  assumes "b = 3 \<or> b = 4"
  shows "radix_loop b k (v :: u32) False acc = acc @ fixed_digits (2 ^ b) k (uint v)"
proof (induction k arbitrary: acc)
  case (Suc k)
  then show ?case
    by (simp add: radix_digit [OF assms] fixed_digits_Cons Let_def del: fixed_digits.simps(2))
qed simp

lemma radix_loop_digits:
  assumes b: "b = 3 \<or> b = 4"
  shows "radix_loop b k (v :: u32) True [] =
    (if uint v mod (2 ^ b) ^ k = 0 then [] else radix_digits (2 ^ b) (uint v mod (2 ^ b) ^ k))"
proof (induction k)
  case (Suc k)
  let ?B = "2 ^ b :: int"
  let ?d = "uint v div ?B ^ k mod ?B"
  have B: "2 \<le> ?B" "?B \<le> 16" using b by auto
  have d: "0 \<le> ?d" "?d < ?B" by simp_all
  have m: "uint v mod ?B ^ Suc k = ?d * ?B ^ k + uint v mod ?B ^ k"
    unfolding power_Suc2 mult.commute [of ?d] by (rule zmod_zmult2_eq) simp
  have step: "radix_loop b (Suc k) v True [] =
      (if ?d = 0 then radix_loop b k v True [] else radix_loop b k v False [hextable ! nat ?d])"
  proof -
    have "(hextable ! nat ?d = 0x30) = (?d = 0)" using hex_zero [OF d(1)] d(2) B(2) by linarith
    then show ?thesis unfolding radix_loop.simps(2) radix_digit [OF b] Let_def by simp
  qed
  show ?case
  proof (cases "?d = 0")
    case True
    have "uint v mod ?B ^ Suc k = uint v mod ?B ^ k" unfolding m True by simp
    then show ?thesis unfolding step using True Suc.IH by presburger
  next
    case False
    have dp: "1 \<le> ?d" using False d by linarith
    have r: "0 \<le> uint v mod ?B ^ k" "uint v mod ?B ^ k < ?B ^ k" by simp_all
    have "1 * ?B ^ k \<le> ?d * ?B ^ k" using dp by (intro mult_right_mono) simp_all
    then have lo: "?B ^ k \<le> uint v mod ?B ^ Suc k" using m r by linarith
    have hi: "uint v mod ?B ^ Suc k < ?B ^ Suc k" by simp
    have "0 < ?B ^ k" by simp
    then have nz: "uint v mod ?B ^ Suc k \<noteq> 0" using lo by linarith
    have fx: "fixed_digits ?B (Suc k) (uint v mod ?B ^ Suc k) = fixed_digits ?B (Suc k) (uint v)"
      by (rule fixed_digits_mod) simp_all
    have "radix_loop b (Suc k) v True [] = hextable ! nat ?d # fixed_digits ?B k (uint v)"
      unfolding step using False by (simp add: radix_loop_fixed [OF b])
    also have "\<dots> = fixed_digits ?B (Suc k) (uint v)" using fixed_digits_Cons [of ?B k "uint v"] by simp
    also have "\<dots> = radix_digits ?B (uint v mod ?B ^ Suc k)"
      using radix_digits_fixed [OF B(1) lo hi] fx by simp
    finally show ?thesis using nz by presburger
  qed
qed simp

lemma radix_strings:
  "(radix_string 4 8 (v :: u32) :: 8 str) = radix_digits 16 (uint v)"
  "(radix_string 3 11 (v :: u32) :: 8 str) = radix_digits 8 (uint v)"
proof -
  have v: "0 \<le> uint v" "uint v < 2 ^ 32" using unsigned_less [of v] by simp_all
  have z: "radix_digits 16 0 = [0x30]" "radix_digits 8 0 = [0x30]"
    by (simp_all add: radix_digits.simps hextable_def lit_def)
  have ne: "radix_digits B n \<noteq> []" for B n by (subst radix_digits.simps) simp
  show "(radix_string 4 8 v :: 8 str) = radix_digits 16 (uint v)"
    using radix_loop_digits [of 4 8 v] v z ne [of 16 "uint v"] by (simp add: radix_string_def Let_def)
  show "(radix_string 3 11 v :: 8 str) = radix_digits 8 (uint v)"
    using radix_loop_digits [of 3 11 v] v z ne [of 8 "uint v"] by (simp add: radix_string_def Let_def)
qed

section \<open>The digits of a value\<close>

lemma hextable_nth: "d < 16 \<Longrightarrow> hextable ! d \<in> set hextable"
  by (rule nth_mem) (simp add: hextable_def lit_def)

lemma radix_digits_hd:
  assumes B: "2 \<le> B" "B \<le> 16"
  shows "0 < n \<Longrightarrow> radix_digits B n \<noteq> [] \<and> hd (radix_digits B n) \<in> set hextable - {0x30}"
proof (induction "nat n" arbitrary: n rule: less_induct)
  case less
  show ?case
  proof (cases "n < B")
    case True
    then show ?thesis using less.prems B hex_zero [of n] hextable_nth [of "nat n"]
      by (subst (1 2) radix_digits.simps) simp
  next
    case False
    have "0 < n div B" "n div B < n" using False B less.prems by (simp_all add: pos_imp_zdiv_pos_iff int_div_less_self)
    then have "radix_digits B (n div B) \<noteq> [] \<and> hd (radix_digits B (n div B)) \<in> set hextable - {0x30}"
      using less.hyps by simp
    then show ?thesis using False B by (subst (1 2) radix_digits.simps) simp
  qed
qed

text \<open>What layout needs to know of the digits: there are some, no sign in front, and zero is "0".\<close>

definition mag_ok :: "bool \<Rightarrow> 8 str \<Rightarrow> bool" where
  "mag_ok z m \<longleftrightarrow> m \<noteq> [] \<and> hd m \<noteq> 0x2D \<and> (z \<longleftrightarrow> is_zero_str m)"

lemma mag_okI:
  assumes "z \<Longrightarrow> m = [0x30]" "\<not> z \<Longrightarrow> m \<noteq> [] \<and> hd m \<noteq> 0x2D \<and> hd m \<noteq> 0x30"
  shows "mag_ok z m"
  using assms by (cases z) (auto simp: mag_ok_def is_zero_str_def char_at_def hd_conv_nth)

lemma mag_ok_dec: "0 \<le> n \<Longrightarrow> mag_ok (n = 0) (dec_digits n)"
proof (rule mag_okI)
  show "dec_digits n = [0x30]" if "n = 0" using that by (simp add: dec_digits.simps)
  assume "0 \<le> n" "n \<noteq> 0"
  then have "0 < n" by simp
  moreover have "is_digit (hd (dec_digits n))" using dec_digits_digit [OF \<open>0 \<le> n\<close>] dec_digits_ne [of n] by simp
  ultimately show "dec_digits n \<noteq> [] \<and> hd (dec_digits n) \<noteq> 0x2D \<and> hd (dec_digits n) \<noteq> 0x30"
    using dec_digits_ne [of n] dec_digits_hd [of n] by (auto simp: is_digit_def)
qed

lemma mag_ok_radix:
  assumes "B = 8 \<or> B = 16" "0 \<le> n"
  shows "mag_ok (n = 0) (radix_digits B n)" "mag_ok (n = 0) (make_upper (radix_digits B n))"
proof -
  have z: "radix_digits B 0 = [0x30]" using assms(1) by (subst radix_digits.simps) (auto simp: hextable_def lit_def)
  have h: "radix_digits B n \<noteq> []" "hd (radix_digits B n) \<in> set hextable - {0x30}" if "n \<noteq> 0"
    using radix_digits_hd [of B n] assms that by auto
  have t: "list_all (\<lambda>c. c \<noteq> 0x30 \<longrightarrow> c \<noteq> 0x2D \<and> upper_char c \<noteq> 0x2D \<and> upper_char c \<noteq> 0x30) hextable"
    by code_simp
  have u: "c \<noteq> 0x2D \<and> upper_char c \<noteq> 0x2D \<and> upper_char c \<noteq> 0x30" if "c \<in> set hextable - {0x30}" for c :: u8
    using t that unfolding list_all_iff by blast
  show "mag_ok (n = 0) (radix_digits B n)" by (rule mag_okI) (use z h u in auto)
  have "upper_char (0x30 :: u8) = 0x30" by code_simp
  then show "mag_ok (n = 0) (make_upper (radix_digits B n))"
    by (intro mag_okI) (use z h u in \<open>auto simp: make_upper_map hd_map\<close>)
qed

lemma mag_ok_digits: "mag_ok (v = 0) (c_digits sp v)"
proof -
  have e: "(uint v = 0) = (v = 0)" "(sint v = 0) = (v = 0)" by (simp_all add: unsigned_eq_0_iff signed_eq_0_iff)
  show ?thesis unfolding c_digits_eq
    using mag_ok_dec [of "\<bar>sint v\<bar>"] mag_ok_dec [of "uint v"] mag_ok_radix [of 16 "uint v"] mag_ok_radix [of 8 "uint v"]
    by (simp add: e)
qed

lemma map_ucast_id [simp]: "List.map ucast (s :: 8 str) = s"
  by (simp add: map_idI)

lemma spec_flags_half [simp]:
  "spec_flags sp AND FLAG_FMT_HALF = 0" "spec_flags sp AND FLAG_FMT_HALFHALF = 0"
  by (cases "sp_left sp"; cases "sp_plus sp"; cases "sp_blank sp"; cases "sp_zero sp";
      cases "sp_width sp = None"; cases "sp_prec sp = None"; simp add: spec_flags_def fl_def flag_defs)+

text \<open>The value string is the sign of a negative number followed by the digits.\<close>

lemma value_int_digits:
  assumes "sp_conv sp \<in> set (lit ''diuxXo'')" "is_signed (sp_conv sp) \<longrightarrow> v \<noteq> 0x80000000"
  shows "value_int (sp_conv sp) (spec_flags sp) (AInt v # ap) =
    Some ((if c_negative sp v then [0x2D] else []) @ c_digits sp v, ap)"
proof -
  have u: "(str_of_u32 v :: 8 str) = dec_digits (uint v)"
  proof -
    have "uint v < 2 ^ 32" using unsigned_less [of v] by simp
    then show ?thesis using put_number_digits [of "uint v" 16 False, where 'a = 8] by (simp add: str_of_u32_def)
  qed
  have s: "(str_of_s32 v :: 8 str) = (if sint v < 0 then [0x2D] else []) @ dec_digits \<bar>sint v\<bar>" if "v \<noteq> 0x80000000"
  proof (cases "sint v < 0")
    case True
    then show ?thesis using put_number_digits [of "- sint v" 16 True, where 'a = 8] neg_exact [OF True that]
      by (simp add: str_of_s32_def)
  next
    case False
    then show ?thesis using put_number_digits [of "sint v" 16 False, where 'a = 8] sint_range [of v]
      by (simp add: str_of_s32_def)
  qed
  show ?thesis using assms u s radix_strings [of v]
    by (auto simp: value_int_def shrink_def c_digits_eq c_negative_def is_float_def is_hex_def is_oct_def is_signed_def lit_def Let_def)
qed

section \<open>Layout\<close>

lemma has_spec:
  assumes "pf_flag s = spec_flags sp"
  shows "has s FLAG_LEFTJUSTIFY = sp_left sp" "has s FLAG_FORCESIGN = sp_plus sp" "has s FLAG_BLANKSIGN = sp_blank sp"
    "has s FLAG_PREFIXSUFFIX = False" "has s FLAG_LEFTPADZERO = sp_zero sp"
    "has s FLAG_PERCISION_SPECIFIED = (sp_prec sp \<noteq> None)"
    "has s FLAG_WIDTH_PARAM = False" "has s FLAG_PERCISION_PARAM = False" "has s FLAG_FMT_LONGLONG = False"
    "has s (FLAG_WIDTH_SPECIFIED OR FLAG_PERCISION_SPECIFIED) = (sp_width sp \<noteq> None \<or> sp_prec sp \<noteq> None)"
    "has s (FLAG_PERCISION_SPECIFIED OR FLAG_LEFTJUSTIFY) = (sp_prec sp \<noteq> None \<or> sp_left sp)"
  by (cases "sp_left sp"; cases "sp_plus sp"; cases "sp_blank sp"; cases "sp_zero sp";
      cases "sp_width sp = None"; cases "sp_prec sp = None"; simp add: assms has_def spec_flags_def fl_def flag_defs)+

lemma drop_zero_flag: "spec_flags sp AND NOT FLAG_LEFTPADZERO = spec_flags (sp\<lparr>sp_zero := False\<rparr>)"
  by (cases "sp_left sp"; cases "sp_plus sp"; cases "sp_blank sp"; cases "sp_zero sp";
      cases "sp_width sp = None"; cases "sp_prec sp = None"; simp add: spec_flags_def fl_def flag_defs)

text \<open>The zero flag is ignored with a precision or left justification, in the code and in the reference.\<close>

definition no_zero :: "ispec \<Rightarrow> ispec" where
  "no_zero sp = (if sp_prec sp \<noteq> None \<or> sp_left sp then sp\<lparr>sp_zero := False\<rparr> else sp)"

lemma no_zero_same:
  "sp_left (no_zero sp) = sp_left sp" "sp_plus (no_zero sp) = sp_plus sp" "sp_blank (no_zero sp) = sp_blank sp"
  "sp_conv (no_zero sp) = sp_conv sp" "sp_width (no_zero sp) = sp_width sp" "sp_prec (no_zero sp) = sp_prec sp"
  by (simp_all add: no_zero_def)

lemma no_zero_parts:
  "c_digits (no_zero sp) v = c_digits sp v" "c_sign (no_zero sp) v = c_sign sp v"
  "c_body (no_zero sp) v = c_body sp v" "c_negative (no_zero sp) v = c_negative sp v"
  unfolding c_body_def c_digits_def c_sign_def c_negative_def no_zero_same by (rule refl)+

lemma c_format_no_zero: "c_format (no_zero sp) v = c_format sp v"
  unfolding c_format_def no_zero_parts no_zero_same
  by (cases "sp_left sp"; cases "sp_prec sp") (simp_all add: no_zero_def)

lemma conv_kinds:
  assumes "sp_conv sp \<in> set (lit ''diuxXo'')" shows "\<not> is_float (sp_conv sp)"
  using assms by (auto simp: is_float_def lit_def)

lemma number_prefix_sign:
  assumes "pf_flag s = spec_flags sp" "sp_conv sp \<in> set (lit ''diuxXo'')"
  shows "number_prefix (sp_conv sp) (c_negative sp v) s = c_sign sp v"
  using has_spec [OF assms(1)] conv_kinds [OF assms(2)]
  by (auto simp: number_prefix_def c_sign_def c_negative_def lit_def)

abbreviation valstr_of :: "ispec \<Rightarrow> u32 \<Rightarrow> 8 str" where
  "valstr_of sp v \<equiv> (if c_negative sp v then [0x2D] else []) @ c_digits sp v"

lemma valstr_facts:
  shows "(char_at (valstr_of sp v) 0 = 0x2D) = c_negative sp v"
    "(if char_at (valstr_of sp v) 0 = 0x2D then drop 1 (valstr_of sp v) else valstr_of sp v) = c_digits sp v"
    "is_zero_str (valstr_of sp v) = (v = 0)"
    "c_digits sp v \<noteq> []"
proof -
  have m: "c_digits sp v \<noteq> []" "hd (c_digits sp v) \<noteq> 0x2D" "(v = 0) = is_zero_str (c_digits sp v)"
    using mag_ok_digits [of v sp] by (auto simp: mag_ok_def)
  show n: "(char_at (valstr_of sp v) 0 = 0x2D) = c_negative sp v" using m(1,2) by (auto simp: char_at_def hd_conv_nth)
  show "(if char_at (valstr_of sp v) 0 = 0x2D then drop 1 (valstr_of sp v) else valstr_of sp v) = c_digits sp v"
    unfolding n by simp
  have "v \<noteq> 0" if "c_negative sp v" using that by (auto simp: c_negative_def)
  then show "is_zero_str (valstr_of sp v) = (v = 0)" using m(3) by (auto simp: is_zero_str_def char_at_def)
  show "c_digits sp v \<noteq> []" by (rule m)
qed

lemma layout_plain_format:
  assumes "pf_flag s = spec_flags sp" "sp_conv sp \<in> set (lit ''diuxXo'')" "sp_width sp = None" "sp_prec sp = None"
    "\<not> (sp_plus sp \<and> sp_blank sp)"
  shows "layout_plain (sp_conv sp) (valstr_of sp v) s = put (c_format sp v) s"
proof -
  have neg: "(char_at (valstr_of sp v) 0 = 0x2D) = c_negative sp v" by (rule valstr_facts)
  show ?thesis
    using has_spec [OF assms(1)] conv_kinds [OF assms(2)] assms(3-)
    unfolding layout_plain_def Let_def chr8 neg
    by (auto simp: c_format_def c_sign_def c_body_def c_negative_def lit_def blanks_def zeros_def)
qed

lemma place_width_format:
  assumes "pf_flag s = spec_flags sp" "sp_width sp = Some w" "sp_prec sp = None" "pf_width s = w"
  shows "place_width (c_sign sp v) (valstr_of sp v) s = put (c_format sp v) s"
  unfolding place_width_def Let_def chr8 valstr_facts(2)
  using has_spec [OF assms(1)] assms(2-)
  by (auto simp: c_format_def c_body_def Let_def blanks_def zeros_def algebra_simps)

lemma apply_percision_body:
  assumes "pf_flag s = spec_flags sp" "sp_conv sp \<in> set (lit ''diuxXo'')" "sp_prec sp = Some p" "pf_percision s = p"
  shows "apply_percision (sp_conv sp) (c_sign sp v) (valstr_of sp v) s = Some (c_sign sp v @ c_body sp v)"
  unfolding apply_percision_def Let_def chr8 valstr_facts(2,3)
  using has_spec [OF assms(1)] conv_kinds [OF assms(2)] assms(3,4)
  by (auto simp: c_body_def c_sign_def assign_lit_def lit_def zeros_def)

lemma place_percision_format:
  assumes "pf_flag s = spec_flags sp" "sp_prec sp = Some p" "pf_width s = (case sp_width sp of None \<Rightarrow> 0 | Some w \<Rightarrow> w)"
    "\<not> sp_zero sp"
  shows "place_percision (c_sign sp v @ c_body sp v) s = put (c_format sp v) s"
  using has_spec [OF assms(1)] assms(2-)
  by (auto simp: place_percision_def c_format_def Let_def blanks_def split: option.splits)

lemma layout_number_format:
  assumes f: "pf_flag s = spec_flags sp" and ok: "spec_ok sp"
    and w: "pf_width s = (case sp_width sp of None \<Rightarrow> 0 | Some w \<Rightarrow> w)"
    and p: "pf_percision s = (case sp_prec sp of None \<Rightarrow> 0 | Some p \<Rightarrow> p)"
  shows "\<exists>s'. layout_number (sp_conv sp) (valstr_of sp v) s = Some s' \<and>
    pf_out s' = pf_out s @ c_format sp v \<and> pf_ap s' = pf_ap s"
proof -
  let ?sp = "no_zero sp"
  let ?s = "if sp_prec sp \<noteq> None \<or> sp_left sp then s\<lparr>pf_flag := spec_flags ?sp\<rparr> else s"
  have conv: "sp_conv sp \<in> set (lit ''diuxXo'')" and pb: "\<not> (sp_plus sp \<and> sp_blank sp)" using ok by (auto simp: spec_ok_def)
  note same = no_zero_same no_zero_parts
  have fs: "pf_flag ?s = spec_flags ?sp" using f by (auto simp: no_zero_def)
  have put: "pf_out (put t ?s) = pf_out s @ t" "pf_ap (put t ?s) = pf_ap s" for t by (auto simp: put_def)
  have wp: "pf_width ?s = pf_width s" "pf_percision ?s = pf_percision s" by auto
  show ?thesis
  proof (cases "sp_width sp = None \<and> sp_prec sp = None")
    case True
    then show ?thesis using layout_plain_format [OF f conv _ _ pb, of v] has_spec(10) [OF f]
      by (simp add: layout_number_def put_def)
  next
    case False
    have L: "layout_number (sp_conv sp) (valstr_of sp v) s =
      (if sp_prec sp \<noteq> None then map_option (\<lambda>t. place_percision t ?s) (apply_percision (sp_conv sp) (c_sign sp v) (valstr_of sp v) ?s)
       else Some (place_width (c_sign sp v) (valstr_of sp v) ?s))"
    proof -
      have s1: "(if has s (FLAG_PERCISION_SPECIFIED OR FLAG_LEFTJUSTIFY) then s\<lparr>pf_flag := pf_flag s AND NOT FLAG_LEFTPADZERO\<rparr> else s) = ?s"
        using f has_spec(11) [OF f] drop_zero_flag [of sp] by (simp add: no_zero_def)
      have pre: "number_prefix (sp_conv sp) (c_negative sp v) ?s = c_sign sp v"
        using number_prefix_sign [OF fs, of v] conv unfolding same by simp
      have "\<not> (\<not> has s (FLAG_WIDTH_SPECIFIED OR FLAG_PERCISION_SPECIFIED))" using False has_spec(10) [OF f] by blast
      then show ?thesis unfolding layout_number_def s1 Let_def chr8 valstr_facts(1) pre
        using has_spec(6) [OF fs] unfolding same by simp
    qed
    show ?thesis
    proof (cases "sp_prec sp")
      case None
      then obtain k where k: "sp_width sp = Some k" using False by auto
      have "place_width (c_sign sp v) (valstr_of sp v) ?s = put (c_format sp v) ?s"
        using place_width_format [OF fs, of k v] None k w unfolding same c_format_no_zero wp by simp
      then show ?thesis unfolding L using None put by auto
    next
      case (Some q)
      have z: "\<not> sp_zero ?sp" using Some by (simp add: no_zero_def)
      have "apply_percision (sp_conv sp) (c_sign sp v) (valstr_of sp v) ?s = Some (c_sign sp v @ c_body sp v)"
        using apply_percision_body [OF fs, of q v] conv Some p unfolding same wp by simp
      moreover have "place_percision (c_sign sp v @ c_body sp v) ?s = put (c_format sp v) ?s"
        using place_percision_format [OF fs, of q v] Some z w unfolding same c_format_no_zero wp by simp
      ultimately show ?thesis unfolding L using Some put by auto
    qed
  qed
qed

section \<open>Formats made of text and integer specifications\<close>

datatype item = Txt "8 str" | Num ispec u32

fun item_text :: "item \<Rightarrow> 8 str" where
  "item_text (Txt t) = t" | "item_text (Num sp v) = spec_text sp"

fun item_args :: "item \<Rightarrow> u8 arg list" where
  "item_args (Txt t) = []" | "item_args (Num sp v) = [AInt v]"

fun item_out :: "item \<Rightarrow> 8 str" where
  "item_out (Txt t) = t" | "item_out (Num sp v) = c_format sp v"

text \<open>Text without null and percent sign; a specification in order, and not the most negative number.\<close>

fun item_ok :: "item \<Rightarrow> bool" where
  "item_ok (Txt t) \<longleftrightarrow> 0 \<notin> set t \<and> chr CHR ''%'' \<notin> set t"
| "item_ok (Num sp v) \<longleftrightarrow> spec_ok sp \<and> (is_signed (sp_conv sp) \<longrightarrow> v \<noteq> 0x80000000)"

lemma text_run:
  fixes t :: "8 str"
  shows
  "\<lbrakk>pf_state s = ST_TEXT; 0x25 \<notin> set t\<rbrakk> \<Longrightarrow> pf_run (t @ rest) s = pf_run rest (put t s)"
proof (induction t arbitrary: s)
  case (Cons c t)
  then show ?case by (simp add: pf_text_def put_def)
qed (simp add: put_def)

lemma pf_spec_number:
  fixes c :: u8
  assumes "c \<in> set (lit ''diuxXo'')"
  shows "pf_spec c s = map_option (\<lambda>s'. s'\<lparr>pf_state := ST_TEXT\<rparr>) (spec_number c s)"
proof -
  have "c \<noteq> 0x63" "c \<noteq> 0x25" "c \<noteq> 0x70" "c \<notin> set (lit ''FgGeEAaf'')" "c \<in> set (lit ''xXodiu'')"
    using assms by (auto simp: lit_def chr_def)
  then show ?thesis by (simp add: pf_spec_def)
qed

lemma num_run:
  assumes ok: "item_ok (Num sp v)" and s: "pf_state s = ST_TEXT" "pf_ap s = AInt v # ap"
  shows "\<exists>s'. pf_run (spec_text sp @ rest) s = pf_run rest s' \<and> pf_state s' = ST_TEXT \<and>
    pf_out s' = pf_out s @ c_format sp v \<and> pf_ap s' = ap"
proof -
  let ?s = "spec_state sp s"
  have sp: "spec_ok sp" and c: "sp_conv sp \<in> set (lit ''diuxXo'')" "is_signed (sp_conv sp) \<longrightarrow> v \<noteq> 0x80000000"
    using ok by (auto simp: spec_ok_def)
  have f: "pf_flag ?s = spec_flags sp" "pf_state ?s = ST_SPEC" "pf_ap ?s = AInt v # ap" "pf_out ?s = pf_out s"
    using s(2) by (simp_all add: spec_state_def)
  obtain s' where L: "layout_number (sp_conv sp) (valstr_of sp v) (?s\<lparr>pf_ap := ap\<rparr>) = Some s'"
    "pf_out s' = pf_out s @ c_format sp v" "pf_ap s' = ap"
    using layout_number_format [of "?s\<lparr>pf_ap := ap\<rparr>" sp v] sp by (auto simp: spec_state_def)
  have "read_params ?s = Some ?s" using has_spec(7,8) [OF f(1)] by (simp add: read_params_def)
  then have "spec_number (sp_conv sp) ?s = Some s'"
    using has_spec(9) [OF f(1)] value_int_digits [OF c, of ap] f L(1) by (simp add: spec_number_def)
  then have "pf_run (sp_conv sp # rest) ?s = pf_run rest (s'\<lparr>pf_state := ST_TEXT\<rparr>)"
    using f(2) pf_spec_number [OF c(1), of ?s] by simp
  then show ?thesis using spec_run [OF sp s(1), of rest] L by auto
qed

lemma items_run:
  "\<lbrakk>\<forall>i \<in> set items. item_ok i; pf_state s = ST_TEXT; pf_ap s = concat (map item_args items)\<rbrakk> \<Longrightarrow>
   \<exists>s'. pf_run (concat (map item_text items)) s = Some s' \<and> pf_out s' = pf_out s @ concat (map item_out items)"
proof (induction items arbitrary: s)
  case (Cons i items)
  show ?case
  proof (cases i)
    case (Txt t)
    then have "pf_run (concat (map item_text (i # items))) s = pf_run (concat (map item_text items)) (put t s)"
      using Cons.prems(1,2) text_run [of s t] by simp
    then show ?thesis using Cons.IH [of "put t s"] Cons.prems Txt by (auto simp: put_def)
  next
    case (Num sp v)
    obtain s' where s': "pf_run (spec_text sp @ concat (map item_text items)) s = pf_run (concat (map item_text items)) s'"
      "pf_state s' = ST_TEXT" "pf_out s' = pf_out s @ c_format sp v" "pf_ap s' = concat (map item_args items)"
      using num_run [of sp v s "concat (map item_args items)" "concat (map item_text items)"] Cons.prems Num by auto
    then show ?thesis using Cons.IH [of s'] Cons.prems Num by auto
  qed
qed simp

lemma spec_text_nonzero: "spec_ok sp \<Longrightarrow> 0 \<notin> set (spec_text sp)"
proof -
  assume ok: "spec_ok sp"
  have d: "0 \<notin> set (dec_digits n)" if "0 \<le> n" for n using dec_digits_digit [OF that] by (auto simp: is_digit_def)
  then have "0 \<notin> set (width_text sp)" "0 \<notin> set (prec_text sp)"
    using ok by (auto simp: width_text_def prec_text_def spec_ok_def lit_def split: option.splits)
  moreover have "0 \<notin> set (flag_text sp)" by (simp add: flag_text_def lit_def)
  moreover have "sp_conv sp \<noteq> 0" using ok by (auto simp: spec_ok_def lit_def)
  ultimately show ?thesis by (auto simp: spec_text_def lit_def)
qed

lemma items_c_string:
  assumes "\<forall>i \<in> set items. item_ok i"
  shows "c_string (concat (map item_text items)) = concat (map item_text items)"
proof -
  have "0 \<notin> set (item_text i)" if "item_ok i" for i using that spec_text_nonzero by (cases i) auto
  then show ?thesis using assms unfolding c_string_def by (intro takeWhile_eq_all_conv [THEN iffD2]) fastforce
qed

section \<open>Properties\<close>


definition sample_spec :: ispec where
  "sample_spec = \<lparr>sp_left = False, sp_plus = True, sp_blank = False, sp_zero = True, sp_width = Some 6, sp_prec = None,
     sp_conv = chr CHR ''d''\<rparr>"


text \<open>
  A literal is appended, not assigned, to the digits of a wide string, so that precision 0 does
  not remove the digit of 0.
\<close>

lemma printf_wide_zero:
  "printf (lit ''%.0d'') [AInt 0] = Some (lit ''0'' :: 16 str, 1)"
  "printf (lit ''%+.0d'') [AInt 0] = Some (lit ''0+'' :: 16 str, 2)"
  "printf (lit ''%+.0d'') [AInt 0] = Some (lit ''+'' :: 8 str, 1)"
  by (code_simp, code_simp, code_simp)

text \<open>
  Corners in which \<open>printf\<close> departs from the standard: \<open>%hhd\<close> of -1 prints 255; a blank after
  a plus flag wins over it; octal with \<open>#\<close> and a precision prints one zero too many; decimals
  are added to an infinity; and a negative precision for \<open>%s\<close> throws.
\<close>

theorem printf_corners:
  "printf (lit ''%hhd'') [AInt (- 1)] = Some (lit ''255'' :: 8 str, 3) \<and>
   printf (lit ''%+ d'') [AInt 1] = Some (lit '' 1'' :: 8 str, 2) \<and>
   printf (lit ''%#.3o'') [AInt 8] = Some (lit ''0010'' :: 8 str, 4) \<and>
   printf (lit ''%.2f'') [ADouble (Inf False)] = Some (lit ''inf.00'' :: 8 str, 6) \<and>
   printf (lit ''%.*s'') [AInt (- 1), AStr (lit ''a'')] = (None :: (8 str \<times> u32) option)"
  by (intro conjI; code_simp)

end
