(* ===== verification/GetOpt.thy ===== *)
theory GetOpt
  imports XString
begin

text \<open>
  src/getopt.cpp: xgetopt, xgetopt\_long, xgetopt\_long\_only and xgetsubopt.  The argument strings
  are in a store from identities to strings without null; \<open>argv\<close> is a list of identities, so that
  a pointer into a string is a pair of an identity and an offset and keeps its meaning when the
  elements of \<open>argv\<close> are moved.  The global variables and what is printed to stderr are a record.
\<close>

section \<open>State\<close>

type_synonym store = "nat \<Rightarrow> 8 str"
type_synonym sptr = "nat \<times> nat"

record gstate =
  xoptind :: int
  xoptopt :: int
  xopterr :: bool
  xoptreset :: bool
  xoptarg :: "sptr option"
  xoptcur :: "sptr option"
  argv :: "nat list"
  flagmem :: "nat \<Rightarrow> int"
  longindex :: int
  errs :: "8 str list"

record xoption =
  xo_name :: "8 str option"
  xo_has_arg :: int
  xo_flag :: "nat option"
  xo_val :: int

definition xoption_zero :: "xoption \<Rightarrow> bool" where
  "xoption_zero x \<longleftrightarrow> xo_name x = None \<and> xo_flag x = None \<and> xo_has_arg x = 0 \<and> xo_val x = 0"

text \<open>A read of a character; the terminator is after the last one.\<close>

definition chr_at :: "8 str \<Rightarrow> nat \<Rightarrow> u8" where
  "chr_at s i = (if i < length s then s ! i else 0)"

text \<open>The string \<open>argv[xoptind]\<close>.\<close>

definition cur_id :: "gstate \<Rightarrow> nat" where
  "cur_id s = argv s ! nat (xoptind s)"

definition bump :: "gstate \<Rightarrow> gstate" where
  "bump s = s\<lparr>xoptind := xoptind s + 1\<rparr>"

definition progname_of :: "8 str \<Rightarrow> 8 str" where
  "progname_of a = rev (takeWhile (\<lambda>c. c \<noteq> chr CHR ''/'') (rev a))"

definition say :: "8 str \<Rightarrow> gstate \<Rightarrow> gstate" where
  "say m s = (if xopterr s then s\<lparr>errs := errs s @ [m]\<rparr> else s)"

definition quote_end :: "8 str" where
  "quote_end = [0x27, 0x0A]"

section \<open>The head of optstring\<close>

fun opt_head :: "8 str \<Rightarrow> bool \<Rightarrow> bool \<Rightarrow> bool \<Rightarrow> bool \<times> bool \<times> bool \<times> 8 str" where
  "opt_head [] permute argofone missingarg = (permute, argofone, missingarg, [])"
| "opt_head (c # cs) permute argofone missingarg =
     (if c = chr CHR ''+'' \<or> c = chr CHR ''-'' then opt_head cs False (c = chr CHR ''-'') missingarg
      else if c = chr CHR '':'' then opt_head cs permute argofone True
      else (permute, argofone, missingarg, c # cs))"

section \<open>Long options\<close>

text \<open>
  The search for a long option whose name starts with the text \<open>q\<close>: the last hit and the number
  of hits; an exact match ends it.
\<close>

fun find_long :: "xoption list \<Rightarrow> 8 str \<Rightarrow> nat \<Rightarrow> nat option \<Rightarrow> nat \<Rightarrow> nat option \<times> nat" where
  "find_long [] q i xo hitcnt = (xo, hitcnt)"
| "find_long (x # xs) q i xo hitcnt =
     (if xoption_zero x then (xo, hitcnt)
      else case xo_name x of
        None \<Rightarrow> find_long xs q (i + 1) xo hitcnt
      | Some name \<Rightarrow>
          if take (length q) name = q
          then if length q = length name then (Some i, 1) else find_long xs q (i + 1) (Some i) (hitcnt + 1)
          else find_long xs q (i + 1) xo hitcnt)"

definition set_flag :: "xoption \<Rightarrow> gstate \<Rightarrow> int \<times> gstate" where
  "set_flag x s =
     (case xo_flag x of
        None \<Rightarrow> (xo_val x, s)
      | Some f \<Rightarrow> (0, s\<lparr>flagmem := (flagmem s)(f := xo_val x)\<rparr>))"

text \<open>The position of the equals sign in the option text that starts at offset \<open>off\<close> of string \<open>a\<close>.\<close>

definition find_eq :: "8 str \<Rightarrow> nat \<Rightarrow> nat option" where
  "find_eq a off = (let n = length (takeWhile (\<lambda>c. c \<noteq> chr CHR ''='') (drop off a)) in
     if off + n < length a then Some (off + n) else None)"

text \<open>What the matched option does with its argument.\<close>

definition long_hit :: "store \<Rightarrow> int \<Rightarrow> 8 str \<Rightarrow> bool \<Rightarrow> nat \<Rightarrow> xoption \<Rightarrow> gstate \<Rightarrow> int \<times> gstate" where
  "long_hit st argc progname missingarg off x s =
     (if xo_has_arg x = 1 \<or> xo_has_arg x = 2
      then let curid = cur_id s; s1 = bump s in
        case find_eq (st curid) off of
          Some e \<Rightarrow> set_flag x (s1\<lparr>xoptarg := Some (curid, e + 1)\<rparr>)
        | None \<Rightarrow>
            if xo_has_arg x = 2 then set_flag x s1
            else if xoptind s1 < argc then set_flag x (bump (s1\<lparr>xoptarg := Some (cur_id s1, 0)\<rparr>))
            else let s2 = say (progname @ lit '': option `'' @ st curid @ [0x27] @ lit '' requires an argument'' @ [0x0A]) s1
              in (if missingarg then sint (chr CHR '':'' :: u8) else sint (chr CHR ''?'' :: u8), s2)
      else set_flag x (bump s))"

text \<open>None: there is no such option and \<open>only\<close> asks to go on with the short options.\<close>

definition long_opt :: "store \<Rightarrow> int \<Rightarrow> 8 str \<Rightarrow> bool \<Rightarrow> xoption list \<Rightarrow> bool \<Rightarrow> bool \<Rightarrow> nat \<Rightarrow> gstate \<Rightarrow> (int \<times> gstate) option" where
  "long_opt st argc progname missingarg longopts want_index only off s =
     (let a = st (cur_id s);
          q = (case find_eq a off of None \<Rightarrow> drop off a | Some e \<Rightarrow> take (e - off) (drop off a));
          (xo, hitcnt) = find_long longopts q 0 None 0
      in case xo of
        None \<Rightarrow> if only then None
               else Some (sint (chr CHR ''?'' :: u8), bump (say (progname @ lit '': unrecognized option `'' @ a @ quote_end) s))
      | Some i \<Rightarrow>
          if hitcnt > 1
          then Some (sint (chr CHR ''?'' :: u8), bump (say (progname @ lit '': option `'' @ a @ [0x27] @ lit '' is ambiguous'' @ [0x0A]) s))
          else Some (long_hit st argc progname missingarg off (longopts ! i)
                      (if want_index then s\<lparr>longindex := int i\<rparr> else s)))"

section \<open>Short options\<close>

text \<open>The index of the character in optstring.\<close>

definition find_short :: "8 str \<Rightarrow> u8 \<Rightarrow> nat option" where
  "find_short optstring c =
     (let n = length (takeWhile (\<lambda>d. d \<noteq> c) optstring) in if n < length optstring then Some n else None)"

definition short_opt :: "store \<Rightarrow> int \<Rightarrow> 8 str \<Rightarrow> bool \<Rightarrow> 8 str \<Rightarrow> sptr \<Rightarrow> gstate \<Rightarrow> int \<times> gstate" where
  "short_opt st argc progname missingarg optstring p s0 =
     (let s = s0\<lparr>xoptarg := None\<rparr>; c = chr_at (st (fst p)) (snd p); more = chr_at (st (fst p)) (snd p + 1) \<noteq> 0 in
      case find_short optstring c of
        Some d \<Rightarrow>
          if chr_at optstring (d + 1) = chr CHR '':''
          then let s1 = (bump s)\<lparr>xoptcur := None\<rparr>; required = chr_at optstring (d + 2) \<noteq> chr CHR '':'' in
            if more then (sint c, s1\<lparr>xoptarg := Some (fst p, snd p + 1)\<rparr>)
            else if xoptind s1 < argc \<and> (required \<or> chr_at (st (cur_id s1)) 0 \<noteq> chr CHR ''-'')
            then (sint c, bump (s1\<lparr>xoptarg := Some (cur_id s1, 0)\<rparr>))
            else if required
            then let s2 = say (progname @ lit '': option requires an argument -- '' @ [0x27, c] @ quote_end) s1
              in (if missingarg then sint (chr CHR '':'' :: u8) else sint (chr CHR ''?'' :: u8), s2\<lparr>xoptopt := sint c\<rparr>)
            else (sint c, s1)
          else (sint c, if more then s\<lparr>xoptcur := Some (fst p, snd p + 1)\<rparr> else (bump s)\<lparr>xoptcur := None\<rparr>)
      | None \<Rightarrow>
          let s1 = (if more then s\<lparr>xoptcur := Some (fst p, snd p + 1)\<rparr> else (bump s)\<lparr>xoptcur := None\<rparr>);
              s2 = s1\<lparr>xoptopt := sint c\<rparr>
          in (sint (chr CHR ''?'' :: u8),
              if missingarg then s2 else say (progname @ lit '': invalid option -- '' @ [0x27, c] @ quote_end) s2))"

section \<open>xgetopt\_impl without the permutation\<close>

text \<open>Case 3 of the loop: the element starts with a dash, or parsing goes on inside it.\<close>

definition opt_case3 :: "store \<Rightarrow> int \<Rightarrow> 8 str \<Rightarrow> bool \<Rightarrow> 8 str \<Rightarrow> xoption list option \<Rightarrow> bool \<Rightarrow> bool \<Rightarrow> gstate \<Rightarrow> int \<times> gstate" where
  "opt_case3 st argc progname missingarg optstring longopts want_index only s =
     (let k = cur_id s; dash2 = (chr_at (st k) 1 = chr CHR ''-''); off = (if dash2 then 2 else 1);
          p = (case xoptcur s of None \<Rightarrow> (k, off) | Some c \<Rightarrow> c)
      in case longopts of
        None \<Rightarrow> short_opt st argc progname missingarg optstring p s
      | Some lo \<Rightarrow>
          if xoptcur s \<noteq> None \<or> \<not> dash2 \<and> \<not> only
          then short_opt st argc progname missingarg optstring p s
          else case long_opt st argc progname missingarg lo want_index only off s of
            Some r \<Rightarrow> r
          | None \<Rightarrow> short_opt st argc progname missingarg optstring p s)"

text \<open>
  The loop: a code and a state, and whether the end was reached by leaving the loop (after "-" or
  "--", or past the last element), where the permutation takes place if it is asked for.
\<close>

function opt_loop :: "store \<Rightarrow> int \<Rightarrow> 8 str \<Rightarrow> bool \<Rightarrow> bool \<Rightarrow> bool \<Rightarrow> 8 str \<Rightarrow> xoption list option \<Rightarrow> bool \<Rightarrow> bool \<Rightarrow>
    gstate \<Rightarrow> int \<times> gstate \<times> bool" where
  "opt_loop st argc progname permute argofone missingarg optstring longopts want_index only s =
     (if \<not> xoptind s < argc then (- 1, s, True)
      else if xoptcur s = None \<and> chr_at (st (cur_id s)) 0 \<noteq> chr CHR ''-''
      then if argofone then (1, bump (s\<lparr>xoptarg := Some (cur_id s, 0)\<rparr>), False)
           else if permute then opt_loop st argc progname permute argofone missingarg optstring longopts want_index only (bump s)
           else (- 1, s, False)
      else if xoptcur s = None \<and> (st (cur_id s) = lit ''-'' \<or> st (cur_id s) = lit ''--'')
      then (- 1, bump s, True)
      else let (code, s1) = opt_case3 st argc progname missingarg optstring longopts want_index only s in (code, s1, False))"
  by pat_completeness auto
termination
  by (relation "measure (\<lambda>(st, argc, pn, pm, ao, ma, os, lo, wi, only, s). nat (argc - xoptind s))") (auto simp: bump_def)

declare opt_loop.simps [simp del]

definition opt_reset :: "gstate \<Rightarrow> gstate" where
  "opt_reset s =
     (let s1 = (if xoptreset s then s\<lparr>xoptreset := False, xoptcur := None, xoptind := 0, xoptarg := None, xoptopt := 0\<rparr> else s)
      in if xoptind s1 < 1 then s1\<lparr>xoptind := 1\<rparr> else s1)"

text \<open>\<open>xoptcur\<close> is dropped when it does not point into the current element.\<close>

definition opt_check_cur :: "store \<Rightarrow> gstate \<Rightarrow> gstate" where
  "opt_check_cur st s =
     (case xoptcur s of
        None \<Rightarrow> s
      | Some (k, off) \<Rightarrow> if k = cur_id s \<and> off < length (st k) then s else s\<lparr>xoptcur := None\<rparr>)"

text \<open>The last two components: whether \<open>xgetopt_permute\<close> is to be called, and the rest of optstring for it.\<close>

definition opt_scan :: "store \<Rightarrow> int \<Rightarrow> 8 str \<Rightarrow> xoption list option \<Rightarrow> bool \<Rightarrow> bool \<Rightarrow> gstate \<Rightarrow> int \<times> gstate \<times> bool \<times> 8 str" where
  "opt_scan st argc optstring longopts want_index only s0 =
     (let progname = progname_of (st (argv s0 ! 0));
          s1 = opt_reset s0;
          (permute, argofone, missingarg, os) = opt_head optstring True False False;
          s2 = s1\<lparr>xoptarg := None\<rparr>
      in if xoptind s2 \<ge> argc then (- 1, s2\<lparr>xoptind := argc\<rparr>, permute, os)
         else let (code, s3, left) =
                opt_loop st argc progname permute argofone missingarg os longopts want_index only (opt_check_cur st s2)
           in (code, s3, permute \<and> left, os))"

section \<open>xgetopt\_permute\<close>

text \<open>The copy of the long options, which tells nobody of a match.\<close>

definition clone_longopts :: "xoption list \<Rightarrow> xoption list" where
  "clone_longopts xs = List.map (\<lambda>x. x\<lparr>xo_flag := None, xo_val := 0x5299\<rparr>) (takeWhile (\<lambda>x. \<not> xoption_zero x) xs)"

definition permute_optstring :: "8 str option \<Rightarrow> 8 str" where
  "permute_optstring optstring =
     (case optstring of None \<Rightarrow> lit ''+''
      | Some os \<Rightarrow> chr CHR ''+'' # dropWhile (\<lambda>c. c = chr CHR ''+'' \<or> c = chr CHR ''-'') os)"

text \<open>Taking out the element at \<open>i\<close> moves the elements up to \<open>argc\<close> one down.\<close>

definition detach :: "int \<Rightarrow> nat \<Rightarrow> nat list \<Rightarrow> nat list" where
  "detach argc i xs = take i xs @ take (nat argc - 1 - i) (drop (i + 1) xs) @ drop (nat argc - 1) xs"

text \<open>Appending the elements put aside.\<close>

definition put_back :: "int \<Rightarrow> nat list \<Rightarrow> nat list \<Rightarrow> nat list" where
  "put_back argc nonopts xs = take (nat argc) xs @ nonopts @ drop (nat argc + length nonopts) xs"

partial_function (option) permute_loop :: "store \<Rightarrow> 8 str \<Rightarrow> xoption list option \<Rightarrow> bool \<Rightarrow> int \<Rightarrow> nat list \<Rightarrow> gstate \<Rightarrow> gstate option" where
  "permute_loop st pstr x only argc nonopts s =
     (let (code, s1, _, _) = opt_scan st argc pstr x False only s in
      if code = - 1
      then if xoptind s1 < argc
        then permute_loop st pstr x only (argc - 1) (nonopts @ [cur_id s1])
               (s1\<lparr>argv := detach argc (nat (xoptind s1)) (argv s1), xoptcur := None\<rparr>)
        else Some (s1\<lparr>argv := put_back argc nonopts (argv s1)\<rparr>)
      else permute_loop st pstr x only argc nonopts s1)"

declare permute_loop.simps [code]

definition xgetopt_permute :: "store \<Rightarrow> int \<Rightarrow> 8 str \<Rightarrow> xoption list option \<Rightarrow> bool \<Rightarrow> gstate \<Rightarrow> gstate option" where
  "xgetopt_permute st argc optstring longopts only s =
     map_option (\<lambda>s1. s1\<lparr>xopterr := xopterr s\<rparr>)
       (permute_loop st (permute_optstring (Some optstring)) (map_option clone_longopts longopts) only argc []
          (s\<lparr>xopterr := False, xoptreset := True\<rparr>))"

section \<open>The entry points\<close>

definition xgetopt_impl :: "store \<Rightarrow> int \<Rightarrow> 8 str option \<Rightarrow> xoption list option \<Rightarrow> bool \<Rightarrow> bool \<Rightarrow> gstate \<Rightarrow> (int \<times> gstate) option" where
  "xgetopt_impl st argc optstring longopts want_index only s =
     (let (code, s1, permute, os) =
        opt_scan st argc (case optstring of None \<Rightarrow> [] | Some o' \<Rightarrow> o') longopts want_index only s
      in if permute then map_option (\<lambda>s2. (- 1, s2)) (xgetopt_permute st argc os longopts only s1)
         else Some (code, s1))"

definition xgetopt :: "store \<Rightarrow> int \<Rightarrow> 8 str option \<Rightarrow> gstate \<Rightarrow> (int \<times> gstate) option" where
  "xgetopt st argc optstring s = xgetopt_impl st argc optstring None False False s"

definition xgetopt_long :: "store \<Rightarrow> int \<Rightarrow> 8 str option \<Rightarrow> xoption list option \<Rightarrow> bool \<Rightarrow> gstate \<Rightarrow> (int \<times> gstate) option" where
  "xgetopt_long st argc optstring longopts want_index s = xgetopt_impl st argc optstring longopts want_index False s"

definition xgetopt_long_only :: "store \<Rightarrow> int \<Rightarrow> 8 str option \<Rightarrow> xoption list option \<Rightarrow> bool \<Rightarrow> gstate \<Rightarrow> (int \<times> gstate) option" where
  "xgetopt_long_only st argc optstring longopts want_index s = xgetopt_impl st argc optstring longopts want_index True s"

section \<open>xgetsubopt\<close>

text \<open>
  The scan: the rest of the text, the position \<open>n\<close>, the position \<open>a\<close> after the first equals sign
  and the length of the name so far; at the end the position of the comma or terminator.
\<close>

fun subopt_scan :: "8 str \<Rightarrow> nat \<Rightarrow> nat option \<Rightarrow> nat \<Rightarrow> nat \<times> nat option \<times> nat" where
  "subopt_scan [] n a nlen = (n, a, nlen)"
| "subopt_scan (c # cs) n a nlen =
     (if c = chr CHR '','' \<or> c = 0 then (n, a, nlen)
      else if c = chr CHR ''='' then subopt_scan cs (n + 1) (if a = None then Some (n + 1) else a) nlen
      else subopt_scan cs (n + 1) a (if a = None then nlen + 1 else nlen))"

fun subopt_find :: "8 str list \<Rightarrow> 8 str \<Rightarrow> nat \<Rightarrow> int" where
  "subopt_find [] name i = - 1"
| "subopt_find (t # ts) name i = (if take (length name) t = name then int i else subopt_find ts name (i + 1))"

text \<open>
  The result: the return value, the buffer with the null written into it, the new position and
  the position of the value.  The buffer is a string and its terminator; the text starts at \<open>p\<close>.
\<close>

definition xgetsubopt :: "8 str \<Rightarrow> nat \<Rightarrow> 8 str list \<Rightarrow> int \<times> 8 str \<times> nat \<times> nat option" where
  "xgetsubopt buf p tokens =
     (let (n, a, nlen) = subopt_scan (drop p buf) p None 0;
          p' = (if chr_at buf n = chr CHR '','' then n + 1 else n);
          buf1 = buf[n := 0];
          ret = (if nlen > 0 then subopt_find tokens (take nlen (drop p buf1)) 0 else - 1)
      in (ret, buf1, p', if ret \<noteq> - 1 then a else Some p))"

end
