(* ===== verification/GetOptProps.thy ===== *)
theory GetOptProps
  imports GetOpt XStringProps "HOL-Library.Multiset"
begin

text \<open>
  xgetopt always returns, moving the elements of argv around without losing any; canonical
  command lines are parsed back into their options; and the corners of the contract.
\<close>

section \<open>One step of the parser\<close>

text \<open>The index and the position in the element that a call starts with.\<close>

definition start_ind :: "gstate \<Rightarrow> int" where
  "start_ind s = (if xoptreset s then 1 else max 1 (xoptind s))"

definition cur_left :: "store \<Rightarrow> gstate \<Rightarrow> nat" where
  "cur_left st s = (case xoptcur (opt_check_cur st (opt_reset s)) of
      None \<Rightarrow> Suc (length (st (cur_id (opt_reset s)))) | Some (k, off) \<Rightarrow> length (st k) - off)"

lemma opt_reset_simps [simp]:
  "xoptreset (opt_reset s) = False" "xoptind (opt_reset s) = start_ind s" "argv (opt_reset s) = argv s"
  "xopterr (opt_reset s) = xopterr s"
  by (auto simp: opt_reset_def start_ind_def Let_def)

lemma opt_check_cur_simps [simp]:
  "xoptreset (opt_check_cur st s) = xoptreset s" "xoptind (opt_check_cur st s) = xoptind s"
  "argv (opt_check_cur st s) = argv s" "xopterr (opt_check_cur st s) = xopterr s"
  by (auto simp: opt_check_cur_def split: option.splits)

lemma say_simps [simp]:
  "xoptind (say m s) = xoptind s" "xoptcur (say m s) = xoptcur s" "argv (say m s) = argv s"
  "xoptreset (say m s) = xoptreset s" "xopterr (say m s) = xopterr s" "xoptarg (say m s) = xoptarg s"
  by (auto simp: say_def)

lemma set_flag_simps [simp]:
  "xoptind (snd (set_flag x s)) = xoptind s" "argv (snd (set_flag x s)) = argv s"
  "xoptreset (snd (set_flag x s)) = xoptreset s" "xopterr (snd (set_flag x s)) = xopterr s"
  by (auto simp: set_flag_def split: option.splits)

lemma bump_simps [simp]:
  "xoptind (bump s) = xoptind s + 1" "argv (bump s) = argv s" "xoptreset (bump s) = xoptreset s"
  "xopterr (bump s) = xopterr s" "xoptcur (bump s) = xoptcur s" "xoptarg (bump s) = xoptarg s"
  by (auto simp: bump_def)

text \<open>What a step keeps, and how it makes progress from the state \<open>s\<close> with the pointer at \<open>p\<close>.\<close>

definition kept :: "gstate \<Rightarrow> gstate \<Rightarrow> bool" where
  "kept s s' \<longleftrightarrow> argv s' = argv s \<and> xoptreset s' = xoptreset s \<and> xopterr s' = xopterr s \<and> xoptind s \<le> xoptind s'"

definition advanced :: "store \<Rightarrow> sptr \<Rightarrow> gstate \<Rightarrow> gstate \<Rightarrow> bool" where
  "advanced st p s s' \<longleftrightarrow> xoptind s < xoptind s' \<or>
     xoptind s' = xoptind s \<and> xoptcur s' = Some (fst p, snd p + 1) \<and> snd p + 1 < length (st (fst p))"

lemma long_hit_progress:
  assumes "long_hit st argc pn ma off x s = (code, s')"
  shows "kept s s' \<and> xoptind s < xoptind s'"
  using assms
  by (auto simp: long_hit_def kept_def Let_def set_flag_def split: option.splits if_splits)

lemma long_opt_progress:
  assumes "long_opt st argc pn ma lo wi only off s = Some (code, s')"
  shows "kept s s' \<and> xoptind s < xoptind s'"
proof -
  obtain xo hit where f: "find_long lo (case find_eq (st (cur_id s)) off of None \<Rightarrow> drop off (st (cur_id s))
      | Some e \<Rightarrow> take (e - off) (drop off (st (cur_id s)))) 0 None 0 = (xo, hit)" by fastforce
  show ?thesis
  proof (cases xo)
    case None
    then show ?thesis using assms f by (auto simp: long_opt_def Let_def kept_def split: if_splits)
  next
    case (Some i)
    show ?thesis
    proof (cases "hit > 1")
      case True
      then show ?thesis using assms f Some by (auto simp: long_opt_def Let_def kept_def)
    next
      case False
      let ?s = "if wi then s\<lparr>longindex := int i\<rparr> else s"
      have "long_hit st argc pn ma off (lo ! i) ?s = (code, s')"
        using assms f Some False by (simp add: long_opt_def Let_def)
      from long_hit_progress [OF this] show ?thesis by (auto simp: kept_def split: if_splits)
    qed
  qed
qed

lemma chr_at_more: "chr_at s i \<noteq> 0 \<Longrightarrow> i < length s"
  by (auto simp: chr_at_def split: if_splits)

lemma short_opt_progress:
  assumes "short_opt st argc pn ma os p s = (code, s')"
  shows "kept s s' \<and> advanced st p s s'"
  using assms
  by (auto simp: short_opt_def Let_def kept_def advanced_def dest: chr_at_more split: option.splits if_splits)

text \<open>Case 3 of the loop moves on, from the pointer it starts with.\<close>

definition start_ptr :: "store \<Rightarrow> gstate \<Rightarrow> sptr" where
  "start_ptr st s = (case xoptcur s of
     None \<Rightarrow> (cur_id s, if chr_at (st (cur_id s)) 1 = chr CHR ''-'' then 2 else 1) | Some c \<Rightarrow> c)"

lemma opt_case3_progress:
  assumes "opt_case3 st argc pn ma os lo wi only s = (code, s')"
  shows "kept s s' \<and> advanced st (start_ptr st s) s s'"
proof -
  have S: "kept s s' \<and> advanced st (start_ptr st s) s s'"
    if "short_opt st argc pn ma os (start_ptr st s) s = (code, s')"
    using short_opt_progress [OF that] .
  have L: "kept s s' \<and> advanced st (start_ptr st s) s s'"
    if "long_opt st argc pn ma l wi only off s = Some (code, s')" for l off
    using long_opt_progress [OF that] by (simp add: advanced_def)
  have p: "(case xoptcur s of None \<Rightarrow> (cur_id s, if chr_at (st (cur_id s)) 1 = chr CHR ''-'' then 2 else 1) | Some c \<Rightarrow> c) = start_ptr st s"
    by (simp add: start_ptr_def)
  show ?thesis using assms S L unfolding opt_case3_def Let_def p
    by (auto split: option.splits if_splits)
qed

lemma opt_head_plus: "opt_head (chr CHR ''+'' # os) True ao ma = (False, fst (snd (opt_head os False False ma)),
    fst (snd (snd (opt_head os False False ma))), snd (snd (snd (opt_head os False False ma))))"
proof -
  have "fst (opt_head os False ao ma) = False" for ao ma
    by (induction os False ao ma rule: opt_head.induct) auto
  then show ?thesis by (simp add: prod_eq_iff)
qed

lemma opt_loop_progress:
  assumes "opt_loop st argc pn False ao ma os lo wi only s = (code, s', left)" "xoptind s < argc"
  shows "kept s s' \<and> (code = - 1 \<or> advanced st (start_ptr st s) s s')"
proof -
  obtain c3 s3 where c3: "opt_case3 st argc pn ma os lo wi only s = (c3, s3)" by fastforce
  show ?thesis using assms opt_case3_progress [OF c3]
    by (subst (asm) opt_loop.simps) (auto simp: c3 kept_def advanced_def split: if_splits)
qed

lemma start_ind_ge: "1 \<le> start_ind s"
  by (simp add: start_ind_def)

lemma opt_scan_progress:
  assumes scan: "opt_scan st argc (chr CHR ''+'' # os) x wi only s = (code, s1, pm, os')" and argc: "1 \<le> argc"
  shows "\<not> pm \<and> argv s1 = argv s \<and> \<not> xoptreset s1 \<and> xopterr s1 = xopterr s \<and> 1 \<le> xoptind s1 \<and>
    (if start_ind s < argc
     then start_ind s \<le> xoptind s1 \<and> (code = - 1 \<or> start_ind s < xoptind s1 \<or>
            start_ind s = xoptind s1 \<and> cur_left st s1 < cur_left st s)
     else code = - 1 \<and> xoptind s1 = argc)"
proof -
  let ?s2 = "(opt_reset s)\<lparr>xoptarg := None\<rparr>" let ?s4 = "opt_check_cur st ?s2"
  define r where "r = opt_head os False False False"
  have h: "opt_head (chr CHR ''+'' # os) True False False = (False, fst (snd r), fst (snd (snd r)), snd (snd (snd r)))"
    unfolding r_def by (rule opt_head_plus)
  show ?thesis
  proof (cases "start_ind s < argc")
    case False
    then show ?thesis using scan argc unfolding opt_scan_def Let_def h prod.case by auto
  next
    case True
    let ?l = "opt_loop st argc (progname_of (st (argv s ! 0))) False (fst (snd r)) (fst (snd (snd r))) (snd (snd (snd r))) x wi only ?s4"
    obtain left where l: "?l = (code, s1, left)" and pm: "\<not> pm"
      using scan True unfolding opt_scan_def Let_def h prod.case by (auto split: prod.splits)
    have P: "kept ?s4 s1 \<and> (code = - 1 \<or> advanced st (start_ptr st ?s4) ?s4 s1)"
      using opt_loop_progress [OF l] True by simp
    then have k: "argv s1 = argv s" "\<not> xoptreset s1" "xopterr s1 = xopterr s" "start_ind s \<le> xoptind s1"
      by (auto simp: kept_def)
    have "start_ind s < xoptind s1 \<or> start_ind s = xoptind s1 \<and> cur_left st s1 < cur_left st s" if "code \<noteq> - 1"
    proof (cases "start_ind s < xoptind s1")
      case False
      let ?p = "start_ptr st ?s4"
      have same: "xoptind s1 = start_ind s" and c: "xoptcur s1 = Some (fst ?p, snd ?p + 1)" "snd ?p + 1 < length (st (fst ?p))"
        using P that False by (auto simp: advanced_def)
      have id: "cur_id s1 = cur_id ?s4" using k same by (simp add: cur_id_def)
      have re: "opt_reset s1 = s1" using k(2) same start_ind_ge [of s] by (auto simp: opt_reset_def Let_def)
      have cs: "xoptcur ?s4 = xoptcur (opt_check_cur st (opt_reset s))" "cur_id ?s4 = cur_id (opt_reset s)"
        by (auto simp: opt_check_cur_def cur_id_def split: option.splits)
      have p: "fst ?p = cur_id ?s4"
        by (auto simp: start_ptr_def opt_check_cur_def cur_id_def split: option.splits if_splits)
      have "cur_left st s1 = length (st (fst ?p)) - (snd ?p + 1)"
        using c id p by (simp add: cur_left_def re opt_check_cur_def)
      moreover have "length (st (fst ?p)) - snd ?p \<le> cur_left st s"
        unfolding cur_left_def cs(1) [symmetric] using p cs(2) by (auto simp: start_ptr_def split: option.splits)
      ultimately show ?thesis using same c(2) by auto
    qed simp
    then show ?thesis using True k pm start_ind_ge [of s] by auto
  qed
qed

section \<open>The permutation\<close>

lemma detach_facts:
  assumes "i < nat argc" "nat argc \<le> length xs" "1 \<le> argc"
  shows "length (detach argc i xs) = length xs"
    and "mset (take (nat (argc - 1)) (detach argc i xs)) + {# xs ! i #} = mset (take (nat argc) xs)"
    and "drop (nat argc) (detach argc i xs) = drop (nat argc) xs"
proof -
  define n where "n = nat (argc - 1)"
  have n: "nat argc = Suc n" "nat (argc - 1) = n" using assms(3) by (simp_all add: n_def Suc_nat_eq_nat_zadd1)
  show "length (detach argc i xs) = length xs" using assms n by (simp add: detach_def min_def) linarith
  have t: "take n (detach argc i xs) = take i xs @ take (n - i) (drop (i + 1) xs)"
  proof -
    have "length (take i xs @ take (n - i) (drop (i + 1) xs)) = n" using assms n by simp
    moreover have "detach argc i xs = (take i xs @ take (n - i) (drop (i + 1) xs)) @ drop n xs"
      using n by (simp add: detach_def)
    ultimately show ?thesis by (metis append_eq_conv_conj)
  qed
  have "take (Suc n) xs = take i xs @ xs ! i # take (n - i) (drop (i + 1) xs)"
    using id_take_nth_drop [of i "take (Suc n) xs"] assms n by (simp add: drop_take min_def)
  then show "mset (take (nat (argc - 1)) (detach argc i xs)) + {# xs ! i #} = mset (take (nat argc) xs)"
    by (simp add: n t)
  show "drop (nat argc) (detach argc i xs) = drop (nat argc) xs"
    using assms n by (simp add: detach_def min_def)
qed

text \<open>The loop of the permutation ends, and no element is lost or doubled.\<close>

definition left_over :: "store \<Rightarrow> int \<Rightarrow> gstate \<Rightarrow> nat \<times> nat" where
  "left_over st argc s = (nat (argc - start_ind s), cur_left st s)"

lemma permute_loop_total:
  assumes "1 \<le> argc" "nat argc + length nonopts \<le> length (argv s)"
  shows "\<exists>s'. permute_loop st (chr CHR ''+'' # os) x only argc nonopts s = Some s' \<and>
    length (argv s') = length (argv s) \<and> xopterr s' = xopterr s \<and> \<not> xoptreset s' \<and> 1 \<le> xoptind s' \<and>
    drop (nat argc + length nonopts) (argv s') = drop (nat argc + length nonopts) (argv s) \<and>
    mset (take (nat argc + length nonopts) (argv s')) = mset (take (nat argc) (argv s)) + mset nonopts"
  using assms
proof (induction "left_over st argc s" arbitrary: argc nonopts s rule: wf_induct_rule [OF wf_lex_prod [OF wf_less_than wf_less_than]])
  case 1
  note IH = 1(1) and argc = 1(2) and len = 1(3)
  obtain code s1 pm os' where sc: "opt_scan st argc (chr CHR ''+'' # os) x False only s = (code, s1, pm, os')"
    by (metis prod_cases4)
  note P = opt_scan_progress [OF sc argc]
  have k: "argv s1 = argv s" "\<not> xoptreset s1" "xopterr s1 = xopterr s" "1 \<le> xoptind s1" using P by auto
  have si: "start_ind s1 = xoptind s1" using k by (simp add: start_ind_def)
  consider (fin) "code = - 1" "\<not> xoptind s1 < argc" | (move) "code = - 1" "xoptind s1 < argc" | (go) "code \<noteq> - 1" by blast
  then show ?case
  proof cases
    case fin
    then show ?thesis using sc k len
      by (subst permute_loop.simps) (cases nonopts, auto simp: put_back_def min_def add.commute)
  next
    case move
    let ?i = "nat (xoptind s1)" let ?xs = "detach argc ?i (argv s1)"
    let ?s = "s1\<lparr>argv := ?xs, xoptcur := None\<rparr>"
    have i: "?i < nat argc" "nat argc \<le> length (argv s1)" using move k len by auto
    note D = detach_facts [OF i argc]
    have si': "start_ind (s1\<lparr>argv := z, xoptcur := None\<rparr>) = xoptind s1" for z using k by (simp add: start_ind_def)
    have "start_ind s < argc" using P move by (auto split: if_splits)
    then have "start_ind s \<le> xoptind s1" using P by simp
    then have A: "(left_over st (argc - 1) ?s, left_over st argc s) \<in> less_than <*lex*> less_than"
      using \<open>start_ind s < argc\<close> si' by (simp add: left_over_def)
    have B: "1 \<le> argc - 1" using move k by linarith
    have l: "nat (argc - 1) + length (nonopts @ [cur_id s1]) = nat argc + length nonopts" using argc by simp
    have C: "nat (argc - 1) + length (nonopts @ [cur_id s1]) \<le> length (argv ?s)" using len k D(1) l by simp
    obtain s' where s': "permute_loop st (chr CHR ''+'' # os) x only (argc - 1) (nonopts @ [cur_id s1]) ?s = Some s'"
      "length (argv s') = length ?xs" "xopterr s' = xopterr s1" "\<not> xoptreset s'" "1 \<le> xoptind s'"
      "drop (nat argc + length nonopts) (argv s') = drop (nat argc + length nonopts) ?xs"
      "mset (take (nat argc + length nonopts) (argv s')) = mset (take (nat (argc - 1)) ?xs) + mset (nonopts @ [cur_id s1])"
      using IH [OF A B C] unfolding l by auto
    have "drop (nat argc + length nonopts) ?xs = drop (nat argc + length nonopts) (argv s)"
      using D(3) k by (metis add.commute drop_drop)
    moreover have "mset (take (nat (argc - 1)) ?xs) + mset (nonopts @ [cur_id s1]) = mset (take (nat argc) (argv s)) + mset nonopts"
      using D(2) k by (simp add: cur_id_def)
    ultimately show ?thesis using s' D(1) k sc move
      by (subst permute_loop.simps) simp
  next
    case go
    have a: "start_ind s < argc" using P go by (auto split: if_splits)
    then have "(left_over st argc s1, left_over st argc s) \<in> less_than <*lex*> less_than"
      using P go si by (auto simp: left_over_def)
    then obtain s' where "permute_loop st (chr CHR ''+'' # os) x only argc nonopts s1 = Some s' \<and>
      length (argv s') = length (argv s1) \<and> xopterr s' = xopterr s1 \<and> \<not> xoptreset s' \<and> 1 \<le> xoptind s' \<and>
      drop (nat argc + length nonopts) (argv s') = drop (nat argc + length nonopts) (argv s1) \<and>
      mset (take (nat argc + length nonopts) (argv s')) = mset (take (nat argc) (argv s1)) + mset nonopts"
      using IH [of argc s1 nonopts] argc len k by auto
    then show ?thesis using sc go k by (subst permute_loop.simps) simp
  qed
qed

text \<open>Any call keeps argv, apart from the permutation.\<close>

lemma opt_loop_kept:
  "opt_loop st argc pn pm ao ma os lo wi only s = (code, s', left) \<Longrightarrow> kept s s'"
proof (induction st argc pn pm ao ma os lo wi only s rule: opt_loop.induct)
  case (1 st argc pn pm ao ma os lo wi only s)
  obtain c3 s3 where c3: "opt_case3 st argc pn ma os lo wi only s = (c3, s3)" by fastforce
  show ?case
  proof (cases "xoptind s < argc \<and> xoptcur s = None \<and> chr_at (st (cur_id s)) 0 \<noteq> chr CHR ''-'' \<and> \<not> ao \<and> pm")
    case True
    then have "opt_loop st argc pn pm ao ma os lo wi only (bump s) = (code, s', left)"
      using 1(2) by (subst (asm) opt_loop.simps) simp
    then have "kept (bump s) s'" using True 1(1) by blast
    then show ?thesis by (auto simp: kept_def)
  next
    case False
    then show ?thesis using 1(2) opt_case3_progress [OF c3]
      by (subst (asm) opt_loop.simps) (auto simp: c3 kept_def split: if_splits)
  qed
qed

lemma opt_scan_kept:
  assumes "opt_scan st argc os lo wi only s = (code, s1, pm, os')"
  shows "argv s1 = argv s \<and> xopterr s1 = xopterr s"
proof (cases "argc \<le> start_ind s")
  case True
  then show ?thesis using assms by (auto simp: opt_scan_def Let_def split: prod.splits)
next
  case False
  then show ?thesis using assms
    by (auto simp: opt_scan_def Let_def split: prod.splits dest!: opt_loop_kept) (auto simp: kept_def)
qed

lemma permute_optstring_plus: "\<exists>os'. permute_optstring (Some os) = chr CHR ''+'' # os'"
  by (simp add: permute_optstring_def)

lemma xgetopt_impl_total:
  assumes "1 \<le> argc" "nat argc \<le> length (argv s)"
  shows "\<exists>code s'. xgetopt_impl st argc optstring longopts want_index only s = Some (code, s') \<and>
    mset (take (nat argc) (argv s')) = mset (take (nat argc) (argv s)) \<and>
    drop (nat argc) (argv s') = drop (nat argc) (argv s) \<and> xopterr s' = xopterr s"
proof -
  let ?o = "case optstring of None \<Rightarrow> [] | Some o' \<Rightarrow> o'"
  obtain code s1 pm os where sc: "opt_scan st argc ?o longopts want_index only s = (code, s1, pm, os)"
    by (metis prod_cases4)
  have k: "argv s1 = argv s" "xopterr s1 = xopterr s" using opt_scan_kept [OF sc] by auto
  show ?thesis
  proof (cases pm)
    case False
    then show ?thesis using sc k by (simp add: xgetopt_impl_def)
  next
    case True
    obtain os' where os': "permute_optstring (Some os) = chr CHR ''+'' # os'" using permute_optstring_plus by blast
    obtain s' where "permute_loop st (chr CHR ''+'' # os') (map_option clone_longopts longopts) only argc []
        (s1\<lparr>xopterr := False, xoptreset := True\<rparr>) = Some s'"
      "drop (nat argc) (argv s') = drop (nat argc) (argv s)"
      "mset (take (nat argc) (argv s')) = mset (take (nat argc) (argv s))"
      using permute_loop_total [OF assms(1), where nonopts = "[]" and s = "s1\<lparr>xopterr := False, xoptreset := True\<rparr>"
          and st = st and os = os' and x = "map_option clone_longopts longopts" and only = only] assms(2) k by auto
    then show ?thesis using sc True k by (simp add: xgetopt_impl_def xgetopt_permute_def os')
  qed
qed

section \<open>Canonical command lines\<close>

text \<open>Elements of a command line: flags in one element, an argument in the element, or in the next.\<close>

datatype elem = Cluster "8 str" | Inline u8 "8 str" | Separate u8 "8 str"

fun elem_strs :: "elem \<Rightarrow> 8 str list" where
  "elem_strs (Cluster cs) = [chr CHR ''-'' # cs]"
| "elem_strs (Inline c a) = [chr CHR ''-'' # c # a]"
| "elem_strs (Separate c a) = [[chr CHR ''-'', c], a]"

fun elem_results :: "elem \<Rightarrow> (int \<times> 8 str option) list" where
  "elem_results (Cluster cs) = List.map (\<lambda>c. (sint c, None)) cs"
| "elem_results (Inline c a) = [(sint c, Some a)]"
| "elem_results (Separate c a) = [(sint c, Some a)]"

text \<open>
  How optstring declares a character: without an argument, or with a required one.  What follows
  a character in optstring is found by recursion, not by the lookup of the program.
\<close>

fun declared :: "8 str \<Rightarrow> u8 \<Rightarrow> 8 str option" where
  "declared [] c = None"
| "declared (d # os) c = (if d = c then Some os else declared os c)"

definition is_flag_opt :: "8 str \<Rightarrow> u8 \<Rightarrow> bool" where
  "is_flag_opt os c = (case declared os c of None \<Rightarrow> False | Some r \<Rightarrow> r = [] \<or> hd r \<noteq> chr CHR '':'')"

definition is_arg_opt :: "8 str \<Rightarrow> u8 \<Rightarrow> bool" where
  "is_arg_opt os c = (case declared os c of Some (a # r) \<Rightarrow> a = chr CHR '':'' \<and> (r = [] \<or> hd r \<noteq> chr CHR '':'') | _ \<Rightarrow> False)"

text \<open>The lookup finds what is declared.\<close>

lemma declared_find: "declared os c = Some r \<Longrightarrow> \<exists>d. find_short os c = Some d \<and> drop (Suc d) os = r"
  by (induction os) (auto simp: find_short_def Let_def split: if_splits)

lemma chr_at_next: "chr_at os (d + 1) = (case drop (Suc d) os of [] \<Rightarrow> 0 | a # _ \<Rightarrow> a)"
  by (cases "Suc d < length os") (auto simp: chr_at_def Cons_nth_drop_Suc [symmetric])

lemma colon_nonzero: "chr CHR '':'' \<noteq> (0 :: u8)"
  by simp

lemma flag_opt_find:
  assumes "is_flag_opt os c"
  obtains d where "find_short os c = Some d" "chr_at os (d + 1) \<noteq> chr CHR '':''"
proof -
  obtain r where r: "declared os c = Some r" "r = [] \<or> hd r \<noteq> chr CHR '':''"
    using assms by (auto simp: is_flag_opt_def split: option.splits)
  obtain d where d: "find_short os c = Some d" "drop (Suc d) os = r" using declared_find [OF r(1)] by blast
  have "chr_at os (d + 1) \<noteq> chr CHR '':''" unfolding chr_at_next d(2) using r(2) colon_nonzero by (cases r) auto
  with d(1) that show ?thesis by blast
qed

lemma arg_opt_find:
  assumes "is_arg_opt os c"
  obtains d where "find_short os c = Some d" "chr_at os (d + 1) = chr CHR '':''" "chr_at os (d + 2) \<noteq> chr CHR '':''"
proof -
  obtain r where r: "declared os c = Some (chr CHR '':'' # r)" "r = [] \<or> hd r \<noteq> chr CHR '':''"
    using assms by (auto simp: is_arg_opt_def split: option.splits list.splits)
  obtain d where d: "find_short os c = Some d" "drop (Suc d) os = chr CHR '':'' # r" using declared_find [OF r(1)] by blast
  have d2: "drop (Suc (Suc d)) os = r" using d(2) by (metis drop_Suc list.sel(3) tl_drop)
  have "chr_at os (d + 1) = chr CHR '':''" unfolding chr_at_next d(2) by simp
  moreover have "chr_at os (Suc d + 1) \<noteq> chr CHR '':''" unfolding chr_at_next d2 using r(2) colon_nonzero by (cases r) auto
  ultimately show ?thesis using d(1) that by (metis add_Suc_shift one_add_one plus_1_eq_Suc add.commute)
qed

definition plain_char :: "u8 \<Rightarrow> bool" where
  "plain_char c \<longleftrightarrow> c \<noteq> 0 \<and> c \<noteq> 0xFF \<and> c \<noteq> chr CHR ''-''"

fun elem_ok :: "8 str \<Rightarrow> elem \<Rightarrow> bool" where
  "elem_ok os (Cluster cs) \<longleftrightarrow> cs \<noteq> [] \<and> (\<forall>c \<in> set cs. is_flag_opt os c \<and> plain_char c)"
| "elem_ok os (Inline c a) \<longleftrightarrow> is_arg_opt os c \<and> plain_char c \<and> a \<noteq> [] \<and> 0 \<notin> set a"
| "elem_ok os (Separate c a) \<longleftrightarrow> is_arg_opt os c \<and> plain_char c"

text \<open>Calling xgetopt until it returns -1; the text of an argument is what its pointer points to.\<close>

definition arg_text :: "store \<Rightarrow> gstate \<Rightarrow> 8 str option" where
  "arg_text st s = map_option (\<lambda>(k, off). drop off (st k)) (xoptarg s)"

fun getopt_run :: "store \<Rightarrow> int \<Rightarrow> 8 str \<Rightarrow> nat \<Rightarrow> gstate \<Rightarrow> ((int \<times> 8 str option) list \<times> gstate) option" where
  "getopt_run st argc os 0 s = None"
| "getopt_run st argc os (Suc n) s =
     do { (code, s1) \<leftarrow> xgetopt st argc (Some os) s;
          if code = - 1 then Some ([], s1)
          else do { (rs, s2) \<leftarrow> getopt_run st argc os n s1; Some ((code, arg_text st s1) # rs, s2) } }"

text \<open>An optstring that has no flags of its own at the head.\<close>

definition plain_head :: "8 str \<Rightarrow> bool" where
  "plain_head os \<longleftrightarrow> (case os of [] \<Rightarrow> True | c # _ \<Rightarrow> c \<notin> {chr CHR ''+'', chr CHR ''-'', chr CHR '':''})"

lemma plain_head_opt: "plain_head os \<Longrightarrow> opt_head (chr CHR ''+'' # os) True False False = (False, False, False, os)"
  by (auto simp: plain_head_def split: list.splits)

text \<open>A call that finds an option at index \<open>i\<close> is the short option at the pointer.\<close>

lemma xgetopt_at:
  assumes os: "plain_head os" and s: "\<not> xoptreset s" "xoptind s = int i" "1 \<le> i" "i < length (argv s)"
    and argc: "argc = int (length (argv s))"
    and cur: "st (argv s ! i) = chr CHR ''-'' # c1 # cs" "c1 \<noteq> chr CHR ''-''"
      "xoptcur s = None \<and> off = 1 \<or> xoptcur s = Some (argv s ! i, off) \<and> off < length (st (argv s ! i))"
  shows "\<exists>pn. xgetopt st argc (Some (chr CHR ''+'' # os)) s =
    Some (short_opt st argc pn False os (argv s ! i, off) (s\<lparr>xoptarg := None\<rparr>))"
proof -
  let ?s = "s\<lparr>xoptarg := None\<rparr>"
  have r: "opt_reset s = s" using s by (simp add: opt_reset_def Let_def)
  have id: "cur_id ?s = argv s ! i" using s by (simp add: cur_id_def)
  have cc: "opt_check_cur st ?s = ?s" using cur(3) id by (auto simp: opt_check_cur_def split: option.splits)
  have ca: "chr_at (st (argv s ! i)) 0 = chr CHR ''-''" "chr_at (st (argv s ! i)) 1 = c1"
    using cur(1) by (simp_all add: chr_at_def)
  have nd: "st (argv s ! i) \<noteq> lit ''-''" "st (argv s ! i) \<noteq> lit ''--''" using cur(1,2) by (auto simp: lit_def)
  let ?pn = "progname_of (st (argv s ! 0))"
  let ?sh = "short_opt st argc ?pn False os (argv s ! i, off) ?s"
  have c3: "opt_case3 st argc ?pn False os None False False ?s = ?sh"
    using cur id ca by (auto simp: opt_case3_def Let_def)
  have "opt_loop st argc ?pn False False False os None False False ?s = (fst ?sh, snd ?sh, False)"
    using s argc id ca nd c3 by (subst opt_loop.simps) (auto split: prod.splits)
  then have "opt_scan st argc (chr CHR ''+'' # os) None False False s = (fst ?sh, snd ?sh, False, os)"
    using s argc cc unfolding opt_scan_def Let_def plain_head_opt [OF os] prod.case r by simp
  then show ?thesis by (auto simp: xgetopt_def xgetopt_impl_def)
qed

text \<open>Between calls: the index and the pointer into an element.\<close>

definition parsing :: "nat list \<Rightarrow> nat \<Rightarrow> sptr option \<Rightarrow> gstate \<Rightarrow> bool" where
  "parsing av i cur s \<longleftrightarrow> \<not> xoptreset s \<and> xoptind s = int i \<and> argv s = av \<and> xoptcur s = cur"

lemma plain_code: "plain_char c \<Longrightarrow> sint c \<noteq> - 1"
proof
  assume p: "plain_char c" and "sint c = - 1"
  then have "c = - 1" using signed_word_eqI [of c "- 1"] by simp
  moreover have "(- 1 :: u8) = 0xFF" by simp
  ultimately show False using p unfolding plain_char_def by metis
qed

definition then_run :: "(int \<times> 8 str option) list \<Rightarrow> ((int \<times> 8 str option) list \<times> gstate) option \<Rightarrow>
    ((int \<times> 8 str option) list \<times> gstate) option" where
  "then_run rs r = map_option (\<lambda>(rs', s). (rs @ rs', s)) r"

lemma then_run_simps [simp]:
  "then_run [] r = r" "then_run rs (Some (rs', s)) = Some (rs @ rs', s)"
  "then_run as (then_run bs r) = then_run (as @ bs) r"
  by (cases r; auto simp: then_run_def)+

lemma getopt_run_step:
  assumes "xgetopt st argc (Some os) s = Some (code, s1)" "code \<noteq> - 1"
  shows "getopt_run st argc os (Suc n) s = then_run [(code, arg_text st s1)] (getopt_run st argc os n s1)"
  using assms by (cases "getopt_run st argc os n s1") (auto simp: then_run_def)

text \<open>The flags of one element, from the offset on.\<close>

lemma cluster_run:
  assumes os: "plain_head os" and i: "1 \<le> i" "i < length av" and e: "st (av ! i) = chr CHR ''-'' # c1 # cs" "c1 \<noteq> chr CHR ''-''"
  shows "\<lbrakk>drop off (st (av ! i)) = rest; rest \<noteq> []; \<forall>c \<in> set rest. is_flag_opt os c \<and> plain_char c;
      parsing av i cur s; cur = None \<and> off = 1 \<or> cur = Some (av ! i, off)\<rbrakk> \<Longrightarrow>
    \<exists>s'. parsing av (i + 1) None s' \<and> (\<forall>n. getopt_run st (int (length av)) (chr CHR ''+'' # os) (length rest + n) s =
      then_run (List.map (\<lambda>c. (sint c, None)) rest) (getopt_run st (int (length av)) (chr CHR ''+'' # os) n s'))"
proof (induction rest arbitrary: off cur s)
  case (Cons c rest)
  let ?k = "av ! i" let ?s = "s\<lparr>xoptarg := None\<rparr>"
  have off: "off < length (st ?k)" using Cons.prems(1) by (cases "off < length (st ?k)") auto
  have c: "chr_at (st ?k) off = c" using Cons.prems(1) off by (metis chr_at_def hd_drop_conv_nth list.sel(1))
  have ok: "is_flag_opt os c" "plain_char c" using Cons.prems(3) by auto
  obtain d where d: "find_short os c = Some d" "chr_at os (d + 1) \<noteq> chr CHR '':''"
    using flag_opt_find [OF ok(1)] .
  have P: "\<not> xoptreset s" "xoptind s = int i" "argv s = av" "xoptcur s = cur" using Cons.prems(4) by (auto simp: parsing_def)
  obtain pn where x: "xgetopt st (int (length av)) (Some (chr CHR ''+'' # os)) s =
      Some (short_opt st (int (length av)) pn False os (?k, off) ?s)"
    using xgetopt_at [OF os P(1,2) i(1), of "int (length av)" st c1 cs off] i(2) P e Cons.prems(5) off by auto
  have r: "drop (off + 1) (st ?k) = rest" using Cons.prems(1) by (metis Suc_eq_plus1 drop_Suc list.sel(3) tl_drop)
  have more: "(chr_at (st ?k) (off + 1) \<noteq> 0) = (rest \<noteq> [])"
  proof (cases rest)
    case Nil
    then have "length (st ?k) \<le> off + 1" using r by simp
    then show ?thesis using Nil by (simp add: chr_at_def)
  next
    case (Cons c2 rest2)
    then have l: "off + 1 < length (st ?k)" using r by (metis drop_eq_Nil linorder_not_le list.distinct(1))
    then have "st ?k ! (off + 1) = c2" using r Cons by (metis hd_drop_conv_nth list.sel(1))
    moreover have "plain_char c2" using \<open>\<forall>c \<in> set (c # rest). _ c\<close> Cons by auto
    ultimately show ?thesis using l Cons by (simp add: chr_at_def plain_char_def)
  qed
  show ?case
  proof (cases "rest = []")
    case True
    let ?s1 = "(bump ?s)\<lparr>xoptcur := None\<rparr>"
    have "short_opt st (int (length av)) pn False os (?k, off) ?s = (sint c, ?s1)"
      using d more True c by (simp add: short_opt_def Let_def)
    then have g: "getopt_run st (int (length av)) (chr CHR ''+'' # os) (Suc n) s =
      then_run [(sint c, None)] (getopt_run st (int (length av)) (chr CHR ''+'' # os) n ?s1)" for n
      using getopt_run_step [of st "int (length av)" "chr CHR ''+'' # os" s "sint c" ?s1] x plain_code [OF ok(2)]
      by (simp add: arg_text_def del: getopt_run.simps)
    show ?thesis using True g P by (intro exI [of _ ?s1]) (auto simp: parsing_def simp del: getopt_run.simps)
  next
    case False
    let ?s1 = "?s\<lparr>xoptcur := Some (?k, off + 1)\<rparr>"
    have "short_opt st (int (length av)) pn False os (?k, off) ?s = (sint c, ?s1)"
      using d more False c by (simp add: short_opt_def Let_def)
    then have g: "getopt_run st (int (length av)) (chr CHR ''+'' # os) (Suc n) s =
      then_run [(sint c, None)] (getopt_run st (int (length av)) (chr CHR ''+'' # os) n ?s1)" for n
      using getopt_run_step [of st "int (length av)" "chr CHR ''+'' # os" s "sint c" ?s1] x plain_code [OF ok(2)]
      by (simp add: arg_text_def del: getopt_run.simps)
    have "parsing av i (Some (?k, off + 1)) ?s1" using P by (simp add: parsing_def)
    from Cons.IH [OF r False _ this] Cons.prems(3) obtain s' where s': "parsing av (i + 1) None s'"
      "\<forall>n. getopt_run st (int (length av)) (chr CHR ''+'' # os) (length rest + n) ?s1 =
      then_run (List.map (\<lambda>c. (sint c, None)) rest) (getopt_run st (int (length av)) (chr CHR ''+'' # os) n s')"
      by auto
    then show ?thesis using g by (intro exI [of _ s']) (simp del: getopt_run.simps)
  qed
qed simp

text \<open>One element of the command line.\<close>

lemma map_drop_nth:
  assumes "List.map st (drop i av) = x # xs"
  shows "i < length av" "st (av ! i) = x" "List.map st (drop (i + 1) av) = xs"
proof -
  show i: "i < length av" using assms by (cases "i < length av") auto
  have d: "drop i av = av ! i # drop (i + 1) av" using Cons_nth_drop_Suc [OF i] by simp
  show "st (av ! i) = x" "List.map st (drop (i + 1) av) = xs" using assms unfolding d by auto
qed

lemma elem_run:
  assumes os: "plain_head os" and i: "1 \<le> i" and e: "List.map st (drop i av) = elem_strs el @ others" "elem_ok os el"
    and s: "parsing av i None s"
  shows "\<exists>s'. parsing av (i + length (elem_strs el)) None s' \<and>
    (\<forall>n. getopt_run st (int (length av)) (chr CHR ''+'' # os) (length (elem_results el) + n) s =
      then_run (elem_results el) (getopt_run st (int (length av)) (chr CHR ''+'' # os) n s'))"
proof -
  let ?k = "av ! i" let ?s = "s\<lparr>xoptarg := None\<rparr>" let ?os = "chr CHR ''+'' # os"
  have P: "\<not> xoptreset s" "xoptind s = int i" "argv s = av" "xoptcur s = None" using s by (auto simp: parsing_def)
  show ?thesis
  proof (cases el)
    case (Cluster cs)
    note m = map_drop_nth [of st i av "chr CHR ''-'' # cs" others]
    have k: "i < length av" "st ?k = chr CHR ''-'' # cs" using m e(1) Cluster by simp_all
    obtain c1 cs' where cs: "cs = c1 # cs'" "c1 \<noteq> chr CHR ''-''"
      using e(2) Cluster by (cases cs) (auto simp: plain_char_def)
    obtain s' where "parsing av (i + 1) None s'" "\<forall>n. getopt_run st (int (length av)) ?os (length cs + n) s =
        then_run (List.map (\<lambda>c. (sint c, None)) cs) (getopt_run st (int (length av)) ?os n s')"
      using cluster_run [where st = st and off = 1 and rest = cs and cur = None and s = s,
          OF os i k(1) k(2) [unfolded cs(1)] cs(2)] k(2) e(2) Cluster s cs by auto
    then show ?thesis using Cluster by auto
  next
    case (Inline c a)
    note m = map_drop_nth [of st i av "chr CHR ''-'' # c # a" others]
    have k: "i < length av" "st ?k = chr CHR ''-'' # c # a" using m e(1) Inline by simp_all
    have ok: "plain_char c" "a \<noteq> []" "0 \<notin> set a" and c: "c \<noteq> chr CHR ''-''" using e(2) Inline by (auto simp: plain_char_def)
    obtain d where d: "find_short os c = Some d" "chr_at os (d + 1) = chr CHR '':''" "chr_at os (d + 2) \<noteq> chr CHR '':''"
      using arg_opt_find e(2) Inline by auto
    obtain pn where x: "xgetopt st (int (length av)) (Some ?os) s = Some (short_opt st (int (length av)) pn False os (?k, 1) ?s)"
      using xgetopt_at [OF os P(1,2) i, of "int (length av)" st c a 1] k P c by auto
    let ?s1 = "(bump ?s)\<lparr>xoptcur := None, xoptarg := Some (?k, 2)\<rparr>"
    have "short_opt st (int (length av)) pn False os (?k, 1) ?s = (sint c, ?s1)"
      using d k ok by (cases a) (auto simp: short_opt_def Let_def chr_at_def)
    then have "getopt_run st (int (length av)) ?os (Suc n) s = then_run [(sint c, Some a)] (getopt_run st (int (length av)) ?os n ?s1)" for n
      using getopt_run_step [of st "int (length av)" ?os s "sint c" ?s1] x plain_code [OF ok(1)] k(2)
      by (simp add: arg_text_def del: getopt_run.simps)
    then show ?thesis using Inline P by (intro exI [of _ ?s1]) (auto simp: parsing_def simp del: getopt_run.simps)
  next
    case (Separate c a)
    note m = map_drop_nth [of st i av "[chr CHR ''-'', c]" "a # others"]
    have k: "i < length av" "st ?k = [chr CHR ''-'', c]" "List.map st (drop (i + 1) av) = a # others" using m e(1) Separate by simp_all
    note m2 = map_drop_nth [OF k(3)]
    have ok: "plain_char c" and c: "c \<noteq> chr CHR ''-''" using e(2) Separate by (auto simp: plain_char_def)
    obtain d where d: "find_short os c = Some d" "chr_at os (d + 1) = chr CHR '':''" "chr_at os (d + 2) \<noteq> chr CHR '':''"
      using arg_opt_find e(2) Separate by auto
    obtain pn where x: "xgetopt st (int (length av)) (Some ?os) s = Some (short_opt st (int (length av)) pn False os (?k, 1) ?s)"
      using xgetopt_at [OF os P(1,2) i, of "int (length av)" st c "[]" 1] k P c by auto
    let ?s1 = "bump ((bump ?s)\<lparr>xoptcur := None, xoptarg := Some (av ! (i + 1), 0)\<rparr>)"
    have id: "cur_id ((bump ?s)\<lparr>xoptcur := None\<rparr>) = av ! (i + 1)" using P by (simp add: cur_id_def nat_add_distrib)
    have "short_opt st (int (length av)) pn False os (?k, 1) ?s = (sint c, ?s1)"
      using d k m2 P id by (simp add: short_opt_def Let_def chr_at_def)
    then have "getopt_run st (int (length av)) ?os (Suc n) s = then_run [(sint c, Some a)] (getopt_run st (int (length av)) ?os n ?s1)" for n
      using getopt_run_step [of st "int (length av)" ?os s "sint c" ?s1] x plain_code [OF ok(1)] m2(2)
      by (simp add: arg_text_def del: getopt_run.simps)
    then show ?thesis using Separate P by (intro exI [of _ ?s1]) (auto simp: parsing_def simp del: getopt_run.simps)
  qed
qed

lemma elems_run:
  "\<lbrakk>plain_head os; 1 \<le> i; List.map st (drop i av) = concat (map elem_strs els) @ rest; \<forall>el \<in> set els. elem_ok os el;
    parsing av i None s\<rbrakk> \<Longrightarrow>
   \<exists>s'. parsing av (i + length (concat (map elem_strs els))) None s' \<and>
    (\<forall>n. getopt_run st (int (length av)) (chr CHR ''+'' # os) (length (concat (map elem_results els)) + n) s =
      then_run (concat (map elem_results els)) (getopt_run st (int (length av)) (chr CHR ''+'' # os) n s'))"
proof (induction els arbitrary: i s)
  case (Cons el els)
  obtain s1 where s1: "parsing av (i + length (elem_strs el)) None s1"
    "\<forall>n. getopt_run st (int (length av)) (chr CHR ''+'' # os) (length (elem_results el) + n) s =
      then_run (elem_results el) (getopt_run st (int (length av)) (chr CHR ''+'' # os) n s1)"
    using elem_run [OF Cons.prems(1,2) _ _ Cons.prems(5), of st el "concat (map elem_strs els) @ rest"] Cons.prems by auto
  have d: "List.map st (drop (i + length (elem_strs el)) av) = concat (map elem_strs els) @ rest"
  proof -
    have "drop (length (elem_strs el)) (List.map st (drop i av)) = concat (map elem_strs els) @ rest"
      unfolding Cons.prems(3) by simp
    then show ?thesis by (simp add: drop_map add.commute)
  qed
  obtain s2 where "parsing av (i + length (elem_strs el) + length (concat (map elem_strs els))) None s2"
    "\<forall>n. getopt_run st (int (length av)) (chr CHR ''+'' # os) (length (concat (map elem_results els)) + n) s1 =
      then_run (concat (map elem_results els)) (getopt_run st (int (length av)) (chr CHR ''+'' # os) n s2)"
    using Cons.IH [OF Cons.prems(1) _ d _ s1(1)] Cons.prems(2,4) by auto
  then show ?case using s1(2) by (intro exI [of _ s2]) (auto simp: add.assoc)
next
  case Nil
  then show ?case by auto
qed

text \<open>At an operand, or at the end, a call returns -1 and leaves the index there.\<close>

lemma getopt_end:
  assumes os: "plain_head os" and i: "1 \<le> i" "i \<le> length av"
    and rest: "List.map st (drop i av) = rest" "rest = [] \<or> chr_at (hd rest) 0 \<noteq> chr CHR ''-''" and s: "parsing av i None s"
  shows "\<exists>s'. getopt_run st (int (length av)) (chr CHR ''+'' # os) (Suc n) s = Some ([], s') \<and> xoptind s' = int i \<and> argv s' = av"
proof -
  let ?s = "s\<lparr>xoptarg := None\<rparr>"
  have P: "\<not> xoptreset s" "xoptind s = int i" "argv s = av" "xoptcur s = None" using s by (auto simp: parsing_def)
  have r: "opt_reset s = s" using P i by (simp add: opt_reset_def Let_def)
  have "\<exists>s'. xgetopt st (int (length av)) (Some (chr CHR ''+'' # os)) s = Some (- 1, s') \<and> xoptind s' = int i \<and> argv s' = av"
  proof (cases rest)
    case Nil
    then have "i = length av" using rest(1) i by simp
    then show ?thesis using P unfolding xgetopt_def xgetopt_impl_def opt_scan_def Let_def option.case plain_head_opt [OF os] prod.case r
      by simp
  next
    case (Cons x xs)
    then have k: "i < length av" "st (av ! i) = x" "chr_at x 0 \<noteq> chr CHR ''-''"
      using map_drop_nth [of st i av x xs] rest by auto
    have id: "cur_id ?s = av ! i" "opt_check_cur st ?s = ?s" using P by (simp_all add: cur_id_def opt_check_cur_def)
    have "opt_loop st (int (length av)) pn False False False os None False False ?s = (- 1, ?s, False)" for pn
      using P k id by (subst opt_loop.simps) simp
    then show ?thesis using P k id unfolding xgetopt_def xgetopt_impl_def opt_scan_def Let_def option.case plain_head_opt [OF os] prod.case r
      by simp
  qed
  then show ?thesis by auto
qed

section \<open>Properties\<close>

text \<open>
  C26: xgetopt, xgetopt\_long and xgetopt\_long\_only always return: the permutation loop ends for
  every argv, optstring and table of long options.  The elements of argv up to argc are
  permuted, never lost or doubled, those after it untouched, and xopterr is restored.
\<close>

theorem xgetopt_returns:
  assumes "1 \<le> argc" "nat argc \<le> length (argv s)"
  shows "\<exists>code s'. xgetopt_impl st argc optstring longopts want_index only s = Some (code, s') \<and>
    mset (take (nat argc) (argv s')) = mset (take (nat argc) (argv s)) \<and>
    drop (nat argc) (argv s') = drop (nat argc) (argv s) \<and> xopterr s' = xopterr s"
  by (rule xgetopt_impl_total [OF assms])

abbreviation fresh :: "nat list \<Rightarrow> gstate" where
  "fresh av \<equiv> \<lparr>xoptind = 1, xoptopt = 0, xopterr = True, xoptreset = False, xoptarg = None, xoptcur = None, argv = av,
     flagmem = (\<lambda>_. 0), longindex = 0, errs = []\<rparr>"

abbreviation sample_store :: store where
  "sample_store \<equiv> (\<lambda>i. [lit ''prog'', lit ''file'', lit ''-ab'', lit ''-o'', lit ''out''] ! i)"

theorem xgetopt_returns_witness:
  "\<exists>code s'. xgetopt_impl sample_store 5 (Some (lit ''abo:'')) None False False (fresh [0, 1, 2, 3, 4]) = Some (code, s') \<and>
    mset (take 5 (argv s')) = {# 0, 1, 2, 3, 4 #}"
  using xgetopt_returns [of 5 "fresh [0, 1, 2, 3, 4]" sample_store "Some (lit ''abo:'')" None False False]
  by (auto simp: add_mset_commute)

text \<open>
  C27: A canonical command line is parsed back: repeated calls of xgetopt (with + in optstring, so
  that nothing is moved) return the options in order with the texts of their arguments, from
  clusters of flags, arguments in the element and arguments in the next element, and then -1
  with xoptind at the first operand.
\<close>

theorem xgetopt_parses:
  assumes "plain_head os" "\<forall>el \<in> set els. elem_ok os el"
    and "List.map st av = prog # concat (map elem_strs els) @ operands"
    and "operands = [] \<or> chr_at (hd operands) 0 \<noteq> chr CHR ''-''"
    and "parsing av 1 None s"
  shows "\<exists>s'. getopt_run st (int (length av)) (chr CHR ''+'' # os) (length (concat (map elem_results els)) + 1) s =
      Some (concat (map elem_results els), s') \<and>
    xoptind s' = int (1 + length (concat (map elem_strs els))) \<and> argv s' = av"
proof -
  let ?n = "length (concat (map elem_strs els))"
  have m: "List.map st (drop 1 av) = concat (map elem_strs els) @ operands" using map_drop_nth [of st 0 av prog] assms(3) by simp
  obtain s1 where s1: "parsing av (1 + ?n) None s1"
    "\<forall>n. getopt_run st (int (length av)) (chr CHR ''+'' # os) (length (concat (map elem_results els)) + n) s =
      then_run (concat (map elem_results els)) (getopt_run st (int (length av)) (chr CHR ''+'' # os) n s1)"
    using elems_run [OF assms(1) _ m assms(2) assms(5)] by auto
  have d: "List.map st (drop (1 + ?n) av) = operands"
  proof -
    have "drop ?n (List.map st (drop 1 av)) = operands" unfolding m by simp
    then show ?thesis by (simp add: drop_map)
  qed
  have "length (List.map st av) = 1 + ?n + length operands" unfolding assms(3) by simp
  then have "1 + ?n \<le> length av" by simp
  from getopt_end [OF assms(1) _ this d assms(4) s1(1), of 0] obtain s' where
    "getopt_run st (int (length av)) (chr CHR ''+'' # os) (Suc 0) s1 = Some ([], s')" "xoptind s' = int (1 + ?n)" "argv s' = av" by auto
  moreover have "getopt_run st (int (length av)) (chr CHR ''+'' # os) (length (concat (map elem_results els)) + 1) s =
      then_run (concat (map elem_results els)) (getopt_run st (int (length av)) (chr CHR ''+'' # os) (Suc 0) s1)"
    using s1(2) by (metis One_nat_def)
  ultimately show ?thesis by (intro exI [of _ s']) (simp only: then_run_simps append_Nil2)
qed

theorem xgetopt_parses_witness:
  "\<exists>s'. getopt_run (\<lambda>i. [lit ''prog'', lit ''-ab'', lit ''-o'', lit ''out'', lit ''file''] ! i) 5 (lit ''+abo:'') 4 (fresh [0, 1, 2, 3, 4]) =
      Some ([(0x61, None), (0x62, None), (0x6F, Some (lit ''out''))], s') \<and> xoptind s' = 4"
proof -
  let ?els = "[Cluster (lit ''ab''), Separate (chr CHR ''o'') (lit ''out'')]"
  let ?st = "\<lambda>i. [lit ''prog'', lit ''-ab'', lit ''-o'', lit ''out'', lit ''file''] ! i"
  have p: "plain_head (lit ''abo:'')" "\<forall>el \<in> set ?els. elem_ok (lit ''abo:'') el"
    "List.map ?st [0, 1, 2, 3, 4] = lit ''prog'' # concat (map elem_strs ?els) @ [lit ''file'']"
    "[lit ''file''] = [] \<or> chr_at (hd [lit ''file'']) 0 \<noteq> chr CHR ''-''"
    "parsing [0, 1, 2, 3, 4] 1 None (fresh [0, 1, 2, 3, 4])"
    by (simp_all add: lit_def chr_def plain_head_def is_flag_opt_def is_arg_opt_def chr_at_def plain_char_def parsing_def)
  have e: "length (concat (map elem_results ?els)) + 1 = 4" "1 + length (concat (map elem_strs ?els)) = 4"
    "concat (map elem_results ?els) = [(0x61, None), (0x62, None), (0x6F, Some (lit ''out''))]"
    "chr CHR ''+'' # lit ''abo:'' = (lit ''+abo:'' :: 8 str)" "int (length [0, 1, 2, 3, 4 :: nat]) = 5"
    by (simp_all add: lit_def chr_def)
  show ?thesis using xgetopt_parses [OF p, unfolded e(1,2), unfolded e(3-5)] by auto
qed

text \<open>
  Corners.  An operand after "--" that looks like an option is parsed as one during the
  permutation, so it is moved in front of the other operands; "-:" is accepted as an option when
  another option takes an argument; and xgetsubopt takes any abbreviation of a token.
\<close>

theorem xgetopt_corners:
  "map_option (\<lambda>(code, s). (code, xoptind s, argv s))
     (xgetopt (\<lambda>i. [lit ''prog'', lit ''--'', lit ''a'', lit ''-x'', lit ''b''] ! i) 5 (Some (lit ''x'')) (fresh [0, 1, 2, 3, 4]))
     = Some (- 1, 3, [0, 1, 3, 2, 4]) \<and>
   map_option fst (xgetopt (\<lambda>i. [lit ''prog'', lit ''-:''] ! i) 2 (Some (lit ''a:'')) (fresh [0, 1])) = Some 0x3A \<and>
   fst (xgetsubopt (lit ''r'' @ [0]) 0 [lit ''ro'', lit ''rw'']) = 0"
proof (intro conjI)
  show "fst (xgetsubopt (lit ''r'' @ [0]) 0 [lit ''ro'', lit ''rw'']) = 0" by code_simp
  show "map_option fst (xgetopt (\<lambda>i. [lit ''prog'', lit ''-:''] ! i) 2 (Some (lit ''a:'')) (fresh [0, 1])) = Some 0x3A" by code_simp
  show "map_option (\<lambda>(code, s). (code, xoptind s, argv s))
     (xgetopt (\<lambda>i. [lit ''prog'', lit ''--'', lit ''a'', lit ''-x'', lit ''b''] ! i) 5 (Some (lit ''x'')) (fresh [0, 1, 2, 3, 4]))
     = Some (- 1, 3, [0, 1, 3, 2, 4])" by code_simp
qed

end
