(* ===== verification/Uuid.thy ===== *)
theory Uuid
  imports XStringProps
begin

text \<open>
  src/uuidv4.cpp: a UUID is 16 octets.  The values of \<open>rand()\<close> are a parameter; strings are the
  characters before the terminator.
\<close>

section \<open>The class\<close>

datatype uuid = Uuid (mOctet: "u8 list")

definition uuid_null :: uuid where
  "uuid_null = Uuid (replicate 16 0)"

definition fromOctet :: "u8 list \<Rightarrow> uuid option" where
  "fromOctet octet = (if 16 \<le> length octet then Some (Uuid (take 16 octet)) else None)"

definition getLength :: "uuid \<Rightarrow> u32" where
  "getLength u = 16"

text \<open>The first loop of \<open>generate\<close>: eight random values, high byte first.\<close>

fun fill_octets :: "(nat \<Rightarrow> u32) \<Rightarrow> nat \<Rightarrow> u8 list \<Rightarrow> u8 list" where
  "fill_octets rand 0 o' = o'"
| "fill_octets rand (Suc i) o' =
     (let o1 = fill_octets rand i o'; r = (ucast (rand i) :: u16)
      in o1[i * 2 := ucast (drop_bit 8 r), i * 2 + 1 := ucast (r AND 0xFF)])"

text \<open>\<open>m[i] |= b\<close>\<close>

definition or_octet :: "nat \<Rightarrow> u16 \<Rightarrow> u8 list \<Rightarrow> u8 list" where
  "or_octet i b m = m[i := m ! i OR ucast b]"

definition generate :: "(nat \<Rightarrow> u32) \<Rightarrow> uuid" where
  "generate rand =
     (let m = fill_octets rand 8 (mOctet uuid_null);
          r = (ucast (rand 8) :: u16);
          m = or_octet 0 (push_bit 7 (r AND 0x1)) m;
          m = or_octet 2 (push_bit 6 (r AND 0x2)) m;
          m = or_octet 4 (push_bit 5 (r AND 0x4)) m;
          m = m[6 := (m ! 6 AND 0x0F) OR 0x40];
          m = m[8 := (m ! 8 AND 0x3F) OR 0x80];
          m = or_octet 10 (push_bit 4 (r AND 0x8)) m;
          m = or_octet 12 (push_bit 3 (r AND 0x10)) m;
          m = or_octet 14 (push_bit 2 (r AND 0x20)) m
      in Uuid m)"

definition hex_value :: "u8 \<Rightarrow> u8 option" where
  "hex_value v =
     (if chr CHR ''0'' \<le> v \<and> v \<le> chr CHR ''9'' then Some (v - chr CHR ''0'')
      else if chr CHR ''a'' \<le> v \<and> v \<le> chr CHR ''f'' then Some (10 + (v - chr CHR ''a''))
      else if chr CHR ''A'' \<le> v \<and> v \<le> chr CHR ''F'' then Some (10 + (v - chr CHR ''A''))
      else None)"

text \<open>The loop of \<open>fromString\<close>: \<open>w\<close> is the high digit read before, or 0xff.\<close>

fun from_loop :: "8 str \<Rightarrow> u8 list \<Rightarrow> nat \<Rightarrow> u8 \<Rightarrow> u8 list" where
  "from_loop [] m cnt w = m"
| "from_loop (c # cs) m cnt w =
     (if c = 0 \<or> \<not> cnt < 16 then m
      else case hex_value c of
        None \<Rightarrow> from_loop cs m cnt w
      | Some v \<Rightarrow> if w = 0xff then from_loop cs m cnt v
                 else from_loop cs (m[cnt := push_bit 4 w OR v]) (cnt + 1) 0xff)"

definition fromString :: "8 str \<Rightarrow> uuid" where
  "fromString string = Uuid (from_loop string (mOctet uuid_null) 0 0xff)"

definition hex_digits :: "u8 list" where
  "hex_digits = lit ''0123456789abcdef''"

fun as_loop :: "u8 list \<Rightarrow> nat \<Rightarrow> 8 str" where
  "as_loop [] i = []"
| "as_loop (c # cs) i =
     [hex_digits ! unat (drop_bit 4 c), hex_digits ! unat (c AND 0xF)] @
     (if i = 3 \<or> i = 5 \<or> i = 7 \<or> i = 9 then [chr CHR ''-''] else []) @ as_loop cs (i + 1)"

definition asString :: "uuid \<Rightarrow> 8 str" where
  "asString u = as_loop (mOctet u) 0"

text \<open>The octets as four 32-bit words of the host's (little-endian) order.\<close>

definition quad :: "uuid \<Rightarrow> nat \<Rightarrow> u32" where
  "quad u i = of_bytes (take 4 (drop (i * 4) (mOctet u)))"

definition uuid_less :: "uuid \<Rightarrow> uuid \<Rightarrow> bool" where
  "uuid_less u v \<longleftrightarrow> list_ex (\<lambda>i. quad u i < quad v i) [0..<4]"

definition uuid_equal :: "uuid \<Rightarrow> uuid \<Rightarrow> bool" where
  "uuid_equal u v \<longleftrightarrow> list_all (\<lambda>i. quad u i = quad v i) [0..<4]"

section \<open>Well-formedness\<close>

definition uuid_ok :: "uuid \<Rightarrow> bool" where
  "uuid_ok u \<longleftrightarrow> length (mOctet u) = 16"

lemma length_fill [simp]: "length (fill_octets rand n m) = length m"
  by (induction n) (simp_all add: Let_def)

lemma length_or_octet [simp]: "length (or_octet i b m) = length m"
  by (simp add: or_octet_def)

lemma or_octet_nth: "j \<noteq> i \<Longrightarrow> or_octet i b m ! j = m ! j"
  by (simp add: or_octet_def)

lemma length_from_loop [simp]: "length (from_loop s m cnt w) = length m"
  by (induction s m cnt w rule: from_loop.induct) (auto split: option.splits)

section \<open>Strings\<close>

text \<open>The two digits of an octet, and back.\<close>

lemma hex_table: "list_all (\<lambda>k. hex_value (hex_digits ! k) = Some (of_nat k) \<and> hex_digits ! k \<noteq> 0) [0..<16]"
  by code_simp

lemma hex_nibble: "unat n < 16 \<Longrightarrow> hex_value (hex_digits ! unat n) = Some n \<and> hex_digits ! unat n \<noteq> 0"
proof -
  assume "unat n < 16"
  then have "unat n \<in> {0..<16}" by simp
  from bspec [OF hex_table [unfolded list_all_iff set_upt] this] show ?thesis by simp
qed

lemma nibbles:
  fixes c :: u8
  shows "unat (drop_bit 4 c) < 16" "unat (c AND 0xF) < 16" "push_bit 4 (drop_bit 4 c) OR (c AND 0xF) = c"
proof -
  have "unat c < 256" using unsigned_less [of c] by simp
  then show "unat (drop_bit 4 c) < 16"
    by (simp only: unsigned_drop_bit_eq) (simp add: drop_bit_eq_div take_bit_eq_mod less_mult_imp_div_less)
  have m: "c AND 0xF = take_bit 4 c" by (simp add: take_bit_eq_mask mask_eq_exp_minus_1)
  have "unat (take_bit 4 c) = take_bit 4 (unat c)" by (rule unsigned_take_bit_eq)
  then show "unat (c AND 0xF) < 16" unfolding m by (simp only: take_bit_eq_mod) simp
  show "push_bit 4 (drop_bit 4 c) OR (c AND 0xF) = c"
    unfolding m by (rule bit_eqI) (auto simp only: bit_or_iff bit_push_bit_iff bit_drop_bit_eq bit_take_bit_iff comp_apply le_add_diff_inverse)
qed

lemma hex_octet:
  fixes c :: u8
  shows "hex_value (hex_digits ! unat (drop_bit 4 c)) = Some (drop_bit 4 c)"
    "hex_value (hex_digits ! unat (c AND 0xF)) = Some (c AND 0xF)"
    "hex_digits ! unat (drop_bit 4 c) \<noteq> 0" "hex_digits ! unat (c AND 0xF) \<noteq> 0"
    "drop_bit 4 c \<noteq> 0xff"
  using hex_nibble [OF nibbles(1) [of c]] hex_nibble [OF nibbles(2) [of c]] nibbles(1) [of c] by auto

lemma hex_dash: "hex_value 0x2D = None"
  by (simp add: hex_value_def chr_def)

text \<open>Reading the digits of an octet stores it; a dash is skipped.\<close>

lemma from_as_loop:
  "\<lbrakk>cnt + length cs = 16; length m = 16\<rbrakk> \<Longrightarrow> from_loop (as_loop cs cnt) m cnt 0xff = take cnt m @ cs"
proof (induction cs arbitrary: cnt m)
  case (Cons c cs)
  note h = hex_octet [of c]
  let ?m = "m[cnt := c]"
  have "from_loop (as_loop (c # cs) cnt) m cnt 0xff = from_loop (as_loop cs (cnt + 1)) ?m (cnt + 1) 0xff"
  proof (cases "cnt < 15")
    case True
    then show ?thesis using Cons.prems h hex_dash nibbles(3) [of c] by (simp add: Let_def)
  next
    case False
    then have "cnt = 15" "cs = []" using Cons.prems by (auto, cases cs, auto)
    then show ?thesis using h nibbles(3) [of c] by simp
  qed
  also have "\<dots> = take (cnt + 1) ?m @ cs" using Cons.IH [of "cnt + 1" ?m] Cons.prems by simp
  also have "take (cnt + 1) ?m = take cnt m @ [c]"
    using Cons.prems by (simp add: take_Suc_conv_app_nth)
  finally show ?case by simp
qed simp

section \<open>Comparison\<close>

lemma quad_inj: "length xs = 4 \<Longrightarrow> length ys = 4 \<Longrightarrow> (of_bytes xs :: u32) = of_bytes ys \<Longrightarrow> xs = ys"
proof -
  assume l: "length xs = 4" "length ys = 4" and e: "(of_bytes xs :: u32) = of_bytes ys"
  show "xs = ys"
  proof (rule nth_equalityI)
    show "length xs = length ys" using l by simp
    fix i assume "i < length xs"
    show "xs ! i = ys ! i"
    proof (rule bit_eqI)
      fix n assume "possible_bit TYPE(u8) n"
      then have n: "n < 8" by simp
      have "bit (of_bytes xs :: u32) (8 * i + n) = bit (of_bytes ys :: u32) (8 * i + n)" using e by simp
      then show "bit (xs ! i) n = bit (ys ! i) n" using n l \<open>i < length xs\<close>
        by (simp add: bit_of_bytes)
    qed
  qed
qed

lemma uuid_equal_eq: "uuid_ok u \<Longrightarrow> uuid_ok v \<Longrightarrow> uuid_equal u v \<longleftrightarrow> u = v"
proof
  assume ok: "uuid_ok u" "uuid_ok v" and e: "uuid_equal u v"
  have q: "take 4 (drop (i * 4) (mOctet u)) = take 4 (drop (i * 4) (mOctet v))" if "i < 4" for i
    using e that ok by (intro quad_inj) (auto simp: uuid_equal_def quad_def list_all_iff uuid_ok_def)
  have "mOctet u = mOctet v"
  proof (rule nth_equalityI)
    show "length (mOctet u) = length (mOctet v)" using ok by (simp add: uuid_ok_def)
    fix k assume "k < length (mOctet u)"
    then have k: "k < 16" using ok by (simp add: uuid_ok_def)
    then have "take 4 (drop (k div 4 * 4) (mOctet u)) ! (k mod 4) = take 4 (drop (k div 4 * 4) (mOctet v)) ! (k mod 4)"
      using q [of "k div 4"] by simp
    moreover have "k div 4 * 4 + k mod 4 = k" "k div 4 * 4 \<le> 16" using k by auto
    ultimately show "mOctet u ! k = mOctet v ! k" using ok by (simp add: uuid_ok_def)
  qed
  then show "u = v" by (cases u; cases v) simp
qed (simp add: uuid_equal_def list_all_iff)

text \<open>The comparison operators of the class.\<close>

instantiation uuid :: ord
begin

definition less_uuid :: "uuid \<Rightarrow> uuid \<Rightarrow> bool" where
  "less_uuid u v \<longleftrightarrow> uuid_less u v"

definition less_eq_uuid :: "uuid \<Rightarrow> uuid \<Rightarrow> bool" where
  "less_eq_uuid u v \<longleftrightarrow> uuid_less u v \<or> uuid_equal u v"

instance ..

end

section \<open>Properties\<close>

text \<open>
  C35: The string of a UUID has 36 characters and reads back as the UUID, and \<open>operator==\<close> decides
  equality of the octets.
\<close>

theorem uuid_roundtrip:
  assumes "uuid_ok u" "uuid_ok v"
  shows "fromString (asString u) = u \<and> length (asString u) = 36 \<and> (uuid_equal u v \<longleftrightarrow> u = v)"
proof (intro conjI)
  obtain m where u: "u = Uuid m" by (cases u) auto
  show "fromString (asString u) = u"
    using from_as_loop [of 0 m "replicate 16 0"] assms(1) by (simp add: fromString_def asString_def uuid_null_def u uuid_ok_def)
  have l: "length (as_loop cs i) = 2 * length cs + card ({3, 5, 7, 9} \<inter> {i..<i + length cs})" for cs i
  proof (induction cs arbitrary: i)
    case (Cons c cs)
    have "{i..<i + length (c # cs)} = insert i {i + 1..<i + 1 + length cs}" by auto
    then have "card ({3, 5, 7, 9} \<inter> {i..<i + length (c # cs)}) =
      (if i \<in> {3, 5, 7, 9} then 1 else 0) + card ({3, 5, 7, 9} \<inter> {i + 1..<i + 1 + length cs})"
      by (simp add: Int_insert_right card_insert_if)
    then show ?case using Cons by auto
  qed simp
  have "{3, 5, 7, 9} \<inter> {0..<16} = {3, 5, 7, 9 :: nat}" by auto
  then show "length (asString u) = 36" using l [of m 0] assms(1) by (simp add: asString_def u uuid_ok_def)
qed (rule uuid_equal_eq [OF assms])

abbreviation sample_uuid :: uuid where
  "sample_uuid \<equiv> Uuid [0x12, 0x3E, 0x45, 0x67, 0xE8, 0x9B, 0x42, 0xD3, 0xA4, 0x56, 0x42, 0x66, 0x14, 0x17, 0x40, 0x00]"

theorem uuid_roundtrip_witness:
  "asString sample_uuid = lit ''123e4567-e89b-42d3-a456-426614174000'' \<and> fromString (asString sample_uuid) = sample_uuid"
proof
  show "asString sample_uuid = lit ''123e4567-e89b-42d3-a456-426614174000''" by code_simp
  show "fromString (asString sample_uuid) = sample_uuid"
    using uuid_roundtrip [of sample_uuid sample_uuid] by (simp add: uuid_ok_def)
qed

text \<open>
  Whatever \<open>rand\<close> returns, a generated UUID has 16 octets, the version 4 in the high half of
  octet 6 and the variant 10 in the two high bits of octet 8.
\<close>

theorem generate_v4:
  "uuid_ok (generate rand) \<and> mOctet (generate rand) ! 6 AND 0xF0 = 0x40 \<and> mOctet (generate rand) ! 8 AND 0xC0 = 0x80"
proof -
  have b: "(b AND 0x0F OR 0x40) AND 0xF0 = (0x40 :: u8)" "(b AND 0x3F OR 0x80) AND 0xC0 = (0x80 :: u8)" for b :: u8
    by (simp_all add: bit.conj_disj_distrib bit.conj_disj_distrib2 and.assoc)
  show ?thesis by (simp add: generate_def Let_def uuid_ok_def or_octet_nth uuid_null_def b)
qed

text \<open>The less-than of the class is no strict order: two UUIDs can each be less than the other.\<close>

lemma uuid_less_symmetric:
  "Uuid [1, 0, 0, 0, 0, 0, 0, 0, 0, 0, 0, 0, 0, 0, 0, 0] < Uuid [0, 0, 0, 0, 1, 0, 0, 0, 0, 0, 0, 0, 0, 0, 0, 0] \<and>
   Uuid [0, 0, 0, 0, 1, 0, 0, 0, 0, 0, 0, 0, 0, 0, 0, 0] < Uuid [1, 0, 0, 0, 0, 0, 0, 0, 0, 0, 0, 0, 0, 0, 0, 0]"
  by code_simp

end
