(* ===== verification/LexicalCast.thy ===== *)
theory LexicalCast
  imports PrintfProps
begin

text \<open>
  include/xpf/lexicalcast.h: conversions between integers and text.  Text is read with
  \<open>sscanf\<close> of the C library and written with \<open>xpfstring::printf\<close>.  None stands for a value
  that the code takes from an uninitialised variable, or that C leaves undefined because the
  number does not fit the conversion.
\<close>

section \<open>sscanf\<close>

definition is_space :: "u8 \<Rightarrow> bool" where
  "is_space c \<longleftrightarrow> c = 0x20 \<or> 0x09 \<le> c \<and> c \<le> 0x0D"

text \<open>The number at the front of a text: blanks, a sign, and at least one digit.\<close>

definition scan_sign :: "8 str \<Rightarrow> bool \<times> 8 str" where
  "scan_sign s = (case s of [] \<Rightarrow> (False, [])
     | c # cs \<Rightarrow> if c = chr CHR ''-'' then (True, cs) else if c = chr CHR ''+'' then (False, cs) else (False, s))"

definition scan_number :: "8 str \<Rightarrow> int option" where
  "scan_number s =
     (let (neg, t) = scan_sign (dropWhile is_space s); ds = takeWhile is_digit t
      in if ds = [] then None else Some (if neg then - digits_value ds else digits_value ds))"

text \<open>\<open>%d\<close> and \<open>%lld\<close>, \<open>%u\<close> and \<open>%llu\<close> for a variable of \<open>w\<close> bits.\<close>

definition scan_signed :: "nat \<Rightarrow> 8 str \<Rightarrow> int option" where
  "scan_signed w s = (case scan_number s of None \<Rightarrow> None
     | Some v \<Rightarrow> if - (2 ^ (w - 1)) \<le> v \<and> v < 2 ^ (w - 1) then Some v else None)"

definition scan_unsigned :: "nat \<Rightarrow> 8 str \<Rightarrow> int option" where
  "scan_unsigned w s = (case scan_number s of None \<Rightarrow> None
     | Some v \<Rightarrow> if \<bar>v\<bar> < 2 ^ w then Some (v mod 2 ^ w) else None)"

section \<open>Text to number\<close>

datatype num_type = T_bool | T_c8 | T_u8 | T_s16 | T_u16 | T_s32 | T_u32 | T_s64 | T_u64

text \<open>The cast to the target type.\<close>

fun cast_to :: "num_type \<Rightarrow> int \<Rightarrow> int" where
  "cast_to T_bool v = (if v = 0 then 0 else 1)"
| "cast_to T_c8 v = signed_take_bit 7 v"
| "cast_to T_u8 v = take_bit 8 v"
| "cast_to T_s16 v = signed_take_bit 15 v"
| "cast_to T_u16 v = take_bit 16 v"
| "cast_to T_s32 v = signed_take_bit 31 v"
| "cast_to T_u32 v = take_bit 32 v"
| "cast_to T_s64 v = signed_take_bit 63 v"
| "cast_to T_u64 v = take_bit 64 v"

definition lexical_cast_value :: "num_type \<Rightarrow> 'a::len str \<Rightarrow> int option" where
  "lexical_cast_value ty src =
     (let srcText = (assign_units [] False (Some src) :: 8 str) in
      if ty \<in> {T_bool, T_c8, T_s16, T_s32} then map_option (cast_to ty) (scan_signed 32 srcText)
      else if ty \<in> {T_u8, T_u16, T_u32} then map_option (cast_to ty) (scan_unsigned 32 srcText)
      else if ty = T_s64 then scan_signed 64 srcText
      else scan_unsigned 64 srcText)"

text \<open>The overload for a C string: the text up to the null.\<close>

definition lexical_cast_cstr :: "num_type \<Rightarrow> 'a::len str \<Rightarrow> int option" where
  "lexical_cast_cstr ty src = (let srcText = c_string src in lexical_cast_value ty srcText)"

section \<open>Number to text\<close>

definition lexical_cast_text :: "num_type \<Rightarrow> int \<Rightarrow> 'a::len str option" where
  "lexical_cast_text ty val =
     (if ty \<in> {T_c8, T_s16, T_s32} then map_option fst (printf (str_units (lit ''%d'' :: 8 str)) [AInt (of_int val)])
      else if ty \<in> {T_u8, T_u16, T_u32} then map_option fst (printf (str_units (lit ''%u'' :: 8 str)) [AInt (of_int val)])
      else if ty = T_s64 then map_option fst (printf (str_units (lit ''%lld'' :: 8 str)) [ALong (of_int val)])
      else if ty = T_u64 then map_option fst (printf (str_units (lit ''%llu'' :: 8 str)) [ALong (of_int val)])
      else Some (assign_units [] False (Some (if val \<noteq> 0 then lit ''true'' else lit ''false'' :: 8 str))))"

definition lexical_cast_f64 :: "f64 \<Rightarrow> 'a::len str option" where
  "lexical_cast_f64 val = map_option fst (printf (str_units (lit ''%f'' :: 8 str)) [ADouble val])"

section \<open>Reading what was written\<close>

lemma takeWhile_digits: "0 \<le> n \<Longrightarrow> takeWhile is_digit (dec_digits n) = dec_digits n"
  using dec_digits_digit by (simp add: takeWhile_eq_all_conv)

lemma digit_no_space: "is_digit (c :: u8) \<Longrightarrow> \<not> is_space c \<and> c \<noteq> 0x2D \<and> c \<noteq> 0x2B \<and> c \<noteq> 0"
  by (auto simp: is_digit_def is_space_def word_le_def)

lemma scan_dec_digits:
  assumes "0 \<le> n" shows "scan_number (dec_digits n) = Some n" "scan_number (0x2D # dec_digits n) = Some (- n)"
proof -
  obtain c cs where c: "dec_digits n = c # cs" using dec_digits_ne [of n] by (cases "dec_digits n") auto
  then have "is_digit c" using dec_digits_digit [OF assms] by simp
  then have "dropWhile is_space (dec_digits n) = dec_digits n" "scan_sign (dec_digits n) = (False, dec_digits n)"
    using digit_no_space by (auto simp: c scan_sign_def)
  then show "scan_number (dec_digits n) = Some n"
    using takeWhile_digits [OF assms] dec_digits_value [OF assms] by (simp add: scan_number_def dec_digits_ne Let_def del: takeWhile_eq_all_conv)
  show "scan_number (0x2D # dec_digits n) = Some (- n)"
    using takeWhile_digits [OF assms] dec_digits_value [OF assms]
    by (simp add: scan_number_def dec_digits_ne scan_sign_def is_space_def Let_def del: takeWhile_eq_all_conv)
qed

lemma digits_c_string: "0 \<le> n \<Longrightarrow> c_string (dec_digits n) = dec_digits n"
  "0 \<le> n \<Longrightarrow> c_string (0x2D # dec_digits n) = 0x2D # dec_digits n"
  using dec_digits_digit [of n] digit_no_space by (auto simp: c_string_def takeWhile_eq_all_conv)

text \<open>The numeral of a number, and the plain specification that prints it.\<close>

definition numeral_text :: "int \<Rightarrow> 8 str" where
  "numeral_text v = (if v < 0 then 0x2D # dec_digits (- v) else dec_digits v)"

lemma scan_numeral: "scan_number (assign_units [] False (Some (numeral_text v))) = Some v"
  using scan_dec_digits [of v] scan_dec_digits [of "- v"]
  by (simp add: numeral_text_def assign_units_eq digits_c_string)

definition plain_spec :: "u8 \<Rightarrow> ispec" where
  "plain_spec c = \<lparr>sp_left = False, sp_plus = False, sp_blank = False, sp_zero = False, sp_width = None,
     sp_prec = None, sp_conv = c\<rparr>"

lemma plain_text: "spec_text (plain_spec c) = [0x25, c]"
  by (simp add: plain_spec_def spec_text_def flag_text_def width_text_def prec_text_def lit_def)

lemma plain_format:
  "c_format (plain_spec 0x64) v = numeral_text (sint v)"
  "c_format (plain_spec 0x75) v = numeral_text (uint v)"
  by (auto simp: plain_spec_def c_format_def c_sign_def c_body_def c_digits_eq numeral_text_def is_signed_def
    blanks_def lit_def)

lemma printf_plain:
  assumes "c = 0x64 \<and> v \<noteq> 0x80000000 \<or> c = 0x75"
  shows "printf [0x25, c] [AInt v] = Some (c_format (plain_spec c) v, of_nat (length (c_format (plain_spec c) v)))"
proof -
  have ok: "item_ok (Num (plain_spec c) v)"
    using assms by (auto simp: plain_spec_def spec_ok_def lit_def is_signed_def)
  obtain s' where "pf_run [0x25, c] (pf_init [AInt v]) = Some s'" "pf_out s' = c_format (plain_spec c) v"
    using items_run [of "[Num (plain_spec c) v]" "pf_init [AInt v]"] ok by (auto simp: pf_init_def plain_text)
  moreover have "c_string [0x25, c] = [0x25, c]" using assms by (auto simp: c_string_def)
  ultimately show ?thesis by (simp add: printf_def)
qed

lemma spec_longlong:
  fixes c :: u8
  assumes "c = 0x64 \<or> c = 0x75"
  shows "\<exists>s'. pf_spec c \<lparr>pf_out = [], pf_state = ST_SPEC, pf_width = 0, pf_percision = 0, pf_flag = FLAG_FMT_LONGLONG,
      pf_ap = [ALong v]\<rparr> = Some s' \<and> pf_out s' = (if c = 0x64 then str_of_s64 v else str_of_u64 v :: 8 str)"
proof -
  have c: "c \<in> set (lit ''diuxXo'')" using assms by (auto simp: lit_def)
  show ?thesis unfolding pf_spec_number [OF c] using assms
    by (auto simp: spec_number_def read_params_def has_def FLAG_FMT_LONGLONG_def FLAG_WIDTH_PARAM_def FLAG_PERCISION_PARAM_def
      FLAG_WIDTH_SPECIFIED_def FLAG_PERCISION_SPECIFIED_def value_longlong_def layout_number_def layout_plain_def
      is_signed_def is_hex_def is_oct_def put_def FLAG_FORCESIGN_def FLAG_BLANKSIGN_def FLAG_PREFIXSUFFIX_def Let_def)
qed

lemma printf_longlong:
  assumes "c = 0x64 \<or> c = 0x75"
  shows "map_option fst (printf [0x25, 0x6C, 0x6C, c] [ALong v]) = Some (if c = 0x64 then str_of_s64 v else str_of_u64 v :: 8 str)"
  using spec_longlong [OF assms, of v] assms
  by (auto simp: printf_def c_string_def pf_init_def pf_text_def pf_flags_def pf_width_char_def
    pf_subspec_def is_dec_def simp del: One_nat_def)

text \<open>The 64-bit numerals.\<close>

lemma numeral_value_text:
  assumes "- (2 ^ 63) < v" "v < 2 ^ 64"
  shows "put_number 32 (v < 0) \<bar>v\<bar> = numeral_text v"
  using put_number_digits [of "\<bar>v\<bar>" 32 "v < 0", where 'a = 8] assms
  by (auto simp: numeral_text_def)

lemma str_of_64:
  "v \<noteq> 0x8000000000000000 \<Longrightarrow> str_of_s64 v = numeral_text (sint v)"
  "str_of_u64 v = numeral_text (uint v)"
proof -
  show "str_of_s64 v = numeral_text (sint v)" if "v \<noteq> 0x8000000000000000"
  proof (cases "sint v < 0")
    case True
    have "sint v \<noteq> sint (0x8000000000000000 :: u64)" using that by (metis signed_word_eqI)
    then have "sint v \<noteq> - 9223372036854775808" by simp
    then show ?thesis using True neg_exact64 [OF True that] sint_range [of v] that numeral_value_text [of "sint v"]
      by (simp add: str_of_s64_def Let_def)
  next
    case False
    then show ?thesis using numeral_value_text [of "sint v"] sint_range [of v] by (simp add: str_of_s64_def Let_def)
  qed
  show "str_of_u64 v = numeral_text (uint v)"
    using numeral_value_text [of "uint v"] uint_bounded [of v] by (simp add: str_of_u64_def Let_def less_le_trans [of _ 0])
qed

text \<open>The numbers of each type, but for the most negative of 32 and 64 bits.\<close>

fun printable :: "num_type \<Rightarrow> int \<Rightarrow> bool" where
  "printable T_bool v = False"
| "printable T_c8 v \<longleftrightarrow> - 128 \<le> v \<and> v < 128"
| "printable T_u8 v \<longleftrightarrow> 0 \<le> v \<and> v < 256"
| "printable T_s16 v \<longleftrightarrow> - 32768 \<le> v \<and> v < 32768"
| "printable T_u16 v \<longleftrightarrow> 0 \<le> v \<and> v < 65536"
| "printable T_s32 v \<longleftrightarrow> - 2147483648 < v \<and> v < 2147483648"
| "printable T_u32 v \<longleftrightarrow> 0 \<le> v \<and> v < 4294967296"
| "printable T_s64 v \<longleftrightarrow> - 9223372036854775808 < v \<and> v < 9223372036854775808"
| "printable T_u64 v \<longleftrightarrow> 0 \<le> v \<and> v < 18446744073709551616"

lemma sint_exact32: "- 2147483648 \<le> v \<Longrightarrow> v < 2147483648 \<Longrightarrow> sint (of_int v :: u32) = v"
  by (simp add: sint_sbintrunc' signed_take_bit_int_eq_self)

lemma sint_exact64: "- 9223372036854775808 \<le> v \<Longrightarrow> v < 9223372036854775808 \<Longrightarrow> sint (of_int v :: u64) = v"
  by (simp add: sint_sbintrunc' signed_take_bit_int_eq_self)

lemma uint_exact32: "0 \<le> v \<Longrightarrow> v < 4294967296 \<Longrightarrow> uint (of_int v :: u32) = v"
  by (simp add: uint_word_of_int take_bit_int_eq_self)

lemma uint_exact64: "0 \<le> v \<Longrightarrow> v < 18446744073709551616 \<Longrightarrow> uint (of_int v :: u64) = v"
  by (simp add: uint_word_of_int take_bit_int_eq_self)

lemma format_units: "str_units (lit ''%d'' :: 8 str) = [0x25, 0x64 :: u8]" "str_units (lit ''%u'' :: 8 str) = [0x25, 0x75 :: u8]"
  "str_units (lit ''%lld'' :: 8 str) = [0x25, 0x6C, 0x6C, 0x64 :: u8]" "str_units (lit ''%llu'' :: 8 str) = [0x25, 0x6C, 0x6C, 0x75 :: u8]"
  by (simp_all add: str_units_eq c_string_def lit_def)

text \<open>The text is the numeral.\<close>

lemma lexical_cast_numeral:
  assumes "printable ty v" shows "lexical_cast_text ty v = Some (numeral_text v)"
proof -
  have s32: "lexical_cast_text ty v = Some (numeral_text v)"
    if "ty \<in> {T_c8, T_s16, T_s32}" "- 2147483648 < v" "v < 2147483648"
  proof -
    have s: "sint (of_int v :: u32) = v" using that sint_exact32 by simp
    then have "(of_int v :: u32) \<noteq> 0x80000000" using that(2) by auto
    then show ?thesis using that(1) printf_plain [of "0x64" "of_int v"] s
      by (auto simp: lexical_cast_text_def format_units plain_format)
  qed
  have s64: "lexical_cast_text T_s64 v = Some (numeral_text v)"
    if "- 9223372036854775808 < v" "v < 9223372036854775808"
  proof -
    have s: "sint (of_int v :: u64) = v" using that sint_exact64 by simp
    then have "(of_int v :: u64) \<noteq> 0x8000000000000000" using that(1) by auto
    then show ?thesis using printf_longlong [of "0x64" "of_int v"] str_of_64(1) [of "of_int v"] s
      by (simp add: lexical_cast_text_def format_units)
  qed
  show ?thesis using assms s32 s64 printf_plain [of "0x75" "of_int v"] printf_longlong [of "0x75" "of_int v"]
      str_of_64(2) [of "of_int v"] uint_exact32 [of v] uint_exact64 [of v]
    by (cases ty) (auto simp: lexical_cast_text_def format_units plain_format)
qed

lemma lexical_cast_scan:
  "printable ty v \<Longrightarrow> lexical_cast_value ty (numeral_text v) = Some v"
  by (cases ty) (auto simp: lexical_cast_value_def scan_signed_def scan_unsigned_def scan_numeral
    signed_take_bit_int_eq_self take_bit_int_eq_self)

section \<open>Property\<close>

text \<open>
  C31: \<open>lexical_cast\<close> to a string of 8-bit characters and back is the identity on the integers
  of 8 to 64 bits, signed or not, except the most negative ones of 32 and of 64 bits: each
  prints as a text that reads as the same integer of the same type.  (The two exceptions print
  as something else, lemma \<open>lexical_cast_min\<close> below.)
\<close>

theorem lexical_roundtrip:
  assumes "printable ty v"
  shows "\<exists>t :: 8 str. lexical_cast_text ty v = Some t \<and> lexical_cast_value ty t = Some v"
  using lexical_cast_numeral [OF assms] lexical_cast_scan [OF assms] by blast

theorem lexical_roundtrip_witness:
  "\<exists>t :: 8 str. lexical_cast_text T_s64 (- 9223372036854775807) = Some t \<and>
     lexical_cast_value T_s64 t = Some (- 9223372036854775807)"
  by (rule lexical_roundtrip) simp

text \<open>
  The text of a Boolean does not read back: \<open>sscanf\<close> finds no number in it, and the variable the
  result comes from was never set.  The most negative integer prints as something else.
\<close>

lemma lexical_cast_bool:
  "lexical_cast_text T_bool 1 = Some (lit ''true'' :: 8 str)" "lexical_cast_value T_bool (lit ''true'' :: 8 str) = None"
  by (code_simp, code_simp)

lemma lexical_cast_min:
  "lexical_cast_text T_s32 (- 2147483648) \<noteq> Some (lit ''-2147483648'' :: 8 str)"
  by code_simp

end
