(* ===== verification/NetEndpoint.thy ===== *)
theory NetEndpoint
  imports LexicalCast
begin

text \<open>
  src/netendpoint.cpp on a POSIX host: an endpoint wraps a socket with its address and status.
  The operating system is a parameter: a record of functions over its state \<open>'w\<close>, in which the
  memory of user buffers, the descriptors and \<open>errno\<close> live.  An operation returns the value it
  has in C++ with the code it stores through \<open>errorcode\<close> (if that pointer is not null), the
  new object and the new state of the system; None is an access outside of an array, a null
  pointer or an indeterminate value.  Assertions are those of an NDEBUG build.
\<close>

section \<open>The operating system\<close>

type_synonym hints = "int \<times> int \<times> int \<times> int" \<comment> \<open>family, socktype, protocol, flags\<close>

record 'w sys =
  os_errno :: "'w \<Rightarrow> int"
  os_socket :: "int \<Rightarrow> int \<Rightarrow> int \<Rightarrow> 'w \<Rightarrow> int \<times> 'w"
  os_getsockname :: "int \<Rightarrow> int \<Rightarrow> 'w \<Rightarrow> (int \<times> u8 list \<times> int) \<times> 'w" \<comment> \<open>result, address stored, its length\<close>
  os_getnameinfo :: "u8 list \<Rightarrow> 'w \<Rightarrow> (int \<times> 8 str \<times> 8 str) \<times> 'w" \<comment> \<open>result, host, service\<close>
  os_getaddrinfo :: "8 str option \<Rightarrow> 8 str \<Rightarrow> hints \<Rightarrow> 'w \<Rightarrow> (int \<times> u8 list) \<times> 'w" \<comment> \<open>result, first address\<close>
  os_freeaddrinfo :: "'w \<Rightarrow> 'w"
  os_connect :: "int \<Rightarrow> u8 list \<Rightarrow> 'w \<Rightarrow> int \<times> 'w"
  os_bind :: "int \<Rightarrow> u8 list \<Rightarrow> 'w \<Rightarrow> int \<times> 'w"
  os_listen :: "int \<Rightarrow> u32 \<Rightarrow> 'w \<Rightarrow> int \<times> 'w"
  os_accept :: "int \<Rightarrow> 'w \<Rightarrow> int \<times> 'w"
  os_recv :: "int \<Rightarrow> ptr \<Rightarrow> u64 \<Rightarrow> int \<Rightarrow> 'w \<Rightarrow> int \<times> 'w"
  os_recvfrom :: "int \<Rightarrow> ptr \<Rightarrow> u64 \<Rightarrow> int \<Rightarrow> int \<Rightarrow> 'w \<Rightarrow> (int \<times> u8 list \<times> int) \<times> 'w"
  os_send :: "int \<Rightarrow> ptr \<Rightarrow> u64 \<Rightarrow> int \<Rightarrow> 'w \<Rightarrow> int \<times> 'w"
  os_sendto :: "int \<Rightarrow> ptr \<Rightarrow> u64 \<Rightarrow> int \<Rightarrow> u8 list \<Rightarrow> 'w \<Rightarrow> int \<times> 'w"
  os_shutdown :: "int \<Rightarrow> int \<Rightarrow> 'w \<Rightarrow> int \<times> 'w"
  os_close :: "int \<Rightarrow> 'w \<Rightarrow> 'w"

abbreviation (input) AF_UNSPEC :: int where "AF_UNSPEC \<equiv> 0"
abbreviation (input) AF_INET :: int where "AF_INET \<equiv> 2"
abbreviation (input) AF_INET6 :: int where "AF_INET6 \<equiv> 10"
abbreviation (input) SOCK_STREAM :: int where "SOCK_STREAM \<equiv> 1"
abbreviation (input) SOCK_DGRAM :: int where "SOCK_DGRAM \<equiv> 2"
abbreviation (input) IPPROTO_TCP :: int where "IPPROTO_TCP \<equiv> 6"
abbreviation (input) IPPROTO_UDP :: int where "IPPROTO_UDP \<equiv> 17"
abbreviation (input) AI_PASSIVE :: int where "AI_PASSIVE \<equiv> 1"
abbreviation (input) AI_V4MAPPED :: int where "AI_V4MAPPED \<equiv> 8"
abbreviation (input) INVALID_SOCKET :: int where "INVALID_SOCKET \<equiv> - 1"

section \<open>Data\<close>

datatype EStatus = ESTAT_INIT | ESTAT_LISTENING | ESTAT_ACCEPTING | ESTAT_CONNECTING | ESTAT_CONNECTED
  | ESTAT_CLOSING | ESTAT_INVALID

datatype EError = EE_SUCCESS | EE_INVALID_OP | EE_RECV | EE_SEND | EE_CONNECT | EE_BIND | EE_LISTEN | EE_RESOLVE
  | EE_ACCEPT | EE_SHUTDOWN | EE_WOULDBLOCK

datatype EShutdownDir = ESD_READ | ESD_WRITE | ESD_BOTH

definition MAXADDRLEN :: nat where "MAXADDRLEN = 128"

record peer =
  Data :: "u8 list"
  Length :: int

definition ProtocolTCP :: u32 where "ProtocolTCP = 0x1"
definition ProtocolUDP :: u32 where "ProtocolUDP = 0x2"
definition ProtocolIPv4 :: u32 where "ProtocolIPv4 = 0x100"
definition ProtocolIPv6 :: u32 where "ProtocolIPv6 = 0x200"

record impl =
  Address :: "u8 list"
  SockInfo :: peer
  Port :: u32
  Protocol :: u32
  Status :: EStatus
  Socket :: int
  Errno :: int

definition is_tcp :: "u32 \<Rightarrow> bool" where "is_tcp p \<longleftrightarrow> p AND ProtocolTCP \<noteq> 0"
definition is_udp :: "u32 \<Rightarrow> bool" where "is_udp p \<longleftrightarrow> p AND ProtocolUDP \<noteq> 0"

text \<open>What the system stores in an array, \<open>memcpy\<close> into one, and the bytes an address pointer denotes.\<close>

definition overlay :: "u8 list \<Rightarrow> u8 list \<Rightarrow> u8 list" where
  "overlay bs buf = take (length buf) bs @ drop (length bs) buf"

definition copy_in :: "u8 list \<Rightarrow> u8 list \<Rightarrow> u8 list option" where
  "copy_in bs buf = (if length bs \<le> length buf then Some (overlay bs buf) else None)"

definition sockaddr :: "peer \<Rightarrow> u8 list option" where
  "sockaddr p = (if 0 \<le> Length p \<and> nat (Length p) \<le> length (Data p) then Some (take (nat (Length p)) (Data p)) else None)"

section \<open>Life of the implementation object\<close>

definition reset :: "impl \<Rightarrow> impl" where
  "reset e = e\<lparr>Port := 0, Status := ESTAT_INVALID, Socket := INVALID_SOCKET, Errno := 0,
     SockInfo := \<lparr>Data = replicate MAXADDRLEN 0, Length = 0\<rparr>, Address := replicate MAXADDRLEN 0\<rparr>"

definition saveLastError :: "'w sys \<Rightarrow> 'w \<Rightarrow> impl \<Rightarrow> impl" where
  "saveLastError os w e = e\<lparr>Errno := os_errno os w\<rparr>"

definition impl_platformInit :: bool where "impl_platformInit = True"

text \<open>The object before its constructor runs; \<open>reset\<close> sets every field but the protocol.\<close>

definition raw_impl :: "u32 \<Rightarrow> impl" where
  "raw_impl protocol = \<lparr>Address = [], SockInfo = \<lparr>Data = [], Length = 0\<rparr>, Port = 0, Protocol = protocol,
     Status = ESTAT_INVALID, Socket = 0, Errno = 0\<rparr>"

definition family_of :: "u32 \<Rightarrow> int" where
  "family_of protocol = (if protocol AND ProtocolIPv4 \<noteq> 0 then AF_INET
     else if protocol AND ProtocolIPv6 \<noteq> 0 then AF_INET6 else AF_UNSPEC)"

definition type_of :: "u32 \<Rightarrow> int \<times> int" where
  "type_of protocol = (if is_tcp protocol then (SOCK_STREAM, IPPROTO_TCP)
     else if is_udp protocol then (SOCK_DGRAM, IPPROTO_UDP) else (0, 0))"

definition impl_new :: "'w sys \<Rightarrow> u32 \<Rightarrow> 'w \<Rightarrow> impl \<times> 'w" where
  "impl_new os protocol w =
     (let e = reset (raw_impl protocol) in
      if \<not> impl_platformInit then (e, w)
      else let e = e\<lparr>Status := ESTAT_INIT\<rparr>; family = family_of protocol; (ty, proto) = type_of protocol in
        if family = AF_UNSPEC then (e\<lparr>Status := ESTAT_INVALID\<rparr>, w)
        else if ty = 0 \<or> proto = 0 then (e\<lparr>Status := ESTAT_INVALID\<rparr>, w)
        else let (s, w) = os_socket os family ty proto w; e = e\<lparr>Socket := s\<rparr> in
          if s = INVALID_SOCKET then ((saveLastError os w e)\<lparr>Status := ESTAT_INVALID\<rparr>, w)
          else (e, w))"

definition shutdown_flag :: "EShutdownDir \<Rightarrow> int" where
  "shutdown_flag dir = (case dir of ESD_READ \<Rightarrow> 0 | ESD_WRITE \<Rightarrow> 1 | ESD_BOTH \<Rightarrow> 2)"

definition impl_shutdown :: "'w sys \<Rightarrow> EShutdownDir \<Rightarrow> impl \<Rightarrow> 'w \<Rightarrow> EError \<times> impl \<times> 'w" where
  "impl_shutdown os dir e w =
     (let (ec, w) = os_shutdown os (Socket e) (shutdown_flag dir) w;
          e = (if ec \<noteq> 0 then saveLastError os w e else e)
      in (if ec = 0 then EE_SUCCESS else EE_SHUTDOWN, e, w))"

definition impl_close :: "'w sys \<Rightarrow> impl \<Rightarrow> 'w \<Rightarrow> impl \<times> 'w" where
  "impl_close os e w =
     (let e = e\<lparr>Status := ESTAT_CLOSING\<rparr>;
          (e, w) = (if Socket e \<noteq> INVALID_SOCKET
                    then (let (code, e, w) = impl_shutdown os ESD_BOTH e w in (e, os_close os (Socket e) w))
                    else (e, w))
      in (reset e, w))"

text \<open>The constructor for a connected socket, as \<open>accept\<close> uses it.\<close>

definition impl_adopt :: "'w sys \<Rightarrow> u32 \<Rightarrow> int \<Rightarrow> EStatus \<Rightarrow> 'w \<Rightarrow> (impl \<times> 'w) option" where
  "impl_adopt os protocol sock status w =
     (let e = (reset (raw_impl protocol))\<lparr>Status := status, Socket := sock\<rparr>;
          ((ec, addr, n), w) = os_getsockname os sock (int MAXADDRLEN) w;
          e = e\<lparr>SockInfo := \<lparr>Data = overlay addr (Data (SockInfo e)), Length = n\<rparr>\<rparr>
      in if ec = 0
         then do { a \<leftarrow> sockaddr (SockInfo e);
                   let ((ec, host, serv), w) = os_getnameinfo os a w;
                   let e = e\<lparr>Address := overlay (host @ [0]) (Address e)\<rparr>;
                   if ec = 0
                   then do { v \<leftarrow> lexical_cast_cstr T_u32 serv; Some (e\<lparr>Port := of_int v\<rparr>, w) }
                   else Some (impl_close os (saveLastError os w e) w) }
         else Some (impl_close os (saveLastError os w e) w))"

section \<open>Resolving\<close>

definition resolve_hints :: "u32 \<Rightarrow> int \<Rightarrow> hints" where
  "resolve_hints protocol passive =
     (let family = (if protocol AND ProtocolIPv6 \<noteq> 0 then AF_INET6 else AF_INET) in
      (family, if is_tcp protocol then SOCK_STREAM else SOCK_DGRAM, if is_tcp protocol then IPPROTO_TCP else IPPROTO_UDP,
       passive + (if family = AF_INET6 then AI_V4MAPPED else 0)))"

definition resolvePeer :: "'w sys \<Rightarrow> u32 \<Rightarrow> peer \<Rightarrow> 8 str option \<Rightarrow> 8 str \<Rightarrow> 'w \<Rightarrow> ((bool \<times> peer) \<times> 'w) option" where
  "resolvePeer os protocol p host serviceOrPort w =
     (let ((ec, addr), w) = os_getaddrinfo os host serviceOrPort (resolve_hints protocol 0) w in
      if ec \<noteq> 0 then Some ((False, p), w)
      else do { d \<leftarrow> copy_in addr (Data p);
                Some ((True, p\<lparr>Data := d, Length := int (length addr)\<rparr>), os_freeaddrinfo os w) })"

text \<open>The loop that copies a name into \<open>Address\<close> when \<open>getnameinfo\<close> fails.\<close>

fun copy_address :: "8 str \<Rightarrow> u8 list \<Rightarrow> u8 list" where
  "copy_address addr [] = []"
| "copy_address [] (b # bs) = 0 # bs"
| "copy_address (c # cs) (b # bs) = (if c = 0 then 0 # bs else c # copy_address cs bs)"

text \<open>The numeric address and the port; the end that \<open>connect\<close> and \<open>listen\<close> share.\<close>

definition name_endpoint :: "'w sys \<Rightarrow> 8 str option \<Rightarrow> u8 list \<Rightarrow> impl \<Rightarrow> 'w \<Rightarrow> (impl \<times> 'w) option" where
  "name_endpoint os addr sa e w =
     (let ((ec, host, serv), w) = os_getnameinfo os sa w;
          e = e\<lparr>Address := overlay (host @ [0]) (Address e)\<rparr>
      in if ec \<noteq> 0
         then do { a \<leftarrow> addr;
                   let e = saveLastError os w e;
                   Some (e\<lparr>Address := copy_address a (Address e), Port := 0\<rparr>, w) }
         else do { v \<leftarrow> lexical_cast_cstr T_u32 serv; Some (e\<lparr>Port := of_int v\<rparr>, w) })"

section \<open>connect, listen, accept\<close>

definition impl_connect :: "'w sys \<Rightarrow> 8 str option \<Rightarrow> 8 str option \<Rightarrow> impl \<Rightarrow> 'w \<Rightarrow> ((bool \<times> EError) \<times> impl \<times> 'w) option" where
  "impl_connect os addr serviceOrPort e w =
     (let addr = (case addr of None \<Rightarrow> lit ''localhost'' | Some a \<Rightarrow> a) in
      case serviceOrPort of
        None \<Rightarrow> Some ((False, EE_INVALID_OP), e, w)
      | Some service \<Rightarrow>
          if Status e \<noteq> ESTAT_INIT then Some ((False, EE_INVALID_OP), e, w)
          else do {
            ((ok, p), w) \<leftarrow> resolvePeer os (Protocol e) \<lparr>Data = replicate MAXADDRLEN 0, Length = 0\<rparr> (Some addr) service w;
            if \<not> ok then Some ((False, EE_RESOLVE), e, w)
            else do {
              sa \<leftarrow> sockaddr p;
              let (ec, w) = os_connect os (Socket e) sa w;
              if ec \<noteq> 0 then Some ((False, EE_CONNECT), saveLastError os w e, w)
              else do {
                d \<leftarrow> copy_in sa (Data (SockInfo e));
                let e = e\<lparr>SockInfo := \<lparr>Data = d, Length = Length p\<rparr>, Status := ESTAT_CONNECTED\<rparr>;
                (e, w) \<leftarrow> name_endpoint os (Some addr) sa e w;
                Some ((True, EE_SUCCESS), e, w) } } })"

text \<open>The part of \<open>listen\<close> after the address is bound.\<close>

definition impl_listen_bound :: "'w sys \<Rightarrow> 8 str option \<Rightarrow> u32 \<Rightarrow> u8 list \<Rightarrow> impl \<Rightarrow> 'w \<Rightarrow> ((bool \<times> EError) \<times> impl \<times> 'w) option" where
  "impl_listen_bound os addr backlog sa e w =
     (let (ec, w) = (if is_tcp (Protocol e) then os_listen os (Socket e) backlog w else (0, w)) in
      if ec \<noteq> 0 then Some ((False, EE_LISTEN), saveLastError os w (e\<lparr>Status := ESTAT_INVALID\<rparr>), w)
      else do {
        d \<leftarrow> copy_in sa (Data (SockInfo e));
        let e = e\<lparr>SockInfo := \<lparr>Data = d, Length = int (length sa)\<rparr>\<rparr>;
        (e, w) \<leftarrow> name_endpoint os addr sa e w;
        Some ((True, EE_SUCCESS), e\<lparr>Status := ESTAT_LISTENING\<rparr>, w) })"

definition impl_listen :: "'w sys \<Rightarrow> 8 str option \<Rightarrow> 8 str option \<Rightarrow> u32 \<Rightarrow> impl \<Rightarrow> 'w \<Rightarrow> ((bool \<times> EError) \<times> impl \<times> 'w) option" where
  "impl_listen os addr serviceOrPort backlog e w =
     (case serviceOrPort of
        None \<Rightarrow> Some ((False, EE_INVALID_OP), e, w)
      | Some service \<Rightarrow>
          if Status e \<noteq> ESTAT_INIT then Some ((False, EE_INVALID_OP), e, w)
          else let hint = resolve_hints (Protocol e) (if addr = None then AI_PASSIVE else 0);
                   ((ec, sa), w) = os_getaddrinfo os addr service hint w in
            if ec \<noteq> 0 then Some ((False, EE_RESOLVE), saveLastError os w e, w)
            else let (ec, w) = os_bind os (Socket e) sa w in
              if ec \<noteq> 0 then Some ((False, EE_BIND), saveLastError os w e, os_freeaddrinfo os w)
              else do { (r, e, w) \<leftarrow> impl_listen_bound os addr backlog sa e w; Some (r, e, os_freeaddrinfo os w) })"

definition impl_accept :: "'w sys \<Rightarrow> impl \<Rightarrow> 'w \<Rightarrow> ((impl option \<times> EError) \<times> impl \<times> 'w) option" where
  "impl_accept os e w =
     (if \<not> is_tcp (Protocol e) \<or> Status e \<noteq> ESTAT_LISTENING then Some ((None, EE_INVALID_OP), e, w)
      else let (s, w) = os_accept os (Socket e) w in
        if s = INVALID_SOCKET then Some ((None, EE_ACCEPT), saveLastError os w e, w)
        else do { (p, w) \<leftarrow> impl_adopt os (Protocol e) s ESTAT_CONNECTED w; Some ((Some p, EE_SUCCESS), e, w) })"

section \<open>Transfer\<close>

text \<open>An \<open>s32\<close> length as the \<open>size_t\<close> of the system call, and its result as an \<open>s32\<close>.\<close>

definition size_of :: "int \<Rightarrow> u64" where "size_of n = of_int n"
definition s32_of :: "int \<Rightarrow> int" where "s32_of n = signed_take_bit 31 n"

text \<open>What follows the system call in all four of them.\<close>

definition transferred :: "'w sys \<Rightarrow> EError \<Rightarrow> int \<Rightarrow> impl \<Rightarrow> 'w \<Rightarrow> (int \<times> EError) \<times> impl \<times> 'w" where
  "transferred os err cnt e w =
     (if cnt < 0 then ((0, err), saveLastError os w e, w) else ((cnt, EE_SUCCESS), e, w))"

definition impl_recv :: "'w sys \<Rightarrow> ptr \<Rightarrow> int \<Rightarrow> impl \<Rightarrow> 'w \<Rightarrow> (int \<times> EError) \<times> impl \<times> 'w" where
  "impl_recv os buf n e w =
     (let isTcp = is_tcp (Protocol e) in
      if isTcp \<and> Status e \<noteq> ESTAT_CONNECTED \<or> \<not> isTcp \<and> Status e \<noteq> ESTAT_LISTENING
      then ((0, EE_INVALID_OP), e, w)
      else let (cnt, w) = os_recv os (Socket e) buf (size_of n) 0 w in transferred os EE_RECV (s32_of cnt) e w)"

definition impl_recvFrom :: "'w sys \<Rightarrow> peer option \<Rightarrow> ptr \<Rightarrow> int \<Rightarrow> impl \<Rightarrow> 'w \<Rightarrow> (int \<times> EError) \<times> peer option \<times> impl \<times> 'w" where
  "impl_recvFrom os pr buf n e w =
     (case pr of None \<Rightarrow> ((0, EE_INVALID_OP), None, e, w)
      | Some p \<Rightarrow>
        if \<not> is_udp (Protocol e) \<or> Status e \<noteq> ESTAT_CONNECTED \<and> Status e \<noteq> ESTAT_LISTENING
        then ((0, EE_INVALID_OP), pr, e, w)
        else let ((cnt, addr, m), w) = os_recvfrom os (Socket e) buf (size_of n) 0 (int MAXADDRLEN) w;
                 p = \<lparr>Data = overlay addr (Data p), Length = m\<rparr>;
                 (r, e, w) = transferred os EE_RECV (s32_of cnt) e w
          in (r, Some p, e, w))"

definition impl_send :: "'w sys \<Rightarrow> ptr \<Rightarrow> int \<Rightarrow> impl \<Rightarrow> 'w \<Rightarrow> (int \<times> EError) \<times> impl \<times> 'w" where
  "impl_send os buf n e w =
     (if Status e \<noteq> ESTAT_CONNECTED then ((0, EE_INVALID_OP), e, w)
      else let (cnt, w) = os_send os (Socket e) buf (size_of n) 0 w in transferred os EE_SEND (s32_of cnt) e w)"

definition impl_sendTo :: "'w sys \<Rightarrow> peer option \<Rightarrow> ptr \<Rightarrow> int \<Rightarrow> impl \<Rightarrow> 'w \<Rightarrow> ((int \<times> EError) \<times> impl \<times> 'w) option" where
  "impl_sendTo os pr buf n e w =
     (case pr of None \<Rightarrow> Some ((0, EE_INVALID_OP), e, w)
      | Some p \<Rightarrow>
        if \<not> is_udp (Protocol e) \<or> Status e \<noteq> ESTAT_CONNECTED then Some ((0, EE_INVALID_OP), e, w)
        else do { sa \<leftarrow> sockaddr p;
                  let (cnt, w) = os_sendto os (Socket e) buf (size_of n) 0 sa w;
                  Some (transferred os EE_SEND (s32_of cnt) e w) })"

section \<open>The class NetEndpoint\<close>

text \<open>\<open>'c\<close> is the context a multiplexer attaches.\<close>

record 'c endpoint =
  pImpl :: impl
  pAsyncContext :: "'c option"
  pUserData :: u64

definition ep_wrap :: "impl \<Rightarrow> 'c endpoint" where
  "ep_wrap i = \<lparr>pImpl = i, pAsyncContext = None, pUserData = 0\<rparr>"

definition ep_new :: "'w sys \<Rightarrow> u32 \<Rightarrow> 'w \<Rightarrow> 'c endpoint \<times> 'w" where
  "ep_new os protocol w = (let (i, w) = impl_new os protocol w in (ep_wrap i, w))"

definition ep_adopt :: "'w sys \<Rightarrow> u32 \<Rightarrow> int \<Rightarrow> EStatus \<Rightarrow> 'w \<Rightarrow> ('c endpoint \<times> 'w) option" where
  "ep_adopt os protocol sock status w = do { (i, w) \<leftarrow> impl_adopt os protocol sock status w; Some (ep_wrap i, w) }"

text \<open>The destructor: the implementation closes itself.\<close>

definition ep_delete :: "'w sys \<Rightarrow> 'c endpoint \<Rightarrow> 'w \<Rightarrow> 'w" where
  "ep_delete os ep w = snd (impl_close os (pImpl ep) w)"

definition ep_create :: "'w sys \<Rightarrow> u32 \<Rightarrow> 'w \<Rightarrow> 'c endpoint \<times> 'w" where
  "ep_create os protocol w = ep_new os protocol w"

definition ep_listen :: "'w sys \<Rightarrow> 8 str option \<Rightarrow> 8 str option \<Rightarrow> u32 \<Rightarrow> 'c endpoint \<Rightarrow> 'w \<Rightarrow> ((bool \<times> EError) \<times> 'c endpoint \<times> 'w) option" where
  "ep_listen os addr serviceOrPort backlog ep w =
     do { (r, i, w) \<leftarrow> impl_listen os addr serviceOrPort backlog (pImpl ep) w; Some (r, ep\<lparr>pImpl := i\<rparr>, w) }"

definition ep_create_listen ::
  "'w sys \<Rightarrow> u32 \<Rightarrow> 8 str option \<Rightarrow> 8 str option \<Rightarrow> u32 \<Rightarrow> 'w \<Rightarrow> (('c endpoint option \<times> EError) \<times> 'w) option" where
  "ep_create_listen os protocol addr serviceOrPort backlog w =
     (let (ep, w) = ep_new os protocol w in
      do { ((ok, code), ep, w) \<leftarrow> ep_listen os addr serviceOrPort backlog ep w;
           Some (if ok then ((Some ep, code), w) else ((None, code), ep_delete os ep w)) })"

definition ep_release :: "'w sys \<Rightarrow> 'c endpoint option \<Rightarrow> 'w \<Rightarrow> 'w" where
  "ep_release os ep w = (case ep of None \<Rightarrow> w | Some ep \<Rightarrow> ep_delete os ep w)"

definition ep_connect :: "'w sys \<Rightarrow> 8 str option \<Rightarrow> 8 str option \<Rightarrow> 'c endpoint \<Rightarrow> 'w \<Rightarrow> ((bool \<times> EError) \<times> 'c endpoint \<times> 'w) option" where
  "ep_connect os addr serviceOrPort ep w =
     do { (r, i, w) \<leftarrow> impl_connect os addr serviceOrPort (pImpl ep) w; Some (r, ep\<lparr>pImpl := i\<rparr>, w) }"

definition ep_accept :: "'w sys \<Rightarrow> 'c endpoint \<Rightarrow> 'w \<Rightarrow> (('c endpoint option \<times> EError) \<times> 'c endpoint \<times> 'w) option" where
  "ep_accept os ep w =
     do { ((p, code), i, w) \<leftarrow> impl_accept os (pImpl ep) w; Some ((map_option ep_wrap p, code), ep\<lparr>pImpl := i\<rparr>, w) }"

definition ep_recv :: "'w sys \<Rightarrow> ptr \<Rightarrow> int \<Rightarrow> 'c endpoint \<Rightarrow> 'w \<Rightarrow> (int \<times> EError) \<times> 'c endpoint \<times> 'w" where
  "ep_recv os buf n ep w = (let (r, i, w) = impl_recv os buf n (pImpl ep) w in (r, ep\<lparr>pImpl := i\<rparr>, w))"

definition ep_recvFrom :: "'w sys \<Rightarrow> peer option \<Rightarrow> ptr \<Rightarrow> int \<Rightarrow> 'c endpoint \<Rightarrow> 'w \<Rightarrow> (int \<times> EError) \<times> peer option \<times> 'c endpoint \<times> 'w" where
  "ep_recvFrom os pr buf n ep w =
     (let (r, p, i, w) = impl_recvFrom os pr buf n (pImpl ep) w in (r, p, ep\<lparr>pImpl := i\<rparr>, w))"

definition ep_send :: "'w sys \<Rightarrow> ptr \<Rightarrow> int \<Rightarrow> 'c endpoint \<Rightarrow> 'w \<Rightarrow> (int \<times> EError) \<times> 'c endpoint \<times> 'w" where
  "ep_send os buf n ep w = (let (r, i, w) = impl_send os buf n (pImpl ep) w in (r, ep\<lparr>pImpl := i\<rparr>, w))"

definition ep_sendTo :: "'w sys \<Rightarrow> peer option \<Rightarrow> ptr \<Rightarrow> int \<Rightarrow> 'c endpoint \<Rightarrow> 'w \<Rightarrow> ((int \<times> EError) \<times> 'c endpoint \<times> 'w) option" where
  "ep_sendTo os pr buf n ep w =
     do { (r, i, w) \<leftarrow> impl_sendTo os pr buf n (pImpl ep) w; Some (r, ep\<lparr>pImpl := i\<rparr>, w) }"

definition ep_shutdown :: "'w sys \<Rightarrow> EShutdownDir \<Rightarrow> 'c endpoint \<Rightarrow> 'w \<Rightarrow> EError \<times> 'c endpoint \<times> 'w" where
  "ep_shutdown os dir ep w = (let (code, i, w) = impl_shutdown os dir (pImpl ep) w in (code, ep\<lparr>pImpl := i\<rparr>, w))"

definition ep_close :: "'w sys \<Rightarrow> 'c endpoint \<Rightarrow> 'w \<Rightarrow> 'c endpoint \<times> 'w" where
  "ep_close os ep w = (let (i, w) = impl_close os (pImpl ep) w in (ep\<lparr>pImpl := i\<rparr>, w))"

definition getStatus :: "'c endpoint \<Rightarrow> EStatus" where "getStatus ep = Status (pImpl ep)"
definition setStatus :: "EStatus \<Rightarrow> 'c endpoint \<Rightarrow> 'c endpoint" where
  "setStatus st ep = ep\<lparr>pImpl := (pImpl ep)\<lparr>Status := st\<rparr>\<rparr>"
definition getAddress :: "'c endpoint \<Rightarrow> u8 list" where "getAddress ep = Address (pImpl ep)"
definition getPort :: "'c endpoint \<Rightarrow> u32" where "getPort ep = Port (pImpl ep)"
definition getProtocol :: "'c endpoint \<Rightarrow> u32" where "getProtocol ep = Protocol (pImpl ep)"
definition getSocket :: "'c endpoint \<Rightarrow> int" where "getSocket ep = Socket (pImpl ep)"
definition getUserData :: "'c endpoint \<Rightarrow> u64" where "getUserData ep = pUserData ep"
definition setUserData :: "u64 \<Rightarrow> 'c endpoint \<Rightarrow> u64 \<times> 'c endpoint" where
  "setUserData ud ep = (pUserData ep, ep\<lparr>pUserData := ud\<rparr>)"
definition getLastPlatformErrno :: "'c endpoint \<Rightarrow> int" where "getLastPlatformErrno ep = Errno (pImpl ep)"
definition setLastPlatformErrno :: "int \<Rightarrow> 'c endpoint \<Rightarrow> 'c endpoint" where
  "setLastPlatformErrno ec ep = ep\<lparr>pImpl := (pImpl ep)\<lparr>Errno := ec\<rparr>\<rparr>"

end
