(* ===== verification/NetEndpointProps.thy ===== *)
theory NetEndpointProps
  imports NetEndpoint
begin

text \<open>
  Properties of endpoints: the protocol of statuses and error codes that the calls follow, the
  absence of undefined behaviour under a documented operating system, and the descriptors that
  an endpoint owns.
\<close>

section \<open>Calls\<close>

datatype ep_call =
    Connect "8 str option" "8 str option" | Listen "8 str option" "8 str option" u32 | Accept
  | Recv ptr int | RecvFrom "peer option" ptr int | Send ptr int | SendTo "peer option" ptr int
  | Shutdown EShutdownDir | Close

text \<open>A call with the code it reports; the endpoint that \<open>accept\<close> returns is a result of its own.\<close>

fun ep_run :: "'w sys \<Rightarrow> ep_call \<Rightarrow> impl \<Rightarrow> 'w \<Rightarrow> (EError \<times> impl option \<times> impl \<times> 'w) option" where
  "ep_run os (Connect a s) e w = map_option (\<lambda>((ok, code), e, w). (code, None, e, w)) (impl_connect os a s e w)"
| "ep_run os (Listen a s b) e w = map_option (\<lambda>((ok, code), e, w). (code, None, e, w)) (impl_listen os a s b e w)"
| "ep_run os Accept e w = map_option (\<lambda>((p, code), e, w). (code, p, e, w)) (impl_accept os e w)"
| "ep_run os (Recv b n) e w = (let ((cnt, code), e, w) = impl_recv os b n e w in Some (code, None, e, w))"
| "ep_run os (RecvFrom p b n) e w = (let ((cnt, code), p, e, w) = impl_recvFrom os p b n e w in Some (code, None, e, w))"
| "ep_run os (Send b n) e w = (let ((cnt, code), e, w) = impl_send os b n e w in Some (code, None, e, w))"
| "ep_run os (SendTo p b n) e w = map_option (\<lambda>((cnt, code), e, w). (code, None, e, w)) (impl_sendTo os p b n e w)"
| "ep_run os (Shutdown d) e w = (let (code, e, w) = impl_shutdown os d e w in Some (code, None, e, w))"
| "ep_run os Close e w = (let (e, w) = impl_close os e w in Some (EE_SUCCESS, None, e, w))"

text \<open>When a call is allowed, and the status it leaves for each code it can report.\<close>

fun allowed :: "ep_call \<Rightarrow> u32 \<Rightarrow> EStatus \<Rightarrow> bool" where
  "allowed (Connect a s) p st \<longleftrightarrow> s \<noteq> None \<and> st = ESTAT_INIT"
| "allowed (Listen a s b) p st \<longleftrightarrow> s \<noteq> None \<and> st = ESTAT_INIT"
| "allowed Accept p st \<longleftrightarrow> is_tcp p \<and> st = ESTAT_LISTENING"
| "allowed (Recv b n) p st \<longleftrightarrow> st = (if is_tcp p then ESTAT_CONNECTED else ESTAT_LISTENING)"
| "allowed (RecvFrom r b n) p st \<longleftrightarrow> r \<noteq> None \<and> is_udp p \<and> st \<in> {ESTAT_CONNECTED, ESTAT_LISTENING}"
| "allowed (Send b n) p st \<longleftrightarrow> st = ESTAT_CONNECTED"
| "allowed (SendTo r b n) p st \<longleftrightarrow> r \<noteq> None \<and> is_udp p \<and> st = ESTAT_CONNECTED"
| "allowed (Shutdown d) p st \<longleftrightarrow> True"
| "allowed Close p st \<longleftrightarrow> True"

fun status_after :: "ep_call \<Rightarrow> EStatus \<Rightarrow> EError \<Rightarrow> EStatus option" where
  "status_after (Connect a s) st code = (if code = EE_SUCCESS then Some ESTAT_CONNECTED
     else if code \<in> {EE_RESOLVE, EE_CONNECT} then Some st else None)"
| "status_after (Listen a s b) st code = (if code = EE_SUCCESS then Some ESTAT_LISTENING
     else if code \<in> {EE_RESOLVE, EE_BIND} then Some st
     else if code = EE_LISTEN then Some ESTAT_INVALID else None)"
| "status_after Accept st code = (if code \<in> {EE_SUCCESS, EE_ACCEPT} then Some st else None)"
| "status_after (Recv b n) st code = (if code \<in> {EE_SUCCESS, EE_RECV} then Some st else None)"
| "status_after (RecvFrom r b n) st code = (if code \<in> {EE_SUCCESS, EE_RECV} then Some st else None)"
| "status_after (Send b n) st code = (if code \<in> {EE_SUCCESS, EE_SEND} then Some st else None)"
| "status_after (SendTo r b n) st code = (if code \<in> {EE_SUCCESS, EE_SEND} then Some st else None)"
| "status_after (Shutdown d) st code = (if code \<in> {EE_SUCCESS, EE_SHUTDOWN} then Some st else None)"
| "status_after Close st code = (if code = EE_SUCCESS then Some ESTAT_INVALID else None)"

section \<open>What the helpers change\<close>

named_theorems ep_simps \<open>fields that the helpers of an endpoint leave alone\<close>

lemma reset_simps [ep_simps]:
  "Status (reset e) = ESTAT_INVALID" "Socket (reset e) = INVALID_SOCKET" "Protocol (reset e) = Protocol e"
  "Address (reset e) = replicate 128 0" "SockInfo (reset e) = \<lparr>Data = replicate 128 0, Length = 0\<rparr>"
  by (simp_all add: reset_def MAXADDRLEN_def)

lemma saveLastError_simps [ep_simps]:
  "Status (saveLastError os w e) = Status e" "Socket (saveLastError os w e) = Socket e"
  "Protocol (saveLastError os w e) = Protocol e" "Address (saveLastError os w e) = Address e"
  "SockInfo (saveLastError os w e) = SockInfo e"
  by (simp_all add: saveLastError_def)

lemma length_overlay [simp]: "length (overlay bs buf) = length buf"
  by (simp add: overlay_def)

lemma length_copy_address [simp]: "length (copy_address a bs) = length bs"
  by (induction a bs rule: copy_address.induct) auto

lemma name_endpoint_simps:
  "name_endpoint os addr sa e w = Some (e', w') \<Longrightarrow>
     Status e' = Status e \<and> Socket e' = Socket e \<and> Protocol e' = Protocol e \<and> SockInfo e' = SockInfo e \<and>
     length (Address e') = length (Address e)"
  by (auto simp: name_endpoint_def Let_def bind_eq_Some_conv ep_simps simp: case_prod_beta split: if_split_asm)

lemma shutdown_simps:
  "impl_shutdown os dir e w = (code, e', w') \<Longrightarrow> Status e' = Status e \<and> Socket e' = Socket e \<and>
     Protocol e' = Protocol e \<and> Address e' = Address e \<and> SockInfo e' = SockInfo e \<and> code \<in> {EE_SUCCESS, EE_SHUTDOWN}"
  by (auto simp: impl_shutdown_def Let_def ep_simps simp: case_prod_beta split: if_split_asm)

lemma close_simps:
  "impl_close os e w = (e', w') \<Longrightarrow> Status e' = ESTAT_INVALID \<and> Socket e' = INVALID_SOCKET \<and>
     Protocol e' = Protocol e \<and> Address e' = replicate 128 0 \<and> SockInfo e' = \<lparr>Data = replicate 128 0, Length = 0\<rparr>"
  by (auto simp: impl_close_def Let_def ep_simps split: prod.split_asm if_split_asm dest!: shutdown_simps)

lemma transferred_simps:
  "transferred os err cnt e w = ((n, code), e', w') \<Longrightarrow> Status e' = Status e \<and> Socket e' = Socket e \<and>
     Protocol e' = Protocol e \<and> Address e' = Address e \<and> SockInfo e' = SockInfo e \<and> code \<in> {EE_SUCCESS, err} \<and> w' = w"
  by (auto simp: transferred_def ep_simps split: if_splits)

section \<open>The protocol\<close>

lemma connect_protocol:
  assumes "impl_connect os a s e w = Some ((ok, code), e', w')"
  shows "(if allowed (Connect a s) (Protocol e) (Status e)
      then status_after (Connect a s) (Status e) code = Some (Status e') \<and> ok = (code = EE_SUCCESS)
      else code = EE_INVALID_OP \<and> \<not> ok \<and> e' = e \<and> w' = w) \<and> Protocol e' = Protocol e \<and> Socket e' = Socket e"
  using assms
  by (auto simp: impl_connect_def Let_def bind_eq_Some_conv ep_simps
    simp: case_prod_beta split: if_split_asm option.split_asm dest!: name_endpoint_simps)

lemma listen_bound_protocol:
  assumes "impl_listen_bound os a b sa e w = Some ((ok, code), e', w')"
  shows "(if code = EE_LISTEN then Status e' = ESTAT_INVALID else code = EE_SUCCESS \<and> Status e' = ESTAT_LISTENING) \<and>
    ok = (code = EE_SUCCESS) \<and> Protocol e' = Protocol e \<and> Socket e' = Socket e"
  using assms
  by (auto simp: impl_listen_bound_def Let_def bind_eq_Some_conv ep_simps
    simp: case_prod_beta split: if_split_asm dest!: name_endpoint_simps)

lemma listen_protocol:
  assumes "impl_listen os a s b e w = Some ((ok, code), e', w')"
  shows "(if allowed (Listen a s b) (Protocol e) (Status e)
      then status_after (Listen a s b) (Status e) code = Some (Status e') \<and> ok = (code = EE_SUCCESS)
      else code = EE_INVALID_OP \<and> \<not> ok \<and> e' = e \<and> w' = w) \<and> Protocol e' = Protocol e \<and> Socket e' = Socket e"
  using assms
  by (auto simp: impl_listen_def Let_def bind_eq_Some_conv ep_simps
    simp: case_prod_beta split: if_split_asm option.split_asm dest!: listen_bound_protocol)

lemma accept_protocol:
  assumes "impl_accept os e w = Some ((p, code), e', w')"
  shows "(if allowed Accept (Protocol e) (Status e)
      then status_after Accept (Status e) code = Some (Status e') \<and> (p \<noteq> None) = (code = EE_SUCCESS)
      else code = EE_INVALID_OP \<and> p = None \<and> e' = e \<and> w' = w) \<and> Protocol e' = Protocol e \<and> Socket e' = Socket e"
  using assms
  by (auto simp: impl_accept_def Let_def bind_eq_Some_conv ep_simps simp: case_prod_beta split: if_split_asm)

lemma transfer_protocol:
  "impl_recv os b n e w = ((cnt, code), e', w') \<Longrightarrow>
     (if allowed (Recv b n) (Protocol e) (Status e) then status_after (Recv b n) (Status e) code = Some (Status e')
      else code = EE_INVALID_OP \<and> e' = e \<and> w' = w) \<and> Protocol e' = Protocol e \<and> Socket e' = Socket e"
  "impl_recvFrom os r b n e w = ((cnt, code), r', e', w') \<Longrightarrow>
     (if allowed (RecvFrom r b n) (Protocol e) (Status e) then status_after (RecvFrom r b n) (Status e) code = Some (Status e')
      else code = EE_INVALID_OP \<and> e' = e \<and> w' = w) \<and> Protocol e' = Protocol e \<and> Socket e' = Socket e"
  "impl_send os b n e w = ((cnt, code), e', w') \<Longrightarrow>
     (if allowed (Send b n) (Protocol e) (Status e) then status_after (Send b n) (Status e) code = Some (Status e')
      else code = EE_INVALID_OP \<and> e' = e \<and> w' = w) \<and> Protocol e' = Protocol e \<and> Socket e' = Socket e"
  "impl_sendTo os r b n e w = Some ((cnt, code), e', w') \<Longrightarrow>
     (if allowed (SendTo r b n) (Protocol e) (Status e) then status_after (SendTo r b n) (Status e) code = Some (Status e')
      else code = EE_INVALID_OP \<and> e' = e \<and> w' = w) \<and> Protocol e' = Protocol e \<and> Socket e' = Socket e"
     apply (auto simp: impl_recv_def Let_def split: prod.split_asm if_split_asm dest!: transferred_simps) [1]
    apply (auto simp: impl_recvFrom_def Let_def split: prod.split_asm if_split_asm option.split_asm dest!: transferred_simps) [1]
   apply (auto simp: impl_send_def Let_def split: prod.split_asm if_split_asm dest!: transferred_simps) [1]
  apply (auto simp: impl_sendTo_def Let_def bind_eq_Some_conv case_prod_beta split: if_split_asm option.split_asm dest!: transferred_simps) [1]
  done

text \<open>
  C20: Endpoints follow one protocol.  A call that its status or protocol does not allow reports
  EE_INVALID_OP and changes neither the endpoint nor the system.  An allowed call never reports
  EE_INVALID_OP: it reports success or one of the call's own codes, and the status after it is a
  function of the code (a failed resolve, connect or bind leaves the endpoint as good as new, a
  failed listen makes it invalid, data transfer changes nothing).  Only \<open>close\<close> changes the
  socket, and an endpoint is accepted exactly if \<open>accept\<close> reports success.
\<close>

theorem endpoint_protocol:
  assumes "ep_run os c e w = Some (code, p, e', w')"
  shows "(if allowed c (Protocol e) (Status e) then status_after c (Status e) code = Some (Status e')
      else code = EE_INVALID_OP \<and> e' = e \<and> w' = w) \<and>
    Protocol e' = Protocol e \<and> Socket e' = (if c = Close then INVALID_SOCKET else Socket e) \<and>
    (p \<noteq> None) = (c = Accept \<and> code = EE_SUCCESS)"
  using assms
proof (cases c)
  case (Connect a s) then show ?thesis using assms by (auto simp del: allowed.simps status_after.simps dest!: connect_protocol)
next
  case (Listen a s b) then show ?thesis using assms by (auto simp del: allowed.simps status_after.simps dest!: listen_protocol)
next
  case Accept then show ?thesis using assms by (auto simp del: allowed.simps status_after.simps dest!: accept_protocol)
next
  case (Recv b n) then show ?thesis using assms by (auto simp del: allowed.simps status_after.simps split: prod.split_asm dest!: transfer_protocol(1))
next
  case (RecvFrom r b n) then show ?thesis using assms by (auto simp del: allowed.simps status_after.simps split: prod.split_asm dest!: transfer_protocol(2))
next
  case (Send b n) then show ?thesis using assms by (auto simp del: allowed.simps status_after.simps split: prod.split_asm dest!: transfer_protocol(3))
next
  case (SendTo r b n) then show ?thesis using assms by (auto simp del: allowed.simps status_after.simps dest!: transfer_protocol(4))
next
  case (Shutdown d) then show ?thesis using assms by (auto split: prod.split_asm dest!: shutdown_simps)
next
  case Close then show ?thesis using assms by (auto split: prod.split_asm dest!: close_simps)
qed

section \<open>A documented operating system\<close>

text \<open>
  A socket address fits in \<open>sockaddr_storage\<close>, and \<open>getnameinfo\<close> with NI_NUMERICSERV gives the
  port in decimal.
\<close>

definition documented :: "'w sys \<Rightarrow> bool" where
  "documented os \<longleftrightarrow>
     (\<forall>h s f w a w'. os_getaddrinfo os h s f w = ((0, a), w') \<longrightarrow> length a \<le> MAXADDRLEN) \<and>
     (\<forall>fd w a n w'. os_getsockname os fd (int MAXADDRLEN) w = ((0, a, n), w') \<longrightarrow> 0 \<le> n \<and> n \<le> int MAXADDRLEN) \<and>
     (\<forall>a w h s w'. os_getnameinfo os a w = ((0, h, s), w') \<longrightarrow> (\<exists>k \<in> {0..65535}. s = dec_digits k))"

definition always_named :: "'w sys \<Rightarrow> bool" where
  "always_named os \<longleftrightarrow> (\<forall>a w. fst (fst (os_getnameinfo os a w)) = 0)"

definition impl_wf :: "impl \<Rightarrow> bool" where
  "impl_wf e \<longleftrightarrow> length (Address e) = MAXADDRLEN \<and> length (Data (SockInfo e)) = MAXADDRLEN \<and>
     0 \<le> Length (SockInfo e) \<and> Length (SockInfo e) \<le> int MAXADDRLEN \<and>
     Status e \<in> {ESTAT_INIT, ESTAT_LISTENING, ESTAT_CONNECTED, ESTAT_INVALID} \<and>
     (Status e \<noteq> ESTAT_INVALID \<longrightarrow> Socket e \<noteq> INVALID_SOCKET)"

lemma copy_in_iff: "copy_in bs buf = Some d \<longleftrightarrow> length bs \<le> length buf \<and> d = overlay bs buf"
  by (auto simp: copy_in_def)

lemma sockaddr_length: "sockaddr p = Some a \<Longrightarrow> length a \<le> length (Data p) \<and> 0 \<le> Length p \<and> Length p \<le> int (length (Data p))"
  by (auto simp: sockaddr_def split: if_split_asm)

lemma port_reads:
  assumes "k \<in> {0..65535}" shows "lexical_cast_cstr T_u32 (dec_digits k :: 8 str) = Some k"
proof -
  have "numeral_text k = dec_digits k" using assms by (simp add: numeral_text_def)
  then show ?thesis using lexical_cast_scan [of T_u32 k] assms digits_c_string(1) [of k]
    by (simp add: lexical_cast_cstr_def)
qed

lemma documentedD:
  assumes "documented os"
  shows "os_getaddrinfo os h s f w = ((0, a), w') \<Longrightarrow> length a \<le> MAXADDRLEN"
    "os_getsockname os fd (int MAXADDRLEN) w = ((0, a, n), w') \<Longrightarrow> 0 \<le> n \<and> n \<le> int MAXADDRLEN"
    "os_getnameinfo os a w = ((0, hn, sv), w') \<Longrightarrow> \<exists>v. lexical_cast_cstr T_u32 sv = Some v"
  using assms port_reads unfolding documented_def by blast+

lemma new_wf: "impl_wf (fst (impl_new os p w))"
  by (simp add: impl_new_def Let_def impl_wf_def ep_simps MAXADDRLEN_def reset_def case_prod_beta saveLastError_def)

lemma close_wf: "impl_wf (fst (impl_close os e w))"
  using close_simps [of os e w "fst (impl_close os e w)" "snd (impl_close os e w)"] by (simp add: impl_wf_def MAXADDRLEN_def)

lemma named:
  assumes "documented os" "addr \<noteq> None \<or> always_named os"
  shows "\<exists>e' w'. name_endpoint os addr sa e w = Some (e', w') \<and> length (Address e') = length (Address e)"
proof -
  obtain ec h s w1 where n: "os_getnameinfo os sa w = ((ec, h, s), w1)" by (metis prod_cases3 surj_pair)
  show ?thesis
  proof (cases "ec = 0")
    case True
    then show ?thesis using n documentedD(3) [OF assms(1), of sa w h s w1]
      by (auto simp: name_endpoint_def Let_def)
  next
    case False
    then have "addr \<noteq> None" using assms(2) n unfolding always_named_def by (metis fst_conv)
    then show ?thesis using n False by (auto simp: name_endpoint_def Let_def ep_simps)
  qed
qed

lemma adopt_total:
  assumes "documented os" "s \<noteq> INVALID_SOCKET"
  shows "\<exists>e' w'. impl_adopt os p s ESTAT_CONNECTED w = Some (e', w') \<and> impl_wf e'"
proof -
  obtain ec a n w1 where g: "os_getsockname os s (int MAXADDRLEN) w = ((ec, a, n), w1)" by (metis prod_cases3 surj_pair)
  let ?b = "overlay a (replicate MAXADDRLEN 0)"
  obtain ec2 h sv w2 where g2: "os_getnameinfo os (take (nat n) ?b) w1 = ((ec2, h, sv), w2)" by (metis prod_cases3 surj_pair)
  have n: "ec = 0 \<Longrightarrow> 0 \<le> n \<and> n \<le> int MAXADDRLEN" using documentedD(2) [OF assms(1)] g by blast
  then have sa: "ec = 0 \<Longrightarrow> sockaddr \<lparr>Data = ?b, Length = n\<rparr> = Some (take (nat n) ?b)"
    by (auto simp: sockaddr_def)
  have v: "ec2 = 0 \<Longrightarrow> \<exists>v. lexical_cast_cstr T_u32 sv = Some v" using documentedD(3) [OF assms(1)] g2 by blast
  have c: "\<exists>e'. (\<exists>w'. impl_close os x w3 = (e', w')) \<and> impl_wf e'" for x w3
    using close_wf [of os x w3] by (metis prod.collapse)
  let ?e = "\<lambda>v. (reset (raw_impl p))\<lparr>Status := ESTAT_CONNECTED, Socket := s,
    SockInfo := \<lparr>Data = ?b, Length = n\<rparr>, Address := overlay (h @ [0]) (replicate MAXADDRLEN 0), Port := v\<rparr>"
  have ok: "ec = 0 \<Longrightarrow> impl_wf (?e x)" for x using n assms(2) by (simp add: impl_wf_def)
  have a: "Data (SockInfo (reset e)) = replicate MAXADDRLEN 0" "Address (reset e) = replicate MAXADDRLEN 0" for e
    by (simp_all add: reset_def)
  show ?thesis using g g2 sa v c ok
    by (cases "ec = 0"; cases "ec2 = 0") (auto simp: impl_adopt_def Let_def a)
qed

lemma connect_total:
  assumes "documented os" "impl_wf e"
  shows "impl_connect os a s e w \<noteq> None"
proof -
  let ?p = "\<lparr>Data = replicate MAXADDRLEN (0 :: u8), Length = 0\<rparr>"
  have r: "\<exists>ok p' w'. resolvePeer os (Protocol e) ?p (Some h) sv w = Some ((ok, p'), w') \<and>
      (ok \<longrightarrow> (\<exists>sa. sockaddr p' = Some sa \<and> length sa \<le> MAXADDRLEN))" for h sv
  proof -
    obtain ec ad w1 where g: "os_getaddrinfo os (Some h) sv (resolve_hints (Protocol e) 0) w = ((ec, ad), w1)"
      by (metis surj_pair)
    then show ?thesis using documentedD(1) [OF assms(1), of "Some h" sv "resolve_hints (Protocol e) 0" w ad w1]
      by (cases "ec = 0") (auto simp: resolvePeer_def copy_in_def sockaddr_def overlay_def)
  qed
  have d: "copy_in sa (Data (SockInfo e)) = None \<Longrightarrow> length sa \<le> MAXADDRLEN \<Longrightarrow> False" for sa
    using assms(2) by (simp add: impl_wf_def copy_in_def)
  have nm: "(name_endpoint os (Some h) sa x w = None) = False" for h sa x w
    using named [OF assms(1), of "Some h" sa x w] by auto
  show ?thesis
  proof (cases s)
    case (Some sv)
    define h where "h = (case a of None \<Rightarrow> lit ''localhost'' | Some a \<Rightarrow> a)"
    obtain ok p' w' where q: "resolvePeer os (Protocol e) ?p (Some h) sv w = Some ((ok, p'), w')"
      "ok \<longrightarrow> (\<exists>sa. sockaddr p' = Some sa \<and> length sa \<le> MAXADDRLEN)" using r by blast
    show ?thesis
    proof
      assume "impl_connect os a s e w = None"
      then show False using q Some
        by (auto simp: impl_connect_def h_def [symmetric] Let_def case_prod_beta bind_eq_None_conv nm split: if_split_asm dest: d)
    qed
  qed (simp add: impl_connect_def)
qed

lemma listen_bound_total:
  assumes "documented os" "a \<noteq> None \<or> always_named os" "length (Data (SockInfo e)) = MAXADDRLEN"
    "impl_listen_bound os a b sa e w = None" "length sa \<le> MAXADDRLEN"
  shows False
proof -
  have nm: "name_endpoint os a sa x w = None \<Longrightarrow> False" for sa x w using named [OF assms(1,2), of sa x w] by auto
  show False using assms(3-)
    by (auto simp: impl_listen_bound_def Let_def case_prod_beta bind_eq_None_conv copy_in_def split: if_split_asm dest: nm)
qed

lemma listen_total:
  assumes "documented os" "impl_wf e" "a \<noteq> None \<or> always_named os"
  shows "impl_listen os a s b e w \<noteq> None"
proof
  have d: "length (Data (SockInfo e)) = MAXADDRLEN" using assms(2) by (simp add: impl_wf_def)
  assume n: "impl_listen os a s b e w = None"
  then obtain sv where "s = Some sv" "Status e = ESTAT_INIT"
    by (auto simp: impl_listen_def split: option.split_asm if_split_asm)
  moreover obtain ec sa w1 where g: "os_getaddrinfo os a sv (resolve_hints (Protocol e) (if a = None then AI_PASSIVE else 0)) w
      = ((ec, sa), w1)" by (metis surj_pair)
  ultimately have "ec = 0" "\<exists>w2. impl_listen_bound os a b sa e w2 = None" using n
    by (simp_all only: impl_listen_def Let_def option.case g prod.case if_False simp_thms bind_eq_None_conv)
      (auto simp: case_prod_beta bind_eq_None_conv split: if_split_asm)
  moreover from this have "length sa \<le> MAXADDRLEN" using documentedD(1) [OF assms(1)] g by blast
  ultimately show False using listen_bound_total [OF assms(1,3) d] by blast
qed

section \<open>Well-formed endpoints\<close>

lemma connect_wf: "\<lbrakk>impl_connect os a s e w = Some (r, e', w'); impl_wf e\<rbrakk> \<Longrightarrow> impl_wf e'"
  by (auto simp: impl_connect_def Let_def bind_eq_Some_conv case_prod_beta impl_wf_def ep_simps copy_in_iff
    split: if_split_asm option.split_asm dest!: name_endpoint_simps dest: sockaddr_length
    simp: resolvePeer_def)

lemma listen_bound_wf: "\<lbrakk>impl_listen_bound os a b sa e w = Some (r, e', w'); impl_wf e; Socket e \<noteq> INVALID_SOCKET\<rbrakk> \<Longrightarrow> impl_wf e'"
  by (auto simp: impl_listen_bound_def Let_def bind_eq_Some_conv case_prod_beta impl_wf_def ep_simps copy_in_iff
    split: if_split_asm dest!: name_endpoint_simps)

lemma saveLastError_wf [simp]: "impl_wf (saveLastError os w e) = impl_wf e"
  by (simp add: impl_wf_def ep_simps)

lemma listen_wf: "\<lbrakk>impl_listen os a s b e w = Some (r, e', w'); impl_wf e\<rbrakk> \<Longrightarrow> impl_wf e'"
  by (auto simp: impl_listen_def Let_def bind_eq_Some_conv case_prod_beta
    split: if_split_asm option.split_asm dest!: listen_bound_wf) (auto simp: impl_wf_def)

lemma accept_wf:
  assumes "impl_accept os e w = Some ((p, code), e', w')" "impl_wf e" "documented os"
  shows "impl_wf e' \<and> (p \<noteq> None \<longrightarrow> impl_wf (the p))" "impl_accept os e w \<noteq> None"
proof -
  have "impl_wf p'" if "impl_adopt os (Protocol e) s ESTAT_CONNECTED x = Some (p', y)" "s \<noteq> INVALID_SOCKET" for s p' x y
    using adopt_total [OF assms(3) that(2), of "Protocol e" x] that(1) by auto
  then show "impl_wf e' \<and> (p \<noteq> None \<longrightarrow> impl_wf (the p))" using assms(1,2)
    by (auto simp: impl_accept_def Let_def bind_eq_Some_conv case_prod_beta split: if_split_asm)
qed (use assms(1) in simp)

lemma transfer_wf:
  assumes "impl_wf e"
  shows "impl_recv os b n e w = (r, e', w') \<Longrightarrow> impl_wf e'"
    "impl_recvFrom os p b n e w = (r, p', e', w') \<Longrightarrow> impl_wf e'"
    "impl_send os b n e w = (r, e', w') \<Longrightarrow> impl_wf e'"
    "impl_sendTo os p b n e w = Some (r, e', w') \<Longrightarrow> impl_wf e'"
    "impl_shutdown os d e w = (code, e', w') \<Longrightarrow> impl_wf e'"
  using assms
  by (auto simp: impl_recv_def impl_recvFrom_def impl_send_def impl_sendTo_def impl_shutdown_def transferred_def Let_def
    bind_eq_Some_conv case_prod_beta split: if_split_asm option.split_asm)

lemma run_wf:
  assumes "ep_run os c e w = Some (code, p, e', w')" "impl_wf e" "documented os"
  shows "impl_wf e' \<and> (p \<noteq> None \<longrightarrow> impl_wf (the p))"
proof (cases "c = Close")
  case True
  then show ?thesis using assms(1) close_wf [of os e w] by (auto split: prod.split_asm)
next
  case False
  then show ?thesis using assms
    by (cases c) (auto simp: Let_def split: prod.split_asm dest: connect_wf listen_wf transfer_wf dest!: accept_wf(1))
qed

text \<open>The arguments that a call must have: room for the address, and a name for the fallback of \<open>listen\<close>.\<close>

fun call_ok :: "'w sys \<Rightarrow> ep_call \<Rightarrow> bool" where
  "call_ok os (Listen a s b) \<longleftrightarrow> a \<noteq> None \<or> always_named os"
| "call_ok os (SendTo p b n) \<longleftrightarrow> (case p of None \<Rightarrow> True | Some p \<Rightarrow> sockaddr p \<noteq> None)"
| "call_ok os _ \<longleftrightarrow> True"

lemma run_total:
  assumes "documented os" "impl_wf e" "call_ok os c"
  shows "ep_run os c e w \<noteq> None"
proof (cases c)
  case (Connect a s) then show ?thesis using connect_total [OF assms(1,2), of a s w] by simp
next
  case (Listen a s b) then show ?thesis using listen_total [OF assms(1,2), of a s b w] assms(3) by simp
next
  case Accept
  have ad: False if "impl_adopt os (Protocol e) s ESTAT_CONNECTED x = None" "s \<noteq> INVALID_SOCKET" for s x
    using adopt_total [OF assms(1) that(2), of "Protocol e" x] that(1) by auto
  then have "impl_accept os e w = None \<Longrightarrow> False"
    by (auto simp: impl_accept_def Let_def case_prod_beta bind_eq_None_conv split: if_split_asm dest: ad)
  then have "impl_accept os e w \<noteq> None" by blast
  then show ?thesis using Accept by simp
next
  case (SendTo p b n)
  have "impl_sendTo os p b n e w = None \<Longrightarrow> False" using assms(3) SendTo
    by (auto simp: impl_sendTo_def Let_def case_prod_beta split: option.split_asm if_split_asm)
  then show ?thesis using SendTo by fastforce
qed (auto simp: Let_def case_prod_beta)

text \<open>The endpoints a program can get: new ones, accepted ones, and those after a call.\<close>

inductive ep_reach :: "'w sys \<Rightarrow> impl \<Rightarrow> bool" for os where
  new: "ep_reach os (fst (impl_new os p w))"
| call: "\<lbrakk>ep_reach os e; ep_run os c e w = Some (code, p, e', w')\<rbrakk> \<Longrightarrow> ep_reach os e'"
| accepted: "\<lbrakk>ep_reach os e; ep_run os c e w = Some (code, Some p, e', w')\<rbrakk> \<Longrightarrow> ep_reach os p"

text \<open>
  C21: On a system that behaves as documented, every endpoint that the constructors, the calls and
  \<open>accept\<close> can produce is well formed (arrays of full size, an address length within its array,
  a socket whenever the status is not invalid).  A call on it whose arguments are \<open>call_ok\<close> reads and
  writes inside of its arrays, follows no null pointer and uses no unset value: the peer of \<open>sendTo\<close>
  must not claim to be longer than its array, and \<open>listen\<close> needs the name of a host unless the
  system's \<open>getnameinfo\<close> never fails.
\<close>

theorem endpoint_safe:
  assumes "documented os" "ep_reach os e"
  shows "impl_wf e \<and> (call_ok os c \<longrightarrow> ep_run os c e w \<noteq> None)"
proof -
  have "impl_wf e" using assms(2)
  proof induction
    case (new p w)
    show ?case by (rule new_wf)
  next
    case (call e c w code p e' w')
    show ?case using run_wf [OF call.hyps(2) call.IH assms(1)] by (rule conjunct1)
  next
    case (accepted e c w code p e' w')
    show ?case using run_wf [OF accepted.hyps(2) accepted.IH assms(1)] by simp
  qed
  then show ?thesis using run_total [OF assms(1), of e c w] by simp
qed

section \<open>Descriptors\<close>

text \<open>
  How the system calls change the set \<open>fds\<close> of open descriptors: \<open>socket\<close> and \<open>accept\<close> return -1 or a
  descriptor that was not open, \<open>close\<close> closes one, and the other calls open and close nothing.
\<close>

definition opens :: "('w \<Rightarrow> int set) \<Rightarrow> 'w \<Rightarrow> int \<times> 'w \<Rightarrow> bool" where
  "opens fds w r \<longleftrightarrow> (if fst r = - 1 then fds (snd r) = fds w else fst r \<notin> fds w \<and> fds (snd r) = insert (fst r) (fds w))"

definition tracks :: "'w sys \<Rightarrow> ('w \<Rightarrow> int set) \<Rightarrow> bool" where
  "tracks os fds \<longleftrightarrow>
     (\<forall>f t p w. opens fds w (os_socket os f t p w)) \<and>
     (\<forall>s w. opens fds w (os_accept os s w)) \<and>
     (\<forall>s w. fds (os_close os s w) = fds w - {s}) \<and>
     (\<forall>s n w. fds (snd (os_getsockname os s n w)) = fds w) \<and>
     (\<forall>a w. fds (snd (os_getnameinfo os a w)) = fds w) \<and>
     (\<forall>h s f w. fds (snd (os_getaddrinfo os h s f w)) = fds w) \<and>
     (\<forall>w. fds (os_freeaddrinfo os w) = fds w) \<and>
     (\<forall>s a w. fds (snd (os_connect os s a w)) = fds w) \<and>
     (\<forall>s a w. fds (snd (os_bind os s a w)) = fds w) \<and>
     (\<forall>s b w. fds (snd (os_listen os s b w)) = fds w) \<and>
     (\<forall>s b n f w. fds (snd (os_recv os s b n f w)) = fds w) \<and>
     (\<forall>s b n f m w. fds (snd (os_recvfrom os s b n f m w)) = fds w) \<and>
     (\<forall>s b n f w. fds (snd (os_send os s b n f w)) = fds w) \<and>
     (\<forall>s b n f a w. fds (snd (os_sendto os s b n f a w)) = fds w) \<and>
     (\<forall>s d w. fds (snd (os_shutdown os s d w)) = fds w)"

lemma tracksD:
  assumes "tracks os fds"
  shows "opens fds w (os_socket os f t p w)" "opens fds w (os_accept os s w)"
    "fds (os_close os s w) = fds w - {s}" "fds (snd (os_getsockname os s n w)) = fds w"
    "fds (snd (os_getnameinfo os a w)) = fds w" "fds (snd (os_getaddrinfo os h sv hi w)) = fds w"
    "fds (os_freeaddrinfo os w) = fds w" "fds (snd (os_connect os s a w)) = fds w"
    "fds (snd (os_bind os s a w)) = fds w" "fds (snd (os_listen os s bl w)) = fds w"
    "fds (snd (os_recv os s b sz fg w)) = fds w" "fds (snd (os_recvfrom os s b sz fg m w)) = fds w"
    "fds (snd (os_send os s b sz fg w)) = fds w" "fds (snd (os_sendto os s b sz fg a w)) = fds w"
    "fds (snd (os_shutdown os s d w)) = fds w"
  using assms by (simp_all add: tracks_def del: split_paired_All)

definition owned :: "impl \<Rightarrow> int set" where
  "owned e = (if Socket e = INVALID_SOCKET then {} else {Socket e})"

lemma owned_cong [ep_simps]: "owned (saveLastError os w e) = owned e" "owned (reset e) = {}"
  "owned (e\<lparr>Status := st\<rparr>) = owned e"
  by (simp_all add: owned_def ep_simps)

lemma close_fds:
  assumes t: "tracks os fds" shows "fds (snd (impl_close os e w)) = fds w - owned e"
  by (auto simp: impl_close_def impl_shutdown_def Let_def case_prod_beta owned_def ep_simps tracksD [OF t])

lemma name_endpoint_fds:
  assumes t: "tracks os fds" shows "name_endpoint os a sa e w = Some (e', w') \<Longrightarrow> fds w' = fds w"
  by (auto simp: name_endpoint_def Let_def case_prod_beta bind_eq_Some_conv tracksD [OF t]
    split: if_split_asm)

lemma resolvePeer_fds:
  assumes t: "tracks os fds" shows "resolvePeer os p pr h s w = Some (r, w') \<Longrightarrow> fds w' = fds w"
  by (auto simp: resolvePeer_def Let_def case_prod_beta bind_eq_Some_conv tracksD [OF t]
    split: if_split_asm)

lemma connect_fds:
  assumes t: "tracks os fds" and r: "impl_connect os a s e w = Some (res, e', w')"
  shows "fds w' = fds w"
proof (cases "s = None \<or> Status e \<noteq> ESTAT_INIT")
  case False
  then obtain sv where s: "s = Some sv" "Status e = ESTAT_INIT" by auto
  define h where "h = (case a of None \<Rightarrow> lit ''localhost'' | Some a \<Rightarrow> a)"
  let ?p = "\<lparr>Data = replicate MAXADDRLEN (0 :: u8), Length = 0\<rparr>"
  obtain ok p w1 where p: "resolvePeer os (Protocol e) ?p (Some h) sv w = Some ((ok, p), w1)"
    using r by (auto simp: impl_connect_def s h_def [symmetric] bind_eq_Some_conv)
  note w1 = resolvePeer_fds [OF t p]
  show ?thesis
  proof (cases ok)
    case True
    then obtain sa where sa: "sockaddr p = Some sa"
      using r by (auto simp: impl_connect_def s h_def [symmetric] p bind_eq_Some_conv)
    obtain ec w2 where c: "os_connect os (Socket e) sa w1 = (ec, w2)" by (rule prod.exhaust)
    then have w2: "fds w2 = fds w" using tracksD(8) [OF t, of "Socket e" sa w1] w1 by simp
    show ?thesis using r w2 True name_endpoint_fds [OF t]
      by (auto simp: impl_connect_def s h_def [symmetric] p sa c Let_def bind_eq_Some_conv split: if_split_asm)
  qed (use r w1 in \<open>simp add: impl_connect_def s h_def [symmetric] p\<close>)
qed (use r in \<open>auto simp: impl_connect_def Let_def split: option.split_asm\<close>)

lemma listen_bound_fds:
  assumes t: "tracks os fds" and r: "impl_listen_bound os a b sa e w = Some (res, e', w')"
  shows "fds w' = fds w"
proof -
  obtain ec w1 where q: "(if is_tcp (Protocol e) then os_listen os (Socket e) b w else (0, w)) = (ec, w1)"
    by (rule prod.exhaust)
  then have w: "fds w1 = fds w" using tracksD(10) [OF t, of "Socket e" b w] by (cases "is_tcp (Protocol e)") simp_all
  show ?thesis
  proof (cases "ec = 0")
    case True
    then obtain e1 e2 where "name_endpoint os a sa e1 w1 = Some (e2, w')" using r
      unfolding impl_listen_bound_def Let_def q by (auto simp: bind_eq_Some_conv)
    then have "fds w' = fds w1" by (rule name_endpoint_fds [OF t])
    then show ?thesis using w by simp
  next
    case False
    then show ?thesis using r w unfolding impl_listen_bound_def Let_def q by simp
  qed
qed

lemma listen_fds:
  assumes t: "tracks os fds" and r: "impl_listen os a s b e w = Some (r, e', w')"
  shows "fds w' = fds w"
proof (cases "s = None \<or> Status e \<noteq> ESTAT_INIT")
  case False
  then obtain sv where s: "s = Some sv" "Status e = ESTAT_INIT" by auto
  define hi where "hi = resolve_hints (Protocol e) (if a = None then AI_PASSIVE else 0)"
  obtain ec sa w1 where g: "os_getaddrinfo os a sv hi w = ((ec, sa), w1)" by (metis surj_pair)
  obtain ec2 w2 where b: "os_bind os (Socket e) sa w1 = (ec2, w2)" by (metis surj_pair)
  have w: "fds w2 = fds w" "fds w1 = fds w"
    using tracksD(6) [OF t, of a sv hi w] tracksD(9) [OF t, of "Socket e" sa w1] g b by simp_all
  show ?thesis using r w listen_bound_fds [OF t, of a b sa e w2]
    by (auto simp: impl_listen_def s Let_def hi_def [symmetric] g b bind_eq_Some_conv tracksD(7) [OF t] split: if_split_asm)
qed (use r in \<open>auto simp: impl_listen_def split: option.split_asm\<close>)

lemma transfer_fds:
  assumes t: "tracks os fds"
  shows "impl_recv os b n e w = (r, e', w') \<Longrightarrow> fds w' = fds w"
    "impl_recvFrom os p b n e w = (r, p', e', w') \<Longrightarrow> fds w' = fds w"
    "impl_send os b n e w = (r, e', w') \<Longrightarrow> fds w' = fds w"
    "impl_sendTo os p b n e w = Some (r, e', w') \<Longrightarrow> fds w' = fds w"
    "impl_shutdown os d e w = (code, e', w') \<Longrightarrow> fds w' = fds w"
  by (auto simp: impl_recv_def impl_recvFrom_def impl_send_def impl_sendTo_def impl_shutdown_def transferred_def Let_def
    bind_eq_Some_conv case_prod_beta tracksD [OF t] split: if_split_asm option.split_asm)

lemma adopt_fds:
  assumes "impl_adopt os p s st w = Some (e, w')" "tracks os fds" "s \<noteq> INVALID_SOCKET" "s \<in> fds w"
  shows "owned e \<subseteq> {s} \<and> fds w' = fds w - {s} \<union> owned e"
proof -
  have f: "owned (e\<lparr>SockInfo := i\<rparr>) = owned e" "owned (e\<lparr>Address := ad\<rparr>) = owned e" "owned (e\<lparr>Port := pt\<rparr>) = owned e"
    "owned (e\<lparr>Socket := s\<rparr>) = {s}" for e :: impl and i ad pt
    using assms(3) by (simp_all add: owned_def)
  obtain ec a n w1 where g: "os_getsockname os s (int MAXADDRLEN) w = ((ec, a, n), w1)" by (metis prod_cases3 surj_pair)
  then have w1: "fds w1 = fds w" using tracksD(4) [OF assms(2), of s "int MAXADDRLEN" w] by simp
  define e0 where "e0 = (reset (raw_impl p))\<lparr>Status := st, Socket := s,
    SockInfo := \<lparr>Data = overlay a (replicate MAXADDRLEN 0), Length = n\<rparr>\<rparr>"
  have A: "impl_adopt os p s st w =
     (if ec = 0
      then do { a \<leftarrow> sockaddr (SockInfo e0);
                let ((ec, host, serv), w) = os_getnameinfo os a w1;
                let e = e0\<lparr>Address := overlay (host @ [0]) (Address e0)\<rparr>;
                if ec = 0
                then do { v \<leftarrow> lexical_cast_cstr T_u32 serv; Some (e\<lparr>Port := of_int v\<rparr>, w) }
                else Some (impl_close os (saveLastError os w e) w) }
      else Some (impl_close os (saveLastError os w1 e0) w1))"
    by (simp add: impl_adopt_def g Let_def e0_def reset_def)
  have o0: "owned e0 = {s}" using assms(3) by (simp add: e0_def owned_def)
  have "owned e = {s} \<and> fds w' = fds w \<or> (\<exists>x w1. (e, w') = impl_close os x w1 \<and> owned x = {s} \<and> fds w1 = fds w)"
  proof (cases "ec = 0")
    case True
    then obtain sa where sa: "sockaddr (SockInfo e0) = Some sa" using A assms(1) by (cases "sockaddr (SockInfo e0)") auto
    obtain ec2 h sv w2 where g2: "os_getnameinfo os sa w1 = ((ec2, h, sv), w2)" by (metis prod_cases3 surj_pair)
    then have w2: "fds w2 = fds w" using tracksD(5) [OF assms(2), of sa w1] w1 by simp
    show ?thesis
    proof (cases "ec2 = 0")
      case True
      then show ?thesis using assms(1) A \<open>ec = 0\<close> sa g2 w2 o0 by (auto simp: Let_def bind_eq_Some_conv f)
    next
      case False
      then have "(e, w') = impl_close os (saveLastError os w2 (e0\<lparr>Address := overlay (h @ [0]) (Address e0)\<rparr>)) w2"
        using assms(1) A \<open>ec = 0\<close> sa g2 by simp
      moreover have "owned (saveLastError os w2 (e0\<lparr>Address := overlay (h @ [0]) (Address e0)\<rparr>)) = {s}"
        using o0 by (simp add: owned_cong f)
      ultimately show ?thesis using w2 by blast
    qed
  next
    case False
    then have "(e, w') = impl_close os (saveLastError os w1 e0) w1" using assms(1) A by simp
    then show ?thesis using w1 o0 owned_cong(1) by metis
  qed
  then show ?thesis
  proof
    assume "\<exists>x w1. (e, w') = impl_close os x w1 \<and> owned x = {s} \<and> fds w1 = fds w"
    then obtain x w1 where x: "(e, w') = impl_close os x w1" "owned x = {s}" "fds w1 = fds w" by blast
    then have "owned e = {}" "fds w' = fds w - {s}"
      using close_fds [OF assms(2), of x w1] close_simps [of os x w1 e w'] by (simp_all add: owned_def flip: x(1))
    then show ?thesis by simp
  qed (use assms(4) in auto)
qed

lemma new_fds:
  assumes t: "tracks os fds"
  shows "owned (fst (impl_new os p w)) \<inter> fds w = {}" "fds (snd (impl_new os p w)) = fds w \<union> owned (fst (impl_new os p w))"
  using tracksD(1) [OF t, of w "family_of p" "fst (type_of p)" "snd (type_of p)"]
  by (auto simp: impl_new_def Let_def case_prod_beta owned_def ep_simps opens_def split: if_split_asm)

text \<open>What one call does to the descriptors.\<close>

lemma run_fds:
  assumes t: "tracks os fds" and r: "ep_run os c e w = Some (code, p, e', w')" and o: "owned e \<subseteq> fds w"
  shows "fds w' = (fds w - (owned e - owned e')) \<union> (case p of None \<Rightarrow> {} | Some q \<Rightarrow> owned q) \<and> owned e' \<subseteq> owned e \<and>
    (case p of None \<Rightarrow> {} | Some q \<Rightarrow> owned q) \<inter> fds w = {}"
proof (cases c)
  case (Connect a s)
  then show ?thesis using r connect_fds [OF t] connect_protocol [of os a s e w] by (auto simp: owned_def)
next
  case (Listen a s b)
  then show ?thesis using r listen_fds [OF t] listen_protocol [of os a s b e w] by (auto simp: owned_def)
next
  case Accept
  then have a: "impl_accept os e w = Some ((p, code), e', w')" using r by auto
  have e: "owned e' = owned e" using accept_protocol [OF a] by (simp add: owned_def)
  show ?thesis
  proof (cases p)
    case None
    then show ?thesis using a e tracksD(2) [OF t, of w "Socket e"]
      by (auto simp: impl_accept_def Let_def case_prod_beta bind_eq_Some_conv opens_def split: if_split_asm)
  next
    case (Some q)
    then obtain s w1 where s: "os_accept os (Socket e) w = (s, w1)" "s \<noteq> INVALID_SOCKET"
      "impl_adopt os (Protocol e) s ESTAT_CONNECTED w1 = Some (q, w')" using a
      by (auto simp: impl_accept_def Let_def case_prod_beta bind_eq_Some_conv split: if_split_asm intro: prod.collapse [symmetric])
    have "s \<notin> fds w" "fds w1 = insert s (fds w)" using tracksD(2) [OF t, of w "Socket e"] s(1,2) by (simp_all add: opens_def)
    then show ?thesis using adopt_fds [OF s(3) t s(2)] e Some by auto
  qed
next
  case Close
  then show ?thesis using r close_fds [OF t, of e w] close_simps [of os e w e' w'] by (auto simp: owned_def)
next
  case (Recv b n)
  then show ?thesis using r transfer_fds(1) [OF t] transfer_protocol(1) [of os b n e w] by (auto simp: owned_def split: prod.split_asm)
next
  case (RecvFrom pr b n)
  then show ?thesis using r transfer_fds(2) [OF t] transfer_protocol(2) [of os pr b n e w] by (auto simp: owned_def split: prod.split_asm)
next
  case (Send b n)
  then show ?thesis using r transfer_fds(3) [OF t] transfer_protocol(3) [of os b n e w] by (auto simp: owned_def split: prod.split_asm)
next
  case (SendTo pr b n)
  then show ?thesis using r transfer_fds(4) [OF t] transfer_protocol(4) [of os pr b n e w] by (auto simp: owned_def split: prod.split_asm)
next
  case (Shutdown d)
  then show ?thesis using r transfer_fds(5) [OF t] shutdown_simps [of os d e w] by (auto simp: owned_def split: prod.split_asm)
qed

text \<open>
  A session: a list of calls on one endpoint, which collects the endpoints that it accepts; at the
  end they are all released.
\<close>

fun ep_session :: "'w sys \<Rightarrow> ep_call list \<Rightarrow> impl \<Rightarrow> impl list \<Rightarrow> 'w \<Rightarrow> (impl \<times> impl list \<times> 'w) option" where
  "ep_session os [] e qs w = Some (e, qs, w)"
| "ep_session os (c # cs) e qs w = do { (code, p, e, w) \<leftarrow> ep_run os c e w;
     ep_session os cs e (case p of None \<Rightarrow> qs | Some q \<Rightarrow> q # qs) w }"

fun release_all :: "'w sys \<Rightarrow> impl list \<Rightarrow> 'w \<Rightarrow> 'w" where
  "release_all os [] w = w"
| "release_all os (e # es) w = release_all os es (snd (impl_close os e w))"

lemma release_all_fds: "tracks os fds \<Longrightarrow> fds (release_all os es w) = fds w - (\<Union>e \<in> set es. owned e)"
  by (induction es arbitrary: w) (auto simp: close_fds)

lemma session_sets:
  "\<lbrakk>W = F \<union> A \<union> Q; F \<inter> (A \<union> Q) = {}; A \<inter> Q = {}; W1 = (W - (A - B)) \<union> N; B \<subseteq> A; N \<inter> W = {}\<rbrakk>
    \<Longrightarrow> W1 = F \<union> B \<union> (N \<union> Q) \<and> F \<inter> (B \<union> (N \<union> Q)) = {} \<and> B \<inter> (N \<union> Q) = {}"
  by auto

text \<open>All open descriptors but those of before are owned by the endpoints of the session.\<close>

lemma session_fds:
  assumes t: "tracks os fds"
  shows "\<lbrakk>ep_session os cs e qs w = Some (e', qs', w'); fds w = F \<union> owned e \<union> (\<Union>q \<in> set qs. owned q);
      F \<inter> (owned e \<union> (\<Union>q \<in> set qs. owned q)) = {}; owned e \<inter> (\<Union>q \<in> set qs. owned q) = {}\<rbrakk>
    \<Longrightarrow> fds w' = F \<union> owned e' \<union> (\<Union>q \<in> set qs'. owned q) \<and> F \<inter> (owned e' \<union> (\<Union>q \<in> set qs'. owned q)) = {}"
proof (induction cs arbitrary: e qs w)
  case (Cons c cs)
  obtain code p e1 w1 where r: "ep_run os c e w = Some (code, p, e1, w1)"
    and s: "ep_session os cs e1 (case p of None \<Rightarrow> qs | Some q \<Rightarrow> q # qs) w1 = Some (e', qs', w')"
    using Cons.prems(1) by (auto simp: bind_eq_Some_conv)
  let ?n = "case p of None \<Rightarrow> {} | Some q \<Rightarrow> owned q" and ?qs = "case p of None \<Rightarrow> qs | Some q \<Rightarrow> q # qs"
  have f: "fds w1 = (fds w - (owned e - owned e1)) \<union> ?n" "owned e1 \<subseteq> owned e" "?n \<inter> fds w = {}"
    using run_fds [OF t r] Cons.prems(2) by auto
  have q: "(\<Union>q \<in> set ?qs. owned q) = ?n \<union> (\<Union>q \<in> set qs. owned q)" by (cases p) auto
  note z = session_sets [OF Cons.prems(2-4) f]
  show ?case by (rule Cons.IH [OF s]) (use z in \<open>simp_all only: q\<close>)
qed simp

text \<open>
  C22: No descriptor leaks: whatever calls are made on a new endpoint, and however they fail,
  releasing it and the endpoints it accepted leaves exactly the descriptors open that were open
  before it was created, and a \<open>create\<close> with an address that returns null has closed its socket.
\<close>

theorem endpoint_no_leak:
  assumes "tracks os fds"
  shows "(ep_session os cs (fst (impl_new os p w)) [] (snd (impl_new os p w)) = Some (e, qs, w') \<longrightarrow>
      fds (release_all os (e # qs) w') = fds w) \<and>
    (ep_create_listen os p a s b w = Some ((ep :: 'c endpoint option, code), w'') \<longrightarrow>
      fds (ep_release os ep w'') = fds w \<and> (ep = None \<longrightarrow> fds w'' = fds w))"
proof (intro conjI impI)
  note n = new_fds [OF assms, of p w]
  assume "ep_session os cs (fst (impl_new os p w)) [] (snd (impl_new os p w)) = Some (e, qs, w')"
  then show "fds (release_all os (e # qs) w') = fds w"
    using session_fds [OF assms, of cs "fst (impl_new os p w)" "[]" _ e qs w' "fds w"] n
      release_all_fds [OF assms, of "e # qs" w'] by auto
next
  note n = new_fds [OF assms, of p w]
  assume "ep_create_listen os p a s b w = Some ((ep, code), w'')"
  moreover from this obtain ok code' i w1
    where l: "impl_listen os a s b (fst (impl_new os p w)) (snd (impl_new os p w)) = Some ((ok, code'), i, w1)"
    by (auto simp: ep_create_listen_def ep_new_def ep_listen_def ep_wrap_def Let_def case_prod_beta bind_eq_Some_conv)
  ultimately have r: "ep = (if ok then Some (ep_wrap i) else None)" "w'' = (if ok then w1 else snd (impl_close os i w1))"
    by (auto simp: ep_create_listen_def ep_new_def ep_listen_def ep_delete_def ep_wrap_def Let_def case_prod_beta)
  have "owned i = owned (fst (impl_new os p w))" using listen_protocol [OF l] by (simp add: owned_def)
  then have "fds (snd (impl_close os i w1)) = fds w"
    using close_fds [OF assms, of i w1] listen_fds [OF assms l] n by auto
  then show "fds (ep_release os ep w'') = fds w" "ep = None \<Longrightarrow> fds w'' = fds w"
    using r by (auto simp: ep_release_def ep_delete_def ep_wrap_def split: if_split_asm)
qed

section \<open>A system to run the witnesses on\<close>

text \<open>Its state is the list of open descriptors; every call succeeds, and the peer is port 80 of the local host.\<close>

definition fresh_fd :: "int list \<Rightarrow> int" where
  "fresh_fd l = foldr max l 2 + 1"

definition demo_sys :: "int list sys" where
  "demo_sys = \<lparr>os_errno = (\<lambda>w. 0), os_socket = (\<lambda>f t p w. (fresh_fd w, fresh_fd w # w)),
     os_getsockname = (\<lambda>s n w. ((0, [2, 0, 0, 80], 4), w)),
     os_getnameinfo = (\<lambda>a w. ((0, lit ''127.0.0.1'', lit ''80''), w)),
     os_getaddrinfo = (\<lambda>h s f w. ((0, [2, 0, 0, 80]), w)), os_freeaddrinfo = (\<lambda>w. w),
     os_connect = (\<lambda>s a w. (0, w)), os_bind = (\<lambda>s a w. (0, w)), os_listen = (\<lambda>s b w. (0, w)),
     os_accept = (\<lambda>s w. (fresh_fd w, fresh_fd w # w)),
     os_recv = (\<lambda>s b n f w. (5, w)), os_recvfrom = (\<lambda>s b n f m w. ((5, [2, 0, 0, 80], 4), w)),
     os_send = (\<lambda>s b n f w. (5, w)), os_sendto = (\<lambda>s b n f a w. (5, w)), os_shutdown = (\<lambda>s d w. (0, w)),
     os_close = (\<lambda>s w. filter (\<lambda>x. x \<noteq> s) w)\<rparr>"

lemma fresh_fd_new: "fresh_fd l \<notin> set l \<and> fresh_fd l \<noteq> - 1"
proof -
  have "x \<in> set l \<Longrightarrow> x < fresh_fd l" for x by (induction l) (auto simp: fresh_fd_def)
  moreover have "2 < fresh_fd l" by (induction l) (auto simp: fresh_fd_def)
  ultimately show ?thesis by auto
qed

lemma demo_tracks: "tracks demo_sys set"
  using fresh_fd_new by (auto simp: tracks_def demo_sys_def opens_def)

lemma demo_documented: "documented demo_sys"
proof -
  have "lit ''80'' = dec_digits 80" by code_simp
  then have "\<exists>k \<in> {0..65535}. lit ''80'' = dec_digits k" by (intro bexI [of _ 80]) simp_all
  then show ?thesis by (simp add: documented_def demo_sys_def MAXADDRLEN_def)
qed

definition demo_ep :: impl where
  "demo_ep = fst (impl_new demo_sys 0x101 [])"

definition demo_call :: ep_call where
  "demo_call = Listen (Some (lit ''localhost'')) (Some (lit ''80'')) 10"

theorem endpoint_protocol_witness:
  "\<exists>code p e' w'. ep_run demo_sys demo_call demo_ep [3] = Some (code, p, e', w') \<and>
     status_after demo_call ESTAT_INIT code = Some (Status e') \<and> Socket e' = 3 \<and> p = None"
proof -
  have a: "allowed demo_call (Protocol demo_ep) (Status demo_ep)" "Status demo_ep = ESTAT_INIT" "Socket demo_ep = 3"
    by code_simp+
  have "ep_run demo_sys demo_call demo_ep [3] \<noteq> None" by code_simp
  then obtain code p e' w' where r: "ep_run demo_sys demo_call demo_ep [3] = Some (code, p, e', w')" by auto
  have "demo_call \<noteq> Close" "demo_call \<noteq> Accept" by (simp_all add: demo_call_def)
  then show ?thesis using endpoint_protocol [OF r] a r
    by (intro exI [of _ code] exI [of _ p] exI [of _ e'] exI [of _ w']) simp
qed

theorem endpoint_safe_witness:
  "impl_wf demo_ep \<and> ep_run demo_sys (SendTo None 0x1000 5) demo_ep [3] \<noteq> None"
  using endpoint_safe [OF demo_documented, of demo_ep "SendTo None 0x1000 5" "[3]"] ep_reach.new [of demo_sys "0x101" "[]"]
  by (simp add: demo_ep_def)

text \<open>A server that accepts two clients.\<close>

theorem endpoint_no_leak_witness:
  "\<exists>e qs w'. ep_session demo_sys [demo_call, Accept, Accept] demo_ep [] [3, 0] = Some (e, qs, w') \<and>
     set w' = {0, 3, 4, 5} \<and> set (release_all demo_sys (e # qs) w') = {0 :: int}"
proof -
  have n: "fst (impl_new demo_sys 0x101 [0]) = demo_ep" "snd (impl_new demo_sys 0x101 [0]) = [3, 0]" by code_simp+
  have "map_option (\<lambda>(e, qs, w'). w') (ep_session demo_sys [demo_call, Accept, Accept] demo_ep [] [3, 0]) = Some [5, 4, 3, 0]"
    by code_simp
  then obtain e qs where s: "ep_session demo_sys [demo_call, Accept, Accept] demo_ep [] [3, 0] = Some (e, qs, [5, 4, 3, 0])"
    by auto
  have "set (release_all demo_sys (e # qs) [5, 4, 3, 0]) = set [0]"
    using endpoint_no_leak [OF demo_tracks, where cs = "[demo_call, Accept, Accept]" and p = "0x101" and w = "[0]"
      and e = e and qs = qs and w' = "[5, 4, 3, 0]"] s unfolding n by blast
  then show ?thesis using s by (intro exI [of _ e] exI [of _ qs] exI [of _ "[5, 4, 3, 0]"]) auto
qed

text \<open>
  Corners.  When the name of an accepted socket cannot be had, the constructor closes the socket
  and thereby clears the error it saved, and \<open>accept\<close> reports success with an endpoint that is
  already dead.  When \<open>getaddrinfo\<close> fails, \<open>listen\<close> saves the unrelated value of \<open>errno\<close>.
\<close>

definition unnamed_sys :: "int list sys" where
  "unnamed_sys = demo_sys\<lparr>os_errno := (\<lambda>w. 12), os_getnameinfo := (\<lambda>a w. ((- 4, [], []), w)),
     os_getaddrinfo := (\<lambda>h s f w. ((- 2, []), w))\<rparr>"

lemma accept_dead:
  "map_option (\<lambda>((p, code), e, w). (map_option Status p, map_option Errno p, code))
     (impl_accept unnamed_sys (demo_ep\<lparr>Status := ESTAT_LISTENING\<rparr>) [3]) = Some (Some ESTAT_INVALID, Some 0, EE_SUCCESS)"
  by code_simp

lemma listen_stale_errno:
  "map_option (\<lambda>(r, e, w). (r, Errno e)) (impl_listen unnamed_sys None (Some (lit ''x'')) 10 demo_ep [3]) =
     Some ((False, EE_RESOLVE), 12)"
  by code_simp

end
