(* ===== verification/NetIoMux.thy ===== *)
theory NetIoMux
  imports NetEndpoint
begin

text \<open>
  src/netiomux.cpp over src/platform/netiomux\_epoll.hpp and netiomux\_syncfifo.hpp: asynchronous
  operations on endpoints, queued per endpoint, performed when epoll reports the socket ready, and
  reported to a callback.  Objects that are allocated with \<open>new\<close> live in two stores, keyed by
  numbers for their addresses; an address is not used twice.  The system is a parameter as for
  NetEndpoint, extended with the calls made here; the client's callback is a parameter too.  None
  is an access through a null or dangling pointer.  Assertions are those of an NDEBUG build.
\<close>

unbundle bit_operations_syntax

section \<open>The queue of pointers\<close>

datatype 'a fifo = Fifo (mList: "'a list")

definition fifo_empty :: "'a fifo" where
  "fifo_empty = Fifo []"

definition pop_front :: "'a fifo \<Rightarrow> ('a option \<times> u32) \<times> 'a fifo" where
  "pop_front q = (case mList q of [] \<Rightarrow> ((None, 0), q) | x # xs \<Rightarrow> ((Some x, of_nat (length xs)), Fifo xs))"

definition push_back :: "'a option \<Rightarrow> 'a fifo \<Rightarrow> 'a fifo" where
  "push_back data q = (case data of None \<Rightarrow> q | Some x \<Rightarrow> Fifo (mList q @ [x]))"

fun erase_from :: "'a \<Rightarrow> 'a list \<Rightarrow> 'a list option" where
  "erase_from x [] = None"
| "erase_from x (y # ys) = (if y = x then Some ys else map_option ((#) y) (erase_from x ys))"

definition fifo_erase :: "'a option \<Rightarrow> 'a fifo \<Rightarrow> bool \<times> 'a fifo" where
  "fifo_erase data q = (case data of None \<Rightarrow> (False, q)
     | Some x \<Rightarrow> (case erase_from x (mList q) of None \<Rightarrow> (False, q) | Some l \<Rightarrow> (True, Fifo l)))"

section \<open>Data\<close>

datatype EIoType = EIT_INVALID | EIT_RECV | EIT_RECVFROM | EIT_SEND | EIT_SENDTO | EIT_ACCEPT | EIT_CONNECT

datatype ERunningStatus = ERS_NORMAL | ERS_TIMEOUT | ERS_DISABLED

datatype EPlatformMultiplexer = EPM_IOCP | EPM_EPOLL | EPM_KQUEUE | EPM_MAX | EPM_UNKNOWN

text \<open>What \<open>Overlapped::buffer\<close> points to: the user's memory, or the host and service of a connect.\<close>

datatype iobuf = NoBuf | UserBuf ptr | HostInfo "8 str" "8 str"

record overlapped =
  iotype :: EIoType
  sep :: nat
  tep :: "nat option"
  buffer :: iobuf
  olen :: u32
  opeer :: "peer option"
  callback :: "nat option"
  errorcode :: int
  provisioned :: bool

definition new_overlapped :: "nat \<Rightarrow> EIoType \<Rightarrow> overlapped" where
  "new_overlapped ep iocode = \<lparr>iotype = iocode, sep = ep, tep = None, buffer = NoBuf, olen = 0, opeer = None,
     callback = None, errorcode = 0, provisioned = False\<rparr>"

record async_context =
  rdqueue :: "nat list"
  wrqueue :: "nat list"
  ready :: bool
  ctx_ep :: nat

type_synonym nep = "async_context endpoint"

text \<open>The last argument of a callback, and its call.\<close>

datatype cb_arg = NoArg | PeerArg "peer option" | EpArg "nat option"

record io_event =
  ev_cb :: nat
  ev_type :: EIoType
  ev_err :: EError
  ev_sep :: nat
  ev_arg :: cb_arg
  ev_buf :: iobuf
  ev_len :: u32

section \<open>The operating system\<close>

datatype epoll_op = EPOLL_CTL_ADD | EPOLL_CTL_MOD | EPOLL_CTL_DEL

record 'w muxsys =
  net :: "'w sys"
  os_accept_from :: "int \<Rightarrow> int \<Rightarrow> 'w \<Rightarrow> (int \<times> u8 list \<times> int) \<times> 'w"
  os_so_error :: "int \<Rightarrow> 'w \<Rightarrow> (int \<times> int) \<times> 'w" \<comment> \<open>getsockopt with SO_ERROR: result and value\<close>
  os_getfl :: "int \<Rightarrow> 'w \<Rightarrow> u32 \<times> 'w"
  os_setfl :: "int \<Rightarrow> u32 \<Rightarrow> 'w \<Rightarrow> 'w"
  os_epoll_create :: "'w \<Rightarrow> int \<times> 'w"
  os_epoll_ctl :: "int \<Rightarrow> epoll_op \<Rightarrow> int \<Rightarrow> u32 \<Rightarrow> nat \<Rightarrow> 'w \<Rightarrow> int \<times> 'w"
  os_epoll_wait :: "int \<Rightarrow> nat \<Rightarrow> u32 \<Rightarrow> 'w \<Rightarrow> (u32 \<times> nat) list option \<times> 'w" \<comment> \<open>None for -1\<close>

abbreviation (input) ENOENT :: int where "ENOENT \<equiv> 2"
abbreviation (input) EAGAIN :: int where "EAGAIN \<equiv> 11"
abbreviation (input) EWOULDBLOCK :: int where "EWOULDBLOCK \<equiv> 11"
abbreviation (input) ECONNABORTED :: int where "ECONNABORTED \<equiv> 103"
abbreviation (input) EINPROGRESS :: int where "EINPROGRESS \<equiv> 115"
abbreviation (input) MSG_DONTWAIT :: int where "MSG_DONTWAIT \<equiv> 0x40"
abbreviation (input) O_NONBLOCK :: u32 where "O_NONBLOCK \<equiv> 0x800"
definition EPOLLIN :: u32 where "EPOLLIN = 0x1"
definition EPOLLOUT :: u32 where "EPOLLOUT = 0x4"
definition EPOLLERR :: u32 where "EPOLLERR = 0x8"
definition EPOLLHUP :: u32 where "EPOLLHUP = 0x10"
definition EPOLLONESHOT :: u32 where "EPOLLONESHOT = 0x40000000"
definition EPOLLET :: u32 where "EPOLLET = 0x80000000"

section \<open>The state\<close>

text \<open>
  The multiplexer, the objects on the heap, the state of the system, and four records that the code
  does not have: the operations submitted, the calls of callbacks, the endpoints departed, and the
  events that epoll was asked for on behalf of an endpoint and has not reported since.
\<close>

record 'w mux =
  mCompletionList :: "nat fifo"
  mReadyList :: "nat fifo"
  mEnable :: bool
  mEpollfd :: int
  pDefaultMuxCallback :: "nat option"
  eps :: "nat \<Rightarrow> nep option"
  next_ep :: nat
  ovs :: "nat \<Rightarrow> overlapped option"
  next_ov :: nat
  world :: 'w
  submitted_log :: "(nat \<times> nat \<times> EIoType) list"
  event_log :: "(nat \<times> io_event) list"
  departed :: "nat set"
  asked :: "nat \<Rightarrow> u32"

definition set_ep :: "nat \<Rightarrow> nep option \<Rightarrow> 'w mux \<Rightarrow> 'w mux" where
  "set_ep p e s = s\<lparr>eps := (eps s)(p := e)\<rparr>"

definition set_ov :: "nat \<Rightarrow> overlapped option \<Rightarrow> 'w mux \<Rightarrow> 'w mux" where
  "set_ov p o' s = s\<lparr>ovs := (ovs s)(p := o')\<rparr>"

definition push_completion :: "nat \<Rightarrow> 'w mux \<Rightarrow> 'w mux" where
  "push_completion p s = s\<lparr>mCompletionList := push_back (Some p) (mCompletionList s)\<rparr>"

definition push_ready :: "nat \<Rightarrow> 'w mux \<Rightarrow> 'w mux" where
  "push_ready p s = s\<lparr>mReadyList := push_back (Some p) (mReadyList s)\<rparr>"

text \<open>Constructor and destructor; the endpoints of the program exist beside the multiplexer.\<close>

definition mux_new :: "'w muxsys \<Rightarrow> (nat \<Rightarrow> nep option) \<Rightarrow> nat \<Rightarrow> 'w \<Rightarrow> 'w mux" where
  "mux_new os e n w =
     (let (fd, w) = os_epoll_create os w in
      \<lparr>mCompletionList = fifo_empty, mReadyList = fifo_empty, mEnable = (fd \<noteq> - 1), mEpollfd = fd,
       pDefaultMuxCallback = None, eps = e, next_ep = n, ovs = (\<lambda>_. None), next_ov = 0, world = w,
       submitted_log = [], event_log = [], departed = {}, asked = (\<lambda>_. 0)\<rparr>)"

definition mux_enable :: "bool \<Rightarrow> 'w mux \<Rightarrow> 'w mux" where
  "mux_enable val s = s\<lparr>mEnable := val\<rparr>"

definition mux_delete :: "'w muxsys \<Rightarrow> 'w mux \<Rightarrow> 'w mux" where
  "mux_delete os s =
     (let s = mux_enable False s in
      (if mEpollfd s \<noteq> - 1 then s\<lparr>world := os_close (net os) (mEpollfd s) (world s)\<rparr> else s)\<lparr>mEpollfd := - 1\<rparr>)"

definition setDefaultCallback :: "nat option \<Rightarrow> 'w mux \<Rightarrow> 'w mux" where
  "setDefaultCallback cb s = s\<lparr>pDefaultMuxCallback := cb\<rparr>"

definition getMultiplexerType :: "string \<times> EPlatformMultiplexer" where
  "getMultiplexerType = (''epoll'', EPM_EPOLL)"

section \<open>join and depart\<close>

text \<open>The part of \<open>join\<close> on the endpoint object at address \<open>p\<close>.\<close>

definition join_object :: "'w muxsys \<Rightarrow> nat \<Rightarrow> nep \<Rightarrow> 'w \<Rightarrow> nep \<times> 'w" where
  "join_object os p e w =
     (let sock = getSocket e;
          e = e\<lparr>pAsyncContext := Some \<lparr>rdqueue = [], wrqueue = [], ready = False, ctx_ep = p\<rparr>\<rparr>;
          (flags, w) = os_getfl os sock w
      in (e, os_setfl os sock (flags OR O_NONBLOCK) w))"

definition join :: "'w muxsys \<Rightarrow> nat \<Rightarrow> 'w mux \<Rightarrow> (bool \<times> 'w mux) option" where
  "join os p s =
     do { e \<leftarrow> eps s p;
          let (e, w) = join_object os p e (world s);
          Some (True, (set_ep p (Some e) s)\<lparr>world := w\<rparr>) }"

definition depart :: "'w muxsys \<Rightarrow> nat \<Rightarrow> 'w mux \<Rightarrow> (bool \<times> 'w mux) option" where
  "depart os p s =
     do { e \<leftarrow> eps s p;
          let sock = getSocket e;
          let (ec, w) = os_epoll_ctl os (mEpollfd s) EPOLL_CTL_DEL sock 0 0 (world s);
          let s = s\<lparr>world := w\<rparr>;
          if ec \<noteq> 0 \<and> os_errno (net os) w \<noteq> ENOENT then Some (False, s)
          else case pAsyncContext e of
            None \<Rightarrow> Some (False, s)
          | Some ctx \<Rightarrow>
             (let s = (if ready ctx then s\<lparr>mReadyList := snd (fifo_erase (Some p) (mReadyList s))\<rparr> else s);
                  s = set_ep p (Some (e\<lparr>pAsyncContext := None\<rparr>)) s;
                  (flags, w) = os_getfl os sock (world s);
                  w = os_setfl os sock (flags AND (0 XOR O_NONBLOCK)) w
              in Some (ec = 0, s\<lparr>world := w, departed := insert p (departed s), asked := (asked s)(p := 0)\<rparr>)) }"

section \<open>Submitting operations\<close>

definition appendAsyncOpLocked :: "nat \<Rightarrow> nat \<Rightarrow> bool \<Rightarrow> 'w mux \<Rightarrow> 'w mux option" where
  "appendAsyncOpLocked p op write s =
     do { e \<leftarrow> eps s p;
          case pAsyncContext e of
            None \<Rightarrow> Some s
          | Some ctx \<Rightarrow>
             (let ctx = (if write then ctx\<lparr>wrqueue := wrqueue ctx @ [op]\<rparr> else ctx\<lparr>rdqueue := rdqueue ctx @ [op]\<rparr>) in
              if \<not> ready ctx
              then Some (push_ready p (set_ep p (Some (e\<lparr>pAsyncContext := Some (ctx\<lparr>ready := True\<rparr>)\<rparr>)) s))
              else Some (set_ep p (Some (e\<lparr>pAsyncContext := Some ctx\<rparr>)) s)) }"

text \<open>What the six calls share: allocate the record and append it, if the endpoint has joined.\<close>

definition submit :: "nat \<Rightarrow> overlapped \<Rightarrow> bool \<Rightarrow> 'w mux \<Rightarrow> 'w mux option" where
  "submit p o' write s =
     do { e \<leftarrow> eps s p;
          if pAsyncContext e = None then Some s
          else let op = next_ov s;
                   s = (set_ov op (Some o') s)\<lparr>next_ov := op + 1, submitted_log := submitted_log s @ [(op, p, iotype o')]\<rparr>
            in appendAsyncOpLocked p op write s }"

definition asyncRecv :: "nat \<Rightarrow> ptr \<Rightarrow> u32 \<Rightarrow> nat option \<Rightarrow> 'w mux \<Rightarrow> 'w mux option" where
  "asyncRecv p buf buflen cb s =
     submit p ((new_overlapped p EIT_RECV)\<lparr>buffer := UserBuf buf, olen := buflen, callback := cb\<rparr>) False s"

text \<open>\<open>raw\<close> is the uninitialised \<open>Peer\<close> that \<open>new\<close> returns.\<close>

definition asyncRecvFrom :: "nat \<Rightarrow> ptr \<Rightarrow> u32 \<Rightarrow> nat option \<Rightarrow> peer \<Rightarrow> 'w mux \<Rightarrow> 'w mux option" where
  "asyncRecvFrom p buf buflen cb raw s =
     submit p ((new_overlapped p EIT_RECVFROM)\<lparr>buffer := UserBuf buf, olen := buflen, callback := cb, opeer := Some raw\<rparr>) False s"

definition asyncSend :: "nat \<Rightarrow> ptr \<Rightarrow> u32 \<Rightarrow> nat option \<Rightarrow> 'w mux \<Rightarrow> 'w mux option" where
  "asyncSend p buf buflen cb s =
     submit p ((new_overlapped p EIT_SEND)\<lparr>buffer := UserBuf buf, olen := buflen, callback := cb\<rparr>) True s"

definition asyncSendTo :: "nat \<Rightarrow> peer \<Rightarrow> ptr \<Rightarrow> u32 \<Rightarrow> nat option \<Rightarrow> 'w mux \<Rightarrow> 'w mux option" where
  "asyncSendTo p pr buf buflen cb s =
     submit p ((new_overlapped p EIT_SENDTO)\<lparr>buffer := UserBuf buf, olen := buflen, callback := cb, opeer := Some pr\<rparr>) True s"

definition asyncAccept :: "nat \<Rightarrow> nat option \<Rightarrow> peer \<Rightarrow> 'w mux \<Rightarrow> 'w mux option" where
  "asyncAccept p cb raw s =
     submit p ((new_overlapped p EIT_ACCEPT)\<lparr>callback := cb, opeer := Some (raw\<lparr>Length := int MAXADDRLEN\<rparr>)\<rparr>) False s"

definition asyncConnect :: "nat \<Rightarrow> 8 str \<Rightarrow> 8 str \<Rightarrow> nat option \<Rightarrow> 'w mux \<Rightarrow> 'w mux option" where
  "asyncConnect p host serviceOrPort cb s =
     submit p ((new_overlapped p EIT_CONNECT)\<lparr>callback := cb, buffer := HostInfo host serviceOrPort\<rparr>) True s"

text \<open>The members of NetIoMux: a null callback means the default one.\<close>

definition cb_or_default :: "nat option \<Rightarrow> 'w mux \<Rightarrow> nat option" where
  "cb_or_default cb s = (if cb \<noteq> None then cb else pDefaultMuxCallback s)"

datatype request =
    Recv_req ptr u32 "nat option" | RecvFrom_req ptr u32 "nat option" peer | Send_req ptr u32 "nat option"
  | SendTo_req peer ptr u32 "nat option" | Accept_req "nat option" peer | Connect_req "8 str" "8 str" "nat option"
  | ConnectPort_req "8 str" u32 "nat option"

fun mux_request :: "nat \<Rightarrow> request \<Rightarrow> 'w mux \<Rightarrow> 'w mux option" where
  "mux_request p (Recv_req buf n cb) s = asyncRecv p buf n (cb_or_default cb s) s"
| "mux_request p (RecvFrom_req buf n cb raw) s = asyncRecvFrom p buf n (cb_or_default cb s) raw s"
| "mux_request p (Send_req buf n cb) s = asyncSend p buf n (cb_or_default cb s) s"
| "mux_request p (SendTo_req pr buf n cb) s = asyncSendTo p pr buf n (cb_or_default cb s) s"
| "mux_request p (Accept_req cb raw) s = asyncAccept p (cb_or_default cb s) raw s"
| "mux_request p (Connect_req host service cb) s = asyncConnect p host service (cb_or_default cb s) s"
| "mux_request p (ConnectPort_req host port cb) s =
     do { portStr \<leftarrow> lexical_cast_text T_u32 (uint port); asyncConnect p host (c_string portStr) (cb_or_default cb s) s }"

section \<open>Performing an operation\<close>

text \<open>
  One attempt on the endpoint \<open>e\<close> for the record \<open>o'\<close>: whether it completed, and the objects
  after it.  \<open>would_block\<close> is the test of \<open>errno\<close> that all transfers share.
\<close>

definition would_block :: "'w muxsys \<Rightarrow> 'w \<Rightarrow> bool" where
  "would_block os w \<longleftrightarrow> \<not> (os_errno (net os) w \<noteq> EWOULDBLOCK \<and> os_errno (net os) w \<noteq> EAGAIN)"

text \<open>The first attempt checks the status of the endpoint.\<close>

definition refused :: "nep \<Rightarrow> EStatus \<Rightarrow> overlapped \<Rightarrow> bool" where
  "refused e required o' \<longleftrightarrow> \<not> provisioned o' \<and> getStatus e \<noteq> required"

definition io_result :: "'w muxsys \<Rightarrow> int \<Rightarrow> nep \<Rightarrow> overlapped \<Rightarrow> 'w \<Rightarrow> bool \<times> nep \<times> overlapped \<times> 'w" where
  "io_result os bytes e o' w =
     (if bytes \<ge> 0 then (True, e, o'\<lparr>olen := of_int bytes, errorcode := 0\<rparr>, w)
      else if \<not> would_block os w
      then (True, setLastPlatformErrno (os_errno (net os) w) e, o'\<lparr>olen := 0, errorcode := os_errno (net os) w\<rparr>, w)
      else (False, e, o', w))"

definition user_buffer :: "overlapped \<Rightarrow> ptr option" where
  "user_buffer o' = (case buffer o' of UserBuf p \<Rightarrow> Some p | _ \<Rightarrow> None)"

definition perform_recv :: "'w muxsys \<Rightarrow> nep \<Rightarrow> overlapped \<Rightarrow> 'w \<Rightarrow> (bool \<times> nep \<times> overlapped \<times> 'w) option" where
  "perform_recv os e o' w =
     (if refused e ESTAT_CONNECTED o' then Some (True, e, o'\<lparr>olen := 0, errorcode := 0\<rparr>, w)
      else let o' = o'\<lparr>provisioned := True\<rparr> in
        do { buf \<leftarrow> user_buffer o';
             let (bytes, w) = os_recv (net os) (getSocket e) buf (ucast (olen o')) MSG_DONTWAIT w;
             Some (io_result os bytes e o' w) })"

definition perform_recvfrom :: "'w muxsys \<Rightarrow> nep \<Rightarrow> overlapped \<Rightarrow> 'w \<Rightarrow> (bool \<times> nep \<times> overlapped \<times> 'w) option" where
  "perform_recvfrom os e o' w =
     (if refused e ESTAT_CONNECTED o' then Some (True, e, o'\<lparr>olen := 0, errorcode := 0\<rparr>, w)
      else let o' = o'\<lparr>provisioned := True\<rparr> in
        do { buf \<leftarrow> user_buffer o';
             pr \<leftarrow> opeer o';
             let ((bytes, addr, m), w) = os_recvfrom (net os) (getSocket e) buf (ucast (olen o')) MSG_DONTWAIT (Length pr) w;
             let o' = o'\<lparr>opeer := Some \<lparr>Data = overlay addr (Data pr), Length = m\<rparr>\<rparr>;
             Some (io_result os bytes e o' w) })"

definition perform_send :: "'w muxsys \<Rightarrow> nep \<Rightarrow> overlapped \<Rightarrow> 'w \<Rightarrow> (bool \<times> nep \<times> overlapped \<times> 'w) option" where
  "perform_send os e o' w =
     (if refused e ESTAT_CONNECTED o' then Some (True, e, o'\<lparr>olen := 0, errorcode := 0\<rparr>, w)
      else let o' = o'\<lparr>provisioned := True\<rparr> in
        do { buf \<leftarrow> user_buffer o';
             let (bytes, w) = os_send (net os) (getSocket e) buf (ucast (olen o')) MSG_DONTWAIT w;
             Some (io_result os bytes e o' w) })"

definition perform_sendto :: "'w muxsys \<Rightarrow> nep \<Rightarrow> overlapped \<Rightarrow> 'w \<Rightarrow> (bool \<times> nep \<times> overlapped \<times> 'w) option" where
  "perform_sendto os e o' w =
     (if refused e ESTAT_CONNECTED o' then Some (True, e, o'\<lparr>olen := 0, errorcode := 0\<rparr>, w)
      else let o' = o'\<lparr>provisioned := True\<rparr> in
        do { buf \<leftarrow> user_buffer o';
             pr \<leftarrow> opeer o';
             sa \<leftarrow> sockaddr pr;
             let (bytes, w) = os_sendto (net os) (getSocket e) buf (ucast (olen o')) MSG_DONTWAIT sa w;
             Some (io_result os bytes e o' w) })"

text \<open>\<open>accept\<close> also returns the endpoint it makes, which gets the address \<open>fresh\<close> and joins.\<close>

definition perform_accept ::
  "'w muxsys \<Rightarrow> nat \<Rightarrow> nep \<Rightarrow> overlapped \<Rightarrow> 'w \<Rightarrow> (bool \<times> nep \<times> overlapped \<times> nep option \<times> 'w) option" where
  "perform_accept os fresh e o' w =
     (if refused e ESTAT_LISTENING o' then Some (True, e, o'\<lparr>tep := None, olen := 0, buffer := NoBuf\<rparr>, None, w)
      else let o' = o'\<lparr>provisioned := True\<rparr> in
        do { pr \<leftarrow> opeer o';
             let ((peersock, addr, m), w) = os_accept_from os (getSocket e) (Length pr) w;
             let o' = o'\<lparr>opeer := Some \<lparr>Data = overlay addr (Data pr), Length = m\<rparr>\<rparr>;
             if peersock \<noteq> - 1
             then do { (t, w) \<leftarrow> ep_adopt (net os) (getProtocol e) peersock ESTAT_CONNECTED w;
                       let (t, w) = join_object os fresh t w;
                       Some (True, setStatus ESTAT_LISTENING e, o'\<lparr>errorcode := 0, olen := 0, tep := Some fresh\<rparr>, Some t, w) }
             else if \<not> would_block os w
             then Some (True, setStatus ESTAT_LISTENING (setLastPlatformErrno (os_errno (net os) w) e),
                        o'\<lparr>tep := None, olen := 0, errorcode := os_errno (net os) w\<rparr>, None, w)
             else Some (False, setStatus ESTAT_ACCEPTING e, o', None, w) })"

text \<open>The provisioning of a connect: Inl if it completes there.\<close>

definition provision_connect :: "'w muxsys \<Rightarrow> nep \<Rightarrow> overlapped \<Rightarrow> 'w \<Rightarrow> ((overlapped + overlapped) \<times> 'w) option" where
  "provision_connect os e o' w =
     (if provisioned o' then Some (Inr o', w)
      else if getStatus e \<noteq> ESTAT_INIT \<or> buffer o' = NoBuf
      then Some (Inl (o'\<lparr>olen := 0, errorcode := 0, opeer := None, buffer := NoBuf\<rparr>), w)
      else case buffer o' of
        HostInfo host service \<Rightarrow>
          do { ((resolved, pr), w) \<leftarrow> resolvePeer (net os) (getProtocol e) \<lparr>Data = replicate MAXADDRLEN 0, Length = 0\<rparr> (Some host) service w;
               let o' = o'\<lparr>opeer := Some pr\<rparr>;
               Some (if \<not> resolved then Inl (o'\<lparr>olen := 0, errorcode := 0\<rparr>) else Inr (o'\<lparr>provisioned := True\<rparr>), w) }
      | _ \<Rightarrow> None)"

text \<open>\<open>length\<close> is 1 while a call of \<open>connect\<close> is in progress.\<close>

definition perform_connect :: "'w muxsys \<Rightarrow> nep \<Rightarrow> overlapped \<Rightarrow> 'w \<Rightarrow> (bool \<times> nep \<times> overlapped \<times> 'w) option" where
  "perform_connect os e o' w =
     do { (r, w) \<leftarrow> provision_connect os e o' w;
          case r of Inl o' \<Rightarrow> Some (True, e, o', w)
          | Inr o' \<Rightarrow>
            if olen o' = 0
            then do { pr \<leftarrow> opeer o';
                      sa \<leftarrow> sockaddr pr;
                      let (ec, w) = os_connect (net os) (getSocket e) sa w;
                      Some (if ec = 0 then (True, setStatus ESTAT_CONNECTED e, o'\<lparr>olen := 0, errorcode := 0\<rparr>, w)
                            else if os_errno (net os) w \<noteq> EINPROGRESS
                            then (True, setStatus ESTAT_INIT (setLastPlatformErrno (os_errno (net os) w) e),
                                  o'\<lparr>olen := 0, errorcode := os_errno (net os) w\<rparr>, w)
                            else (False, setStatus ESTAT_CONNECTING e, o'\<lparr>olen := 1\<rparr>, w)) }
            else let ((ec, val), w) = os_so_error os (getSocket e) w in
              Some (if ec = 0 \<and> val = 0 then (True, setStatus ESTAT_CONNECTED e, o'\<lparr>errorcode := 0, olen := 0\<rparr>, w)
                    else (True, setStatus ESTAT_INIT (setLastPlatformErrno (os_errno (net os) w) e),
                          o'\<lparr>errorcode := os_errno (net os) w, opeer := None\<rparr>, w)) }"

definition no_new :: "bool \<times> nep \<times> overlapped \<times> 'w \<Rightarrow> bool \<times> nep \<times> overlapped \<times> nep option \<times> 'w" where
  "no_new r = (case r of (completed, e, o', w) \<Rightarrow> (completed, e, o', None, w))"

definition perform_io :: "'w muxsys \<Rightarrow> nat \<Rightarrow> nep \<Rightarrow> overlapped \<Rightarrow> 'w \<Rightarrow> (bool \<times> nep \<times> overlapped \<times> nep option \<times> 'w) option" where
  "perform_io os fresh e o' w =
     (case iotype o' of
        EIT_RECV \<Rightarrow> map_option no_new (perform_recv os e o' w)
      | EIT_RECVFROM \<Rightarrow> map_option no_new (perform_recvfrom os e o' w)
      | EIT_ACCEPT \<Rightarrow> perform_accept os fresh e o' w
      | EIT_SEND \<Rightarrow> map_option no_new (perform_send os e o' w)
      | EIT_SENDTO \<Rightarrow> map_option no_new (perform_sendto os e o' w)
      | EIT_CONNECT \<Rightarrow> map_option no_new (perform_connect os e o' w)
      | EIT_INVALID \<Rightarrow> Some (True, e, o', None, w))"

definition performIoLocked :: "'w muxsys \<Rightarrow> nat \<Rightarrow> nat \<Rightarrow> 'w mux \<Rightarrow> (bool \<times> 'w mux) option" where
  "performIoLocked os p op s =
     do { e \<leftarrow> eps s p;
          if pAsyncContext e = None then Some (False, s)
          else do {
            o' \<leftarrow> ovs s op;
            (completed, e, o', new, w) \<leftarrow> perform_io os (next_ep s) e o' (world s);
            let s = (set_ov op (Some o') (set_ep p (Some e) s))\<lparr>world := w\<rparr>;
            let s = (case new of None \<Rightarrow> s | Some t \<Rightarrow> (set_ep (next_ep s) (Some t) s)\<lparr>next_ep := next_ep s + 1\<rparr>);
            Some (completed, if completed then push_completion op s else s) } }"

section \<open>runOnce\<close>

text \<open>What the callback is told about a completed operation.\<close>

definition completion :: "overlapped \<Rightarrow> EError \<times> cb_arg \<times> iobuf \<times> u32" where
  "completion co =
     (case iotype co of
        EIT_RECV \<Rightarrow> (if \<not> provisioned co then (EE_INVALID_OP, NoArg, buffer co, 0)
           else if errorcode co = 0 then (EE_SUCCESS, NoArg, buffer co, olen co) else (EE_RECV, NoArg, buffer co, 0))
      | EIT_RECVFROM \<Rightarrow> (if \<not> provisioned co then (EE_INVALID_OP, NoArg, buffer co, 0)
           else if errorcode co = 0 then (EE_SUCCESS, PeerArg (opeer co), buffer co, olen co) else (EE_RECV, NoArg, buffer co, 0))
      | EIT_SEND \<Rightarrow> (if \<not> provisioned co then (EE_INVALID_OP, NoArg, buffer co, 0)
           else if errorcode co = 0 then (EE_SUCCESS, NoArg, buffer co, olen co) else (EE_SEND, NoArg, buffer co, 0))
      | EIT_SENDTO \<Rightarrow> (if \<not> provisioned co then (EE_INVALID_OP, PeerArg (opeer co), buffer co, 0)
           else if errorcode co = 0 then (EE_SUCCESS, PeerArg (opeer co), buffer co, olen co) else (EE_SEND, PeerArg (opeer co), buffer co, 0))
      | EIT_ACCEPT \<Rightarrow> (if \<not> provisioned co then (EE_INVALID_OP, NoArg, NoBuf, 0)
           else if errorcode co = 0 then (EE_SUCCESS, EpArg (tep co), NoBuf, 0) else (EE_ACCEPT, NoArg, NoBuf, 0))
      | EIT_CONNECT \<Rightarrow> (if \<not> provisioned co then (if opeer co = None then EE_INVALID_OP else EE_RESOLVE, NoArg, NoBuf, 0)
           else if errorcode co = 0 then (EE_SUCCESS, PeerArg (opeer co), NoBuf, 0) else (EE_CONNECT, NoArg, NoBuf, 0))
      | EIT_INVALID \<Rightarrow> (EE_INVALID_OP, NoArg, NoBuf, 0))"

definition event_of :: "nat \<Rightarrow> overlapped \<Rightarrow> io_event" where
  "event_of cb co = (case completion co of (err, arg, buf, n) \<Rightarrow>
     \<lparr>ev_cb = cb, ev_type = iotype co, ev_err = err, ev_sep = sep co, ev_arg = arg, ev_buf = buf, ev_len = n\<rparr>)"

text \<open>The completion queue: the callback runs, and may use the multiplexer, before the record is deleted.\<close>

definition dispatch :: "(io_event \<Rightarrow> 'w mux \<Rightarrow> 'w mux option) \<Rightarrow> 'w mux \<Rightarrow> (bool \<times> 'w mux) option" where
  "dispatch client s =
     (let ((co, pendingCnt), q) = pop_front (mCompletionList s); s = s\<lparr>mCompletionList := q\<rparr> in
      case co of None \<Rightarrow> Some (False, s)
      | Some op \<Rightarrow>
        do { o' \<leftarrow> ovs s op;
             s \<leftarrow> (if iotype o' = EIT_INVALID then Some s
                   else do { cb \<leftarrow> callback o';
                             let ev = event_of cb o';
                             client ev (s\<lparr>event_log := event_log s @ [(op, ev)]\<rparr>) });
             Some (True, set_ov op None s) })"

text \<open>The operations of one queue, until one would block; the rest stays queued.\<close>

fun drain :: "'w muxsys \<Rightarrow> nat \<Rightarrow> nat list \<Rightarrow> 'w mux \<Rightarrow> (nat list \<times> 'w mux) option" where
  "drain os p [] s = Some ([], s)"
| "drain os p (op # q) s =
     do { (completed, s) \<leftarrow> performIoLocked os p op s;
          if completed then drain os p q s else Some (op # q, s) }"

definition update_ctx :: "nat \<Rightarrow> (async_context \<Rightarrow> async_context) \<Rightarrow> 'w mux \<Rightarrow> 'w mux option" where
  "update_ctx p f s = do { e \<leftarrow> eps s p; c \<leftarrow> pAsyncContext e; Some (set_ep p (Some (e\<lparr>pAsyncContext := Some (f c)\<rparr>)) s) }"

definition interest :: "nat list \<Rightarrow> nat list \<Rightarrow> u32" where
  "interest rd wr = (EPOLLET OR EPOLLONESHOT) OR (if rd \<noteq> [] then EPOLLIN else 0) OR (if wr \<noteq> [] then EPOLLOUT else 0)"

definition rearm :: "'w muxsys \<Rightarrow> nat \<Rightarrow> int \<Rightarrow> nat list \<Rightarrow> nat list \<Rightarrow> 'w mux \<Rightarrow> 'w mux" where
  "rearm os p sock rd wr s =
     (if rd = [] \<and> wr = [] then s
      else let (ec, w) = os_epoll_ctl os (mEpollfd s) EPOLL_CTL_MOD sock (interest rd wr) p (world s);
               w = (if ec = - 1 \<and> os_errno (net os) w = ENOENT
                    then snd (os_epoll_ctl os (mEpollfd s) EPOLL_CTL_ADD sock (interest rd wr) p w) else w)
        in s\<lparr>world := w, asked := (asked s)(p := interest rd wr)\<rparr>)"

text \<open>The ready list: the work under the lock of an endpoint, up to what its queues still hold, and then the rest.\<close>

definition perform_queues :: "'w muxsys \<Rightarrow> nat \<Rightarrow> async_context \<Rightarrow> 'w mux \<Rightarrow> (nat list \<times> nat list \<times> 'w mux) option" where
  "perform_queues os p ctx s =
     do { s \<leftarrow> update_ctx p (\<lambda>c. c\<lparr>ready := False\<rparr>) s;
          (rd, s) \<leftarrow> drain os p (rdqueue ctx) s;
          s \<leftarrow> update_ctx p (\<lambda>c. c\<lparr>rdqueue := rd\<rparr>) s;
          (wr, s) \<leftarrow> drain os p (wrqueue ctx) s;
          s \<leftarrow> update_ctx p (\<lambda>c. c\<lparr>wrqueue := wr\<rparr>) s;
          Some (rd, wr, s) }"

definition consume_ready :: "'w muxsys \<Rightarrow> 'w mux \<Rightarrow> ((bool \<times> u32) \<times> 'w mux) option" where
  "consume_ready os s =
     (let ((p, pendingCnt), q) = pop_front (mReadyList s); s = s\<lparr>mReadyList := q\<rparr> in
      case p of None \<Rightarrow> Some ((False, pendingCnt), s)
      | Some p \<Rightarrow>
        do { e \<leftarrow> eps s p;
             case pAsyncContext e of None \<Rightarrow> Some ((False, pendingCnt), s)
             | Some ctx \<Rightarrow>
               do { (rd, wr, s) \<leftarrow> perform_queues os p ctx s;
                    Some ((rdqueue ctx \<noteq> [] \<or> wrqueue ctx \<noteq> [], pendingCnt), rearm os p (getSocket e) rd wr s) } })"

text \<open>An event of epoll.\<close>

fun abort_all :: "nat list \<Rightarrow> 'w mux \<Rightarrow> 'w mux option" where
  "abort_all [] s = Some s"
| "abort_all (op # q) s =
     do { o' \<leftarrow> ovs s op; abort_all q (push_completion op (set_ov op (Some (o'\<lparr>errorcode := ECONNABORTED\<rparr>)) s)) }"

definition handle_event :: "u32 \<times> nat \<Rightarrow> 'w mux \<Rightarrow> 'w mux option" where
  "handle_event evt s =
     (let (events, p) = evt in
      do { e \<leftarrow> eps s p;
           ctx \<leftarrow> pAsyncContext e;
           s \<leftarrow> update_ctx p (\<lambda>c. c\<lparr>ready := False\<rparr>) (s\<lparr>asked := (asked s)(p := 0)\<rparr>);
           if events AND (EPOLLERR OR EPOLLHUP) \<noteq> 0
           then do { s \<leftarrow> abort_all (rdqueue ctx) s;
                     s \<leftarrow> abort_all (wrqueue ctx) s;
                     update_ctx p (\<lambda>c. c\<lparr>rdqueue := [], wrqueue := []\<rparr>) s }
           else if events AND (EPOLLIN OR EPOLLOUT) \<noteq> 0
           then do { s \<leftarrow> update_ctx p (\<lambda>c. c\<lparr>ready := True\<rparr>) s; Some (push_ready p s) }
           else Some s })"

fun handle_events :: "(u32 \<times> nat) list \<Rightarrow> 'w mux \<Rightarrow> 'w mux option" where
  "handle_events [] s = Some s"
| "handle_events (ev # evs) s = do { s \<leftarrow> handle_event ev s; handle_events evs s }"

definition MAX_READY_LIST_LEN :: u32 where "MAX_READY_LIST_LEN = 10240"

definition wait_events :: "'w muxsys \<Rightarrow> u32 \<Rightarrow> 'w mux \<Rightarrow> (ERunningStatus \<times> 'w mux) option" where
  "wait_events os timeout s =
     (let (evts, w) = os_epoll_wait os (mEpollfd s) 128 timeout (world s); s = s\<lparr>world := w\<rparr> in
      case evts of None \<Rightarrow> Some (ERS_DISABLED, s)
      | Some [] \<Rightarrow> Some (ERS_TIMEOUT, s)
      | Some evs \<Rightarrow> do { s \<leftarrow> handle_events evs s; Some (ERS_NORMAL, s) })"

definition runOnce :: "'w muxsys \<Rightarrow> (io_event \<Rightarrow> 'w mux \<Rightarrow> 'w mux option) \<Rightarrow> u32 \<Rightarrow> 'w mux \<Rightarrow> (ERunningStatus \<times> 'w mux) option" where
  "runOnce os client timeoutMs s =
     do { (consumed1, s) \<leftarrow> dispatch client s;
          ((consumed2, pendingCnt), s) \<leftarrow> consume_ready os s;
          if pendingCnt < MAX_READY_LIST_LEN
          then wait_events os (if consumed1 \<or> consumed2 then 0 else timeoutMs) s
          else Some (ERS_NORMAL, s) }"

text \<open>\<open>run\<close> may run forever; None is that, or undefined behaviour on the way.\<close>

partial_function (option) run :: "'w muxsys \<Rightarrow> (io_event \<Rightarrow> 'w mux \<Rightarrow> 'w mux option) \<Rightarrow> 'w mux \<Rightarrow> 'w mux option" where
  "run os client s =
     (if \<not> mEnable s then Some s
      else do { (r, s) \<leftarrow> runOnce os client 10 s;
                if r = ERS_DISABLED then Some s else run os client s })"

end
