(* ===== verification/NetIoMuxInv.thy ===== *)
theory NetIoMuxInv
  imports NetIoMux "HOL-Library.Sublist"
begin

text \<open>
  The multiplexer as a transition system: the steps of the client, of the worker threads and of
  the rest of the program, the contract of the queue of pointers, and the order in which
  operations go from a queue of an endpoint through the completion list to a callback.
\<close>

section \<open>The contract of a queue\<close>

locale fifo_queue =
  fixes contents :: "'q \<Rightarrow> 'a list" and enq :: "'a \<Rightarrow> 'q \<Rightarrow> 'q" and deq :: "'q \<Rightarrow> 'a option \<times> 'q"
  assumes contents_enq: "contents (enq x q) = contents q @ [x]"
    and deq_empty: "contents q = [] \<Longrightarrow> fst (deq q) = None \<and> contents (snd (deq q)) = []"
    and deq_head: "contents q = x # xs \<Longrightarrow> fst (deq q) = Some x \<and> contents (snd (deq q)) = xs"
begin

text \<open>A history of calls: Some x enqueues x, None dequeues; the results of the latter are collected.\<close>

fun play :: "'a option list \<Rightarrow> 'q \<Rightarrow> 'a list \<times> 'q" where
  "play [] q = ([], q)"
| "play (Some x # h) q = play h (enq x q)"
| "play (None # h) q = (let (r, q') = deq q; (out, q'') = play h q' in (case r of None \<Rightarrow> out | Some x \<Rightarrow> x # out, q''))"

lemma play_fifo: "play h q = (out, q') \<Longrightarrow> out @ contents q' = contents q @ List.map_filter (\<lambda>x. x) h"
proof (induction h q arbitrary: out q' rule: play.induct)
  case (3 h q)
  obtain r q1 where d: "deq q = (r, q1)" by (rule prod.exhaust)
  obtain o1 q2 where p: "play h q1 = (o1, q2)" by (rule prod.exhaust)
  have "o1 @ contents q2 = contents q1 @ List.map_filter (\<lambda>x. x) h" using 3(1) d p by simp
  then show ?case using 3(2) d p deq_empty [of q] deq_head [of q]
    by (cases "contents q") (auto simp: Let_def map_filter_simps)
qed (auto simp: contents_enq map_filter_simps)

end

lemma pop_front_simps [simp]:
  "fst (fst (pop_front q)) = (case mList q of [] \<Rightarrow> None | x # xs \<Rightarrow> Some x)" "mList (snd (pop_front q)) = tl (mList q)"
  by (auto simp: pop_front_def split: list.split)

lemma push_back_simps [simp]: "mList (push_back (Some x) q) = mList q @ [x]"
  by (simp add: push_back_def)

interpretation sync_fifo: fifo_queue mList "\<lambda>x. push_back (Some x)" "\<lambda>q. (fst (fst (pop_front q)), snd (pop_front q))"
  by unfold_locales auto

section \<open>Steps\<close>

text \<open>
  \<open>env\<close> is what the rest of the program may do to the state of the system.  The client joins an
  endpoint that has no context, and deletes one only when it has none.  A dispatch is two steps,
  the call of the callback and the deletion of the record, between which the callback's requests
  are steps of their own; the list operations and the work under the lock of an endpoint are atomic.
  The steps of the program do not depend on how readiness is learnt; those of epoll come after.
\<close>

inductive prog_step :: "'w muxsys \<Rightarrow> ('w \<Rightarrow> 'w \<Rightarrow> bool) \<Rightarrow> 'w mux \<Rightarrow> 'w mux \<Rightarrow> bool" for os env where
  request: "mux_request p r s = Some s' \<Longrightarrow> prog_step os env s s'"
| join: "\<lbrakk>eps s p = Some e; pAsyncContext e = None; join os p s = Some (ok, s')\<rbrakk> \<Longrightarrow> prog_step os env s s'"
| callback: "\<lbrakk>mList (mCompletionList s) = op # q; ovs s op = Some o'; iotype o' \<noteq> EIT_INVALID; callback o' = Some cb\<rbrakk> \<Longrightarrow>
    prog_step os env s (s\<lparr>mCompletionList := Fifo q, event_log := event_log s @ [(op, event_of cb o')]\<rparr>)"
| discard: "op \<in> fst ` set (event_log s) \<Longrightarrow> prog_step os env s (set_ov op None s)"
| switch: "prog_step os env s (mux_enable v s)"
| default: "prog_step os env s (setDefaultCallback cb s)"
| endpoint: "\<lbrakk>eps s p = Some e; pAsyncContext e' = pAsyncContext e; env (world s) w\<rbrakk> \<Longrightarrow>
    prog_step os env s ((set_ep p (Some e') s)\<lparr>world := w\<rparr>)"
| create: "\<lbrakk>pAsyncContext e = None; env (world s) w\<rbrakk> \<Longrightarrow>
    prog_step os env s ((set_ep (next_ep s) (Some e) s)\<lparr>next_ep := next_ep s + 1, world := w\<rparr>)"
| delete: "\<lbrakk>eps s p = Some e; pAsyncContext e = None; env (world s) w\<rbrakk> \<Longrightarrow>
    prog_step os env s ((set_ep p None s)\<lparr>world := w\<rparr>)"

inductive_cases prog_stepE: "prog_step os env s s'"

inductive mux_step :: "'w muxsys \<Rightarrow> ('w \<Rightarrow> 'w \<Rightarrow> bool) \<Rightarrow> 'w mux \<Rightarrow> 'w mux \<Rightarrow> bool" for os env where
  program: "prog_step os env s s' \<Longrightarrow> mux_step os env s s'"
| depart: "depart os p s = Some (ok, s') \<Longrightarrow> mux_step os env s s'"
| ready: "consume_ready os s = Some (r, s') \<Longrightarrow> mux_step os env s s'"
| wait: "wait_events os t s = Some (r, s') \<Longrightarrow> mux_step os env s s'"

inductive_cases mux_stepE: "mux_step os env s s'"

text \<open>A new multiplexer, and endpoints that have not joined.\<close>

definition mux_start :: "'w muxsys \<Rightarrow> 'w mux \<Rightarrow> bool" where
  "mux_start os s \<longleftrightarrow> (\<exists>e n w. s = mux_new os e n w \<and> (\<forall>p. n \<le> p \<longrightarrow> e p = None) \<and>
     (\<forall>p e'. e p = Some e' \<longrightarrow> pAsyncContext e' = None))"

definition mux_reach :: "'w muxsys \<Rightarrow> ('w \<Rightarrow> 'w \<Rightarrow> bool) \<Rightarrow> 'w mux \<Rightarrow> bool" where
  "mux_reach os env s \<longleftrightarrow> (\<exists>s0. mux_start os s0 \<and> (mux_step os env)\<^sup>*\<^sup>* s0 s)"

section \<open>Views\<close>

definition is_write :: "EIoType \<Rightarrow> bool" where
  "is_write t \<longleftrightarrow> t \<in> {EIT_SEND, EIT_SENDTO, EIT_CONNECT}"

definition context_of :: "'w mux \<Rightarrow> nat \<Rightarrow> async_context option" where
  "context_of s p = Option.bind (eps s p) pAsyncContext"

definition queue_of :: "'w mux \<Rightarrow> nat \<Rightarrow> bool \<Rightarrow> nat list" where
  "queue_of s p d = (case context_of s p of None \<Rightarrow> [] | Some c \<Rightarrow> if d then wrqueue c else rdqueue c)"

definition key_of :: "'w mux \<Rightarrow> nat \<Rightarrow> (nat \<times> EIoType \<times> nat option) option" where
  "key_of s op = map_option (\<lambda>o'. (sep o', iotype o', callback o')) (ovs s op)"

definition belongs :: "'w mux \<Rightarrow> nat \<Rightarrow> bool \<Rightarrow> nat \<Rightarrow> bool" where
  "belongs s p d op \<longleftrightarrow> (case key_of s op of None \<Rightarrow> False | Some (q, t, cb) \<Rightarrow> q = p \<and> is_write t = d \<and> t \<noteq> EIT_INVALID)"

lemma belongs_iff: "belongs s p d op \<longleftrightarrow> (\<exists>t cb. key_of s op = Some (p, t, cb) \<and> is_write t = d \<and> t \<noteq> EIT_INVALID)"
  by (auto simp: belongs_def split: option.split)

definition submitted :: "'w mux \<Rightarrow> nat \<Rightarrow> bool \<Rightarrow> nat list" where
  "submitted s p d = map fst (filter (\<lambda>(op, q, t). q = p \<and> is_write t = d) (submitted_log s))"

definition completing :: "'w mux \<Rightarrow> nat \<Rightarrow> bool \<Rightarrow> nat list" where
  "completing s p d = filter (belongs s p d) (mList (mCompletionList s))"

definition called :: "'w mux \<Rightarrow> nat \<Rightarrow> bool \<Rightarrow> nat list" where
  "called s p d = map fst (filter (\<lambda>(op, ev). ev_sep ev = p \<and> is_write (ev_type ev) = d) (event_log s))"

section \<open>What an attempt leaves alone\<close>

definition same_op :: "overlapped \<Rightarrow> overlapped \<Rightarrow> bool" where
  "same_op o1 o2 \<longleftrightarrow> sep o2 = sep o1 \<and> iotype o2 = iotype o1 \<and> callback o2 = callback o1"

lemma set_status_ctx [simp]: "pAsyncContext (setStatus st e) = pAsyncContext e" "pImpl (setStatus st e) = (pImpl e)\<lparr>Status := st\<rparr>"
  by (simp_all add: setStatus_def)

lemma set_errno_ctx [simp]: "pAsyncContext (setLastPlatformErrno n e) = pAsyncContext e"
  by (simp add: setLastPlatformErrno_def)

lemma io_result_same:
  "io_result os n e o1 w = (b, e', o2, w') \<Longrightarrow> pAsyncContext e' = pAsyncContext e \<and> same_op o1 o2 \<and> w' = w"
  by (auto simp: io_result_def same_op_def split: if_split_asm)

lemma transfer_same:
  "perform_recv os e o1 w = Some (b, e', o2, w') \<Longrightarrow> pAsyncContext e' = pAsyncContext e \<and> same_op o1 o2"
  "perform_recvfrom os e o1 w = Some (b, e', o2, w') \<Longrightarrow> pAsyncContext e' = pAsyncContext e \<and> same_op o1 o2"
  "perform_send os e o1 w = Some (b, e', o2, w') \<Longrightarrow> pAsyncContext e' = pAsyncContext e \<and> same_op o1 o2"
  "perform_sendto os e o1 w = Some (b, e', o2, w') \<Longrightarrow> pAsyncContext e' = pAsyncContext e \<and> same_op o1 o2"
  by (auto simp: perform_recv_def perform_recvfrom_def perform_send_def perform_sendto_def Let_def case_prod_beta
    bind_eq_Some_conv same_op_def split: if_split_asm dest!: io_result_same)

lemma provision_same:
  "provision_connect os e o1 w = Some (r, w') \<Longrightarrow> same_op o1 (case r of Inl x \<Rightarrow> x | Inr x \<Rightarrow> x)"
  by (auto simp: provision_connect_def Let_def bind_eq_Some_conv same_op_def split: if_split_asm iobuf.split_asm)

lemma connect_same:
  assumes "perform_connect os e o1 w = Some (b, e', o2, w')"
  shows "pAsyncContext e' = pAsyncContext e \<and> same_op o1 o2"
proof -
  obtain r w1 where p: "provision_connect os e o1 w = Some (r, w1)"
    using assms by (auto simp: perform_connect_def bind_eq_Some_conv)
  show ?thesis
  proof (cases r)
    case (Inl x)
    then show ?thesis using assms provision_same [OF p] by (simp add: perform_connect_def p)
  next
    case (Inr x)
    then have x: "same_op o1 x" using provision_same [OF p] by simp
    show ?thesis
    proof (cases "olen x = 0")
      case True
      then obtain sa where "(let (ec, w) = os_connect (net os) (getSocket e) sa w1 in
           Some (if ec = 0 then (True, setStatus ESTAT_CONNECTED e, x\<lparr>olen := 0, errorcode := 0\<rparr>, w)
                 else if os_errno (net os) w \<noteq> EINPROGRESS
                 then (True, setStatus ESTAT_INIT (setLastPlatformErrno (os_errno (net os) w) e),
                       x\<lparr>olen := 0, errorcode := os_errno (net os) w\<rparr>, w)
                 else (False, setStatus ESTAT_CONNECTING e, x\<lparr>olen := 1\<rparr>, w))) = Some (b, e', o2, w')"
        using assms Inr by (auto simp: perform_connect_def p bind_eq_Some_conv)
      then show ?thesis using x by (auto simp: Let_def case_prod_beta same_op_def split: if_split_asm)
    next
      case False
      then show ?thesis using assms Inr x
        by (auto simp: perform_connect_def p Let_def case_prod_beta same_op_def split: if_split_asm)
    qed
  qed
qed

lemma accept_same:
  "perform_accept os f e o1 w = Some (b, e', o2, n, w') \<Longrightarrow> pAsyncContext e' = pAsyncContext e \<and> same_op o1 o2 \<and>
     (\<forall>t. n = Some t \<longrightarrow> pAsyncContext t = Some \<lparr>rdqueue = [], wrqueue = [], ready = False, ctx_ep = f\<rparr>)"
  by (auto simp: perform_accept_def join_object_def Let_def case_prod_beta bind_eq_Some_conv same_op_def split: if_split_asm)

lemma perform_same:
  assumes "perform_io os f e o1 w = Some (b, e', o2, n, w')"
  shows "pAsyncContext e' = pAsyncContext e" "same_op o1 o2"
    "n = Some t \<Longrightarrow> pAsyncContext t = Some \<lparr>rdqueue = [], wrqueue = [], ready = False, ctx_ep = f\<rparr>"
  using assms
  by (auto simp: perform_io_def no_new_def same_op_def split: EIoType.split_asm
    dest!: transfer_same connect_same accept_same)

section \<open>What the workers leave alone\<close>

definition fresh_eps :: "'w mux \<Rightarrow> bool" where
  "fresh_eps s \<longleftrightarrow> (\<forall>p \<ge> next_ep s. eps s p = None)"

definition steady :: "'w mux \<Rightarrow> 'w mux \<Rightarrow> bool" where
  "steady s s' \<longleftrightarrow> submitted_log s' = submitted_log s \<and> event_log s' = event_log s \<and> departed s' = departed s \<and>
     next_ov s' = next_ov s \<and> mReadyList s' = mReadyList s \<and> mEpollfd s' = mEpollfd s \<and> key_of s' = key_of s \<and> asked s' = asked s \<and>
     (\<forall>p. eps s p \<noteq> None \<longrightarrow> eps s' p \<noteq> None \<and> context_of s' p = context_of s p) \<and>
     (\<forall>p. queue_of s' p = queue_of s p) \<and> fresh_eps s' \<and>
     (\<forall>p c. context_of s' p = Some c \<longrightarrow> context_of s p = Some c \<or> \<not> ready c)"

lemma steady_refl: "fresh_eps s \<Longrightarrow> steady s s"
  by (simp add: steady_def)

lemma steady_trans: "\<lbrakk>steady s s'; steady s' s''\<rbrakk> \<Longrightarrow> steady s s''"
  unfolding steady_def by fastforce

lemmas field_defs = set_ep_def set_ov_def push_completion_def push_ready_def

lemma perform_locked:
  assumes r: "performIoLocked os p op s = Some (b, s')" and fr: "fresh_eps s"
  shows "steady s s' \<and> mList (mCompletionList s') = mList (mCompletionList s) @ (if b then [op] else [])"
proof -
  obtain e where e: "eps s p = Some e" using r by (auto simp: performIoLocked_def bind_eq_Some_conv)
  show ?thesis
  proof (cases "pAsyncContext e = None")
    case True
    then show ?thesis using r e steady_refl [OF fr] by (simp add: performIoLocked_def)
  next
    case False
    obtain o1 where o1: "ovs s op = Some o1" using r e False by (auto simp: performIoLocked_def bind_eq_Some_conv)
    obtain e' o2 n w where x: "perform_io os (next_ep s) e o1 (world s) = Some (b, e', o2, n, w)"
      using r e False o1 by (auto simp: performIoLocked_def Let_def bind_eq_Some_conv)
    let ?s1 = "(set_ov op (Some o2) (set_ep p (Some e') s))\<lparr>world := w\<rparr>"
    let ?s2 = "case n of None \<Rightarrow> ?s1 | Some t \<Rightarrow> (set_ep (next_ep ?s1) (Some t) ?s1)\<lparr>next_ep := next_ep ?s1 + 1\<rparr>"
    have s': "s' = (if b then push_completion op ?s2 else ?s2)"
      using r e False o1 x by (simp add: performIoLocked_def Let_def)
    note same = perform_same [OF x]
    have p: "p \<noteq> next_ep s" using e fr by (auto simp: fresh_eps_def)
    have "key_of s' = key_of s" using o1 same(2)
      by (auto simp: s' field_defs key_of_def same_op_def fun_eq_iff split: option.split)
    moreover have q: "context_of s' q = context_of s q" if "eps s q \<noteq> None" for q
      using that fr same(1) e by (auto simp: s' field_defs context_of_def fresh_eps_def split: option.split)
    moreover have "eps s' q \<noteq> None" if "eps s q \<noteq> None" for q
      using that by (auto simp: s' field_defs split: option.split)
    moreover have "queue_of s' q = queue_of s q" for q
    proof (cases "eps s q")
      case None
      then have "context_of s' q \<in> {None, Some \<lparr>rdqueue = [], wrqueue = [], ready = False, ctx_ep = next_ep s\<rparr>}"
        using same(3) e by (auto simp: s' field_defs context_of_def split: option.split)
      then show ?thesis using None by (auto simp: queue_of_def fun_eq_iff context_of_def)
    qed (use q in \<open>simp add: queue_of_def fun_eq_iff\<close>)
    moreover have "fresh_eps s'" using fr e p
      by (auto simp: s' field_defs fresh_eps_def split: option.split)
    moreover have "submitted_log s' = submitted_log s" "event_log s' = event_log s" "departed s' = departed s"
      "next_ov s' = next_ov s" "mReadyList s' = mReadyList s" "mEpollfd s' = mEpollfd s" "asked s' = asked s"
      "mList (mCompletionList s') = mList (mCompletionList s) @ (if b then [op] else [])"
      by (auto simp: s' field_defs split: option.split)
    moreover have "context_of s q = Some c \<or> \<not> ready c" if "context_of s' q = Some c" for q c
    proof (cases "eps s q")
      case None
      then have "context_of s' q \<in> {None, Some \<lparr>rdqueue = [], wrqueue = [], ready = False, ctx_ep = next_ep s\<rparr>}"
        using same(3) e by (auto simp: s' field_defs context_of_def split: option.split)
      then show ?thesis using that by auto
    qed (use q that in auto)
    ultimately show ?thesis unfolding steady_def by blast
  qed
qed

lemma drain_moves:
  "\<lbrakk>drain os p q s = Some (rest, s'); fresh_eps s\<rbrakk> \<Longrightarrow>
     steady s s' \<and> (\<exists>d. q = d @ rest \<and> mList (mCompletionList s') = mList (mCompletionList s) @ d)"
proof (induction q arbitrary: s)
  case (Cons op q)
  obtain b s1 where b: "performIoLocked os p op s = Some (b, s1)"
    using Cons.prems(1) by (auto simp: bind_eq_Some_conv)
  note k = perform_locked [OF b Cons.prems(2)]
  show ?case
  proof (cases b)
    case True
    then have "drain os p q s1 = Some (rest, s')" using Cons.prems(1) b by simp
    moreover have "fresh_eps s1" using k by (simp add: steady_def)
    ultimately obtain d where "steady s1 s'" "q = d @ rest" "mList (mCompletionList s') = mList (mCompletionList s1) @ d"
      using Cons.IH by blast
    then show ?thesis using k True steady_trans by (intro conjI exI [of _ "op # d"]) auto
  next
    case False
    then show ?thesis using Cons.prems(1) b k by auto
  qed
qed (simp add: steady_refl)

lemma update_ctx_simps:
  assumes "update_ctx p f s = Some s'"
  shows "\<exists>e c. eps s p = Some e \<and> pAsyncContext e = Some c \<and> s' = set_ep p (Some (e\<lparr>pAsyncContext := Some (f c)\<rparr>)) s"
  using assms by (auto simp: update_ctx_def bind_eq_Some_conv)

lemma abort_all_moves:
  "abort_all q s = Some s' \<Longrightarrow> key_of s' = key_of s \<and> eps s' = eps s \<and> submitted_log s' = submitted_log s \<and> event_log s' = event_log s \<and>
     departed s' = departed s \<and> next_ov s' = next_ov s \<and> next_ep s' = next_ep s \<and> mReadyList s' = mReadyList s \<and>
     world s' = world s \<and> mEpollfd s' = mEpollfd s \<and> asked s' = asked s \<and>
     mList (mCompletionList s') = mList (mCompletionList s) @ q"
proof (induction q arbitrary: s)
  case (Cons op q)
  then obtain o1 where o1: "ovs s op = Some o1"
    and r: "abort_all q (push_completion op (set_ov op (Some (o1\<lparr>errorcode := ECONNABORTED\<rparr>)) s)) = Some s'"
    by (auto simp: bind_eq_Some_conv)
  have "key_of (push_completion op (set_ov op (Some (o1\<lparr>errorcode := ECONNABORTED\<rparr>)) s)) = key_of s"
    using o1 by (auto simp: key_of_def field_defs fun_eq_iff)
  then show ?case using Cons.IH [OF r] by (simp add: field_defs)
qed simp

section \<open>The invariant\<close>

definition mux_inv :: "'w mux \<Rightarrow> bool" where
  "mux_inv s \<longleftrightarrow> fresh_eps s \<and>
     (\<forall>p d op. op \<in> set (queue_of s p d) \<longrightarrow> belongs s p d op) \<and>
     (\<forall>op \<in> set (mList (mCompletionList s)). \<exists>p d. belongs s p d op) \<and>
     distinct (map fst (submitted_log s)) \<and> (\<forall>op \<in> fst ` set (submitted_log s). op < next_ov s) \<and>
     (\<forall>p d. subseq (called s p d @ completing s p d @ queue_of s p d) (submitted s p d)) \<and>
     (\<forall>p d. p \<notin> departed s \<longrightarrow> called s p d @ completing s p d @ queue_of s p d = submitted s p d)"

lemma mux_invD:
  assumes "mux_inv s"
  shows "fresh_eps s" "op \<in> set (queue_of s p d) \<Longrightarrow> belongs s p d op"
    "op \<in> set (mList (mCompletionList s)) \<Longrightarrow> \<exists>p d. belongs s p d op"
    "distinct (map fst (submitted_log s))" "op \<in> fst ` set (submitted_log s) \<Longrightarrow> op < next_ov s"
    "subseq (called s p d @ completing s p d @ queue_of s p d) (submitted s p d)"
    "p \<notin> departed s \<Longrightarrow> called s p d @ completing s p d @ queue_of s p d = submitted s p d"
  using assms unfolding mux_inv_def by blast+

lemma belongs_unique: "\<lbrakk>belongs s p d op; belongs s p' d' op\<rbrakk> \<Longrightarrow> p = p' \<and> d = d'"
  by (auto simp: belongs_iff)

lemma submitted_unique:
  "\<lbrakk>op \<in> set (submitted s p d); op \<in> set (submitted s p' d'); distinct (map fst (submitted_log s))\<rbrakk> \<Longrightarrow> p = p' \<and> d = d'"
  by (auto simp: submitted_def dest: eq_key_imp_eq_value)

lemma submitted_distinct: "distinct (map fst (submitted_log s)) \<Longrightarrow> distinct (submitted s p d)"
  unfolding submitted_def by (rule distinct_map_filter)

lemma submitted_log_mem: "op \<in> set (submitted s p d) \<Longrightarrow> op \<in> fst ` set (submitted_log s)"
  by (force simp: submitted_def)

lemma subseq_set: "subseq xs ys \<Longrightarrow> set xs \<subseteq> set ys"
  using set_nths_subset by (fastforce simp: subseq_conv_nths)

lemma subseq_distinct: "\<lbrakk>subseq xs ys; distinct ys\<rbrakk> \<Longrightarrow> distinct xs"
  using distinct_nthsI by (fastforce simp: subseq_conv_nths)

text \<open>Every operation in a list was submitted.\<close>

lemma listed_submitted:
  assumes "mux_inv s"
  shows "set (called s p d @ completing s p d @ queue_of s p d) \<subseteq> set (submitted s p d)"
    "distinct (called s p d @ completing s p d @ queue_of s p d)"
  using mux_invD(6) [OF assms, of p d] submitted_distinct [OF mux_invD(4) [OF assms], of p d]
  by (auto dest: subseq_set subseq_distinct simp del: set_append distinct_append)

lemma views_cong:
  assumes "submitted_log s' = submitted_log s" "event_log s' = event_log s" "key_of s' = key_of s"
  shows "submitted s' = submitted s" "called s' = called s" "belongs s' = belongs s"
  using assms by (simp_all add: submitted_def called_def belongs_iff fun_eq_iff)

text \<open>Operations go from the front of the queues of one endpoint to the end of the completion list.\<close>

lemma inv_move:
  assumes inv: "mux_inv s" and logs: "submitted_log s' = submitted_log s" "event_log s' = event_log s"
      "departed s' = departed s" "next_ov s' = next_ov s" "key_of s' = key_of s" "fresh_eps s'"
    and others: "\<And>q. q \<noteq> p \<Longrightarrow> queue_of s' q = queue_of s q"
    and moved: "queue_of s p False = d1 @ queue_of s' p False" "queue_of s p True = d2 @ queue_of s' p True"
      "mList (mCompletionList s') = mList (mCompletionList s) @ d1 @ d2"
  shows "mux_inv s'"
proof -
  note v = views_cong [OF logs(1,2,5)]
  have b: "\<forall>op \<in> set d1. belongs s p False op" "\<forall>op \<in> set d2. belongs s p True op"
    using mux_invD(2) [OF inv, of _ p False] mux_invD(2) [OF inv, of _ p True] moved(1,2) by auto
  have c: "completing s' q d @ queue_of s' q d = completing s q d @ queue_of s q d" for q d
  proof (cases "q = p")
    case True
    have "\<not> belongs s p True op" if "op \<in> set d1" for op using b(1) that belongs_unique by blast
    moreover have "\<not> belongs s p False op" if "op \<in> set d2" for op using b(2) that belongs_unique by blast
    ultimately have "filter (belongs s p False) d1 = d1" "filter (belongs s p True) d1 = []"
      "filter (belongs s p True) d2 = d2" "filter (belongs s p False) d2 = []"
      using b by (simp_all add: filter_empty_conv)
    then show ?thesis using True moved by (cases d) (simp_all add: completing_def v)
  next
    case False
    have "\<not> belongs s q d op" if "op \<in> set d1 \<union> set d2" for op using b that belongs_unique False by blast
    then have "filter (belongs s q d) d1 = []" "filter (belongs s q d) d2 = []" by (simp_all add: filter_empty_conv)
    then show ?thesis using others [OF False] moved(3) by (simp add: completing_def v)
  qed
  have sub: "set (queue_of s' q d) \<subseteq> set (queue_of s q d)" for q d
    using others [of q] moved(1,2) by (cases "q = p"; cases d) auto
  have "\<exists>q d. belongs s q d op" if "op \<in> set (mList (mCompletionList s'))" for op
    using that mux_invD(3) [OF inv, of op] b moved(3) by auto
  note comp = this
  show ?thesis unfolding mux_inv_def v logs(1,3,4)
  proof (intro conjI allI ballI impI)
    show "fresh_eps s'" by (rule logs(6))
    show "belongs s q d op" if "op \<in> set (queue_of s' q d)" for q d op using that sub mux_invD(2) [OF inv] by blast
    show "\<exists>q d. belongs s q d op" if "op \<in> set (mList (mCompletionList s'))" for op using that comp by blast
    show "distinct (map fst (submitted_log s))" by (rule mux_invD(4) [OF inv])
    show "op < next_ov s" if "op \<in> fst ` set (submitted_log s)" for op using that by (rule mux_invD(5) [OF inv])
    show "subseq (called s q d @ completing s' q d @ queue_of s' q d) (submitted s q d)" for q d
      unfolding c by (rule mux_invD(6) [OF inv])
    show "called s q d @ completing s' q d @ queue_of s' q d = submitted s q d" if "q \<notin> departed s" for q d
      unfolding c using that by (rule mux_invD(7) [OF inv])
  qed
qed

section \<open>Every step preserves it\<close>

text \<open>Steps that change no list and no record.\<close>

lemma inv_same:
  assumes inv: "mux_inv s" and "submitted_log s' = submitted_log s" "event_log s' = event_log s"
    "departed s' = departed s" "next_ov s' = next_ov s" "ovs s' = ovs s" "fresh_eps s'"
    "mCompletionList s' = mCompletionList s" "\<And>p. queue_of s' p = queue_of s p"
  shows "mux_inv s'"
  by (rule inv_move [OF inv, where ?d1.0 = "[]" and ?d2.0 = "[]" and p = 0]) (use assms(2-) in \<open>simp_all add: key_of_def fun_eq_iff\<close>)

lemma queue_of_cong: "context_of s' p = context_of s p \<Longrightarrow> queue_of s' p = queue_of s p"
  by (simp add: queue_of_def fun_eq_iff)

lemma context_set_ep: "context_of (set_ep p (Some e) s) q = (if q = p then pAsyncContext e else context_of s q)"
  "context_of (set_ep p None s) q = (if q = p then None else context_of s q)"
  by (simp_all add: context_of_def set_ep_def)

lemma append_op:
  assumes r: "appendAsyncOpLocked p op d s = Some s'" and c: "context_of s p = Some c"
  shows "submitted_log s' = submitted_log s \<and> event_log s' = event_log s \<and> departed s' = departed s \<and> next_ov s' = next_ov s \<and>
    ovs s' = ovs s \<and> mCompletionList s' = mCompletionList s \<and> next_ep s' = next_ep s \<and>
    (\<forall>q. eps s' q = None \<longleftrightarrow> eps s q = None) \<and> (\<forall>q. q \<noteq> p \<longrightarrow> context_of s' q = context_of s q) \<and>
    context_of s' p = Some ((if d then c\<lparr>wrqueue := wrqueue c @ [op]\<rparr> else c\<lparr>rdqueue := rdqueue c @ [op]\<rparr>)\<lparr>ready := True\<rparr>) \<and>
    mReadyList s' = (if ready c then mReadyList s else push_back (Some p) (mReadyList s)) \<and> world s' = world s \<and> asked s' = asked s"
proof -
  obtain e where e: "eps s p = Some e" "pAsyncContext e = Some c"
    using c by (auto simp: context_of_def bind_eq_Some_conv)
  then show ?thesis using r
    by (cases d; cases "ready c"; cases c)
      (auto simp: appendAsyncOpLocked_def Let_def field_defs context_of_def split: if_split_asm)
qed

lemma submit_inv:
  assumes inv: "mux_inv s" and r: "submit p o' d s = Some s'"
    and o: "sep o' = p" "is_write (iotype o') = d" "iotype o' \<noteq> EIT_INVALID"
  shows "mux_inv s'"
proof -
  obtain e where e: "eps s p = Some e" using r by (auto simp: submit_def bind_eq_Some_conv)
  show ?thesis
  proof (cases "pAsyncContext e")
    case None
    then show ?thesis using r e inv by (simp add: submit_def)
  next
    case (Some c)
    let ?op = "next_ov s"
    let ?s1 = "(set_ov ?op (Some o') s)\<lparr>next_ov := ?op + 1, submitted_log := submitted_log s @ [(?op, p, iotype o')]\<rparr>"
    have a: "appendAsyncOpLocked p ?op d ?s1 = Some s'" using r e Some by (simp add: submit_def Let_def)
    have c: "context_of ?s1 p = Some c" "context_of s p = Some c" using e Some by (simp_all add: context_of_def set_ov_def)
    have A: "submitted_log s' = submitted_log s @ [(?op, p, iotype o')]" "event_log s' = event_log s" "departed s' = departed s"
      "next_ov s' = ?op + 1" "ovs s' = (ovs s)(?op \<mapsto> o')" "mCompletionList s' = mCompletionList s" "next_ep s' = next_ep s"
      "\<And>q. eps s' q = None \<longleftrightarrow> eps s q = None"
      and ctx: "\<And>q. q \<noteq> p \<Longrightarrow> context_of s' q = context_of s q"
      "context_of s' p = Some ((if d then c\<lparr>wrqueue := wrqueue c @ [?op]\<rparr> else c\<lparr>rdqueue := rdqueue c @ [?op]\<rparr>)\<lparr>ready := True\<rparr>)"
      using append_op [OF a c(1)] by (simp_all add: set_ov_def context_of_def)
    have new: "?op \<notin> fst ` set (submitted_log s)" using mux_invD(5) [OF inv, of ?op] by auto
    have sub: "submitted s' q f = submitted s q f @ (if q = p \<and> f = d then [?op] else [])" for q f
      unfolding submitted_def A(1) using o(2) by (cases "q = p"; cases "f = d") simp_all
    have cal: "called s' q f = called s q f" for q f by (simp add: called_def A)
    have q: "queue_of s' q f = queue_of s q f @ (if q = p \<and> f = d then [?op] else [])" for q f
      using ctx(1) [of q] ctx(2) c(2) by (cases "q = p"; cases d; cases f) (simp_all add: queue_of_def)
    have b: "belongs s' q f x = belongs s q f x" if "x \<noteq> ?op" for q f x using that by (simp add: belongs_iff key_of_def A)
    have bn: "belongs s' p d ?op" using o by (simp add: belongs_iff key_of_def A)
    have ne: "x \<noteq> ?op" if "x \<in> set (submitted s q f)" for x q f using that new submitted_log_mem by metis
    have listed: "x \<noteq> ?op" if lst: "x \<in> set (queue_of s q f) \<or> x \<in> set (mList (mCompletionList s))" for x q f
    proof -
      have "\<exists>q f. x \<in> set (submitted s q f)"
      proof (cases "x \<in> set (queue_of s q f)")
        case True
        then show ?thesis using listed_submitted(1) [OF inv, of q f] by (intro exI [of _ q] exI [of _ f]) auto
      next
        case False
        then obtain q f where "belongs s q f x" "x \<in> set (mList (mCompletionList s))" using lst mux_invD(3) [OF inv] by blast
        then have "x \<in> set (completing s q f)" by (simp add: completing_def)
        then show ?thesis using listed_submitted(1) [OF inv, of q f] by (intro exI [of _ q] exI [of _ f]) auto
      qed
      then show ?thesis using ne by blast
    qed
    have com: "completing s' q f = completing s q f" for q f
      unfolding completing_def A using b listed by (intro filter_cong) auto
    have all: "called s' q f @ completing s' q f @ queue_of s' q f =
        (called s q f @ completing s q f @ queue_of s q f) @ (if q = p \<and> f = d then [?op] else [])" for q f
      by (simp add: cal com q)
    show ?thesis unfolding mux_inv_def
    proof (intro conjI allI ballI impI)
      show "fresh_eps s'" using mux_invD(1) [OF inv] by (simp add: fresh_eps_def A)
      show "belongs s' q f x" if "x \<in> set (queue_of s' q f)" for q f x
      proof (cases "x = ?op")
        case True
        then have "q = p \<and> f = d" using that listed [of x q f] unfolding q by (auto split: if_split_asm)
        then show ?thesis using True bn by simp
      next
        case False
        then have "x \<in> set (queue_of s q f)" using that unfolding q by (auto split: if_split_asm)
        then show ?thesis using b [OF False] mux_invD(2) [OF inv] by simp
      qed
      show "\<exists>q f. belongs s' q f x" if "x \<in> set (mList (mCompletionList s'))" for x
      proof -
        have "x \<noteq> ?op" "x \<in> set (mList (mCompletionList s))" using that listed [of x] unfolding A by blast+
        then show ?thesis using b mux_invD(3) [OF inv] by metis
      qed
      show "distinct (map fst (submitted_log s'))" using new mux_invD(4) [OF inv] by (simp add: A)
      show "x < next_ov s'" if "x \<in> fst ` set (submitted_log s')" for x
        using that mux_invD(5) [OF inv, of x] by (cases "x = ?op") (auto simp: A less_Suc_eq)
      show "subseq (called s' q f @ completing s' q f @ queue_of s' q f) (submitted s' q f)" for q f
        unfolding all sub by (rule list_emb_append_mono [OF mux_invD(6) [OF inv]]) simp
      show "called s' q f @ completing s' q f @ queue_of s' q f = submitted s' q f" if "q \<notin> departed s'" for q f
        unfolding all sub using mux_invD(7) [OF inv, of q f] that by (simp only: A simp_thms)
    qed
  qed
qed

lemma request_inv:
  assumes "mux_inv s" "mux_request p r s = Some s'"
  shows "mux_inv s'"
  using assms
  by (cases r) (auto simp: asyncRecv_def asyncRecvFrom_def asyncSend_def asyncSendTo_def asyncAccept_def asyncConnect_def
    new_overlapped_def is_write_def bind_eq_Some_conv elim!: submit_inv)

lemma queue_set_ep:
  "queue_of (set_ep p (Some e) s) q =
     (if q = p then (\<lambda>d. case pAsyncContext e of None \<Rightarrow> [] | Some c \<Rightarrow> if d then wrqueue c else rdqueue c) else queue_of s q)"
  "queue_of (set_ep p None s) q = (if q = p then (\<lambda>d. []) else queue_of s q)"
  by (auto simp: queue_of_def context_set_ep fun_eq_iff)

lemma queue_none: "context_of s p = None \<Longrightarrow> queue_of s p = (\<lambda>d. [])"
  by (simp add: queue_of_def fun_eq_iff)

lemma queue_world: "queue_of (s\<lparr>world := w\<rparr>) = queue_of s" "queue_of (s\<lparr>next_ep := n\<rparr>) = queue_of s"
  "queue_of (s\<lparr>mReadyList := l\<rparr>) = queue_of s" "queue_of (s\<lparr>mCompletionList := l\<rparr>) = queue_of s"
  "queue_of (s\<lparr>event_log := ev\<rparr>) = queue_of s" "queue_of (set_ov op o' s) = queue_of s"
  "queue_of (s\<lparr>departed := dp\<rparr>) = queue_of s" "queue_of (s\<lparr>asked := a\<rparr>) = queue_of s"
  by (simp_all add: queue_of_def context_of_def fun_eq_iff set_ov_def)

lemma ep_below: "\<lbrakk>fresh_eps s; eps s p = Some e\<rbrakk> \<Longrightarrow> p < next_ep s"
  by (metis fresh_eps_def not_less option.distinct(1))

lemma depart_inv:
  assumes inv: "mux_inv s" and r: "depart os p s = Some (ok, s')"
  shows "mux_inv s'"
proof -
  obtain e where e: "eps s p = Some e" using r by (auto simp: depart_def bind_eq_Some_conv)
  obtain ec w where w: "os_epoll_ctl os (mEpollfd s) EPOLL_CTL_DEL (getSocket e) 0 0 (world s) = (ec, w)" by (rule prod.exhaust)
  have same: "mux_inv (s\<lparr>world := w\<rparr>)" by (rule inv_same [OF inv]) (use mux_invD(1) [OF inv] in \<open>simp_all add: fresh_eps_def queue_world\<close>)
  show ?thesis
  proof (cases "ec \<noteq> 0 \<and> os_errno (net os) w \<noteq> ENOENT \<or> pAsyncContext e = None")
    case True
    then have "s' = s\<lparr>world := w\<rparr>" using r e w by (auto simp: depart_def Let_def split: if_split_asm)
    then show ?thesis using same by simp
  next
    case False
    then obtain c l w2 where c: "pAsyncContext e = Some c"
      and s': "s' = (set_ep p (Some (e\<lparr>pAsyncContext := None\<rparr>)) s)\<lparr>world := w2, departed := insert p (departed s), mReadyList := l,
      asked := (asked s)(p := 0)\<rparr>"
      using r e w by (cases s) (auto simp: depart_def Let_def case_prod_beta set_ep_def split: if_split_asm)
    have q: "queue_of s' x d = (if x = p then [] else queue_of s x d)" for x d
      by (simp add: s' queue_world queue_set_ep)
    have v: "submitted s' = submitted s" "called s' = called s" "belongs s' = belongs s"
      by (simp_all add: s' submitted_def called_def belongs_iff key_of_def set_ep_def fun_eq_iff)
    moreover have "mCompletionList s' = mCompletionList s" by (simp add: s' set_ep_def)
    then have "completing s' x d = completing s x d" for x d unfolding completing_def v(3) by simp
    then have "completing s' = completing s" by (intro ext)
    ultimately have v: "submitted s' = submitted s" "called s' = called s" "belongs s' = belongs s" "completing s' = completing s" by simp_all
    show ?thesis unfolding mux_inv_def v
    proof (intro conjI allI ballI impI)
      show "fresh_eps s'" using ep_below [OF mux_invD(1) [OF inv] e] mux_invD(1) [OF inv]
        by (simp add: s' fresh_eps_def set_ep_def)
      show "belongs s x d op" if "op \<in> set (queue_of s' x d)" for x d op
        using that mux_invD(2) [OF inv, of op x d] by (simp add: q split: if_split_asm)
      show "\<exists>x d. belongs s x d op" if "op \<in> set (mList (mCompletionList s'))" for op
        using that mux_invD(3) [OF inv, of op] by (simp add: s' set_ep_def)
      show "distinct (map fst (submitted_log s'))" using mux_invD(4) [OF inv] by (simp add: s' set_ep_def)
      show "op < next_ov s'" if "op \<in> fst ` set (submitted_log s')" for op
        using that mux_invD(5) [OF inv, of op] by (simp add: s' set_ep_def)
      show "subseq (called s x d @ completing s x d @ queue_of s' x d) (submitted s x d)" for x d
      proof -
        have "subseq (called s x d @ completing s x d @ queue_of s' x d) (called s x d @ completing s x d @ queue_of s x d)"
          by (intro list_emb_append_mono) (simp_all add: q)
        then show ?thesis using mux_invD(6) [OF inv] subseq_order.order_trans by blast
      qed
      show "called s x d @ completing s x d @ queue_of s' x d = submitted s x d" if "x \<notin> departed s'" for x d
      proof -
        have "x \<noteq> p" "x \<notin> departed s" using that by (simp_all add: s')
        then show ?thesis using mux_invD(7) [OF inv, of x d] by (simp add: q)
      qed
    qed
  qed
qed

text \<open>The head of the completion list goes to the history of callbacks.\<close>

lemma callback_inv:
  assumes inv: "mux_inv s" and q: "mList (mCompletionList s) = op # l" and o: "ovs s op = Some o1"
  shows "mux_inv (s\<lparr>mCompletionList := Fifo l, event_log := event_log s @ [(op, event_of cb o1)]\<rparr>)" (is "mux_inv ?s'")
proof -
  have v: "submitted ?s' = submitted s" "belongs ?s' = belongs s" "queue_of ?s' = queue_of s"
    by (simp_all add: submitted_def belongs_iff key_of_def queue_world fun_eq_iff)
  have ev: "ev_sep (event_of cb o1) = sep o1" "ev_type (event_of cb o1) = iotype o1"
    by (simp_all add: event_of_def case_prod_beta)
  have bel: "belongs s p d op \<longleftrightarrow> p = sep o1 \<and> is_write (iotype o1) = d \<and> iotype o1 \<noteq> EIT_INVALID" for p d
    using o by (auto simp: belongs_iff key_of_def)
  have t: "iotype o1 \<noteq> EIT_INVALID" using mux_invD(3) [OF inv, of op] q bel by auto
  have cc: "called ?s' p d @ completing ?s' p d = called s p d @ completing s p d" for p d
    using bel [of p d] t by (simp add: called_def completing_def v q ev)
  show ?thesis unfolding mux_inv_def v
  proof (intro conjI allI ballI impI)
    show "fresh_eps ?s'" using mux_invD(1) [OF inv] by (simp add: fresh_eps_def)
    show "belongs s p d x" if "x \<in> set (queue_of s p d)" for p d x using that by (rule mux_invD(2) [OF inv])
    show "\<exists>p d. belongs s p d x" if "x \<in> set (mList (mCompletionList ?s'))" for x
      using that mux_invD(3) [OF inv, of x] q by simp
    show "distinct (map fst (submitted_log ?s'))" using mux_invD(4) [OF inv] by simp
    show "x < next_ov ?s'" if "x \<in> fst ` set (submitted_log ?s')" for x
      using that mux_invD(5) [OF inv, of x] by simp
    show "subseq (called ?s' p d @ completing ?s' p d @ queue_of s p d) (submitted s p d)" for p d
      using mux_invD(6) [OF inv, of p d] cc [of p d] by (metis append_assoc)
    show "called ?s' p d @ completing ?s' p d @ queue_of s p d = submitted s p d" if "p \<notin> departed ?s'" for p d
      using mux_invD(7) [OF inv, of p d] that cc [of p d] by (metis append_assoc mux.select_convs(13) mux.surjective mux.update_convs(1,12))
  qed
qed

text \<open>A record that was reported is in no list any more.\<close>

lemma reported_unlisted:
  assumes inv: "mux_inv s" and op: "op \<in> fst ` set (event_log s)" and wf: "\<forall>(op, ev) \<in> set (event_log s). op \<in> set (called s (ev_sep ev) (is_write (ev_type ev)))"
  shows "op \<notin> set (queue_of s p d)" "op \<notin> set (mList (mCompletionList s))"
proof -
  obtain p0 d0 where c: "op \<in> set (called s p0 d0)" using op wf by force
  have key: "p = p0 \<and> d = d0" if "op \<in> set (submitted s p d)" for p d
    using submitted_unique [OF that _ mux_invD(4) [OF inv]] listed_submitted(1) [OF inv, of p0 d0] c by auto
  have no: "op \<notin> set (completing s p d) \<union> set (queue_of s p d)" for p d
  proof
    assume a: "op \<in> set (completing s p d) \<union> set (queue_of s p d)"
    then have "op \<in> set (submitted s p d)" using listed_submitted(1) [OF inv, of p d] by auto
    then have "p = p0" "d = d0" using key by blast+
    then show False using a c listed_submitted(2) [OF inv, of p d] by auto
  qed
  show "op \<notin> set (queue_of s p d)" using no by blast
  show "op \<notin> set (mList (mCompletionList s))"
    using no mux_invD(3) [OF inv, of op] by (auto simp: completing_def)
qed

lemma event_log_called: "\<forall>(op, ev) \<in> set (event_log s). op \<in> set (called s (ev_sep ev) (is_write (ev_type ev)))"
  by (force simp: called_def)

lemma discard_inv:
  assumes inv: "mux_inv s" and op: "op \<in> fst ` set (event_log s)"
  shows "mux_inv (set_ov op None s)" (is "mux_inv ?s'")
proof -
  note un = reported_unlisted [OF inv op event_log_called]
  have b: "belongs ?s' p d x = belongs s p d x" if "x \<noteq> op" for p d x using that by (simp add: belongs_iff key_of_def set_ov_def)
  have v: "submitted ?s' = submitted s" "called ?s' = called s" "queue_of ?s' = queue_of s"
    "mCompletionList ?s' = mCompletionList s"
    by (simp_all add: queue_world) (simp_all add: submitted_def called_def fun_eq_iff set_ov_def)
  have c: "completing ?s' p d = completing s p d" for p d
    unfolding completing_def v using b un(2) by (intro filter_cong) metis+
  show ?thesis unfolding mux_inv_def v c
  proof (intro conjI allI ballI impI)
    show "fresh_eps ?s'" using mux_invD(1) [OF inv] by (simp add: fresh_eps_def set_ov_def)
    show "belongs ?s' p d x" if "x \<in> set (queue_of s p d)" for p d x
      using that mux_invD(2) [OF inv that] un(1) b [of x p d] by metis
    show "\<exists>p d. belongs ?s' p d x" if "x \<in> set (mList (mCompletionList s))" for x
      using that mux_invD(3) [OF inv that] un(2) b [of x] by metis
    show "distinct (map fst (submitted_log ?s'))" using mux_invD(4) [OF inv] by (simp add: set_ov_def)
    show "x < next_ov ?s'" if "x \<in> fst ` set (submitted_log ?s')" for x
      using that mux_invD(5) [OF inv, of x] by (simp add: set_ov_def)
    show "subseq (called s p d @ completing s p d @ queue_of s p d) (submitted s p d)" for p d by (rule mux_invD(6) [OF inv])
    show "called s p d @ completing s p d @ queue_of s p d = submitted s p d" if "p \<notin> departed ?s'" for p d
      using that mux_invD(7) [OF inv, of p d] by (simp add: set_ov_def)
  qed
qed

lemma steadyD:
  assumes "steady s s'"
  shows "submitted_log s' = submitted_log s" "event_log s' = event_log s" "departed s' = departed s" "next_ov s' = next_ov s"
    "mReadyList s' = mReadyList s" "mEpollfd s' = mEpollfd s" "key_of s' = key_of s"
    "eps s p \<noteq> None \<Longrightarrow> eps s' p \<noteq> None \<and> context_of s' p = context_of s p" "queue_of s' p = queue_of s p" "fresh_eps s'" "asked s' = asked s"
    "context_of s' p = Some c \<Longrightarrow> context_of s p = Some c \<or> \<not> ready c"
  using assms unfolding steady_def by blast+

lemma rearm_simps:
  "rearm os p sock rd wr s = s\<lparr>world := world (rearm os p sock rd wr s), asked := asked (rearm os p sock rd wr s)\<rparr>"
  by (simp add: rearm_def Let_def case_prod_beta)

lemma rearm_asked:
  "asked (rearm os p sock rd wr s) = (if rd = [] \<and> wr = [] then asked s else (asked s)(p := interest rd wr))"
  by (simp add: rearm_def Let_def case_prod_beta)

text \<open>An update of a context, seen from the lists.\<close>

lemma update_ctx_views:
  assumes "update_ctx p f s = Some s'"
  shows "submitted_log s' = submitted_log s" "event_log s' = event_log s" "departed s' = departed s" "next_ov s' = next_ov s"
    "mReadyList s' = mReadyList s" "mEpollfd s' = mEpollfd s" "key_of s' = key_of s" "mCompletionList s' = mCompletionList s"
    "world s' = world s" "fresh_eps s \<Longrightarrow> fresh_eps s'" "q \<noteq> p \<Longrightarrow> queue_of s' q = queue_of s q"
    "context_of s' p = map_option f (context_of s p)" "context_of s p \<noteq> None" "q \<noteq> p \<Longrightarrow> context_of s' q = context_of s q"
    "eps s' q = None \<longleftrightarrow> eps s q = None" "asked s' = asked s"
  using update_ctx_simps [OF assms]
  by (auto simp: set_ep_def key_of_def fun_eq_iff fresh_eps_def queue_of_def context_of_def split: if_split_asm)

text \<open>An update of fields that the invariant does not mention.\<close>

lemma inv_frame: "mux_inv s \<Longrightarrow> mux_inv (s\<lparr>world := w, asked := a, mReadyList := l\<rparr>)"
proof (rule inv_same)
  show "queue_of (s\<lparr>world := w, asked := a, mReadyList := l\<rparr>) p = queue_of s p" for p
    by (rule queue_of_cong) (simp add: context_of_def)
qed (use mux_invD(1) [of s] in \<open>simp_all add: fresh_eps_def\<close>)

lemma performed_moves:
  assumes r: "perform_queues os p ctx s = Some (rd, wr, s')" and inv: "mux_inv s" and c: "context_of s p = Some ctx"
  shows "\<exists>d1 d2. mux_inv s' \<and> rdqueue ctx = d1 @ rd \<and> wrqueue ctx = d2 @ wr \<and> mReadyList s' = mReadyList s \<and>
    event_log s' = event_log s \<and> mList (mCompletionList s') = mList (mCompletionList s) @ d1 @ d2 \<and>
    context_of s' p = Some (ctx\<lparr>ready := False, rdqueue := rd, wrqueue := wr\<rparr>) \<and>
    (\<forall>q. q \<noteq> p \<longrightarrow> eps s q \<noteq> None \<longrightarrow> context_of s' q = context_of s q) \<and>
    (\<forall>q. q \<noteq> p \<longrightarrow> queue_of s' q = queue_of s q) \<and>
    (\<forall>q x. q \<noteq> p \<longrightarrow> context_of s' q = Some x \<longrightarrow> context_of s q = Some x \<or> \<not> ready x) \<and> asked s' = asked s"
proof -
  obtain e where e: "eps s p = Some e" "pAsyncContext e = Some ctx" using c by (auto simp: context_of_def bind_eq_Some_conv)
  obtain s1 s2 s3 s4 where
    u1: "update_ctx p (\<lambda>c. c\<lparr>ready := False\<rparr>) s = Some s1" and d1: "drain os p (rdqueue ctx) s1 = Some (rd, s2)"
    and u2: "update_ctx p (\<lambda>c. c\<lparr>rdqueue := rd\<rparr>) s2 = Some s3" and d2: "drain os p (wrqueue ctx) s3 = Some (wr, s4)"
    and u3: "update_ctx p (\<lambda>c. c\<lparr>wrqueue := wr\<rparr>) s4 = Some s'"
    using r by (auto simp: perform_queues_def bind_eq_Some_conv)
  note f0 = mux_invD(1) [OF inv]
  note v1 = update_ctx_views [OF u1]
  obtain x1 where k1: "steady s1 s2" "rdqueue ctx = x1 @ rd" "mList (mCompletionList s2) = mList (mCompletionList s1) @ x1"
    using drain_moves [OF d1 v1(10) [OF f0]] by blast
  note v2 = update_ctx_views [OF u2] and k1' = steadyD [OF k1(1)]
  obtain x2 where k2: "steady s3 s4" "wrqueue ctx = x2 @ wr" "mList (mCompletionList s4) = mList (mCompletionList s3) @ x2"
    using drain_moves [OF d2 v2(10) [OF k1'(10)]] by blast
  note v3 = update_ctx_views [OF u3] and k2' = steadyD [OF k2(1)]
  have e0: "eps s q \<noteq> None \<Longrightarrow> eps s1 q \<noteq> None" for q using v1(15) [of q] by simp
  have e2: "eps s q \<noteq> None \<Longrightarrow> eps s3 q \<noteq> None" for q using v2(15) [of q] k1'(8) [of q] e0 [of q] by simp
  have cp: "context_of s' p = Some (ctx\<lparr>ready := False, rdqueue := rd, wrqueue := wr\<rparr>)"
  proof -
    have "context_of s1 p = Some (ctx\<lparr>ready := False\<rparr>)" using v1(12) c by simp
    then have "context_of s3 p = Some (ctx\<lparr>ready := False, rdqueue := rd\<rparr>)" using v2(12) k1'(8) [of p] e0 [of p] e by simp
    then show ?thesis using v3(12) k2'(8) [of p] e2 [of p] e by simp
  qed
  have cq: "context_of s' q = context_of s q" if "q \<noteq> p" "eps s q \<noteq> None" for q
    using v3(14) [OF that(1)] k2'(8) [OF e2 [OF that(2)]] v2(14) [OF that(1)] k1'(8) [OF e0 [OF that(2)]] v1(14) [OF that(1)]
    by simp
  have cn: "context_of s q = Some x \<or> \<not> ready x" if "q \<noteq> p" "context_of s' q = Some x" for q x
    using k2'(12) [of q x] k1'(12) [of q x] v3(14) [OF that(1)] v2(14) [OF that(1)] v1(14) [OF that(1)] that(2) by auto
  have qq: "queue_of s' q = queue_of s q" if "q \<noteq> p" for q
    using v3(11) [OF that] k2'(9) v2(11) [OF that] k1'(9) v1(11) [OF that] by simp
  have comp: "mList (mCompletionList s') = mList (mCompletionList s) @ x1 @ x2" by (simp add: v3(8) k2(3) v2(8) k1(3) v1(8))
  have logs: "submitted_log s' = submitted_log s" "event_log s' = event_log s" "departed s' = departed s" "next_ov s' = next_ov s"
      "mReadyList s' = mReadyList s" "asked s' = asked s"
    by (simp_all add: v3 k2' v2 k1' v1)
  have key: "key_of s' = key_of s" using v3(7) k2'(7) v2(7) k1'(7) v1(7) by simp
  have qp: "queue_of s p False = x1 @ queue_of s' p False" "queue_of s p True = x2 @ queue_of s' p True"
    using c cp k1(2) k2(2) by (simp_all add: queue_of_def)
  have "mux_inv s'" by (rule inv_move [OF inv logs(1-4) key v3(10) [OF k2'(10)] qq qp comp])
  then show ?thesis using k1(2) k2(2) cp cq cn qq comp logs(2,5,6) by blast
qed

lemma consume_moves:
  assumes r: "consume_ready os s = Some (res, s')" and inv: "mux_inv s" and h: "mList (mReadyList s) = p # l"
    and c: "context_of s p = Some ctx"
  shows "\<exists>d1 d2 rd wr. mux_inv s' \<and> rdqueue ctx = d1 @ rd \<and> wrqueue ctx = d2 @ wr \<and> mReadyList s' = Fifo l \<and> event_log s' = event_log s \<and>
    mList (mCompletionList s') = mList (mCompletionList s) @ d1 @ d2 \<and>
    context_of s' p = Some (ctx\<lparr>ready := False, rdqueue := rd, wrqueue := wr\<rparr>) \<and>
    (\<forall>q. q \<noteq> p \<longrightarrow> eps s q \<noteq> None \<longrightarrow> context_of s' q = context_of s q) \<and>
    (\<forall>q. q \<noteq> p \<longrightarrow> queue_of s' q = queue_of s q) \<and>
    (\<forall>q x. q \<noteq> p \<longrightarrow> context_of s' q = Some x \<longrightarrow> context_of s q = Some x \<or> \<not> ready x) \<and>
    asked s' p = (if rd = [] \<and> wr = [] then asked s p else interest rd wr) \<and> (\<forall>q. q \<noteq> p \<longrightarrow> asked s' q = asked s q)"
proof -
  obtain e where e: "eps s p = Some e" "pAsyncContext e = Some ctx" using c by (auto simp: context_of_def bind_eq_Some_conv)
  let ?s0 = "s\<lparr>mReadyList := Fifo l\<rparr>"
  have pop: "pop_front (mReadyList s) = ((Some p, of_nat (length l)), Fifo l)" using h by (simp add: pop_front_def)
  obtain rd wr s1 where q: "perform_queues os p ctx ?s0 = Some (rd, wr, s1)" and s': "s' = rearm os p (getSocket e) rd wr s1"
    using r e by (auto simp: consume_ready_def Let_def pop bind_eq_Some_conv)
  have i0: "mux_inv ?s0" using inv_frame [OF inv, where w = "world s" and a = "asked s" and l = "Fifo l"] by simp
  have c0: "context_of ?s0 p = Some ctx" using c by (simp add: context_of_def)
  have v: "context_of (rearm os p sock rd wr s1) x = context_of s1 x" "queue_of (rearm os p sock rd wr s1) x = queue_of s1 x"
    "context_of ?s0 x = context_of s x" "queue_of ?s0 x = queue_of s x" for x sock
    by (subst rearm_simps, simp add: context_of_def queue_of_def fun_eq_iff)+ (simp_all add: context_of_def queue_of_def fun_eq_iff)
  have m: "mReadyList (rearm os p sock rd wr s1) = mReadyList s1" "event_log (rearm os p sock rd wr s1) = event_log s1"
    "mCompletionList (rearm os p sock rd wr s1) = mCompletionList s1" for sock
    by (subst rearm_simps, simp)+
  have "mux_inv (rearm os p sock rd wr s1)" if "mux_inv s1" for sock
    by (subst rearm_simps) (use inv_frame [OF that, where l = "mReadyList s1"] in simp)
  moreover from performed_moves [OF q i0 c0] obtain d1 d2 where
    d: "mux_inv s1" "rdqueue ctx = d1 @ rd" "wrqueue ctx = d2 @ wr" "mReadyList s1 = Fifo l" "event_log s1 = event_log s"
      "mList (mCompletionList s1) = mList (mCompletionList s) @ d1 @ d2"
      "context_of s1 p = Some (ctx\<lparr>ready := False, rdqueue := rd, wrqueue := wr\<rparr>)"
      "\<forall>q. q \<noteq> p \<longrightarrow> eps s q \<noteq> None \<longrightarrow> context_of s1 q = context_of s q" "\<forall>q. q \<noteq> p \<longrightarrow> queue_of s1 q = queue_of s q"
      "\<forall>q x. q \<noteq> p \<longrightarrow> context_of s1 q = Some x \<longrightarrow> context_of s q = Some x \<or> \<not> ready x" "asked s1 = asked s"
    unfolding v by auto
  ultimately show ?thesis unfolding s' v m rearm_asked
    by (intro exI [of _ d1] exI [of _ d2] exI [of _ rd] exI [of _ wr]) (simp add: d)
qed

lemma consume_idle:
  assumes "consume_ready os s = Some (res, s')" "mList (mReadyList s) = [] \<or> (\<exists>p l. mList (mReadyList s) = p # l \<and> context_of s p = None)"
  shows "s' = s\<lparr>mReadyList := Fifo (tl (mList (mReadyList s)))\<rparr>"
  using assms
  by (cases "mReadyList s")
    (auto simp: consume_ready_def Let_def pop_front_def bind_eq_Some_conv context_of_def split: option.split_asm)

lemma ready_inv:
  assumes inv: "mux_inv s" and r: "consume_ready os s = Some (res, s')"
  shows "mux_inv s'"
proof (cases "mList (mReadyList s) = [] \<or> (\<exists>p l. mList (mReadyList s) = p # l \<and> context_of s p = None)")
  case True
  show ?thesis unfolding consume_idle [OF r True]
    by (rule inv_same [OF inv]) (use mux_invD(1) [OF inv] in \<open>simp_all add: fresh_eps_def queue_world\<close>)
next
  case False
  then obtain p l ctx where h: "mList (mReadyList s) = p # l" "context_of s p = Some ctx"
    by (cases "mList (mReadyList s)") auto
  show ?thesis using consume_moves [OF r inv h] by (elim exE conjE)
qed

text \<open>An event changes one context: its operations are aborted, or it becomes ready.\<close>

lemma event_moves:
  assumes r: "handle_event (events, p) s = Some s'" and inv: "mux_inv s"
  shows "\<exists>ctx. mux_inv s' \<and> context_of s p = Some ctx \<and> world s' = world s \<and> mEpollfd s' = mEpollfd s \<and>
    event_log s' = event_log s \<and> asked s' = (asked s)(p := 0) \<and> (\<forall>q. q \<noteq> p \<longrightarrow> context_of s' q = context_of s q) \<and>
    (if events AND (EPOLLERR OR EPOLLHUP) \<noteq> 0
     then context_of s' p = Some (ctx\<lparr>ready := False, rdqueue := [], wrqueue := []\<rparr>) \<and> mReadyList s' = mReadyList s
     else if events AND (EPOLLIN OR EPOLLOUT) \<noteq> 0
     then context_of s' p = Some (ctx\<lparr>ready := True\<rparr>) \<and> mReadyList s' = push_back (Some p) (mReadyList s)
     else context_of s' p = Some (ctx\<lparr>ready := False\<rparr>) \<and> mReadyList s' = mReadyList s)"
proof -
  obtain e ctx s1 where e: "eps s p = Some e" "pAsyncContext e = Some ctx"
    and u: "update_ctx p (\<lambda>c. c\<lparr>ready := False\<rparr>) (s\<lparr>asked := (asked s)(p := 0)\<rparr>) = Some s1"
    using r by (auto simp: handle_event_def bind_eq_Some_conv)
  have c: "context_of s p = Some ctx" using e by (simp add: context_of_def)
  have v: "submitted_log s1 = submitted_log s" "event_log s1 = event_log s" "departed s1 = departed s" "next_ov s1 = next_ov s"
    "mReadyList s1 = mReadyList s" "mEpollfd s1 = mEpollfd s" "key_of s1 = key_of s" "mCompletionList s1 = mCompletionList s"
    "world s1 = world s" "fresh_eps s1" "q \<noteq> p \<Longrightarrow> queue_of s1 q = queue_of s q"
    "context_of s1 p = Some (ctx\<lparr>ready := False\<rparr>)" "q \<noteq> p \<Longrightarrow> context_of s1 q = context_of s q"
    "asked s1 = (asked s)(p := 0)" for q
    using update_ctx_views [OF u] mux_invD(1) [OF inv] c
    by (simp_all add: queue_world fresh_eps_def key_of_def fun_eq_iff context_of_def)
  note f1 = v(10) and c1 = v(12)
  show ?thesis
  proof (cases "events AND (EPOLLERR OR EPOLLHUP) \<noteq> 0")
    case True
    then obtain s2 s3 where a: "abort_all (rdqueue ctx) s1 = Some s2" "abort_all (wrqueue ctx) s2 = Some s3"
      and u2: "update_ctx p (\<lambda>c. c\<lparr>rdqueue := [], wrqueue := []\<rparr>) s3 = Some s'"
      using r e u by (auto simp: handle_event_def bind_eq_Some_conv)
    note a1 = abort_all_moves [OF a(1)] and a2 = abort_all_moves [OF a(2)] and v2 = update_ctx_views [OF u2]
    have eps3: "context_of s3 q = context_of s1 q" "queue_of s3 q = queue_of s1 q" for q
      using a1 a2 by (simp_all add: context_of_def queue_of_def fun_eq_iff)
    have f3: "fresh_eps s3" using f1 a1 a2 by (simp add: fresh_eps_def)
    have cp: "context_of s' p = Some (ctx\<lparr>ready := False, rdqueue := [], wrqueue := []\<rparr>)" using v2(12) eps3 c1 by simp
    have "mux_inv s'"
    proof (rule inv_move [OF inv, where p = p and ?d1.0 = "rdqueue ctx" and ?d2.0 = "wrqueue ctx"])
      show "submitted_log s' = submitted_log s" "event_log s' = event_log s" "departed s' = departed s" "next_ov s' = next_ov s"
        "key_of s' = key_of s" "fresh_eps s'" using v2(1-4,7,10) a1 a2 v(1-4,7) f3 by simp_all
      show "queue_of s' q = queue_of s q" if "q \<noteq> p" for q using v2(11) [OF that] eps3 v(11) [OF that] by simp
      show "queue_of s p False = rdqueue ctx @ queue_of s' p False" "queue_of s p True = wrqueue ctx @ queue_of s' p True"
        using c cp by (simp_all add: queue_of_def)
      show "mList (mCompletionList s') = mList (mCompletionList s) @ rdqueue ctx @ wrqueue ctx"
        using v2(8) a1 a2 v(8) by simp
    qed
    moreover have "\<forall>q. q \<noteq> p \<longrightarrow> context_of s' q = context_of s q" using v2(14) eps3 v(13) by simp
    moreover have "world s' = world s" "mEpollfd s' = mEpollfd s" "mReadyList s' = mReadyList s" "asked s' = (asked s)(p := 0)"
      "event_log s' = event_log s"
      using v2(2,5,6,9,16) a1 a2 v(2,5,6,9,14) by simp_all
    ultimately show ?thesis using True c cp by simp
  next
    case err: False
    obtain rl b where s': "(if events AND (EPOLLIN OR EPOLLOUT) \<noteq> 0 then rl = push_back (Some p) (mReadyList s) \<and> b = True
        else rl = mReadyList s \<and> b = False) \<and>
        (\<exists>s2. update_ctx p (\<lambda>c. c\<lparr>ready := b\<rparr>) s1 = Some s2 \<and> s' = s2\<lparr>mReadyList := rl\<rparr>)"
    proof (cases "events AND (EPOLLIN OR EPOLLOUT) \<noteq> 0")
      case True
      then obtain s2 where "update_ctx p (\<lambda>c. c\<lparr>ready := True\<rparr>) s1 = Some s2" "s' = push_ready p s2"
        using r e u err by (auto simp: handle_event_def bind_eq_Some_conv)
      moreover from this(1) have "mReadyList s2 = mReadyList s" using update_ctx_views(5) v(5) by metis
      ultimately show ?thesis using that [of "push_back (Some p) (mReadyList s)" True] True by (simp add: push_ready_def)
    next
      case False
      then have "s' = s1" using r e u err by (simp add: handle_event_def)
      moreover have "update_ctx p (\<lambda>c. c\<lparr>ready := False\<rparr>) s1 = Some s1"
        using update_ctx_simps [OF u] by (auto simp: update_ctx_def set_ep_def)
      ultimately show ?thesis using that [of "mReadyList s" False] False v(5) by (cases s1) auto
    qed
    then obtain s2 where u2: "update_ctx p (\<lambda>c. c\<lparr>ready := b\<rparr>) s1 = Some s2" and s2: "s' = s2\<lparr>mReadyList := rl\<rparr>" by blast
    note v2 = update_ctx_views [OF u2]
    have cx: "context_of s' q = context_of s2 q" for q by (simp add: s2 context_of_def)
    have cp: "context_of s' p = Some (ctx\<lparr>ready := b\<rparr>)" using v2(12) c1 cx by simp
    have cq: "context_of s' q = context_of s q" if "q \<noteq> p" for q using v2(14) [OF that] v(13) [OF that] cx by simp
    have "mux_inv s'"
    proof (rule inv_move [OF inv, where p = p and ?d1.0 = "[]" and ?d2.0 = "[]"])
      show "submitted_log s' = submitted_log s" "event_log s' = event_log s" "departed s' = departed s" "next_ov s' = next_ov s"
        using v2(1-4) v(1-4) by (simp_all add: s2)
      show "key_of s' = key_of s" using v2(7) v(7) by (simp add: s2 key_of_def fun_eq_iff)
      show "fresh_eps s'" using v2(10) [OF f1] by (simp add: s2 fresh_eps_def)
      show "queue_of s' q = queue_of s q" if "q \<noteq> p" for q using cq [OF that] by (rule queue_of_cong)
      show "queue_of s p False = [] @ queue_of s' p False" "queue_of s p True = [] @ queue_of s' p True"
        using c cp by (simp_all add: queue_of_def)
      show "mList (mCompletionList s') = mList (mCompletionList s) @ [] @ []" using v2(8) v(8) by (simp add: s2)
    qed
    moreover have "world s' = world s" "mEpollfd s' = mEpollfd s" "asked s' = (asked s)(p := 0)"
      "event_log s' = event_log s" using v2(2,6,9,16) v(2,6,9,14) by (simp_all add: s2)
    ultimately show ?thesis using s' err c cp cq s2 by (auto split: if_split_asm)
  qed
qed

text \<open>The same in parts: an update that keeps the queues, and the end of one queue.\<close>

lemma update_ctx_inv:
  assumes u: "update_ctx p f s = Some s'" and inv: "mux_inv s" and f: "\<And>c. rdqueue (f c) = rdqueue c \<and> wrqueue (f c) = wrqueue c"
  shows "mux_inv s'"
proof -
  note v = update_ctx_views [OF u]
  have "queue_of s' q = queue_of s q" for q
  proof (cases "q = p")
    case True
    then show ?thesis using v(12) f by (auto simp: queue_of_def fun_eq_iff split: option.split)
  qed (use v(11) in simp)
  moreover have "ovs s' = ovs s" using update_ctx_simps [OF u] by (auto simp: set_ep_def)
  ultimately show ?thesis using v(1-4,8) v(10) [OF mux_invD(1) [OF inv]] by (intro inv_same [OF inv])
qed

lemma abort_queue_moves:
  assumes a: "abort_all (if d then wrqueue ctx else rdqueue ctx) s = Some s1"
    and u: "update_ctx p (\<lambda>c. if d then c\<lparr>wrqueue := []\<rparr> else c\<lparr>rdqueue := []\<rparr>) s1 = Some s'"
    and inv: "mux_inv s" and c: "context_of s p = Some ctx"
  shows "mux_inv s' \<and> mReadyList s' = mReadyList s \<and> event_log s' = event_log s \<and> asked s' = asked s \<and>
    context_of s' p = Some (if d then ctx\<lparr>wrqueue := []\<rparr> else ctx\<lparr>rdqueue := []\<rparr>) \<and>
    (\<forall>q. q \<noteq> p \<longrightarrow> context_of s' q = context_of s q)"
proof -
  note m = abort_all_moves [OF a] and v = update_ctx_views [OF u]
  have e: "context_of s1 q = context_of s q" "queue_of s1 q = queue_of s q" for q
    using m by (simp_all add: context_of_def queue_of_def fun_eq_iff)
  have f: "fresh_eps s1" using m mux_invD(1) [OF inv] by (simp add: fresh_eps_def)
  have cp: "context_of s' p = Some (if d then ctx\<lparr>wrqueue := []\<rparr> else ctx\<lparr>rdqueue := []\<rparr>)" using v(12) e c by simp
  have "mux_inv s'"
  proof (rule inv_move [OF inv, where p = p and ?d1.0 = "if d then [] else rdqueue ctx" and ?d2.0 = "if d then wrqueue ctx else []"])
    show "submitted_log s' = submitted_log s" "event_log s' = event_log s" "departed s' = departed s" "next_ov s' = next_ov s"
      "key_of s' = key_of s" "fresh_eps s'" using v(1-4,7,10) m f by simp_all
    show "queue_of s' q = queue_of s q" if "q \<noteq> p" for q using v(11) [OF that] e by simp
    show "queue_of s p False = (if d then [] else rdqueue ctx) @ queue_of s' p False"
      "queue_of s p True = (if d then wrqueue ctx else []) @ queue_of s' p True"
      using c cp by (simp_all add: queue_of_def)
    show "mList (mCompletionList s') = mList (mCompletionList s) @ (if d then [] else rdqueue ctx) @ (if d then wrqueue ctx else [])"
      using v(8) m by simp
  qed
  then show ?thesis using cp v(2,5,14,16) m e by simp
qed

lemma events_inv: "\<lbrakk>handle_events evs s = Some s'; mux_inv s\<rbrakk> \<Longrightarrow> mux_inv s'"
proof (induction evs arbitrary: s)
  case (Cons ev evs)
  then obtain s1 where "handle_event ev s = Some s1" "handle_events evs s1 = Some s'" by (auto simp: bind_eq_Some_conv)
  then show ?case using Cons.IH Cons.prems(2) event_moves [of "fst ev" "snd ev" s s1] by auto
qed simp

lemma wait_inv:
  assumes inv: "mux_inv s" and r: "wait_events os t s = Some (res, s')"
  shows "mux_inv s'"
proof -
  have "mux_inv (s\<lparr>world := w\<rparr>)" for w
    by (rule inv_same [OF inv]) (use mux_invD(1) [OF inv] in \<open>simp_all add: fresh_eps_def queue_world\<close>)
  then show ?thesis using r
    by (auto simp: wait_events_def Let_def case_prod_beta bind_eq_Some_conv simp del: handle_events.simps
      split: option.split_asm list.split_asm elim: events_inv)
qed

lemma join_inv:
  assumes inv: "mux_inv s" and e: "eps s p = Some e" "pAsyncContext e = None" and r: "join os p s = Some (ok, s')"
  shows "mux_inv s'"
proof -
  obtain e' w where j: "join_object os p e (world s) = (e', w)" by (rule prod.exhaust)
  then have c: "pAsyncContext e' = Some \<lparr>rdqueue = [], wrqueue = [], ready = False, ctx_ep = p\<rparr>"
    by (auto simp: join_object_def Let_def case_prod_beta)
  have s': "s' = (set_ep p (Some e') s)\<lparr>world := w\<rparr>" using r e j by (simp add: join_def)
  have "queue_of s p = (\<lambda>d. [])" using e by (intro queue_none) (simp add: context_of_def)
  then have q: "queue_of s' x = queue_of s x" for x
    using c by (simp add: s' queue_world queue_set_ep fun_eq_iff)
  show ?thesis by (rule inv_same [OF inv])
    (use q mux_invD(1) [OF inv] ep_below [OF mux_invD(1) [OF inv] e(1)] in \<open>simp_all add: s' set_ep_def fresh_eps_def\<close>)
qed

lemma prog_step_inv:
  assumes "prog_step os env s s'" "mux_inv s"
  shows "mux_inv s'"
  using assms(1)
proof cases
  case (request p r)
  then show ?thesis using request_inv [OF assms(2)] by blast
next
  case (join p e ok)
  then show ?thesis using join_inv [OF assms(2)] by blast
next
  case (callback op q o' cb)
  then show ?thesis using callback_inv [OF assms(2)] by blast
next
  case (discard op)
  then show ?thesis using discard_inv [OF assms(2)] by blast
next
  case (switch v)
  show ?thesis unfolding switch(1) by (rule inv_same [OF assms(2)])
    (use mux_invD(1) [OF assms(2)] in \<open>simp_all add: mux_enable_def fresh_eps_def queue_of_def context_of_def fun_eq_iff\<close>)
next
  case (default cb)
  show ?thesis unfolding default(1) by (rule inv_same [OF assms(2)])
    (use mux_invD(1) [OF assms(2)] in \<open>simp_all add: setDefaultCallback_def fresh_eps_def queue_of_def context_of_def fun_eq_iff\<close>)
next
  case (endpoint p e e' w)
  have "queue_of s' x = queue_of s x" for x
    using endpoint(2,3) by (intro queue_of_cong) (simp add: endpoint(1) context_of_def set_ep_def)
  then show ?thesis by (intro inv_same [OF assms(2)])
    (use mux_invD(1) [OF assms(2)] ep_below [OF mux_invD(1) [OF assms(2)] endpoint(2)] in
      \<open>simp_all add: endpoint(1) set_ep_def fresh_eps_def\<close>)
next
  case (create e w)
  have "queue_of s' x = queue_of s x" for x
    using create(2) mux_invD(1) [OF assms(2)]
    by (intro queue_of_cong) (simp add: create(1) context_of_def set_ep_def fresh_eps_def)
  then show ?thesis by (intro inv_same [OF assms(2)])
    (use mux_invD(1) [OF assms(2)] in \<open>simp_all add: create(1) set_ep_def fresh_eps_def\<close>)
next
  case (delete p e w)
  have "queue_of s' x = queue_of s x" for x
    using delete(2,3) by (intro queue_of_cong) (simp add: delete(1) context_of_def set_ep_def)
  then show ?thesis by (intro inv_same [OF assms(2)])
    (use mux_invD(1) [OF assms(2)] in \<open>simp_all add: delete(1) set_ep_def fresh_eps_def\<close>)
qed

lemma step_inv: "\<lbrakk>mux_step os env s s'; mux_inv s\<rbrakk> \<Longrightarrow> mux_inv s'"
  by (erule mux_stepE) (blast intro: prog_step_inv depart_inv ready_inv wait_inv)+

lemma start_inv: "mux_start os s \<Longrightarrow> mux_inv s"
proof -
  assume "mux_start os s"
  then obtain e n w where s: "s = mux_new os e n w" "\<forall>p. n \<le> p \<longrightarrow> e p = None" "\<forall>p e'. e p = Some e' \<longrightarrow> pAsyncContext e' = None"
    unfolding mux_start_def by blast
  have "context_of s p = None" for p using s by (cases "e p") (auto simp: mux_new_def Let_def case_prod_beta context_of_def)
  then have q: "queue_of s p = (\<lambda>d. [])" for p by (rule queue_none)
  show ?thesis unfolding mux_inv_def q using s(2)
    by (simp add: s(1) mux_new_def Let_def case_prod_beta fresh_eps_def fifo_empty_def called_def completing_def submitted_def)
qed

lemma steps_inv: "\<lbrakk>(mux_step os env)\<^sup>*\<^sup>* s s'; mux_inv s\<rbrakk> \<Longrightarrow> mux_inv s'"
  by (induction rule: rtranclp_induct) (auto intro: step_inv)

lemma reach_inv: "mux_reach os env s \<Longrightarrow> mux_inv s"
  unfolding mux_reach_def by (elim exE conjE) (rule steps_inv [OF _ start_inv])

end
