(* ===== verification/NetIoMuxProps.thy ===== *)
theory NetIoMuxProps
  imports NetIoMuxInv NetEndpointProps
begin

text \<open>
  Properties of the multiplexer: operations complete exactly once and in order, none is forgotten,
  callbacks are told what the system call said; and the places where the code goes wrong.
\<close>

section \<open>Order\<close>

lemma distinct_by_key:
  assumes "\<And>k. distinct (map fst (filter (\<lambda>x. key x = k) l))"
    and "\<And>x y. x \<in> set l \<Longrightarrow> y \<in> set l \<Longrightarrow> fst x = fst y \<Longrightarrow> key x = key y"
  shows "distinct (map fst l)"
  using assms
proof (induction l)
  case (Cons x l)
  have "fst x \<notin> fst ` set l"
  proof
    assume "fst x \<in> fst ` set l"
    then obtain y where y: "y \<in> set l" "fst x = fst y" by auto
    then have "key x = key y" using Cons.prems(2) [of x y] by simp
    then have "fst x \<in> set (map fst (filter (\<lambda>z. key z = key x) l))" using y by force
    then show False using Cons.prems(1) [of "key x"] by simp
  qed
  moreover have "distinct (map fst l)"
  proof (rule Cons.IH)
    show "distinct (map fst (filter (\<lambda>x. key x = k) l))" for k
      using Cons.prems(1) [of k] by (simp split: if_split_asm)
  qed (use Cons.prems(2) in auto)
  ultimately show ?case by simp
qed simp

definition event_key :: "nat \<times> io_event \<Rightarrow> nat \<times> bool" where
  "event_key x = (ev_sep (snd x), is_write (ev_type (snd x)))"

lemma called_key: "called s p d = map fst (filter (\<lambda>x. event_key x = (p, d)) (event_log s))"
  by (auto simp: called_def event_key_def intro!: arg_cong [where f = "map fst"] filter_cong)

lemma events_distinct:
  assumes inv: "mux_inv s" shows "distinct (map fst (event_log s))"
proof (rule distinct_by_key [where key = event_key])
  show "distinct (map fst (filter (\<lambda>x. event_key x = k) (event_log s)))" for k
    using listed_submitted(2) [OF inv, of "fst k" "snd k"] by (simp add: called_key)
  have mem: "fst x \<in> set (submitted s (fst (event_key x)) (snd (event_key x)))" if "x \<in> set (event_log s)" for x
  proof -
    have "fst x \<in> set (called s (fst (event_key x)) (snd (event_key x)))" using that by (force simp: called_key)
    then show ?thesis using listed_submitted(1) [OF inv, of "fst (event_key x)" "snd (event_key x)"] by auto
  qed
  show "event_key x = event_key y" if "x \<in> set (event_log s)" "y \<in> set (event_log s)" "fst x = fst y" for x y
    using submitted_unique [OF mem [OF that(1)] _ mux_invD(4) [OF inv]] mem [OF that(2)] that(3)
    by (simp add: prod_eq_iff)
qed

section \<open>The history grows\<close>

lemma request_submits: "mux_request p r s = Some s' \<Longrightarrow> \<exists>o' d. submit p o' d s = Some s'"
  by (cases r) (auto simp: asyncRecv_def asyncRecvFrom_def asyncSend_def asyncSendTo_def asyncAccept_def asyncConnect_def
    bind_eq_Some_conv)

text \<open>What a request changes: one context, and the ready list if that was not ready.\<close>

lemma submit_views:
  assumes r: "submit p o' d s = Some s'"
  shows "s' = s \<or> (\<exists>c. context_of s p = Some c \<and> event_log s' = event_log s \<and> asked s' = asked s \<and>
    (\<forall>q. q \<noteq> p \<longrightarrow> context_of s' q = context_of s q) \<and>
    (\<exists>c'. context_of s' p = Some (c'\<lparr>ready := True\<rparr>)) \<and>
    mReadyList s' = (if ready c then mReadyList s else push_back (Some p) (mReadyList s)))"
proof (cases "context_of s p")
  case None
  then show ?thesis using r by (auto simp: submit_def context_of_def bind_eq_Some_conv split: if_split_asm)
next
  case (Some c)
  let ?s1 = "(set_ov (next_ov s) (Some o') s)\<lparr>next_ov := next_ov s + 1, submitted_log := submitted_log s @ [(next_ov s, p, iotype o')]\<rparr>"
  have r1: "appendAsyncOpLocked p (next_ov s) d ?s1 = Some s'"
    using r Some by (auto simp: submit_def Let_def context_of_def bind_eq_Some_conv split: if_split_asm)
  have same: "context_of ?s1 q = context_of s q" "mReadyList ?s1 = mReadyList s" "asked ?s1 = asked s" "event_log ?s1 = event_log s" for q
    by (simp_all add: context_of_def set_ov_def)
  have c1: "context_of ?s1 p = Some c" using Some same by simp
  show ?thesis using append_op [OF r1 c1] same Some by (intro disjI2 exI [of _ c]) (auto simp: same)
qed

lemma request_log: "mux_request p r s = Some s' \<Longrightarrow> event_log s' = event_log s"
  using request_submits submit_views by metis

lemma consume_log:
  assumes "consume_ready os s = Some (r, s')" "mux_inv s"
  shows "event_log s' = event_log s"
proof (cases "mList (mReadyList s) = [] \<or> (\<exists>p l. mList (mReadyList s) = p # l \<and> context_of s p = None)")
  case True
  then show ?thesis using consume_idle [OF assms(1) True] by simp
next
  case False
  then obtain p l c where "mList (mReadyList s) = p # l" "context_of s p = Some c" by (cases "mList (mReadyList s)") auto
  then show ?thesis using consume_moves [OF assms] by blast
qed

lemma events_log: "\<lbrakk>handle_events evs s = Some s'; mux_inv s\<rbrakk> \<Longrightarrow> event_log s' = event_log s"
proof (induction evs arbitrary: s)
  case (Cons ev evs)
  then obtain s1 where s1: "handle_event ev s = Some s1" "handle_events evs s1 = Some s'" by (auto simp: bind_eq_Some_conv)
  obtain c where "mux_inv s1" "event_log s1 = event_log s"
    using event_moves [of "fst ev" "snd ev" s s1] s1(1) Cons.prems(2) by auto
  then show ?case using Cons.IH s1(2) by metis
qed simp

lemma inv_world: "mux_inv s \<Longrightarrow> mux_inv (s\<lparr>world := w\<rparr>)"
  by (rule inv_same) (use mux_invD(1) [of s] in \<open>simp_all add: fresh_eps_def queue_world\<close>)

lemma wait_log: "\<lbrakk>wait_events os t s = Some (r, s'); mux_inv s\<rbrakk> \<Longrightarrow> event_log s' = event_log s"
  using inv_world [of s]
  by (auto simp: wait_events_def Let_def case_prod_beta bind_eq_Some_conv simp del: handle_events.simps
    split: option.split_asm list.split_asm dest!: events_log)

lemma prog_step_log: "prog_step os env s s' \<Longrightarrow> prefix (event_log s) (event_log s')"
  by (erule prog_stepE)
    (auto simp: request_log join_def Let_def case_prod_beta bind_eq_Some_conv set_ep_def set_ov_def
      mux_enable_def setDefaultCallback_def)

lemma depart_log: "depart os p s = Some (ok, s') \<Longrightarrow> event_log s' = event_log s"
  by (auto simp: depart_def Let_def case_prod_beta bind_eq_Some_conv set_ep_def split: if_split_asm option.split_asm)

lemma step_log: "\<lbrakk>mux_step os env s s'; mux_inv s\<rbrakk> \<Longrightarrow> prefix (event_log s) (event_log s')"
  by (erule mux_stepE) (auto simp: prog_step_log depart_log consume_log wait_log)

section \<open>The loop is made of steps\<close>

text \<open>
  What the loop needs of a multiplexer: its steps include those of the program, keep the invariant
  and add to the history of callbacks.  A client is good when its callback takes steps.
\<close>

locale multiplexer =
  fixes os :: "'w muxsys" and env :: "'w \<Rightarrow> 'w \<Rightarrow> bool" and move :: "'w mux \<Rightarrow> 'w mux \<Rightarrow> bool"
  assumes program: "prog_step os env s s' \<Longrightarrow> move s s'"
    and keeps: "\<lbrakk>move s s'; mux_inv s\<rbrakk> \<Longrightarrow> mux_inv s'"
    and grows: "\<lbrakk>move s s'; mux_inv s\<rbrakk> \<Longrightarrow> prefix (event_log s) (event_log s')"
begin

lemma path_inv: "\<lbrakk>move\<^sup>*\<^sup>* s s'; mux_inv s\<rbrakk> \<Longrightarrow> mux_inv s'"
  by (induction rule: rtranclp_induct) (auto intro: keeps)

lemma path_log: "\<lbrakk>move\<^sup>*\<^sup>* s s'; mux_inv s\<rbrakk> \<Longrightarrow> prefix (event_log s) (event_log s')"
proof (induction rule: rtranclp_induct)
  case (step y z)
  then show ?case using grows path_inv [OF step(1)] prefix_order.order_trans by blast
qed simp

lemma dispatch_path:
  assumes r: "dispatch client s = Some (b, s')" and inv: "mux_inv s"
    and cl: "\<And>ev s s'. client ev s = Some s' \<Longrightarrow> move\<^sup>*\<^sup>* s s'"
  shows "move\<^sup>*\<^sup>* s s'"
proof (cases "mList (mCompletionList s)")
  case Nil
  then have "s' = s" using r by (cases "mCompletionList s") (auto simp: dispatch_def pop_front_def)
  then show ?thesis by simp
next
  case (Cons op q)
  have pop: "pop_front (mCompletionList s) = ((Some op, of_nat (length q)), Fifo q)" using Cons by (simp add: pop_front_def)
  obtain p d where b: "belongs s p d op" using mux_invD(3) [OF inv, of op] Cons by auto
  obtain o' where o: "ovs s op = Some o'" "iotype o' \<noteq> EIT_INVALID" using b by (auto simp: belongs_iff key_of_def)
  obtain cb s2 where cb: "callback o' = Some cb"
      "client (event_of cb o') (s\<lparr>mCompletionList := Fifo q, event_log := event_log s @ [(op, event_of cb o')]\<rparr>) = Some s2"
      "s' = set_ov op None s2"
    using r o by (auto simp: dispatch_def pop Let_def bind_eq_Some_conv)
  let ?s1 = "s\<lparr>mCompletionList := Fifo q, event_log := event_log s @ [(op, event_of cb o')]\<rparr>"
  have "move s ?s1" using program prog_step.callback [OF Cons o cb(1)] by blast
  moreover have t: "move\<^sup>*\<^sup>* ?s1 s2" by (rule cl [OF cb(2)])
  moreover have "move s2 s'"
  proof -
    have "mux_inv ?s1" using callback_inv [OF inv Cons o(1)] .
    then have "prefix (event_log ?s1) (event_log s2)" by (rule path_log [OF t])
    then have "(op, event_of cb o') \<in> set (event_log s2)" by (auto dest!: set_mono_prefix)
    then have "op \<in> fst ` set (event_log s2)" by force
    then show ?thesis unfolding cb(3) by (intro program prog_step.discard)
  qed
  ultimately show ?thesis by (meson converse_rtranclp_into_rtranclp rtranclp.rtrancl_into_rtrancl)
qed

text \<open>A turn: dispatch, the ready list, and the wait unless the list is long.\<close>

lemma turn_path:
  assumes "dispatch client s = Some (b, s1)" and "mux_inv s" and "\<And>ev s s'. client ev s = Some s' \<Longrightarrow> move\<^sup>*\<^sup>* s s'"
    and "move s1 s2" and "s' = s2 \<or> move s2 s'"
  shows "move\<^sup>*\<^sup>* s s'"
  using dispatch_path [OF assms(1-3)] assms(4,5) by (meson rtranclp.rtrancl_into_rtrancl)

text \<open>The body of a loop of turns.\<close>

lemma loop_path:
  assumes body: "(if \<not> mEnable s then Some s else do { (r, s) \<leftarrow> once s; if r = ERS_DISABLED then Some s else rest s }) = Some s'"
    and inv: "mux_inv s" and turn: "\<And>r s'. once s = Some (r, s') \<Longrightarrow> move\<^sup>*\<^sup>* s s'"
    and rest: "\<And>s. \<lbrakk>rest s = Some s'; mux_inv s\<rbrakk> \<Longrightarrow> move\<^sup>*\<^sup>* s s'"
  shows "move\<^sup>*\<^sup>* s s'"
proof (cases "mEnable s")
  case True
  then obtain x s1 where o: "once s = Some (x, s1)" and k: "(if x = ERS_DISABLED then Some s1 else rest s1) = Some s'"
    using body by (auto simp: bind_eq_Some_conv)
  note t = turn [OF o]
  show ?thesis
  proof (cases "x = ERS_DISABLED")
    case False
    then have "move\<^sup>*\<^sup>* s1 s'" using rest k path_inv [OF t inv] by simp
    then show ?thesis using t by (rule rtranclp_trans [rotated])
  qed (use k t in simp)
qed (use body in simp)

end

interpretation epoll: multiplexer os env "mux_step os env" for os env
  by unfold_locales (auto intro: mux_step.program step_inv step_log)

text \<open>The callback may only use the multiplexer through its interface.\<close>

definition client_steps :: "'w muxsys \<Rightarrow> ('w \<Rightarrow> 'w \<Rightarrow> bool) \<Rightarrow> (io_event \<Rightarrow> 'w mux \<Rightarrow> 'w mux option) \<Rightarrow> bool" where
  "client_steps os env client \<longleftrightarrow> (\<forall>ev s s'. client ev s = Some s' \<longrightarrow> (mux_step os env)\<^sup>*\<^sup>* s s')"

lemma runOnce_steps:
  assumes r: "runOnce os client t s = Some (x, s')" and inv: "mux_inv s" and cl: "client_steps os env client"
  shows "(mux_step os env)\<^sup>*\<^sup>* s s'"
proof -
  obtain b s1 where d1: "dispatch client s = Some (b, s1)" using r by (auto simp: runOnce_def bind_eq_Some_conv)
  then obtain c n s2 where d2: "consume_ready os s1 = Some ((c, n), s2)" using r by (auto simp: runOnce_def bind_eq_Some_conv)
  note d = d1 d2
  have w: "s' = s2 \<or> (\<exists>t' r'. wait_events os t' s2 = Some (r', s'))"
    using r d by (cases "n < MAX_READY_LIST_LEN") (auto simp: runOnce_def)
  have "mux_step os env s1 s2" using d(2) by (rule mux_step.ready)
  moreover have "s' = s2 \<or> mux_step os env s2 s'" using w mux_step.wait by blast
  ultimately show ?thesis using epoll.turn_path [OF d(1) inv] cl unfolding client_steps_def by blast
qed

lemma run_steps:
  assumes cl: "client_steps os env client" and r: "run os client s = Some s'" and inv: "mux_inv s"
  shows "(mux_step os env)\<^sup>*\<^sup>* s s'"
proof -
  let ?P = "\<lambda>os' client' s s'. os' = os \<longrightarrow> client' = client \<longrightarrow> mux_inv s \<longrightarrow> (mux_step os env)\<^sup>*\<^sup>* s s'"
  have "?P os client s s'"
  proof (rule run.raw_induct [where P = ?P, OF _ r], intro impI)
    fix rec os' client' s s'
    assume IH: "\<And>os' client' s s'. rec os' client' s = Some s' \<Longrightarrow> ?P os' client' s s'"
      and body: "(if \<not> mEnable s then Some s else do { (r, s) \<leftarrow> runOnce os' client' 10 s;
        if r = ERS_DISABLED then Some s else rec os' client' s }) = Some s'"
      and eq: "os' = os" "client' = client" and i: "mux_inv s"
    show "(mux_step os env)\<^sup>*\<^sup>* s s'"
    proof (rule epoll.loop_path [where once = "runOnce os client 10" and rest = "rec os client"])
      show "(if \<not> mEnable s then Some s else do { (r, s) \<leftarrow> runOnce os client 10 s;
        if r = ERS_DISABLED then Some s else rec os client s }) = Some s'" using body unfolding eq .
    qed (use i runOnce_steps [OF _ i cl] IH eq in blast)+
  qed
  then show ?thesis using inv by blast
qed

section \<open>Nothing is forgotten\<close>

text \<open>
  What epoll\_wait documents: it reports an event that was asked for, or a hang-up or an error.
\<close>

definition epoll_reports :: "'w muxsys \<Rightarrow> bool" where
  "epoll_reports os \<longleftrightarrow> (\<forall>fd n t w evs w'. os_epoll_wait os fd n t w = (Some evs, w') \<longrightarrow>
     (\<forall>(events, p) \<in> set evs. events AND (EPOLLERR OR EPOLLHUP) \<noteq> 0 \<or> events AND (EPOLLIN OR EPOLLOUT) \<noteq> 0))"

text \<open>An endpoint is in the ready list, or epoll has been asked for what its operations need.\<close>

definition armed_at :: "'w mux \<Rightarrow> nat \<Rightarrow> bool" where
  "armed_at s p \<longleftrightarrow> (\<forall>c. context_of s p = Some c \<longrightarrow>
     (if ready c then p \<in> set (mList (mReadyList s))
      else (rdqueue c \<noteq> [] \<longrightarrow> asked s p AND EPOLLIN \<noteq> 0) \<and> (wrqueue c \<noteq> [] \<longrightarrow> asked s p AND EPOLLOUT \<noteq> 0)))"

lemma armed_keep:
  "\<lbrakk>armed_at s p; context_of s' p = context_of s p; asked s' p = asked s p;
    p \<in> set (mList (mReadyList s)) \<Longrightarrow> p \<in> set (mList (mReadyList s'))\<rbrakk> \<Longrightarrow> armed_at s' p"
  by (auto simp: armed_at_def)

lemma interest_bits:
  "rd \<noteq> [] \<Longrightarrow> interest rd wr AND EPOLLIN \<noteq> 0" "wr \<noteq> [] \<Longrightarrow> interest rd wr AND EPOLLOUT \<noteq> 0"
  by (auto simp: interest_def EPOLLIN_def EPOLLOUT_def EPOLLET_def EPOLLONESHOT_def)

text \<open>
  A step of the program changes the context of an endpoint in one of three ways: it is removed, it is
  new and idle, or it is ready because of a request, and then in the ready list if it was not ready.
\<close>

lemma join_views:
  assumes "join os p s = Some (ok, s')"
  shows "asked s' = asked s \<and> mReadyList s' = mReadyList s \<and>
    context_of s' q = (if q = p then Some \<lparr>rdqueue = [], wrqueue = [], ready = False, ctx_ep = p\<rparr> else context_of s q)"
  using assms by (auto simp: join_def join_object_def Let_def case_prod_beta bind_eq_Some_conv context_of_def set_ep_def)

definition asks :: "'w mux \<Rightarrow> nat \<Rightarrow> async_context option \<Rightarrow> async_context option \<Rightarrow> bool" where
  "asks s' q old new \<longleftrightarrow> new = old \<or> (case new of None \<Rightarrow> True | Some c' \<Rightarrow>
     if ready c' then (\<exists>c. old = Some c \<and> (ready c \<or> q \<in> set (mList (mReadyList s')))) else rdqueue c' = [] \<and> wrqueue c' = [])"

lemma prog_views:
  assumes st: "prog_step os env s s'"
  shows "asked s' = asked s \<and> set (mList (mReadyList s)) \<subseteq> set (mList (mReadyList s')) \<and> asks s' q (context_of s q) (context_of s' q)"
  using st
proof cases
  case (request p r)
  then obtain o' d where "submit p o' d s = Some s'" using request_submits by blast
  from submit_views [OF this] show ?thesis by (cases "q = p") (auto simp: asks_def)
next
  case (join p e ok)
  then show ?thesis using join_views [OF join(3), of q] by (simp add: asks_def)
qed (auto simp: asks_def context_of_def set_ep_def set_ov_def mux_enable_def setDefaultCallback_def)

lemma prog_armed:
  assumes "prog_step os env s s'" and "\<forall>q. armed_at s q"
  shows "armed_at s' q"
proof -
  have a: "armed_at s q" using assms(2) ..
  note v = prog_views [OF assms(1), of q]
  show ?thesis
  proof (cases "context_of s' q = context_of s q")
    case True
    then show ?thesis using v by (intro armed_keep [OF a]) auto
  next
    case False
    then show ?thesis using v a by (auto simp: armed_at_def asks_def split: if_split_asm option.split_asm)
  qed
qed

lemma erase_from_other: "\<lbrakk>erase_from p l = Some l'; q \<in> set l; q \<noteq> p\<rbrakk> \<Longrightarrow> q \<in> set l'"
  by (induction l arbitrary: l') (auto split: if_split_asm)

lemma fifo_erase_other: "\<lbrakk>q \<in> set (mList l); q \<noteq> p\<rbrakk> \<Longrightarrow> q \<in> set (mList (snd (fifo_erase (Some p) l)))"
  by (auto simp: fifo_erase_def split: option.split dest: erase_from_other)

lemma depart_views:
  assumes r: "depart os p s = Some (ok, s')"
  shows "context_of s' q = None \<or> context_of s' q = context_of s q \<and> asked s' q = asked s q \<and>
    (q \<in> set (mList (mReadyList s)) \<longrightarrow> q \<in> set (mList (mReadyList s')))"
proof -
  obtain e where e: "eps s p = Some e" using r by (auto simp: depart_def bind_eq_Some_conv)
  obtain ec w where w: "os_epoll_ctl os (mEpollfd s) EPOLL_CTL_DEL (getSocket e) 0 0 (world s) = (ec, w)" by (rule prod.exhaust)
  show ?thesis
  proof (cases "ec \<noteq> 0 \<and> os_errno (net os) w \<noteq> ENOENT \<or> pAsyncContext e = None")
    case True
    then have "s' = s\<lparr>world := w\<rparr>" using r e w by (auto simp: depart_def Let_def split: if_split_asm)
    then show ?thesis by (simp add: context_of_def)
  next
    case False
    then obtain w2 l where l: "l = mReadyList s \<or> l = snd (fifo_erase (Some p) (mReadyList s))"
      and s': "s' = (set_ep p (Some (e\<lparr>pAsyncContext := None\<rparr>)) s)\<lparr>world := w2, departed := insert p (departed s), mReadyList := l,
        asked := (asked s)(p := 0)\<rparr>"
      using r e w by (cases s) (auto simp: depart_def Let_def case_prod_beta set_ep_def split: if_split_asm)
    show ?thesis
    proof (cases "q = p")
      case False
      then have "q \<in> set (mList (mReadyList s)) \<Longrightarrow> q \<in> set (mList l)" using l fifo_erase_other by metis
      then show ?thesis using False by (simp add: s' context_of_def set_ep_def)
    qed (simp add: s' context_of_def set_ep_def)
  qed
qed

lemma depart_armed:
  assumes "depart os p s = Some (ok, s')" and "\<forall>q. armed_at s q"
  shows "armed_at s' q"
  using depart_views [OF assms(1), of q]
proof
  assume "context_of s' q = None"
  then show ?thesis by (simp add: armed_at_def)
qed (intro armed_keep [OF assms(2) [rule_format]]; simp)

lemma consume_armed:
  assumes r: "consume_ready os s = Some (x, s')" and inv: "mux_inv s" and a: "\<forall>q. armed_at s q"
  shows "armed_at s' q"
proof (cases "mList (mReadyList s) = [] \<or> (\<exists>p l. mList (mReadyList s) = p # l \<and> context_of s p = None)")
  case True
  let ?s = "s\<lparr>mReadyList := Fifo (tl (mList (mReadyList s)))\<rparr>"
  have c: "context_of ?s q = context_of s q" by (simp add: context_of_def)
  have "armed_at ?s q"
  proof (cases "context_of s q")
    case None
    then show ?thesis using c by (simp add: armed_at_def)
  next
    case (Some x)
    show ?thesis by (rule armed_keep [OF a [rule_format]]) (use True Some a c in auto)
  qed
  then show ?thesis unfolding consume_idle [OF r True] .
next
  case False
  then obtain p l c where h: "mList (mReadyList s) = p # l" "context_of s p = Some c" by (cases "mList (mReadyList s)") auto
  from consume_moves [OF r inv h] obtain rd wr where m: "mReadyList s' = Fifo l"
    "context_of s' p = Some (c\<lparr>ready := False, rdqueue := rd, wrqueue := wr\<rparr>)"
    "\<forall>q. q \<noteq> p \<longrightarrow> eps s q \<noteq> None \<longrightarrow> context_of s' q = context_of s q" "\<forall>q. q \<noteq> p \<longrightarrow> queue_of s' q = queue_of s q"
    "\<forall>q x. q \<noteq> p \<longrightarrow> context_of s' q = Some x \<longrightarrow> context_of s q = Some x \<or> \<not> ready x"
    "asked s' p = (if rd = [] \<and> wr = [] then asked s p else interest rd wr)" "\<forall>q. q \<noteq> p \<longrightarrow> asked s' q = asked s q"
    by blast
  consider (same) "q = p" | (old) "q \<noteq> p" "eps s q \<noteq> None" | (new) "q \<noteq> p" "eps s q = None" by blast
  then show ?thesis
  proof cases
    case same
    then show ?thesis using m(2,6) interest_bits by (auto simp: armed_at_def)
  next
    case old
    then show ?thesis using m(1,3,7) h by (intro armed_keep [OF a [rule_format]]) auto
  next
    case new
    then have n: "context_of s q = None" by (simp add: context_of_def)
    have "queue_of s' q False = []" "queue_of s' q True = []" using m(4) new(1) queue_none [OF n] by simp_all
    then have "rdqueue x = []" "wrqueue x = []" if "context_of s' q = Some x" for x
      using that \<open>queue_of s' q False = []\<close> \<open>queue_of s' q True = []\<close> by (simp_all add: queue_of_def)
    then show ?thesis using m(5) new(1) n by (auto simp: armed_at_def)
  qed
qed

lemma event_armed:
  assumes r: "handle_event (events, p) s = Some s'" and inv: "mux_inv s" and a: "\<forall>q. armed_at s q"
    and ev: "events AND (EPOLLERR OR EPOLLHUP) \<noteq> 0 \<or> events AND (EPOLLIN OR EPOLLOUT) \<noteq> 0"
  shows "armed_at s' q"
proof -
  from event_moves [OF r inv] obtain c where m: "context_of s p = Some c" "asked s' = (asked s)(p := 0)"
    "\<forall>q. q \<noteq> p \<longrightarrow> context_of s' q = context_of s q"
    and i: "if events AND (EPOLLERR OR EPOLLHUP) \<noteq> 0
     then context_of s' p = Some (c\<lparr>ready := False, rdqueue := [], wrqueue := []\<rparr>) \<and> mReadyList s' = mReadyList s
     else if events AND (EPOLLIN OR EPOLLOUT) \<noteq> 0
     then context_of s' p = Some (c\<lparr>ready := True\<rparr>) \<and> mReadyList s' = push_back (Some p) (mReadyList s)
     else context_of s' p = Some (c\<lparr>ready := False\<rparr>) \<and> mReadyList s' = mReadyList s"
    by (elim exE conjE) blast
  show ?thesis
  proof (cases "events AND (EPOLLERR OR EPOLLHUP) \<noteq> 0")
    case True
    then have k: "context_of s' p = Some (c\<lparr>ready := False, rdqueue := [], wrqueue := []\<rparr>)" "mReadyList s' = mReadyList s"
      using i by simp_all
    show ?thesis
    proof (cases "q = p")
      case True
      then show ?thesis using k by (simp add: armed_at_def)
    qed (use m k a in \<open>auto intro!: armed_keep [OF a [rule_format]]\<close>)
  next
    case False
    then have k: "context_of s' p = Some (c\<lparr>ready := True\<rparr>)" "mReadyList s' = push_back (Some p) (mReadyList s)"
      using i ev by simp_all
    show ?thesis
    proof (cases "q = p")
      case True
      then show ?thesis using k by (simp add: armed_at_def)
    qed (use m k a in \<open>auto intro!: armed_keep [OF a [rule_format]]\<close>)
  qed
qed

lemma events_armed:
  "\<lbrakk>handle_events evs s = Some s'; mux_inv s; \<forall>q. armed_at s q;
    \<forall>(events, p) \<in> set evs. events AND (EPOLLERR OR EPOLLHUP) \<noteq> 0 \<or> events AND (EPOLLIN OR EPOLLOUT) \<noteq> 0\<rbrakk> \<Longrightarrow> armed_at s' q"
proof (induction evs arbitrary: s)
  case (Cons ev evs)
  obtain s1 where s1: "handle_event (fst ev, snd ev) s = Some s1" "handle_events evs s1 = Some s'"
    using Cons.prems(1) by (auto simp: bind_eq_Some_conv)
  have "mux_inv s1" using event_moves [OF s1(1) Cons.prems(2)] by blast
  moreover have "armed_at s1 p" for p
    by (rule event_armed [OF s1(1) Cons.prems(2,3)]) (use Cons.prems(4) in auto)
  ultimately show ?case using Cons.IH [OF s1(2)] Cons.prems(4) by simp
qed simp

lemma wait_armed:
  assumes r: "wait_events os t s = Some (x, s')" and inv: "mux_inv s" and a: "\<forall>q. armed_at s q" and ep: "epoll_reports os"
  shows "armed_at s' q"
proof -
  obtain evs w where w: "os_epoll_wait os (mEpollfd s) 128 t (world s) = (evs, w)" by (rule prod.exhaust)
  have aw: "\<forall>q. armed_at (s\<lparr>world := w\<rparr>) q" using a by (simp add: armed_at_def context_of_def)
  have "s' = s\<lparr>world := w\<rparr> \<or> (\<exists>es. evs = Some es \<and> handle_events es (s\<lparr>world := w\<rparr>) = Some s')"
    using r w by (auto simp: wait_events_def Let_def bind_eq_Some_conv simp del: handle_events.simps split: option.split_asm list.split_asm)
  then show ?thesis
  proof (elim disjE exE conjE)
    fix es assume h: "evs = Some es" "handle_events es (s\<lparr>world := w\<rparr>) = Some s'"
    then have "\<forall>(events, p) \<in> set es. events AND (EPOLLERR OR EPOLLHUP) \<noteq> 0 \<or> events AND (EPOLLIN OR EPOLLOUT) \<noteq> 0"
      using ep w unfolding epoll_reports_def by blast
    then show ?thesis by (rule events_armed [OF h(2) inv_world [OF inv] aw])
  qed (use aw in simp)
qed

lemma step_armed:
  "\<lbrakk>mux_step os env s s'; mux_inv s; \<forall>q. armed_at s q; epoll_reports os\<rbrakk> \<Longrightarrow> armed_at s' q"
  by (erule mux_stepE) (blast intro: prog_armed depart_armed consume_armed wait_armed)+

lemma start_armed: "mux_start os s \<Longrightarrow> armed_at s q"
  by (auto simp: mux_start_def armed_at_def context_of_def mux_new_def Let_def case_prod_beta bind_eq_Some_conv)

lemma reach_armed:
  assumes "mux_reach os env s" and ep: "epoll_reports os" shows "armed_at s q"
proof -
  obtain s0 where s0: "mux_start os s0" and r: "(mux_step os env)\<^sup>*\<^sup>* s0 s" using assms by (auto simp: mux_reach_def)
  from r have "mux_inv s \<and> (\<forall>q. armed_at s q)"
  proof (induction rule: rtranclp_induct)
    case base
    then show ?case using s0 start_armed start_inv by blast
  next
    case (step y z)
    then show ?case using step_inv step_armed [OF _ _ _ ep] by blast
  qed
  then show ?thesis by blast
qed

section \<open>What a callback is told\<close>

text \<open>The call of the system that an operation makes, with its result, and the state afterwards.\<close>

definition transfer_call :: "'w muxsys \<Rightarrow> nep \<Rightarrow> overlapped \<Rightarrow> 'w \<Rightarrow> (int \<times> 'w) option" where
  "transfer_call os e o' w =
     do { buf \<leftarrow> user_buffer o';
          case iotype o' of
            EIT_RECV \<Rightarrow> Some (os_recv (net os) (getSocket e) buf (ucast (olen o')) MSG_DONTWAIT w)
          | EIT_SEND \<Rightarrow> Some (os_send (net os) (getSocket e) buf (ucast (olen o')) MSG_DONTWAIT w)
          | EIT_RECVFROM \<Rightarrow> do { pr \<leftarrow> opeer o';
              let ((n, a, m), w) = os_recvfrom (net os) (getSocket e) buf (ucast (olen o')) MSG_DONTWAIT (Length pr) w; Some (n, w) }
          | EIT_SENDTO \<Rightarrow> do { pr \<leftarrow> opeer o'; sa \<leftarrow> sockaddr pr;
              Some (os_sendto (net os) (getSocket e) buf (ucast (olen o')) MSG_DONTWAIT sa w) }
          | _ \<Rightarrow> None }"

definition transfers :: "EIoType set" where
  "transfers = {EIT_RECV, EIT_RECVFROM, EIT_SEND, EIT_SENDTO}"

definition failure_of :: "EIoType \<Rightarrow> EError" where
  "failure_of t = (if is_write t then EE_SEND else EE_RECV)"

lemma io_result_cases:
  assumes "io_result os n e o1 w = (b, e', o2, w')"
  shows "w' = w" "b \<longleftrightarrow> 0 \<le> n \<or> \<not> would_block os w" "pImpl e' = (pImpl e)\<lparr>Errno := Errno (pImpl e')\<rparr>"
    "provisioned o2 = provisioned o1" "buffer o2 = buffer o1" "iotype o2 = iotype o1"
    "b \<Longrightarrow> olen o2 = (if 0 \<le> n then of_int n else 0)" "b \<Longrightarrow> errorcode o2 = (if 0 \<le> n then 0 else os_errno (net os) w)"
    "\<not> b \<Longrightarrow> olen o2 = olen o1"
    "b \<Longrightarrow> n < 0 \<Longrightarrow> Errno (pImpl e') = os_errno (net os) w"
  using assms by (auto simp: io_result_def setLastPlatformErrno_def split: if_split_asm)

lemma transfer_result:
  assumes r: "perform_io os f e o1 w = Some (b, e', o2, x, w')" and t: "iotype o1 \<in> transfers"
    and ok: "\<not> refused e ESTAT_CONNECTED o1"
  shows "\<exists>c o3. transfer_call os e o1 w = Some c \<and> io_result os (fst c) e o3 (snd c) = (b, e', o2, w') \<and> x = None \<and>
    provisioned o3 \<and> buffer o3 = buffer o1 \<and> iotype o3 = iotype o1 \<and> olen o3 = olen o1"
proof -
  have no: "no_new y = (b, e', o2, x, w') \<longleftrightarrow> x = None \<and> y = (b, e', o2, w')" for y :: "bool \<times> nep \<times> overlapped \<times> 'a"
    by (cases y) (auto simp: no_new_def)
  consider "iotype o1 = EIT_RECV" | "iotype o1 = EIT_RECVFROM" | "iotype o1 = EIT_SEND" | "iotype o1 = EIT_SENDTO"
    using t by (auto simp: transfers_def)
  then show ?thesis
    by cases
      ((use r ok in \<open>auto simp: perform_io_def no transfer_call_def perform_recv_def perform_recvfrom_def perform_send_def
        perform_sendto_def user_buffer_def Let_def case_prod_beta bind_eq_Some_conv simp del: split_paired_Ex split: iobuf.split_asm\<close>;
       (rule exI, rule conjI, assumption, simp))+)
qed

text \<open>
  C14: What a transfer reports.  A receive or send that the status of the endpoint refuses is reported
  as an invalid operation of length 0 and changes nothing.  Otherwise it makes one call of the
  system; it completes unless the call would block, and is reported as a success with the number of
  bytes the call returned, or as a failure with length 0, always with the user's buffer; when it
  would block it stays as it was, and will not be refused later.
\<close>

theorem mux_outcome:
  assumes r: "perform_io os f e o1 w = Some (b, e', o2, x, w')" and t: "iotype o1 \<in> transfers"
    and errno: "\<And>n w'. transfer_call os e o1 w = Some (n, w') \<Longrightarrow> n < 0 \<Longrightarrow> os_errno (net os) w' \<noteq> 0"
  shows "if refused e ESTAT_CONNECTED o1
    then b \<and> e' = e \<and> w' = w \<and> fst (completion o2) = EE_INVALID_OP \<and> snd (snd (completion o2)) = (buffer o1, 0)
    else \<exists>n. transfer_call os e o1 w = Some (n, w') \<and> (b \<longleftrightarrow> 0 \<le> n \<or> \<not> would_block os w') \<and>
      (if b then fst (completion o2) = (if 0 \<le> n then EE_SUCCESS else failure_of (iotype o1)) \<and>
         snd (snd (completion o2)) = (buffer o1, if 0 \<le> n then of_int n else 0)
       else \<not> refused e' ESTAT_CONNECTED o2 \<and> iotype o2 = iotype o1 \<and> buffer o2 = buffer o1 \<and> olen o2 = olen o1)"
proof (cases "refused e ESTAT_CONNECTED o1")
  case True
  then show ?thesis using r t
    by (auto simp: transfers_def perform_io_def no_new_def perform_recv_def perform_recvfrom_def perform_send_def
      perform_sendto_def completion_def refused_def)
next
  case False
  from transfer_result [OF r t False] obtain c o3 where c0: "transfer_call os e o1 w = Some c"
    "io_result os (fst c) e o3 (snd c) = (b, e', o2, w')"
    and o3: "provisioned o3" "buffer o3 = buffer o1" "iotype o3 = iotype o1" "olen o3 = olen o1"
    by blast
  obtain n w0 where c: "c = (n, w0)" by (rule prod.exhaust)
  have n0: "transfer_call os e o1 w = Some (n, w0)" and io0: "io_result os n e o3 w0 = (b, e', o2, w')"
    using c0 c by simp_all
  have w0: "w0 = w'" using io_result_cases(1) [OF io0] by simp
  note n = n0 [unfolded w0] and io = io0 [unfolded w0]
  note c = io_result_cases [OF io]
  have "fst (completion o2) = (if 0 \<le> n then EE_SUCCESS else failure_of (iotype o1)) \<and>
         snd (snd (completion o2)) = (buffer o1, if 0 \<le> n then of_int n else 0)" if b: b
    using c(4-6) c(7,8) [OF b] o3 t errno [OF n] by (auto simp: completion_def transfers_def failure_of_def is_write_def)
  then show ?thesis using False n c(2) c(4-6) c(9) o3 by (auto simp: refused_def)
qed

section \<open>Programs of calls\<close>

text \<open>A client's calls in sequence; a join is for an endpoint that has no context.\<close>

datatype mux_call = JoinCall nat | DepartCall nat | Ask nat request | Turn u32

fun mux_play :: "'w muxsys \<Rightarrow> (io_event \<Rightarrow> 'w mux \<Rightarrow> 'w mux option) \<Rightarrow> mux_call list \<Rightarrow> 'w mux \<Rightarrow> 'w mux option" where
  "mux_play os client [] s = Some s"
| "mux_play os client (JoinCall p # cs) s =
     do { e \<leftarrow> eps s p;
          if Option.is_none (pAsyncContext e) then do { (ok, s) \<leftarrow> join os p s; mux_play os client cs s } else None }"
| "mux_play os client (DepartCall p # cs) s = do { (ok, s) \<leftarrow> depart os p s; mux_play os client cs s }"
| "mux_play os client (Ask p r # cs) s = do { s \<leftarrow> mux_request p r s; mux_play os client cs s }"
| "mux_play os client (Turn t # cs) s = do { (r, s) \<leftarrow> runOnce os client t s; mux_play os client cs s }"

lemma play_steps:
  assumes cl: "client_steps os env client"
  shows "\<lbrakk>mux_play os client cs s = Some s'; mux_inv s\<rbrakk> \<Longrightarrow> (mux_step os env)\<^sup>*\<^sup>* s s'"
proof (induction cs arbitrary: s)
  case (Cons c cs)
  obtain s1 where "(mux_step os env)\<^sup>*\<^sup>* s s1 \<and> mux_play os client cs s1 = Some s'"
  proof (cases c)
    case (JoinCall p)
    then obtain e ok s1 where "eps s p = Some e" "pAsyncContext e = None" "join os p s = Some (ok, s1)" "mux_play os client cs s1 = Some s'"
      using Cons.prems(1) by (auto simp: bind_eq_Some_conv Option.is_none_def split: if_split_asm)
    then show ?thesis using that prog_step.join mux_step.program by blast
  next
    case (DepartCall p)
    then obtain ok s1 where "depart os p s = Some (ok, s1)" "mux_play os client cs s1 = Some s'"
      using Cons.prems(1) by (auto simp: bind_eq_Some_conv)
    then show ?thesis using that mux_step.depart by blast
  next
    case (Ask p r)
    then obtain s1 where "mux_request p r s = Some s1" "mux_play os client cs s1 = Some s'"
      using Cons.prems(1) by (auto simp: bind_eq_Some_conv)
    then show ?thesis using that prog_step.request mux_step.program by blast
  next
    case (Turn t)
    then obtain r s1 where r: "runOnce os client t s = Some (r, s1)" "mux_play os client cs s1 = Some s'"
      using Cons.prems(1) by (auto simp: bind_eq_Some_conv)
    then show ?thesis using that runOnce_steps [OF r(1) Cons.prems(2) cl] by blast
  qed
  then show ?case using Cons.IH steps_inv Cons.prems(2) rtranclp_trans by metis
qed simp

lemma play_reach:
  "\<lbrakk>mux_start os s; client_steps os env client; mux_play os client cs s = Some s'\<rbrakk> \<Longrightarrow> mux_reach os env s'"
  using play_steps start_inv by (metis mux_reach_def)

text \<open>A system on which every call succeeds, one on which nothing arrives, and a client that sends back what it receives.\<close>

definition demo_mux :: "int list muxsys" where
  "demo_mux = \<lparr>net = demo_sys, os_accept_from = (\<lambda>s n w. ((fresh_fd w, [2, 0, 0, 80], 4), fresh_fd w # w)),
     os_so_error = (\<lambda>s w. ((0, 0), w)), os_getfl = (\<lambda>s w. (0x802, w)), os_setfl = (\<lambda>s f w. w),
     os_epoll_create = (\<lambda>w. (fresh_fd w, fresh_fd w # w)), os_epoll_ctl = (\<lambda>ep c s ev p w. (0, w)),
     os_epoll_wait = (\<lambda>ep n t w. (Some [], w))\<rparr>"

definition quiet_mux :: "int list muxsys" where
  "quiet_mux = demo_mux\<lparr>net := demo_sys\<lparr>os_errno := (\<lambda>w. 11), os_recv := (\<lambda>s b n f w. (- 1, w))\<rparr>,
     os_epoll_wait := (\<lambda>ep n t w. (Some [(EPOLLIN, 0)], w))\<rparr>"

definition demo_nep :: nep where
  "demo_nep = ep_wrap (demo_ep\<lparr>Status := ESTAT_CONNECTED\<rparr>)"

definition demo_start :: "int list muxsys \<Rightarrow> int list mux" where
  "demo_start os = mux_new os (\<lambda>p. if p = 0 then Some demo_nep else None) 1 [3]"

definition echo :: "io_event \<Rightarrow> 'w mux \<Rightarrow> 'w mux option" where
  "echo ev s = (case (ev_type ev, ev_err ev, ev_buf ev) of
     (EIT_RECV, EE_SUCCESS, UserBuf b) \<Rightarrow> mux_request (ev_sep ev) (Send_req b (ev_len ev) (Some 8)) s | _ \<Rightarrow> Some s)"

lemma echo_steps: "client_steps os env echo"
proof -
  have "s' = s \<or> (\<exists>p r. mux_request p r s = Some s')" if "echo ev s = Some s'" for ev and s s' :: "'a mux"
    using that by (auto simp: echo_def simp del: mux_request.simps split: EIoType.split_asm EError.split_asm iobuf.split_asm)
  then show ?thesis using prog_step.request mux_step.program unfolding client_steps_def by blast
qed

lemma demo_start: "mux_start os (demo_start os)"
  by (auto simp: mux_start_def demo_start_def demo_nep_def ep_wrap_def intro!: exI split: if_split_asm)

definition two_recvs :: "mux_call list" where
  "two_recvs = [JoinCall 0, Ask 0 (Recv_req 0x1000 5 (Some 7)), Ask 0 (Recv_req 0x2000 9 (Some 7)), Turn 10, Turn 10]"

section \<open>The properties\<close>



text \<open>
  C9: No operation is forgotten.  In every reachable state an endpoint with a context is in the
  ready list if it is marked ready; otherwise, if it has operations queued, epoll has been asked,
  since its last report, for the event that lets them go on.
\<close>

theorem mux_wakeup:
  assumes "mux_reach os env s" and "epoll_reports os" and "context_of s p = Some c"
  shows "if ready c then p \<in> set (mList (mReadyList s))
    else (queue_of s p False \<noteq> [] \<longrightarrow> asked s p AND EPOLLIN \<noteq> 0) \<and> (queue_of s p True \<noteq> [] \<longrightarrow> asked s p AND EPOLLOUT \<noteq> 0)"
  using reach_armed [OF assms(1,2), of p] assms(3) by (simp add: armed_at_def queue_of_def)

lemma quiet_reports: "epoll_reports quiet_mux"
  by (simp add: epoll_reports_def quiet_mux_def EPOLLIN_def EPOLLOUT_def)

definition waiting :: "int list mux" where
  "waiting = the (do { s \<leftarrow> mux_play quiet_mux echo [JoinCall 0, Ask 0 (Recv_req 0x1000 5 (Some 7))] (demo_start quiet_mux);
     (r, s) \<leftarrow> consume_ready quiet_mux s; Some s })"

lemma waiting_values:
  "map_option (\<lambda>c. (ready c, rdqueue c)) (context_of waiting 0) = Some (False, [0])" "queue_of waiting 0 False = [0]"
  "asked waiting 0 = EPOLLET OR EPOLLONESHOT OR EPOLLIN" "mList (mReadyList waiting) = []"
  by code_simp+

lemma waiting_reach: "mux_reach quiet_mux (=) waiting"
proof -
  let ?play = "mux_play quiet_mux echo [JoinCall 0, Ask 0 (Recv_req 0x1000 5 (Some 7))] (demo_start quiet_mux)"
  have "\<not> Option.is_none (do { s \<leftarrow> ?play; (r, s) \<leftarrow> consume_ready quiet_mux s; Some (world s) })" by code_simp
  then obtain s r s' where s: "?play = Some s" and r: "consume_ready quiet_mux s = Some (r, s')"
    unfolding Option.is_none_def by (metis (no_types, lifting) bind.bind_lzero not_None_eq bind.bind_lunit prod.exhaust)
  have "mux_reach quiet_mux (=) s" by (rule play_reach [OF demo_start echo_steps s])
  then have "mux_reach quiet_mux (=) s'"
    using mux_step.ready [OF r] unfolding mux_reach_def by (meson rtranclp.rtrancl_into_rtrancl)
  then show ?thesis unfolding waiting_def s by (simp add: r)
qed

lemma mux_wakeup_witness: "queue_of waiting 0 False = [0] \<and> asked waiting 0 AND EPOLLIN \<noteq> 0"
proof -
  obtain c where c: "context_of waiting 0 = Some c" "\<not> ready c" using waiting_values(1) by (cases "context_of waiting 0") auto
  show ?thesis using mux_wakeup [OF waiting_reach quiet_reports c(1)] c(2) waiting_values(2) by auto
qed

subsection \<open>What a turn does\<close>

text \<open>An operation that is left in a queue has been attempted.\<close>

definition attempted :: "'w mux \<Rightarrow> nat \<Rightarrow> bool" where
  "attempted s op \<longleftrightarrow> (\<exists>o'. ovs s op = Some o' \<and> provisioned o')"

lemma perform_attempted:
  assumes "perform_io os f e o1 w = Some (False, e', o2, x, w')"
  shows "provisioned o2"
  using assms
  by (auto simp: perform_io_def no_new_def perform_recv_def perform_recvfrom_def perform_send_def perform_sendto_def
    perform_accept_def perform_connect_def provision_connect_def io_result_def Let_def case_prod_beta bind_eq_Some_conv
    split: EIoType.split_asm if_split_asm iobuf.split_asm sum.split_asm)

lemma locked_record:
  assumes r: "performIoLocked os p op s = Some (b, s')" and c: "context_of s p \<noteq> None"
  shows "\<not> b \<Longrightarrow> attempted s' op" "op' \<noteq> op \<Longrightarrow> ovs s' op' = ovs s op'"
proof -
  obtain e where e: "eps s p = Some e" "pAsyncContext e \<noteq> None" using c by (auto simp: context_of_def bind_eq_Some_conv)
  then obtain o1 e' o2 n w where x: "perform_io os (next_ep s) e o1 (world s) = Some (b, e', o2, n, w)"
    and s': "s' = (let s = (set_ov op (Some o2) (set_ep p (Some e') s))\<lparr>world := w\<rparr>;
            s = (case n of None \<Rightarrow> s | Some t \<Rightarrow> (set_ep (next_ep s) (Some t) s)\<lparr>next_ep := next_ep s + 1\<rparr>)
          in if b then push_completion op s else s)"
    using r by (auto simp: performIoLocked_def Let_def bind_eq_Some_conv)
  show "attempted s' op" if "\<not> b" using perform_attempted that x
    by (auto simp: s' attempted_def field_defs Let_def split: option.split)
  show "ovs s' op' = ovs s op'" if "op' \<noteq> op" using that
    by (auto simp: s' field_defs Let_def split: option.split)
qed

lemma drain_record:
  "\<lbrakk>drain os p q s = Some (rest, s'); fresh_eps s; context_of s p \<noteq> None\<rbrakk> \<Longrightarrow>
     (\<forall>op ops. rest = op # ops \<longrightarrow> attempted s' op) \<and> (\<forall>op. op \<notin> set q \<longrightarrow> ovs s' op = ovs s op)"
proof (induction q arbitrary: s)
  case (Cons op q)
  obtain b s1 where b: "performIoLocked os p op s = Some (b, s1)"
    using Cons.prems(1) by (auto simp: bind_eq_Some_conv)
  note k = perform_locked [OF b Cons.prems(2)] and l = locked_record [OF b Cons.prems(3)]
  show ?case
  proof (cases b)
    case True
    have "eps s p \<noteq> None" using Cons.prems(3) by (metis context_of_def bind.bind_lzero)
    then have "context_of s1 p \<noteq> None" "fresh_eps s1"
      using steadyD(8,10) [OF conjunct1 [OF k]] Cons.prems(3) by auto
    moreover have "drain os p q s1 = Some (rest, s')" using Cons.prems(1) b True by simp
    ultimately show ?thesis using Cons.IH [of s1] l(2) by auto
  qed (use Cons.prems(1) b l in auto)
qed simp

lemma queues_record:
  assumes r: "perform_queues os p ctx s = Some (rd, wr, s')" and inv: "mux_inv s" and c: "context_of s p = Some ctx"
  shows "rd = op # ops \<Longrightarrow> attempted s' op" "wr = op # ops \<Longrightarrow> attempted s' op"
proof -
  obtain s1 s2 s3 s4 where
    u1: "update_ctx p (\<lambda>c. c\<lparr>ready := False\<rparr>) s = Some s1" and d1: "drain os p (rdqueue ctx) s1 = Some (rd, s2)"
    and u2: "update_ctx p (\<lambda>c. c\<lparr>rdqueue := rd\<rparr>) s2 = Some s3" and d2: "drain os p (wrqueue ctx) s3 = Some (wr, s4)"
    and u3: "update_ctx p (\<lambda>c. c\<lparr>wrqueue := wr\<rparr>) s4 = Some s'"
    using r by (auto simp: perform_queues_def bind_eq_Some_conv)
  have f1: "fresh_eps s1" using update_ctx_views(10) [OF u1] mux_invD(1) [OF inv] by blast
  have f3: "fresh_eps s3" using update_ctx_views(10) [OF u2] drain_moves [OF d1 f1] steadyD(10) by blast
  have "ovs s3 = ovs s2" "ovs s' = ovs s4" using update_ctx_simps [OF u2] update_ctx_simps [OF u3] by (auto simp: set_ep_def)
  then have at: "attempted s3 = attempted s2" "attempted s' = attempted s4" by (auto simp: attempted_def fun_eq_iff)
  have c1: "context_of s1 p \<noteq> None" "context_of s3 p \<noteq> None"
    using update_ctx_views(12,13) [OF u1] update_ctx_views(12,13) [OF u2] by auto
  note R1 = drain_record [OF d1 f1 c1(1)] and R2 = drain_record [OF d2 f3 c1(2)]
  show "attempted s' op" if "wr = op # ops" using R2 that at by simp
  show "attempted s' op" if rd: "rd = op # ops"
  proof -
    obtain d where "rdqueue ctx = d @ rd" using performed_moves [OF r inv c] by blast
    then have "op \<in> set (queue_of s p False)" using c rd by (simp add: queue_of_def)
    moreover have "set (wrqueue ctx) = set (queue_of s p True)" using c by (simp add: queue_of_def)
    ultimately have "op \<notin> set (wrqueue ctx)" using mux_invD(2) [OF inv] belongs_unique by blast
    then have "ovs s4 op = ovs s3 op" using R2 by blast
    then have "attempted s4 op \<longleftrightarrow> attempted s3 op" by (simp add: attempted_def)
    then show ?thesis using R1 rd at by simp
  qed
qed

text \<open>
  The three parts of a turn: the oldest completed operation is reported and its record deleted; the
  first endpoint of the ready list is taken, and its queued operations are performed up to the
  first one of each queue that has been attempted and would block; then the system is asked for
  events, without delay if anything has been done, and the endpoints it names join the ready list.
\<close>

definition turn_reports :: "'w mux \<Rightarrow> 'w mux \<Rightarrow> bool" where
  "turn_reports s s1 \<longleftrightarrow> (case mList (mCompletionList s) of [] \<Rightarrow> s1 = s
     | op # _ \<Rightarrow> \<exists>o' cb. ovs s op = Some o' \<and> callback o' = Some cb \<and>
         prefix (event_log s @ [(op, event_of cb o')]) (event_log s1) \<and> ovs s1 op = None)"

definition has_work :: "'w mux \<Rightarrow> bool" where
  "has_work s \<longleftrightarrow> (case mList (mReadyList s) of [] \<Rightarrow> False | p # _ \<Rightarrow> queue_of s p False \<noteq> [] \<or> queue_of s p True \<noteq> [])"

definition turn_performs :: "'w mux \<Rightarrow> 'w mux \<Rightarrow> bool" where
  "turn_performs s s2 \<longleftrightarrow> (case mList (mReadyList s) of [] \<Rightarrow> s2 = s
     | p # ps \<Rightarrow> mList (mReadyList s2) = ps \<and> event_log s2 = event_log s \<and>
         (\<exists>d1 d2. queue_of s p False = d1 @ queue_of s2 p False \<and> queue_of s p True = d2 @ queue_of s2 p True \<and>
           mList (mCompletionList s2) = mList (mCompletionList s) @ d1 @ d2) \<and>
         (\<forall>d op ops. queue_of s2 p d = op # ops \<longrightarrow> attempted s2 op) \<and> (\<forall>q. q \<noteq> p \<longrightarrow> queue_of s2 q = queue_of s q))"

definition made_ready :: "(u32 \<times> nat) list \<Rightarrow> nat list" where
  "made_ready evts = map snd (filter (\<lambda>(events, p). events AND (EPOLLERR OR EPOLLHUP) = 0 \<and> events AND (EPOLLIN OR EPOLLOUT) \<noteq> 0) evts)"

definition turn_waits :: "'w muxsys \<Rightarrow> u32 \<Rightarrow> 'w mux \<Rightarrow> ERunningStatus \<Rightarrow> 'w mux \<Rightarrow> bool" where
  "turn_waits os t s2 r s' \<longleftrightarrow>
     (if MAX_READY_LIST_LEN \<le> of_nat (length (mList (mReadyList s2))) then r = ERS_NORMAL \<and> s' = s2
      else \<exists>evts. os_epoll_wait os (mEpollfd s2) 128 t (world s2) = (evts, world s') \<and>
        r = (case evts of None \<Rightarrow> ERS_DISABLED | Some [] \<Rightarrow> ERS_TIMEOUT | _ \<Rightarrow> ERS_NORMAL) \<and> event_log s' = event_log s2 \<and>
        mList (mReadyList s') = mList (mReadyList s2) @ made_ready (case evts of None \<Rightarrow> [] | Some es \<Rightarrow> es))"

lemma dispatch_reports:
  assumes r: "dispatch client s = Some (b, s1)" and inv: "mux_inv s" and cl: "client_steps os env client"
  shows "turn_reports s s1 \<and> (b \<longleftrightarrow> mList (mCompletionList s) \<noteq> [])"
proof (cases "mList (mCompletionList s)")
  case Nil
  then show ?thesis using r by (cases "mCompletionList s") (auto simp: dispatch_def pop_front_def turn_reports_def)
next
  case (Cons op q)
  have pop: "pop_front (mCompletionList s) = ((Some op, of_nat (length q)), Fifo q)" using Cons by (simp add: pop_front_def)
  obtain p d where b: "belongs s p d op" using mux_invD(3) [OF inv, of op] Cons by auto
  obtain o' where o: "ovs s op = Some o'" "iotype o' \<noteq> EIT_INVALID" using b by (auto simp: belongs_iff key_of_def)
  let ?s1 = "\<lambda>cb. s\<lparr>mCompletionList := Fifo q, event_log := event_log s @ [(op, event_of cb o')]\<rparr>"
  obtain cb s2 where cb: "callback o' = Some cb" "client (event_of cb o') (?s1 cb) = Some s2" "s1 = set_ov op None s2" "b"
    using r o by (auto simp: dispatch_def pop Let_def bind_eq_Some_conv)
  have "mux_inv (?s1 cb)" using callback_inv [OF inv Cons o(1)] .
  moreover have "(mux_step os env)\<^sup>*\<^sup>* (?s1 cb) s2" using cl cb(2) unfolding client_steps_def by blast
  ultimately have "prefix (event_log (?s1 cb)) (event_log s2)" using epoll.path_log by blast
  then show ?thesis using o cb Cons by (simp add: turn_reports_def set_ov_def)
qed

lemma consume_performs:
  assumes r: "consume_ready os s = Some ((b, n), s2)" and inv: "mux_inv s"
  shows "turn_performs s s2 \<and> (b \<longleftrightarrow> has_work s) \<and> n = of_nat (length (mList (mReadyList s2)))"
proof (cases "mList (mReadyList s)")
  case Nil
  then show ?thesis using r
    by (cases "mReadyList s") (auto simp: consume_ready_def pop_front_def turn_performs_def has_work_def)
next
  case (Cons p l)
  have pop: "pop_front (mReadyList s) = ((Some p, of_nat (length l)), Fifo l)" using Cons by (simp add: pop_front_def)
  obtain e where e: "eps s p = Some e" using r by (auto simp: consume_ready_def Let_def pop bind_eq_Some_conv)
  show ?thesis
  proof (cases "pAsyncContext e")
    case None
    then have c: "context_of s p = None" using e by (simp add: context_of_def)
    have s2: "s2 = s\<lparr>mReadyList := Fifo l\<rparr>" and bn: "\<not> b" "n = of_nat (length l)"
      using r e None by (auto simp: consume_ready_def Let_def pop)
    have "context_of s2 q = context_of s q" for q by (simp add: s2 context_of_def)
    then have "queue_of s2 q = queue_of s q" for q by (rule queue_of_cong)
    then show ?thesis using queue_none [OF c] bn by (simp add: turn_performs_def has_work_def Cons s2)
  next
    case (Some ctx)
    then have c: "context_of s p = Some ctx" using e by (simp add: context_of_def)
    let ?s0 = "s\<lparr>mReadyList := Fifo l\<rparr>"
    obtain rd wr s1 where q: "perform_queues os p ctx ?s0 = Some (rd, wr, s1)" and s2: "s2 = rearm os p (getSocket e) rd wr s1"
      and b: "b \<longleftrightarrow> rdqueue ctx \<noteq> [] \<or> wrqueue ctx \<noteq> []" and n: "n = of_nat (length l)"
      using r e Some by (auto simp: consume_ready_def Let_def pop bind_eq_Some_conv)
    have i0: "mux_inv ?s0" using inv_frame [OF inv, where w = "world s" and a = "asked s" and l = "Fifo l"] by simp
    have c0: "context_of ?s0 p = Some ctx" using c by (simp add: context_of_def)
    have at: "attempted s2 = attempted s1"
      unfolding s2 attempted_def fun_eq_iff by (subst rearm_simps) simp
    from consume_moves [OF r inv Cons c] obtain d1 d2 rd' wr' where m: "rdqueue ctx = d1 @ rd'" "wrqueue ctx = d2 @ wr'"
      "mReadyList s2 = Fifo l" "event_log s2 = event_log s" "mList (mCompletionList s2) = mList (mCompletionList s) @ d1 @ d2"
      "context_of s2 p = Some (ctx\<lparr>ready := False, rdqueue := rd', wrqueue := wr'\<rparr>)" "\<forall>q. q \<noteq> p \<longrightarrow> queue_of s2 q = queue_of s q"
      by blast
    have "context_of s1 p = Some (ctx\<lparr>ready := False, rdqueue := rd, wrqueue := wr\<rparr>)"
      using performed_moves [OF q i0 c0] by blast
    moreover have "context_of s2 p = context_of s1 p" unfolding s2 by (subst rearm_simps) (simp add: context_of_def)
    ultimately have "ctx\<lparr>ready := False, rdqueue := rd', wrqueue := wr'\<rparr> = ctx\<lparr>ready := False, rdqueue := rd, wrqueue := wr\<rparr>"
      using m(6) by simp
    from arg_cong [OF this, of rdqueue] arg_cong [OF this, of wrqueue] have eq: "rd' = rd" "wr' = wr" by simp_all
    have "attempted s2 op" if "queue_of s2 p d = op # ops" for d op ops
      using that queues_record [OF q i0 c0] m(6) unfolding at eq by (cases d) (auto simp: queue_of_def)
    then show ?thesis using m b n c by (simp add: turn_performs_def has_work_def Cons queue_of_def)
  qed
qed

lemma events_ready:
  "\<lbrakk>handle_events evs s = Some s'; mux_inv s\<rbrakk> \<Longrightarrow>
     world s' = world s \<and> mList (mReadyList s') = mList (mReadyList s) @ made_ready evs"
proof (induction evs arbitrary: s)
  case (Cons ev evs)
  obtain s1 where s1: "handle_event (fst ev, snd ev) s = Some s1" "handle_events evs s1 = Some s'"
    using Cons.prems(1) by (auto simp: bind_eq_Some_conv)
  note m = event_moves [OF s1(1) Cons.prems(2)]
  have i: "mux_inv s1" "world s1 = world s" using m by blast+
  have "mList (mReadyList s1) = mList (mReadyList s) @ made_ready [ev]"
    using m by (auto simp: made_ready_def case_prod_beta split: if_split_asm)
  moreover have "made_ready (ev # evs) = made_ready [ev] @ made_ready evs" by (simp add: made_ready_def)
  ultimately show ?case using Cons.IH [OF s1(2) i(1)] i(2) by simp
qed (simp add: made_ready_def)

lemma wait_waits:
  assumes r: "wait_events os t s = Some (x, s')" and inv: "mux_inv s" and n: "\<not> MAX_READY_LIST_LEN \<le> of_nat (length (mList (mReadyList s)))"
  shows "turn_waits os t s x s'"
proof -
  obtain evts w where w: "os_epoll_wait os (mEpollfd s) 128 t (world s) = (evts, w)" by (rule prod.exhaust)
  note lg = wait_log [OF r inv]
  show ?thesis
  proof (cases "\<exists>ev es. evts = Some (ev # es)")
    case False
    then consider "evts = None" | "evts = Some []" by (cases evts) (auto simp: neq_Nil_conv elim: list.exhaust)
    then show ?thesis using r w n by cases (auto simp: wait_events_def turn_waits_def made_ready_def)
  next
    case True
    then obtain ev es where e: "evts = Some (ev # es)" by blast
    then have h: "handle_events (ev # es) (s\<lparr>world := w\<rparr>) = Some s'" "x = ERS_NORMAL"
      using r w by (auto simp: wait_events_def Let_def bind_eq_Some_conv simp del: handle_events.simps)
    show ?thesis using events_ready [OF h(1) inv_world [OF inv]] h(2) w n e lg by (simp add: turn_waits_def)
  qed
qed

lemma turn_parts:
  assumes r: "runOnce os client t s = Some (r, s')" and re: "mux_reach os env s" and cl: "client_steps os env client"
  shows "\<exists>s1 s2. turn_reports s s1 \<and> turn_performs s1 s2 \<and>
    turn_waits os (if mList (mCompletionList s) \<noteq> [] \<or> has_work s1 then 0 else t) s2 r s' \<and>
    mux_reach os env s1 \<and> mux_reach os env s2 \<and> mux_reach os env s'"
proof -
  obtain b s1 where d1: "dispatch client s = Some (b, s1)" using r by (auto simp: runOnce_def bind_eq_Some_conv)
  obtain c n s2 where d2: "consume_ready os s1 = Some ((c, n), s2)" using r d1 by (auto simp: runOnce_def bind_eq_Some_conv)
  have w: "if n < MAX_READY_LIST_LEN then wait_events os (if b \<or> c then 0 else t) s2 = Some (r, s') else s' = s2 \<and> r = ERS_NORMAL"
    using r d1 d2 by (auto simp: runOnce_def)
  have steps: "(mux_step os env)\<^sup>*\<^sup>* s s1"
    using epoll.dispatch_path [OF d1 reach_inv [OF re]] cl unfolding client_steps_def by blast
  have extend: "mux_reach os env y" if "mux_reach os env x" "(mux_step os env)\<^sup>*\<^sup>* x y" for x y
    using that rtranclp_trans unfolding mux_reach_def by metis
  have r1: "mux_reach os env s1" by (rule extend [OF re steps])
  have r2: "mux_reach os env s2" by (rule extend [OF r1]) (use mux_step.ready [OF d2] in blast)
  have r3: "mux_reach os env s'"
    using w r2 extend [OF r2 r_into_rtranclp [of "mux_step os env", OF mux_step.wait]] by (cases "n < MAX_READY_LIST_LEN") auto
  note p1 = dispatch_reports [OF d1 reach_inv [OF re] cl] and p2 = consume_performs [OF d2 reach_inv [OF r1]]
  have "turn_waits os (if b \<or> c then 0 else t) s2 r s'"
  proof (cases "n < MAX_READY_LIST_LEN")
    case True
    then show ?thesis using w p2 by (intro wait_waits [OF _ reach_inv [OF r2]]) auto
  next
    case False
    then show ?thesis using w p2 by (auto simp: turn_waits_def)
  qed
  then show ?thesis using p1 p2 r1 r2 r3 by (intro exI [of _ s1] exI [of _ s2]) simp
qed



definition recv_rec :: overlapped where
  "recv_rec = (new_overlapped 0 EIT_RECV)\<lparr>buffer := UserBuf 0x1000, olen := 9, callback := Some 7\<rparr>"

lemma mux_outcome_witness:
  "\<exists>b e' o2 x w'. perform_io demo_mux 1 demo_nep recv_rec [3] = Some (b, e', o2, x, w') \<and> b \<and> fst (completion o2) = EE_SUCCESS \<and>
     snd (snd (completion o2)) = (UserBuf 0x1000, 5)"
proof -
  have "\<not> Option.is_none (perform_io demo_mux 1 demo_nep recv_rec [3])" by code_simp
  then obtain b e' o2 x w' where r: "perform_io demo_mux 1 demo_nep recv_rec [3] = Some (b, e', o2, x, w')"
    by (auto simp: Option.is_none_def)
  have c: "transfer_call demo_mux demo_nep recv_rec [3] = Some (5, [3])" and no: "refused demo_nep ESTAT_CONNECTED recv_rec = False"
    by code_simp+
  have "iotype recv_rec \<in> transfers" "buffer recv_rec = UserBuf 0x1000"
    by (simp_all add: recv_rec_def new_overlapped_def transfers_def)
  then show ?thesis using mux_outcome [OF r] c no r by auto
qed

section \<open>Accepting\<close>

lemma adopt_shape:
  assumes "impl_adopt os p s st w = Some (e, w')"
  shows "Protocol e = p \<and> (Status e = st \<and> Socket e = s \<or> Status e = ESTAT_INVALID \<and> Socket e = - 1)"
  using assms
  by (auto simp: impl_adopt_def Let_def case_prod_beta bind_eq_Some_conv impl_close_def impl_shutdown_def reset_def
    saveLastError_def raw_impl_def split: if_split_asm)

text \<open>
  C32: A completed accept that was not refused leaves the listening endpoint listening on its socket.
  If it is reported as a success the callback gets a new endpoint, which has joined with empty
  queues, has the protocol of the listener, and is the connected socket that the system returned or,
  if that has no name, a closed one; otherwise the callback gets the error and no endpoint.
\<close>

theorem mux_accept:
  assumes "perform_io os f e o1 w = Some (True, e', o2, x, w')" and "iotype o1 = EIT_ACCEPT" and "\<not> refused e ESTAT_LISTENING o1"
    and "os_accept_from os (getSocket e) (Length (the (opeer o1))) w = ((s, addr, m), w0)" and "s = - 1 \<longrightarrow> os_errno (net os) w0 \<noteq> 0"
  shows "getStatus e' = ESTAT_LISTENING \<and> getSocket e' = getSocket e \<and>
    (case x of
       None \<Rightarrow> s = - 1 \<and> completion o2 = (EE_ACCEPT, NoArg, NoBuf, 0)
     | Some t \<Rightarrow> s \<noteq> - 1 \<and> completion o2 = (EE_SUCCESS, EpArg (Some f), NoBuf, 0) \<and> getProtocol t = getProtocol e \<and>
         pAsyncContext t = Some \<lparr>rdqueue = [], wrqueue = [], ready = False, ctx_ep = f\<rparr> \<and>
         (getStatus t = ESTAT_CONNECTED \<and> getSocket t = s \<or> getStatus t = ESTAT_INVALID \<and> getSocket t = - 1))"
proof -
  have r: "perform_accept os f e o1 w = Some (True, e', o2, x, w')" using assms(1,2) by (simp add: perform_io_def)
  obtain pr where pr: "opeer o1 = Some pr" using r assms(3) by (auto simp: perform_accept_def bind_eq_Some_conv)
  note acc = assms(4) [unfolded pr option.sel]
  show ?thesis
  proof (cases "s = - 1")
    case True
    then show ?thesis using r assms(2,3,5) pr acc
      by (auto simp: perform_accept_def Let_def completion_def getStatus_def getSocket_def setLastPlatformErrno_def split: if_split_asm)
  next
    case False
    then obtain i w1 where a: "impl_adopt (net os) (getProtocol e) s ESTAT_CONNECTED w0 = Some (i, w1)"
      using r assms(3) pr acc by (auto simp: perform_accept_def ep_adopt_def bind_eq_Some_conv)
    then show ?thesis using r assms(2,3) pr acc False adopt_shape [OF a]
      by (auto simp: perform_accept_def ep_adopt_def ep_wrap_def join_object_def Let_def case_prod_beta completion_def
        getStatus_def getSocket_def getProtocol_def)
  qed
qed

definition accept_rec :: overlapped where
  "accept_rec = (new_overlapped 0 EIT_ACCEPT)\<lparr>callback := Some 7, opeer := Some \<lparr>Data = replicate 128 0, Length = 128\<rparr>\<rparr>"

lemma mux_accept_witness:
  "\<exists>e' o2 t w'. perform_io demo_mux 5 (setStatus ESTAT_LISTENING demo_nep) accept_rec [3] = Some (True, e', o2, Some t, w') \<and>
     completion o2 = (EE_SUCCESS, EpArg (Some 5), NoBuf, 0) \<and> getSocket t = 4 \<and> getStatus e' = ESTAT_LISTENING"
proof -
  let ?e = "setStatus ESTAT_LISTENING demo_nep"
  have "map_option (\<lambda>(b, e', o2, x, w'). (b, map_option getSocket x)) (perform_io demo_mux 5 ?e accept_rec [3]) = Some (True, Some 4)"
    by code_simp
  then obtain e' o2 t w' where r: "perform_io demo_mux 5 ?e accept_rec [3] = Some (True, e', o2, Some t, w')" "getSocket t = 4"
    by auto
  have "refused ?e ESTAT_LISTENING accept_rec = False" "iotype accept_rec = EIT_ACCEPT" by code_simp+
  moreover have "os_accept_from demo_mux (getSocket ?e) (Length (the (opeer accept_rec))) [3] = ((4, [2, 0, 0, 80], 4), [4, 3])" by code_simp
  ultimately show ?thesis using mux_accept [OF r(1)] r by auto
qed

section \<open>Where the code goes wrong\<close>

text \<open>
  A connect that fails late is reported with the value of \<open>errno\<close>, which a successful getsockopt does
  not set: if it is 0, the callback is told EE\_SUCCESS, for an endpoint that is not connected.
\<close>

lemma connect_reported_success:
  "map_option (\<lambda>(b, e, o', w). (b, completion o', getStatus e))
     (perform_connect (demo_mux\<lparr>os_so_error := (\<lambda>s w. ((0, 111), w))\<rparr>) (setStatus ESTAT_CONNECTING demo_nep)
       ((new_overlapped 0 EIT_CONNECT)\<lparr>buffer := HostInfo (lit ''h'') (lit ''1''), olen := 1, provisioned := True\<rparr>) [3]) =
   Some (True, (EE_SUCCESS, PeerArg None, NoBuf, 0), ESTAT_INIT)"
  by code_simp

text \<open>
  An event for an endpoint that a request has put in the ready list since the last attempt puts it
  there again.  A departure removes one entry; if the endpoint is then deleted, the other dangles.
\<close>

definition ready_twice :: "int list mux option" where
  "ready_twice = do { s \<leftarrow> mux_request 0 (Recv_req 0x2000 5 (Some 7)) waiting; (r, s) \<leftarrow> wait_events quiet_mux 0 s; Some s }"

lemma ready_twice_dangles:
  "map_option (\<lambda>s. mList (mReadyList s)) ready_twice = Some [0, 0]"
  "map_option (\<lambda>s. mList (mReadyList s)) (do { s \<leftarrow> ready_twice; (ok, s) \<leftarrow> depart quiet_mux 0 s; Some s }) = Some [0]"
  "Option.is_none (do { s \<leftarrow> ready_twice; (ok, s) \<leftarrow> depart quiet_mux 0 s; consume_ready quiet_mux (set_ep 0 None s) })"
  by code_simp+

text \<open>A departure drops the queued operations: no callback is ever called for them, and their records stay allocated.\<close>

lemma depart_drops:
  "map_option (\<lambda>s. (submitted s 0 False, called s 0 False, completing s 0 False, queue_of s 0 False, Option.is_none (ovs s 0)))
     (mux_play quiet_mux echo [DepartCall 0] waiting) = Some ([0], [], [], [], False)"
  by code_simp

text \<open>A departure keeps O\_NONBLOCK and clears every other flag of the socket.\<close>

lemma depart_flags:
  "map_option (\<lambda>(ok, s). world s) (depart (quiet_mux\<lparr>os_setfl := (\<lambda>s f w. uint f # w)\<rparr>) 0 waiting) = Some (0x800 # world waiting)"
  "(0x802 :: u32) AND (0 XOR O_NONBLOCK) = 0x800"
  by code_simp+

text \<open>Without a callback and a default one, the completion of an operation is a call through a null pointer.\<close>

lemma null_callback:
  "Option.is_none (mux_play demo_mux echo [JoinCall 0, Ask 0 (Send_req 0x1000 5 None), Turn 0, Turn 0] (demo_start demo_mux))"
  by code_simp

text \<open>A socket error is reported as EE\_INVALID\_OP by an operation that was not attempted before.\<close>

lemma abort_unattempted:
  "fst (completion (recv_rec\<lparr>errorcode := ECONNABORTED\<rparr>)) = EE_INVALID_OP"
  "fst (completion (recv_rec\<lparr>errorcode := ECONNABORTED, provisioned := True\<rparr>)) = EE_RECV"
  by code_simp+

end
