(* ===== verification/KqueueMux.thy ===== *)
theory KqueueMux
  imports NetIoMux
begin

text \<open>
  src/platform/netiomux\_kqueue.hpp: the multiplexer on the event queue of BSD and macOS.  Its state
  and most of its members repeat netiomux\_epoll.hpp and are taken from NetIoMux (\<open>mEpollfd\<close> is
  \<open>mKqueue\<close> here); the constructor, the re-arming of an endpoint, the wait, the handling of events
  and \<open>depart\<close> are here.  Numbers of errors and flags are those of NetIoMux: the system is
  taken to give each name of the headers that number.  For an endpoint, \<open>asked\<close> has the bit
  EPOLLIN or EPOLLOUT while \<open>kevent\<close> was asked to add the read or the write filter and the filter has
  not reported since; that the call did not fail the code only asserts, and goes on as if it had not.
\<close>

unbundle bit_operations_syntax

section \<open>The event queue\<close>

datatype evfilt = EVFILT_READ | EVFILT_WRITE | EVFILT_OTHER

record kevent =
  ident :: int
  kfilter :: evfilt
  kflags :: u16
  udata :: nat

definition EV_ADD :: u16 where "EV_ADD = 0x1"
definition EV_DELETE :: u16 where "EV_DELETE = 0x2"
definition EV_ENABLE :: u16 where "EV_ENABLE = 0x4"
definition EV_ONESHOT :: u16 where "EV_ONESHOT = 0x10"
definition EV_EOF :: u16 where "EV_EOF = 0x8000"

text \<open>
  The calls of \<open>kevent\<close> that only change filters, and those that only wait.  The timeout of a
  wait is the two fields of a timespec; the result is None for -1.
\<close>

record 'w kqsys =
  posix :: "'w muxsys"
  os_kqueue :: "'w \<Rightarrow> int \<times> 'w"
  os_kevent_change :: "int \<Rightarrow> kevent list \<Rightarrow> 'w \<Rightarrow> int \<times> 'w"
  os_kevent_wait :: "int \<Rightarrow> nat \<Rightarrow> int \<times> int \<Rightarrow> 'w \<Rightarrow> kevent list option \<times> 'w"

definition kq_new :: "'w kqsys \<Rightarrow> (nat \<Rightarrow> nep option) \<Rightarrow> nat \<Rightarrow> 'w \<Rightarrow> 'w mux" where
  "kq_new ks e n w =
     (let (fd, w) = os_kqueue ks w in
      \<lparr>mCompletionList = fifo_empty, mReadyList = fifo_empty, mEnable = (fd \<noteq> - 1), mEpollfd = fd,
       pDefaultMuxCallback = None, eps = e, next_ep = n, ovs = (\<lambda>_. None), next_ov = 0, world = w,
       submitted_log = [], event_log = [], departed = {}, asked = (\<lambda>_. 0)\<rparr>)"

definition kq_getMultiplexerType :: "string \<times> EPlatformMultiplexer" where
  "kq_getMultiplexerType = (''kqueue'', EPM_KQUEUE)"

section \<open>depart\<close>

definition kq_deletions :: "int \<Rightarrow> kevent list" where
  "kq_deletions sock =
     [\<lparr>ident = sock, kfilter = EVFILT_READ, kflags = EV_DELETE, udata = 0\<rparr>,
      \<lparr>ident = sock, kfilter = EVFILT_WRITE, kflags = EV_DELETE, udata = 0\<rparr>]"

definition kq_depart :: "'w kqsys \<Rightarrow> nat \<Rightarrow> 'w mux \<Rightarrow> (bool \<times> 'w mux) option" where
  "kq_depart ks p s =
     do { e \<leftarrow> eps s p;
          let sock = getSocket e;
          let (ec, w) = os_kevent_change ks (mEpollfd s) (kq_deletions sock) (world s);
          let s = s\<lparr>world := w\<rparr>;
          if ec \<noteq> 0 \<and> os_errno (net (posix ks)) w \<noteq> ENOENT then Some (False, s)
          else case pAsyncContext e of
            None \<Rightarrow> Some (False, s)
          | Some ctx \<Rightarrow>
             (let s = (if ready ctx then s\<lparr>mReadyList := snd (fifo_erase (Some p) (mReadyList s))\<rparr> else s);
                  s = set_ep p (Some (e\<lparr>pAsyncContext := None\<rparr>)) s;
                  (flags, w) = os_getfl (posix ks) sock (world s);
                  w = os_setfl (posix ks) sock (flags AND (0 XOR O_NONBLOCK)) w
              in Some (ec = 0, s\<lparr>world := w, departed := insert p (departed s), asked := (asked s)(p := 0)\<rparr>)) }"

section \<open>runOnce\<close>

definition filter_bit :: "evfilt \<Rightarrow> u32" where
  "filter_bit f = (case f of EVFILT_READ \<Rightarrow> EPOLLIN | EVFILT_WRITE \<Rightarrow> EPOLLOUT | EVFILT_OTHER \<Rightarrow> 0)"

definition kq_add :: "int \<Rightarrow> nat \<Rightarrow> evfilt \<Rightarrow> kevent" where
  "kq_add sock p f = \<lparr>ident = sock, kfilter = f, kflags = (EV_ADD OR EV_ONESHOT) OR EV_ENABLE, udata = p\<rparr>"

definition kq_changes :: "int \<Rightarrow> nat \<Rightarrow> nat list \<Rightarrow> nat list \<Rightarrow> kevent list" where
  "kq_changes sock p rd wr =
     (if rd \<noteq> [] then [kq_add sock p EVFILT_READ] else []) @ (if wr \<noteq> [] then [kq_add sock p EVFILT_WRITE] else [])"

definition kq_rearm :: "'w kqsys \<Rightarrow> nat \<Rightarrow> int \<Rightarrow> nat list \<Rightarrow> nat list \<Rightarrow> 'w mux \<Rightarrow> 'w mux" where
  "kq_rearm ks p sock rd wr s =
     (let changes = kq_changes sock p rd wr in
      if changes = [] then s
      else let (ec, w) = os_kevent_change ks (mEpollfd s) changes (world s)
        in s\<lparr>world := w, asked := (asked s)(p := foldr (\<lambda>k m. filter_bit (kfilter k) OR m) changes (asked s p))\<rparr>)"

definition kq_consume_ready :: "'w kqsys \<Rightarrow> 'w mux \<Rightarrow> ((bool \<times> u32) \<times> 'w mux) option" where
  "kq_consume_ready ks s =
     (let ((p, pendingCnt), q) = pop_front (mReadyList s); s = s\<lparr>mReadyList := q\<rparr> in
      case p of None \<Rightarrow> Some ((False, pendingCnt), s)
      | Some p \<Rightarrow>
        do { e \<leftarrow> eps s p;
             case pAsyncContext e of None \<Rightarrow> Some ((False, pendingCnt), s)
             | Some ctx \<Rightarrow>
               do { (rd, wr, s) \<leftarrow> perform_queues (posix ks) p ctx s;
                    Some ((rdqueue ctx \<noteq> [] \<or> wrqueue ctx \<noteq> [], pendingCnt), kq_rearm ks p (getSocket e) rd wr s) } })"

text \<open>An event of one filter: at the end of a stream the queue of its direction is aborted.\<close>

definition kq_make_ready :: "nat \<Rightarrow> 'w mux \<Rightarrow> 'w mux option" where
  "kq_make_ready p s = do { s \<leftarrow> update_ctx p (\<lambda>c. c\<lparr>ready := True\<rparr>) s; Some (push_ready p s) }"

definition kq_handle_event :: "kevent \<Rightarrow> 'w mux \<Rightarrow> 'w mux option" where
  "kq_handle_event ev s =
     (let p = udata ev in
      do { e \<leftarrow> eps s p;
           ctx \<leftarrow> pAsyncContext e;
           s \<leftarrow> update_ctx p (\<lambda>c. c\<lparr>ready := False\<rparr>)
                  (s\<lparr>asked := (asked s)(p := asked s p AND NOT (filter_bit (kfilter ev)))\<rparr>);
           case kfilter ev of
             EVFILT_READ \<Rightarrow>
               (if kflags ev AND EV_EOF \<noteq> 0
                then do { s \<leftarrow> abort_all (rdqueue ctx) s; update_ctx p (\<lambda>c. c\<lparr>rdqueue := []\<rparr>) s }
                else kq_make_ready p s)
           | EVFILT_WRITE \<Rightarrow>
               (if kflags ev AND EV_EOF \<noteq> 0
                then do { s \<leftarrow> abort_all (wrqueue ctx) s; update_ctx p (\<lambda>c. c\<lparr>wrqueue := []\<rparr>) s }
                else kq_make_ready p s)
           | EVFILT_OTHER \<Rightarrow> Some s })"

fun kq_handle_events :: "kevent list \<Rightarrow> 'w mux \<Rightarrow> 'w mux option" where
  "kq_handle_events [] s = Some s"
| "kq_handle_events (ev # evs) s = do { s \<leftarrow> kq_handle_event ev s; kq_handle_events evs s }"

text \<open>The product is of 32 bits, and wraps, before it becomes a number of nanoseconds.\<close>

definition kq_timespec :: "u32 \<Rightarrow> int \<times> int" where
  "kq_timespec timeoutMs = (0, uint (timeoutMs * 1000000))"

definition kq_wait :: "'w kqsys \<Rightarrow> u32 \<Rightarrow> 'w mux \<Rightarrow> (ERunningStatus \<times> 'w mux) option" where
  "kq_wait ks timeout s =
     (let (evts, w) = os_kevent_wait ks (mEpollfd s) 128 (kq_timespec timeout) (world s); s = s\<lparr>world := w\<rparr> in
      case evts of None \<Rightarrow> Some (ERS_DISABLED, s)
      | Some [] \<Rightarrow> Some (ERS_TIMEOUT, s)
      | Some evs \<Rightarrow> do { s \<leftarrow> kq_handle_events evs s; Some (ERS_NORMAL, s) })"

definition kq_runOnce :: "'w kqsys \<Rightarrow> (io_event \<Rightarrow> 'w mux \<Rightarrow> 'w mux option) \<Rightarrow> u32 \<Rightarrow> 'w mux \<Rightarrow> (ERunningStatus \<times> 'w mux) option" where
  "kq_runOnce ks client timeoutMs s =
     do { (consumed1, s) \<leftarrow> dispatch client s;
          ((consumed2, pendingCnt), s) \<leftarrow> kq_consume_ready ks s;
          if pendingCnt < MAX_READY_LIST_LEN
          then kq_wait ks (if consumed1 \<or> consumed2 then 0 else timeoutMs) s
          else Some (ERS_NORMAL, s) }"

text \<open>\<open>run\<close>, as for epoll.\<close>

partial_function (option) kq_run :: "'w kqsys \<Rightarrow> (io_event \<Rightarrow> 'w mux \<Rightarrow> 'w mux option) \<Rightarrow> 'w mux \<Rightarrow> 'w mux option" where
  "kq_run ks client s =
     (if \<not> mEnable s then Some s
      else do { (r, s) \<leftarrow> kq_runOnce ks client 10 s;
                if r = ERS_DISABLED then Some s else kq_run ks client s })"

end
