(* ===== verification/KqueueProps.thy ===== *)
theory KqueueProps
  imports KqueueMux NetIoMuxProps
begin

text \<open>
  The multiplexer on kqueue keeps the invariant of the one on epoll, so that operations complete in
  order and once, and forgets none: what changes is how readiness is asked for and learnt.  The
  proofs reuse those for epoll: its steps of the program are the same, and its departure is that of
  epoll on a system whose epoll\_ctl deletes the two filters.
\<close>

section \<open>Steps\<close>

inductive kq_step :: "'w kqsys \<Rightarrow> ('w \<Rightarrow> 'w \<Rightarrow> bool) \<Rightarrow> 'w mux \<Rightarrow> 'w mux \<Rightarrow> bool" for ks env where
  program: "prog_step (posix ks) env s s' \<Longrightarrow> kq_step ks env s s'"
| depart: "kq_depart ks p s = Some (ok, s') \<Longrightarrow> kq_step ks env s s'"
| ready: "kq_consume_ready ks s = Some (r, s') \<Longrightarrow> kq_step ks env s s'"
| wait: "kq_wait ks t s = Some (r, s') \<Longrightarrow> kq_step ks env s s'"

inductive_cases kq_stepE: "kq_step ks env s s'"

definition kq_start :: "'w kqsys \<Rightarrow> 'w mux \<Rightarrow> bool" where
  "kq_start ks s \<longleftrightarrow> (\<exists>e n w. s = kq_new ks e n w \<and> (\<forall>p. n \<le> p \<longrightarrow> e p = None) \<and>
     (\<forall>p e'. e p = Some e' \<longrightarrow> pAsyncContext e' = None))"

definition kq_reach :: "'w kqsys \<Rightarrow> ('w \<Rightarrow> 'w \<Rightarrow> bool) \<Rightarrow> 'w mux \<Rightarrow> bool" where
  "kq_reach ks env s \<longleftrightarrow> (\<exists>s0. kq_start ks s0 \<and> (kq_step ks env)\<^sup>*\<^sup>* s0 s)"

text \<open>The system on which epoll would make the same calls.\<close>

definition as_epoll :: "'w kqsys \<Rightarrow> 'w muxsys" where
  "as_epoll ks = (posix ks)\<lparr>os_epoll_create := os_kqueue ks,
     os_epoll_ctl := (\<lambda>fd op sock ev p w. os_kevent_change ks fd (kq_deletions sock) w)\<rparr>"

lemma kq_start_epoll: "kq_start ks s \<longleftrightarrow> mux_start (as_epoll ks) s"
  by (simp add: kq_start_def mux_start_def kq_new_def mux_new_def as_epoll_def)

lemma kq_depart_epoll: "kq_depart ks p s = depart (as_epoll ks) p s"
  by (cases "eps s p") (simp_all add: kq_depart_def depart_def as_epoll_def Let_def case_prod_beta split: option.split)

section \<open>What the steps of kqueue change\<close>

lemma kq_rearm_simps:
  "kq_rearm ks p sock rd wr s = s\<lparr>world := world (kq_rearm ks p sock rd wr s), asked := asked (kq_rearm ks p sock rd wr s)\<rparr>"
  by (simp add: kq_rearm_def Let_def case_prod_beta)

lemma filter_bits:
  "filter_bit EVFILT_READ = EPOLLIN" "filter_bit EVFILT_WRITE = EPOLLOUT" "filter_bit EVFILT_OTHER = 0"
  "(EPOLLIN OR x) AND EPOLLIN \<noteq> 0" "(EPOLLOUT OR x) AND EPOLLOUT \<noteq> 0" "(EPOLLIN OR EPOLLOUT OR x) AND EPOLLOUT \<noteq> 0"
  "(x AND NOT EPOLLIN) AND EPOLLOUT = x AND EPOLLOUT" "(x AND NOT EPOLLOUT) AND EPOLLIN = x AND EPOLLIN"
  for x :: u32
proof -
  have i: "EPOLLIN \<noteq> 0" "EPOLLOUT \<noteq> 0" "NOT EPOLLIN AND EPOLLOUT = EPOLLOUT" "NOT EPOLLOUT AND EPOLLIN = EPOLLIN"
    by (simp_all add: EPOLLIN_def EPOLLOUT_def)
  have absorb: "(a OR y) AND a = a" for a y :: u32 by (simp add: bit_eq_iff bit_simps)
  show "filter_bit EVFILT_READ = EPOLLIN" "filter_bit EVFILT_WRITE = EPOLLOUT" "filter_bit EVFILT_OTHER = 0"
    by (simp_all add: filter_bit_def)
  show "(EPOLLIN OR x) AND EPOLLIN \<noteq> 0" "(EPOLLOUT OR x) AND EPOLLOUT \<noteq> 0" using i absorb by simp_all
  show "(EPOLLIN OR EPOLLOUT OR x) AND EPOLLOUT \<noteq> 0"
    using i absorb [of EPOLLOUT "EPOLLIN OR x"] by (simp add: or.left_commute)
  show "(x AND NOT EPOLLIN) AND EPOLLOUT = x AND EPOLLOUT" "(x AND NOT EPOLLOUT) AND EPOLLIN = x AND EPOLLIN"
    using i by (simp_all only: and.assoc)
qed

lemma kq_rearm_asked:
  "q \<noteq> p \<Longrightarrow> asked (kq_rearm ks p sock rd wr s) q = asked s q"
  "rd \<noteq> [] \<Longrightarrow> asked (kq_rearm ks p sock rd wr s) p AND EPOLLIN \<noteq> 0"
  "wr \<noteq> [] \<Longrightarrow> asked (kq_rearm ks p sock rd wr s) p AND EPOLLOUT \<noteq> 0"
  by (simp_all add: kq_rearm_def kq_changes_def kq_add_def Let_def case_prod_beta filter_bits filter_bits(4,5) [of 0, simplified])

lemma kq_consume_idle:
  assumes "kq_consume_ready ks s = Some (res, s')" "mList (mReadyList s) = [] \<or> (\<exists>p l. mList (mReadyList s) = p # l \<and> context_of s p = None)"
  shows "s' = s\<lparr>mReadyList := Fifo (tl (mList (mReadyList s)))\<rparr>"
  using assms
  by (cases "mReadyList s")
    (auto simp: kq_consume_ready_def Let_def pop_front_def bind_eq_Some_conv context_of_def split: option.split_asm)

lemma kq_consume_moves:
  assumes r: "kq_consume_ready ks s = Some (res, s')" and inv: "mux_inv s" and h: "mList (mReadyList s) = p # l"
    and c: "context_of s p = Some ctx"
  shows "mux_inv s' \<and> mReadyList s' = Fifo l \<and> event_log s' = event_log s \<and>
    (\<exists>rd wr. context_of s' p = Some (ctx\<lparr>ready := False, rdqueue := rd, wrqueue := wr\<rparr>) \<and>
       (rd \<noteq> [] \<longrightarrow> asked s' p AND EPOLLIN \<noteq> 0) \<and> (wr \<noteq> [] \<longrightarrow> asked s' p AND EPOLLOUT \<noteq> 0)) \<and>
    (\<forall>q. q \<noteq> p \<longrightarrow> asked s' q = asked s q \<and> (eps s q \<noteq> None \<longrightarrow> context_of s' q = context_of s q) \<and>
       queue_of s' q = queue_of s q \<and> (\<forall>x. context_of s' q = Some x \<longrightarrow> context_of s q = Some x \<or> \<not> ready x))"
proof -
  obtain e where e: "eps s p = Some e" "pAsyncContext e = Some ctx" using c by (auto simp: context_of_def bind_eq_Some_conv)
  let ?s0 = "s\<lparr>mReadyList := Fifo l\<rparr>"
  have pop: "pop_front (mReadyList s) = ((Some p, of_nat (length l)), Fifo l)" using h by (simp add: pop_front_def)
  obtain rd wr s1 where q: "perform_queues (posix ks) p ctx ?s0 = Some (rd, wr, s1)" and s': "s' = kq_rearm ks p (getSocket e) rd wr s1"
    using r e by (auto simp: kq_consume_ready_def Let_def pop bind_eq_Some_conv)
  have i0: "mux_inv ?s0" using inv_frame [OF inv, where w = "world s" and a = "asked s" and l = "Fifo l"] by simp
  have c0: "context_of ?s0 p = Some ctx" using c by (simp add: context_of_def)
  have v: "context_of s' x = context_of s1 x" "queue_of s' x = queue_of s1 x"
    "context_of ?s0 x = context_of s x" "queue_of ?s0 x = queue_of s x" for x
    unfolding s' by (subst kq_rearm_simps, simp add: context_of_def queue_of_def fun_eq_iff)+
      (simp_all add: context_of_def queue_of_def fun_eq_iff)
  have m: "mReadyList s' = mReadyList s1" "event_log s' = event_log s1" "mCompletionList s' = mCompletionList s1"
    unfolding s' by (subst kq_rearm_simps, simp)+
  have i: "mux_inv s'" if "mux_inv s1"
    unfolding s' by (subst kq_rearm_simps) (use inv_frame [OF that, where l = "mReadyList s1"] in simp)
  have a: "x \<noteq> p \<Longrightarrow> asked s' x = asked s1 x" "rd \<noteq> [] \<Longrightarrow> asked s' p AND EPOLLIN \<noteq> 0" "wr \<noteq> [] \<Longrightarrow> asked s' p AND EPOLLOUT \<noteq> 0" for x
    unfolding s' by (rule kq_rearm_asked, assumption)+
  from performed_moves [OF q i0 c0] obtain d1 d2 where
    d: "mux_inv s1" "mReadyList s1 = Fifo l" "event_log s1 = event_log s"
      "context_of s1 p = Some (ctx\<lparr>ready := False, rdqueue := rd, wrqueue := wr\<rparr>)"
      "\<forall>q. q \<noteq> p \<longrightarrow> eps s q \<noteq> None \<longrightarrow> context_of s1 q = context_of s q" "\<forall>q. q \<noteq> p \<longrightarrow> queue_of s1 q = queue_of s q"
      "\<forall>q x. q \<noteq> p \<longrightarrow> context_of s1 q = Some x \<longrightarrow> context_of s q = Some x \<or> \<not> ready x" "asked s1 = asked s"
    unfolding v by auto
  have "\<exists>rd wr. context_of s' p = Some (ctx\<lparr>ready := False, rdqueue := rd, wrqueue := wr\<rparr>) \<and>
       (rd \<noteq> [] \<longrightarrow> asked s' p AND EPOLLIN \<noteq> 0) \<and> (wr \<noteq> [] \<longrightarrow> asked s' p AND EPOLLOUT \<noteq> 0)"
    using d(4) v(1) a by (intro exI [of _ rd] exI [of _ wr]) simp
  then show ?thesis using i [OF d(1)] d m v a(1) by simp
qed

text \<open>An event: the queue of its direction is aborted, or the endpoint becomes ready.\<close>

lemma make_ready_moves:
  assumes r: "kq_make_ready p s = Some s'" and inv: "mux_inv s" and c: "context_of s p = Some ctx"
  shows "mux_inv s' \<and> mReadyList s' = push_back (Some p) (mReadyList s) \<and> event_log s' = event_log s \<and> asked s' = asked s \<and>
    context_of s' p = Some (ctx\<lparr>ready := True\<rparr>) \<and> (\<forall>q. q \<noteq> p \<longrightarrow> context_of s' q = context_of s q)"
proof -
  obtain s1 where u: "update_ctx p (\<lambda>c. c\<lparr>ready := True\<rparr>) s = Some s1" and s': "s' = push_ready p s1"
    using r by (auto simp: kq_make_ready_def bind_eq_Some_conv)
  note v = update_ctx_views [OF u]
  have i1: "mux_inv s1" by (rule update_ctx_inv [OF u inv]) simp
  have "mux_inv s'"
    using inv_frame [OF i1, where w = "world s1" and a = "asked s1" and l = "mReadyList s'"] by (simp add: s' push_ready_def)
  moreover have "context_of s' q = context_of s1 q" for q by (simp add: s' push_ready_def context_of_def)
  ultimately show ?thesis using v(2,5,12,14,16) c by (simp add: s' push_ready_def)
qed

lemma kq_event_moves:
  assumes r: "kq_handle_event ev s = Some s'" and inv: "mux_inv s"
  shows "\<exists>ctx. context_of s (udata ev) = Some ctx \<and> mux_inv s' \<and> event_log s' = event_log s \<and>
    asked s' = (asked s)(udata ev := asked s (udata ev) AND NOT (filter_bit (kfilter ev))) \<and>
    (\<forall>q. q \<noteq> udata ev \<longrightarrow> context_of s' q = context_of s q) \<and>
    (if kfilter ev = EVFILT_OTHER then mReadyList s' = mReadyList s \<and> context_of s' (udata ev) = Some (ctx\<lparr>ready := False\<rparr>)
     else if kflags ev AND EV_EOF = 0
     then mReadyList s' = push_back (Some (udata ev)) (mReadyList s) \<and> context_of s' (udata ev) = Some (ctx\<lparr>ready := True\<rparr>)
     else mReadyList s' = mReadyList s \<and> context_of s' (udata ev) =
       Some (if kfilter ev = EVFILT_WRITE then ctx\<lparr>ready := False, wrqueue := []\<rparr> else ctx\<lparr>ready := False, rdqueue := []\<rparr>))"
proof -
  let ?p = "udata ev" and ?s0 = "s\<lparr>asked := (asked s)(udata ev := asked s (udata ev) AND NOT (filter_bit (kfilter ev)))\<rparr>"
  obtain e ctx s1 where e: "eps s ?p = Some e" "pAsyncContext e = Some ctx"
    and u: "update_ctx ?p (\<lambda>c. c\<lparr>ready := False\<rparr>) ?s0 = Some s1"
    using r by (auto simp: kq_handle_event_def bind_eq_Some_conv Let_def)
  have c: "context_of s ?p = Some ctx" using e by (simp add: context_of_def)
  have i0: "mux_inv ?s0" using inv_frame [OF inv, where w = "world s" and l = "mReadyList s"] by simp
  have v0: "context_of ?s0 q = context_of s q" for q by (simp add: context_of_def)
  note v = update_ctx_views [OF u]
  have i1: "mux_inv s1" by (rule update_ctx_inv [OF u i0]) simp
  have c1: "context_of s1 ?p = Some (ctx\<lparr>ready := False\<rparr>)" using v(12) v0 c by simp
  have k1: "mReadyList s1 = mReadyList s" "event_log s1 = event_log s" "asked s1 = asked ?s0"
    "q \<noteq> ?p \<Longrightarrow> context_of s1 q = context_of s q" for q
    using v(2,5,14,16) v0 by simp_all
  consider (other) "kfilter ev = EVFILT_OTHER" "s' = s1"
    | (ready) "kfilter ev \<noteq> EVFILT_OTHER" "kflags ev AND EV_EOF = 0" "kq_make_ready ?p s1 = Some s'"
    | (eof) d s2 where "kfilter ev = (if d then EVFILT_WRITE else EVFILT_READ)" "kflags ev AND EV_EOF \<noteq> 0"
        "abort_all (if d then wrqueue ctx else rdqueue ctx) s1 = Some s2"
        "update_ctx ?p (\<lambda>c. if d then c\<lparr>wrqueue := []\<rparr> else c\<lparr>rdqueue := []\<rparr>) s2 = Some s'"
  proof (cases "kfilter ev")
    case EVFILT_READ
    then show ?thesis using r e u that(2) that(3) [of False]
      by (auto simp: kq_handle_event_def bind_eq_Some_conv Let_def split: if_split_asm)
  next
    case EVFILT_WRITE
    then show ?thesis using r e u that(2) that(3) [of True]
      by (auto simp: kq_handle_event_def bind_eq_Some_conv Let_def split: if_split_asm)
  next
    case EVFILT_OTHER
    then show ?thesis using r e u that(1) by (simp add: kq_handle_event_def Let_def)
  qed
  then show ?thesis
  proof cases
    case other
    then show ?thesis using c i1 c1 k1 by simp
  next
    case ready
    then show ?thesis using make_ready_moves [OF ready(3) i1 c1] c k1 by simp
  next
    case eof
    have a: "abort_all (if d then wrqueue (ctx\<lparr>ready := False\<rparr>) else rdqueue (ctx\<lparr>ready := False\<rparr>)) s1 = Some s2" using eof(3) by (cases d) simp_all
    show ?thesis using abort_queue_moves [OF a eof(4) i1 c1] eof(1,2) c k1 by (cases d) simp_all
  qed
qed

section \<open>The invariant\<close>

lemma kq_ready_inv:
  assumes r: "kq_consume_ready ks s = Some (res, s')" and inv: "mux_inv s"
  shows "mux_inv s' \<and> event_log s' = event_log s"
proof (cases "mList (mReadyList s) = [] \<or> (\<exists>p l. mList (mReadyList s) = p # l \<and> context_of s p = None)")
  case True
  show ?thesis unfolding kq_consume_idle [OF r True]
    using inv_frame [OF inv, where w = "world s" and a = "asked s"] by simp
next
  case False
  then obtain p l c where h: "mList (mReadyList s) = p # l" "context_of s p = Some c" by (cases "mList (mReadyList s)") auto
  show ?thesis using kq_consume_moves [OF r inv h] by blast
qed

lemma kq_events_induct:
  assumes "kq_handle_events evs s = Some s'" and "P s" and "\<And>ev s s'. \<lbrakk>kq_handle_event ev s = Some s'; P s\<rbrakk> \<Longrightarrow> P s'"
  shows "P s'"
  using assms(1,2)
proof (induction evs arbitrary: s)
  case (Cons ev evs)
  then show ?case using assms(3) by (auto simp: bind_eq_Some_conv)
qed simp

lemma kq_wait_cases:
  assumes "kq_wait ks t s = Some (r, s')"
  shows "\<exists>w evs. kq_handle_events evs (s\<lparr>world := w\<rparr>) = Some s'"
proof -
  obtain evs w where w: "os_kevent_wait ks (mEpollfd s) 128 (kq_timespec t) (world s) = (evs, w)" by (rule prod.exhaust)
  show ?thesis using assms w
    by (cases evs; cases "the evs")
      (auto simp: kq_wait_def Let_def bind_eq_Some_conv simp del: kq_handle_events.simps intro: exI [of _ "[]"] exI [of _ w],
       auto intro!: exI [of _ w] exI [of _ "[]"])
qed

lemma kq_wait_inv:
  assumes r: "kq_wait ks t s = Some (res, s')" and inv: "mux_inv s"
  shows "mux_inv s' \<and> event_log s' = event_log s"
proof -
  obtain w evs where h: "kq_handle_events evs (s\<lparr>world := w\<rparr>) = Some s'" using kq_wait_cases [OF r] by blast
  show ?thesis
    by (rule kq_events_induct [OF h, where P = "\<lambda>x. mux_inv x \<and> event_log x = event_log s"])
      (use inv_world [OF inv] kq_event_moves in fastforce)+
qed

lemma kq_step_inv: "\<lbrakk>kq_step ks env s s'; mux_inv s\<rbrakk> \<Longrightarrow> mux_inv s'"
  by (erule kq_stepE) (auto simp: kq_depart_epoll intro: prog_step_inv depart_inv dest: kq_ready_inv kq_wait_inv)

lemma kq_step_log: "\<lbrakk>kq_step ks env s s'; mux_inv s\<rbrakk> \<Longrightarrow> prefix (event_log s) (event_log s')"
  by (erule kq_stepE) (auto simp: kq_depart_epoll prog_step_log depart_log dest: kq_ready_inv kq_wait_inv)

interpretation kq: multiplexer "posix ks" env "kq_step ks env" for ks env
  by unfold_locales (auto intro: kq_step.program kq_step_inv kq_step_log)

lemma kq_reach_inv: "kq_reach ks env s \<Longrightarrow> mux_inv s"
  unfolding kq_reach_def kq_start_epoll using kq.path_inv start_inv by blast

section \<open>Nothing is forgotten\<close>

text \<open>
  Two filters report separately, and an end of stream clears the flag \<open>ready\<close> of an endpoint that may
  be in the ready list.  So the flag says less than with epoll: only that the endpoint is in the list.
\<close>

definition kq_armed_at :: "'w mux \<Rightarrow> nat \<Rightarrow> bool" where
  "kq_armed_at s p \<longleftrightarrow> (\<forall>c. context_of s p = Some c \<longrightarrow>
     (if ready c then p \<in> set (mList (mReadyList s))
      else p \<in> set (mList (mReadyList s)) \<or>
        (rdqueue c \<noteq> [] \<longrightarrow> asked s p AND EPOLLIN \<noteq> 0) \<and> (wrqueue c \<noteq> [] \<longrightarrow> asked s p AND EPOLLOUT \<noteq> 0)))"

lemma kq_armed_keep:
  "\<lbrakk>kq_armed_at s p; context_of s' p = context_of s p; asked s' p = asked s p;
    p \<in> set (mList (mReadyList s)) \<Longrightarrow> p \<in> set (mList (mReadyList s'))\<rbrakk> \<Longrightarrow> kq_armed_at s' p"
  by (auto simp: kq_armed_at_def)

lemma kq_armed_none: "context_of s p = None \<Longrightarrow> kq_armed_at s p"
  by (simp add: kq_armed_at_def)

lemma kq_prog_armed:
  assumes "prog_step os env s s'" and a: "kq_armed_at s q"
  shows "kq_armed_at s' q"
proof -
  note v = prog_views [OF assms(1), of q]
  show ?thesis
  proof (cases "context_of s' q = context_of s q")
    case True
    then show ?thesis using v by (intro kq_armed_keep [OF a]) auto
  next
    case False
    then show ?thesis using v a by (auto simp: kq_armed_at_def asks_def split: if_split_asm option.split_asm)
  qed
qed

lemma kq_depart_armed:
  assumes "kq_depart ks p s = Some (ok, s')" and a: "kq_armed_at s q"
  shows "kq_armed_at s' q"
  using depart_views [OF assms(1) [unfolded kq_depart_epoll], of q]
  by (elim disjE) (auto intro: kq_armed_none kq_armed_keep [OF a])

lemma kq_consume_armed:
  assumes r: "kq_consume_ready ks s = Some (x, s')" and inv: "mux_inv s" and a: "kq_armed_at s q"
  shows "kq_armed_at s' q"
proof (cases "mList (mReadyList s) = [] \<or> (\<exists>p l. mList (mReadyList s) = p # l \<and> context_of s p = None)")
  case True
  have s': "context_of s' q = context_of s q" "asked s' = asked s" "mList (mReadyList s') = tl (mList (mReadyList s))"
    by (simp_all add: kq_consume_idle [OF r True] context_of_def)
  show ?thesis
  proof (cases "context_of s q")
    case None
    then show ?thesis using s' by (intro kq_armed_none) simp
  next
    case (Some c)
    then show ?thesis using True s' by (intro kq_armed_keep [OF a]) auto
  qed
next
  case False
  then obtain p l c where h: "mList (mReadyList s) = p # l" "context_of s p = Some c" by (cases "mList (mReadyList s)") auto
  from kq_consume_moves [OF r inv h] obtain rd wr where m: "mReadyList s' = Fifo l"
    "context_of s' p = Some (c\<lparr>ready := False, rdqueue := rd, wrqueue := wr\<rparr>)"
    "rd \<noteq> [] \<longrightarrow> asked s' p AND EPOLLIN \<noteq> 0" "wr \<noteq> [] \<longrightarrow> asked s' p AND EPOLLOUT \<noteq> 0"
    and o: "q \<noteq> p \<longrightarrow> asked s' q = asked s q \<and> (eps s q \<noteq> None \<longrightarrow> context_of s' q = context_of s q) \<and>
       queue_of s' q = queue_of s q \<and> (\<forall>x. context_of s' q = Some x \<longrightarrow> context_of s q = Some x \<or> \<not> ready x)"
    by blast
  consider (same) "q = p" | (old) "q \<noteq> p" "eps s q \<noteq> None" | (new) "q \<noteq> p" "eps s q = None" by blast
  then show ?thesis
  proof cases
    case same
    then show ?thesis using m(2-4) by (auto simp: kq_armed_at_def)
  next
    case old
    then show ?thesis using m(1) o h by (intro kq_armed_keep [OF a]) auto
  next
    case new
    then have n: "context_of s q = None" by (simp add: context_of_def)
    have "queue_of s' q = (\<lambda>d. [])" using o new(1) queue_none [OF n] by simp
    then have "queue_of s' q False = []" "queue_of s' q True = []" by simp_all
    then have "rdqueue x = [] \<and> wrqueue x = []" if "context_of s' q = Some x" for x
      using that by (simp add: queue_of_def)
    then show ?thesis using o new(1) n by (auto simp: kq_armed_at_def)
  qed
qed

lemma kq_event_armed:
  assumes r: "kq_handle_event ev s = Some s'" and inv: "mux_inv s" and a: "kq_armed_at s q"
  shows "kq_armed_at s' q"
proof -
  obtain c where m: "context_of s (udata ev) = Some c"
    "asked s' = (asked s)(udata ev := asked s (udata ev) AND NOT (filter_bit (kfilter ev)))"
    "\<forall>q. q \<noteq> udata ev \<longrightarrow> context_of s' q = context_of s q"
    and i: "if kfilter ev = EVFILT_OTHER then mReadyList s' = mReadyList s \<and> context_of s' (udata ev) = Some (c\<lparr>ready := False\<rparr>)
     else if kflags ev AND EV_EOF = 0
     then mReadyList s' = push_back (Some (udata ev)) (mReadyList s) \<and> context_of s' (udata ev) = Some (c\<lparr>ready := True\<rparr>)
     else mReadyList s' = mReadyList s \<and> context_of s' (udata ev) =
       Some (if kfilter ev = EVFILT_WRITE then c\<lparr>ready := False, wrqueue := []\<rparr> else c\<lparr>ready := False, rdqueue := []\<rparr>)"
    using kq_event_moves [OF r inv] by (elim exE conjE) blast
  have l: "q \<in> set (mList (mReadyList s)) \<Longrightarrow> q \<in> set (mList (mReadyList s'))" using i by (auto split: if_split_asm)
  show ?thesis
  proof (cases "q = udata ev")
    case False
    then show ?thesis using m l by (intro kq_armed_keep [OF a]) auto
  next
    case True
    then show ?thesis using m i a
      by (cases "kfilter ev") (auto simp: kq_armed_at_def filter_bits split: if_split_asm)
  qed
qed

lemma kq_wait_armed:
  assumes r: "kq_wait ks t s = Some (x, s')" and inv: "mux_inv s" and a: "kq_armed_at s q"
  shows "kq_armed_at s' q"
proof -
  obtain w evs where h: "kq_handle_events evs (s\<lparr>world := w\<rparr>) = Some s'" using kq_wait_cases [OF r] by blast
  have "kq_armed_at (s\<lparr>world := w\<rparr>) q" by (rule kq_armed_keep [OF a]) (simp_all add: context_of_def)
  then have "mux_inv s' \<and> kq_armed_at s' q"
    using kq_events_induct [OF h, where P = "\<lambda>x. mux_inv x \<and> kq_armed_at x q"] inv_world [OF inv] kq_event_moves kq_event_armed
    by blast
  then show ?thesis ..
qed

lemma kq_step_armed: "\<lbrakk>kq_step ks env s s'; mux_inv s; kq_armed_at s q\<rbrakk> \<Longrightarrow> kq_armed_at s' q"
  by (erule kq_stepE) (blast intro: kq_prog_armed kq_depart_armed kq_consume_armed kq_wait_armed)+

lemma kq_reach_armed: "kq_reach ks env s \<Longrightarrow> kq_armed_at s q"
proof -
  assume "kq_reach ks env s"
  then obtain s0 where s0: "mux_start (as_epoll ks) s0" and r: "(kq_step ks env)\<^sup>*\<^sup>* s0 s"
    by (auto simp: kq_reach_def kq_start_epoll)
  from r have "mux_inv s \<and> kq_armed_at s q"
  proof (induction rule: rtranclp_induct)
    case base
    then show ?case using start_inv [OF s0] start_armed [OF s0, of q] by (auto simp: armed_at_def kq_armed_at_def)
  next
    case (step y z)
    then show ?case using kq_step_inv kq_step_armed by blast
  qed
  then show ?thesis ..
qed

section \<open>The loop\<close>

definition kq_client_steps :: "'w kqsys \<Rightarrow> ('w \<Rightarrow> 'w \<Rightarrow> bool) \<Rightarrow> (io_event \<Rightarrow> 'w mux \<Rightarrow> 'w mux option) \<Rightarrow> bool" where
  "kq_client_steps ks env client \<longleftrightarrow> (\<forall>ev s s'. client ev s = Some s' \<longrightarrow> (kq_step ks env)\<^sup>*\<^sup>* s s')"

lemma kq_runOnce_steps:
  assumes r: "kq_runOnce ks client t s = Some (x, s')" and inv: "mux_inv s" and cl: "kq_client_steps ks env client"
  shows "(kq_step ks env)\<^sup>*\<^sup>* s s'"
proof -
  obtain b s1 where d1: "dispatch client s = Some (b, s1)" using r by (auto simp: kq_runOnce_def bind_eq_Some_conv)
  then obtain c n s2 where d2: "kq_consume_ready ks s1 = Some ((c, n), s2)" using r by (auto simp: kq_runOnce_def bind_eq_Some_conv)
  have w: "s' = s2 \<or> (\<exists>t' r'. kq_wait ks t' s2 = Some (r', s'))"
    using r d1 d2 by (cases "n < MAX_READY_LIST_LEN") (auto simp: kq_runOnce_def)
  have "kq_step ks env s1 s2" using d2 by (rule kq_step.ready)
  moreover have "s' = s2 \<or> kq_step ks env s2 s'" using w kq_step.wait by blast
  ultimately show ?thesis using kq.turn_path [OF d1 inv] cl unfolding kq_client_steps_def by blast
qed

lemma kq_run_steps:
  assumes cl: "kq_client_steps ks env client" and r: "kq_run ks client s = Some s'" and inv: "mux_inv s"
  shows "(kq_step ks env)\<^sup>*\<^sup>* s s'"
proof -
  let ?P = "\<lambda>ks' client' s s'. ks' = ks \<longrightarrow> client' = client \<longrightarrow> mux_inv s \<longrightarrow> (kq_step ks env)\<^sup>*\<^sup>* s s'"
  have "?P ks client s s'"
  proof (rule kq_run.raw_induct [where P = ?P, OF _ r], intro impI)
    fix rec ks' client' s s'
    assume IH: "\<And>ks' client' s s'. rec ks' client' s = Some s' \<Longrightarrow> ?P ks' client' s s'"
      and body: "(if \<not> mEnable s then Some s else do { (r, s) \<leftarrow> kq_runOnce ks' client' 10 s;
        if r = ERS_DISABLED then Some s else rec ks' client' s }) = Some s'"
      and eq: "ks' = ks" "client' = client" and i: "mux_inv s"
    show "(kq_step ks env)\<^sup>*\<^sup>* s s'"
    proof (rule kq.loop_path [where once = "kq_runOnce ks client 10" and rest = "rec ks client"])
      show "(if \<not> mEnable s then Some s else do { (r, s) \<leftarrow> kq_runOnce ks client 10 s;
        if r = ERS_DISABLED then Some s else rec ks client s }) = Some s'" using body unfolding eq .
    qed (use i kq_runOnce_steps [OF _ i cl] IH eq in blast)+
  qed
  then show ?thesis using inv by blast
qed

lemma kq_loop:
  assumes "kq_reach ks env s" and "kq_client_steps ks env client"
    and "kq_runOnce ks client t s = Some (r, s') \<or> kq_run ks client s = Some s'"
  shows "kq_reach ks env s' \<and> prefix (event_log s) (event_log s')"
proof -
  note inv = kq_reach_inv [OF assms(1)]
  have t: "(kq_step ks env)\<^sup>*\<^sup>* s s'" using assms(3) kq_runOnce_steps [OF _ inv assms(2)] kq_run_steps [OF assms(2) _ inv] by blast
  then show ?thesis using assms(1) kq.path_log [OF t inv] rtranclp_trans unfolding kq_reach_def by metis
qed

section \<open>Programs of calls\<close>

fun kq_play :: "'w kqsys \<Rightarrow> (io_event \<Rightarrow> 'w mux \<Rightarrow> 'w mux option) \<Rightarrow> mux_call list \<Rightarrow> 'w mux \<Rightarrow> 'w mux option" where
  "kq_play ks client [] s = Some s"
| "kq_play ks client (JoinCall p # cs) s =
     do { e \<leftarrow> eps s p;
          if Option.is_none (pAsyncContext e) then do { (ok, s) \<leftarrow> join (posix ks) p s; kq_play ks client cs s } else None }"
| "kq_play ks client (DepartCall p # cs) s = do { (ok, s) \<leftarrow> kq_depart ks p s; kq_play ks client cs s }"
| "kq_play ks client (Ask p r # cs) s = do { s \<leftarrow> mux_request p r s; kq_play ks client cs s }"
| "kq_play ks client (Turn t # cs) s = do { (r, s) \<leftarrow> kq_runOnce ks client t s; kq_play ks client cs s }"

lemma kq_play_reach:
  assumes cl: "kq_client_steps ks env client"
  shows "\<lbrakk>kq_play ks client cs s = Some s'; kq_reach ks env s\<rbrakk> \<Longrightarrow> kq_reach ks env s'"
proof (induction cs arbitrary: s)
  case (Cons c cs)
  have one: "kq_reach ks env s1" if "kq_step ks env s s1" for s1
    using that Cons.prems(2) unfolding kq_reach_def by (meson rtranclp.rtrancl_into_rtrancl)
  obtain s1 where "kq_reach ks env s1 \<and> kq_play ks client cs s1 = Some s'"
  proof (cases c)
    case (JoinCall p)
    then obtain e ok s1 where "eps s p = Some e" "pAsyncContext e = None" "join (posix ks) p s = Some (ok, s1)" "kq_play ks client cs s1 = Some s'"
      using Cons.prems(1) by (auto simp: bind_eq_Some_conv Option.is_none_def split: if_split_asm)
    then show ?thesis using that one prog_step.join kq_step.program by blast
  next
    case (DepartCall p)
    then obtain ok s1 where "kq_depart ks p s = Some (ok, s1)" "kq_play ks client cs s1 = Some s'"
      using Cons.prems(1) by (auto simp: bind_eq_Some_conv)
    then show ?thesis using that one kq_step.depart by blast
  next
    case (Ask p r)
    then obtain s1 where "mux_request p r s = Some s1" "kq_play ks client cs s1 = Some s'"
      using Cons.prems(1) by (auto simp: bind_eq_Some_conv)
    then show ?thesis using that one prog_step.request kq_step.program by blast
  next
    case (Turn t)
    then obtain r s1 where r: "kq_runOnce ks client t s = Some (r, s1)" "kq_play ks client cs s1 = Some s'"
      using Cons.prems(1) by (auto simp: bind_eq_Some_conv)
    then show ?thesis using that kq_loop [OF Cons.prems(2) cl disjI1 [OF r(1)]] by blast
  qed
  then show ?case using Cons.IH by blast
qed simp

text \<open>A queue that reports given events, on the systems of NetIoMuxProps.\<close>

definition demo_kq :: "int list muxsys \<Rightarrow> kevent list \<Rightarrow> int list kqsys" where
  "demo_kq os evs = \<lparr>posix = os, os_kqueue = (\<lambda>w. (fresh_fd w, fresh_fd w # w)), os_kevent_change = (\<lambda>kq ch w. (0, w)),
     os_kevent_wait = (\<lambda>kq n ts w. (if 0 \<le> snd ts \<and> snd ts < 1000000000 then Some evs else None, w))\<rparr>"

definition kq_report :: "evfilt \<Rightarrow> u16 \<Rightarrow> kevent" where
  "kq_report f bits = \<lparr>ident = 3, kfilter = f, kflags = bits, udata = 0\<rparr>"

definition kq_demo_start :: "int list kqsys \<Rightarrow> int list mux" where
  "kq_demo_start ks = kq_new ks (\<lambda>p. if p = 0 then Some demo_nep else None) 1 [3]"

lemma kq_demo_reach: "kq_reach ks env (kq_demo_start ks)"
  unfolding kq_reach_def kq_start_def
  by (rule exI [of _ "kq_demo_start ks"])
    (auto simp: kq_demo_start_def demo_nep_def ep_wrap_def intro!: exI split: if_split_asm)

lemma kq_echo_steps: "kq_client_steps ks env echo"
proof -
  have "s' = s \<or> (\<exists>p r. mux_request p r s = Some s')" if "echo ev s = Some s'" for ev and s s' :: "'a mux"
    using that by (auto simp: echo_def simp del: mux_request.simps split: EIoType.split_asm EError.split_asm iobuf.split_asm)
  then show ?thesis using prog_step.request kq_step.program unfolding kq_client_steps_def by blast
qed

definition two_ways :: "mux_call list" where
  "two_ways = [JoinCall 0, Ask 0 (Recv_req 0x1000 5 (Some 7)), Ask 0 (Send_req 0x2000 9 (Some 7)), Turn 10]"

section \<open>The properties\<close>

text \<open>
  C15: The multiplexer on kqueue loses no operation and completes none twice.  In every reachable
  state no record is reported to two callbacks; for an endpoint that has not departed, the operations
  of a direction that were reported, then those completed, then those queued, are those submitted, in
  this order; and if some are queued, the endpoint is in the ready list or \<open>kevent\<close> was asked to add the
  filter of the direction, which has not reported since.
\<close>

theorem kq_complete:
  assumes "kq_reach ks env s"
  shows "distinct (map fst (event_log s)) \<and>
    (\<forall>p d. p \<in> departed s \<or> called s p d @ completing s p d @ queue_of s p d = submitted s p d) \<and>
    (\<forall>p d. queue_of s p d = [] \<or> p \<in> set (mList (mReadyList s)) \<or>
       asked s p AND filter_bit (if d then EVFILT_WRITE else EVFILT_READ) \<noteq> 0)"
proof (intro conjI allI)
  note inv = kq_reach_inv [OF assms]
  show "distinct (map fst (event_log s))" by (rule events_distinct [OF inv])
  show "p \<in> departed s \<or> called s p d @ completing s p d @ queue_of s p d = submitted s p d" for p d
    using mux_invD(7) [OF inv] by blast
  show "queue_of s p d = [] \<or> p \<in> set (mList (mReadyList s)) \<or>
      asked s p AND filter_bit (if d then EVFILT_WRITE else EVFILT_READ) \<noteq> 0" for p d
    using kq_reach_armed [OF assms, of p]
    by (cases "context_of s p") (auto simp: kq_armed_at_def queue_of_def filter_bits split: if_split_asm)
qed

lemma kq_complete_witness:
  "\<exists>s. kq_play (demo_kq quiet_mux [kq_report EVFILT_WRITE 0]) echo two_ways (kq_demo_start (demo_kq quiet_mux [kq_report EVFILT_WRITE 0])) = Some s \<and>
     queue_of s 0 False = [0] \<and> completing s 0 True = [1] \<and> distinct (map fst (event_log s)) \<and>
     (0 \<in> set (mList (mReadyList s)) \<or> asked s 0 AND EPOLLIN \<noteq> 0)"
proof -
  let ?ks = "demo_kq quiet_mux [kq_report EVFILT_WRITE 0]"
  have "map_option (\<lambda>s. (queue_of s 0 False, completing s 0 True)) (kq_play ?ks echo two_ways (kq_demo_start ?ks)) = Some ([0], [1])"
    by code_simp
  then obtain s where s: "kq_play ?ks echo two_ways (kq_demo_start ?ks) = Some s"
    and v: "queue_of s 0 False = [0]" "completing s 0 True = [1]"
    by auto
  have r: "kq_reach ?ks (=) s" by (rule kq_play_reach [OF kq_echo_steps s kq_demo_reach])
  note k = kq_complete [OF r]
  have "queue_of s 0 False = [] \<or> 0 \<in> set (mList (mReadyList s)) \<or>
      asked s 0 AND filter_bit (if False then EVFILT_WRITE else EVFILT_READ) \<noteq> 0"
    using k by blast
  then show ?thesis using k s v by (intro exI [of _ s]) (simp add: filter_bits(1))
qed

section \<open>Where the code goes wrong\<close>

text \<open>
  The timeout of a wait is exact up to 4294 ms, and then wraps; but kevent takes less than 1000000000
  nanoseconds only, so from one second on it fails, and \<open>runOnce\<close> says that the multiplexer is disabled.
\<close>

lemma kq_timespec_exact:
  assumes "t \<le> 4294" shows "kq_timespec t = (0, uint t * 1000000)"
proof -
  have "uint t \<le> 4294" using assms by (simp add: word_le_def)
  then show ?thesis by (simp add: kq_timespec_def uint_word_ariths)
qed

lemma kq_second_fails:
  assumes "1000 \<le> t" and "t \<le> 4294"
    and "\<And>fd n sec nsec w. 1000000000 \<le> nsec \<Longrightarrow> fst (os_kevent_wait ks fd n (sec, nsec) w) = None"
  shows "\<exists>s'. kq_wait ks t s = Some (ERS_DISABLED, s')"
proof -
  have "1000 \<le> uint t" using assms(1) by (simp add: word_le_def)
  then have "fst (os_kevent_wait ks (mEpollfd s) 128 (kq_timespec t) (world s)) = None"
    unfolding kq_timespec_exact [OF assms(2)] by (intro assms(3)) simp
  then show ?thesis by (simp add: kq_wait_def Let_def case_prod_beta)
qed

lemma kq_timespec_wraps: "kq_timespec 4295 = (0, 32704)"
  by code_simp

text \<open>
  A read and a write event of one wait put the endpoint into the ready list twice; and the end of one
  stream clears the flag of an endpoint that the other event has just put there, so that a departure
  does not take it out.  When the endpoint is then deleted, the list holds a dangling pointer.
\<close>

definition kq_events_then :: "kevent list \<Rightarrow> mux_call list \<Rightarrow> int list mux option" where
  "kq_events_then evs calls = kq_play (demo_kq quiet_mux evs) echo (two_ways @ calls) (kq_demo_start (demo_kq quiet_mux evs))"

lemma kq_ready_twice:
  "map_option (\<lambda>s. mList (mReadyList s)) (kq_events_then [kq_report EVFILT_READ 0, kq_report EVFILT_WRITE 0] []) = Some [0, 0]"
  by code_simp

lemma kq_depart_dangles:
  "map_option (\<lambda>s. mList (mReadyList s)) (kq_events_then [kq_report EVFILT_READ 0, kq_report EVFILT_WRITE EV_EOF] [DepartCall 0]) = Some [0]"
  "Option.is_none (do { s \<leftarrow> kq_events_then [kq_report EVFILT_READ 0, kq_report EVFILT_WRITE EV_EOF] [DepartCall 0];
     kq_consume_ready (demo_kq quiet_mux []) (set_ep 0 None s) })"
  by code_simp+

text \<open>
  A read event with EV\_EOF aborts the receives that are queued, without an attempt to read what the
  peer sent before it closed.
\<close>

lemma kq_eof_aborts:
  "map_option (\<lambda>s. (queue_of s 0 False, map (\<lambda>op. map_option (\<lambda>o'. fst (completion o')) (ovs s op)) (completing s 0 False)))
     (kq_events_then [kq_report EVFILT_READ EV_EOF] []) = Some ([], [Some EE_RECV])"
  by code_simp

end
