(* ===== verification/Coroutine.thy ===== *)
theory Coroutine
  imports Prelude "HOL-Library.Monad_Syntax"
begin

text \<open>
  src/platform/coroutine\_posix.hpp, on ucontext, and src/platform/coroutine\_boost\_fcontext.hpp, on
  the assembly routines \<open>make_fcontext\<close> and \<open>jump_fcontext\<close>: the coroutines of one thread.  Objects
  and stacks live in two heaps keyed by numbers for their addresses, of which none is used twice;
  0 is the null pointer.  A context is a resumption: what runs next on which stack.  None is the use
  of an object that was freed or of a context that was never made.  The creation of the TLS key
  succeeds; assertions are those of an NDEBUG build.
\<close>

section \<open>Data\<close>

text \<open>
  A flow of control is named by the stack buffer it runs on, 0 for the stack of the thread.  A
  context is empty, or enters a body on a flow, with its argument or with the one that the jump
  passes, or goes on where a flow was left.
\<close>

datatype resumption = NoContext | Entry nat nat u64 | Made nat nat | Resume nat

record slot =
  cContext :: resumption
  cData :: u64
  cStackBuffer :: nat
  cStackSize :: u64

record manager =
  MainContext :: nat
  CurrentContext :: nat
  Slots :: "(nat \<times> nat) list"

definition FCSTKSZ :: u64 where "FCSTKSZ = 1048576"

text \<open>
  \<open>specific\<close> is the manager that the TLS slot of the thread points to.  \<open>running\<close> is the flow on the
  processor and \<open>entered\<close> the bodies started so far, with flow and argument: the code has neither.
\<close>

record costate =
  g_tls_inited :: bool
  specific :: "manager option"
  slot_heap :: "nat \<Rightarrow> slot option"
  stack_heap :: "nat \<Rightarrow> u64 option"
  next_addr :: nat
  running :: nat
  entered :: "(nat \<times> nat \<times> u64) list"
  exited :: bool

definition ENSURE_TLS_INIT :: "costate \<Rightarrow> costate" where
  "ENSURE_TLS_INIT s = (if \<not> g_tls_inited s then s\<lparr>g_tls_inited := True\<rparr> else s)"

definition map_insert :: "nat \<Rightarrow> nat \<Rightarrow> (nat \<times> nat) list \<Rightarrow> (nat \<times> nat) list" where
  "map_insert k v l = (if map_of l k = None then (k, v) # l else l)"

definition map_erase :: "nat \<Rightarrow> (nat \<times> nat) list \<Rightarrow> (nat \<times> nat) list" where
  "map_erase k l = filter (\<lambda>x. fst x \<noteq> k) l"

section \<open>The heaps\<close>

definition new_slot :: "slot \<Rightarrow> costate \<Rightarrow> nat \<times> costate" where
  "new_slot sl s = (next_addr s, s\<lparr>slot_heap := (slot_heap s)(next_addr s \<mapsto> sl), next_addr := next_addr s + 1\<rparr>)"

definition new_stack :: "u64 \<Rightarrow> costate \<Rightarrow> nat \<times> costate" where
  "new_stack n s = (next_addr s, s\<lparr>stack_heap := (stack_heap s)(next_addr s \<mapsto> n), next_addr := next_addr s + 1\<rparr>)"

definition put_slot :: "nat \<Rightarrow> slot \<Rightarrow> costate \<Rightarrow> costate" where
  "put_slot a sl s = s\<lparr>slot_heap := (slot_heap s)(a \<mapsto> sl)\<rparr>"

definition free_slot :: "nat \<Rightarrow> costate \<Rightarrow> costate option" where
  "free_slot a s = (if slot_heap s a = None then None else Some (s\<lparr>slot_heap := (slot_heap s)(a := None)\<rparr>))"

definition free_stack :: "nat \<Rightarrow> costate \<Rightarrow> costate option" where
  "free_stack b s = (if b = 0 then Some s else if stack_heap s b = None then None
     else Some (s\<lparr>stack_heap := (stack_heap s)(b := None)\<rparr>))"

text \<open>The processor goes on with a context; the jump passes \<open>vp\<close>.\<close>

definition go_on :: "resumption \<Rightarrow> u64 \<Rightarrow> costate \<Rightarrow> costate option" where
  "go_on r vp s =
     (let ok = (\<lambda>f. f = 0 \<or> stack_heap s f \<noteq> None) in
      case r of NoContext \<Rightarrow> None
      | Resume f \<Rightarrow> if ok f then Some (s\<lparr>running := f\<rparr>) else None
      | Entry f body d \<Rightarrow> if ok f then Some (s\<lparr>running := f, entered := entered s @ [(f, body, d)]\<rparr>) else None
      | Made f body \<Rightarrow> if ok f then Some (s\<lparr>running := f, entered := entered s @ [(f, body, vp)]\<rparr>) else None)"

text \<open>
  pthread\_exit runs on the stack of the flow that calls it: it is a use of that stack, and None
  when the stack has been freed.
\<close>

definition pthread_exit :: "costate \<Rightarrow> costate option" where
  "pthread_exit s = (if running s = 0 \<or> stack_heap s (running s) \<noteq> None then Some (s\<lparr>exited := True\<rparr>) else None)"

section \<open>What the two implementations share\<close>

definition GetCurrentCoroutine :: "costate \<Rightarrow> nat" where
  "GetCurrentCoroutine s = (case specific s of Some mgr \<Rightarrow> CurrentContext mgr | None \<Rightarrow> 0)"

definition GetCoroutineData :: "costate \<Rightarrow> u64 option" where
  "GetCoroutineData s =
     (case specific s of
        Some mgr \<Rightarrow> (case map_of (Slots mgr) (CurrentContext mgr) of
            Some a \<Rightarrow> map_option cData (slot_heap s a) | None \<Rightarrow> Some 0)
      | None \<Rightarrow> Some 0)"

section \<open>On ucontext\<close>

text \<open>\<open>ec\<close> and \<open>es\<close> are the results of getcontext and pthread\_setspecific.  The key of a slot is its address.\<close>

definition uc_init :: "u64 \<Rightarrow> int \<Rightarrow> int \<Rightarrow> costate \<Rightarrow> nat \<times> costate" where
  "uc_init data ec es s =
     (let s = ENSURE_TLS_INIT s in
      case specific s of Some mgr \<Rightarrow> (MainContext mgr, s)
      | None \<Rightarrow>
        let (a, s') = new_slot \<lparr>cContext = Resume (running s), cData = data, cStackBuffer = 0, cStackSize = 0\<rparr> s in
        if ec \<noteq> 0 then (0, s'\<lparr>slot_heap := (slot_heap s')(a := None)\<rparr>)
        else let mgr = \<lparr>MainContext = a, CurrentContext = a, Slots = map_insert a a []\<rparr> in
          if es \<noteq> 0 then (0, s'\<lparr>slot_heap := (slot_heap s')(a := None)\<rparr>)
          else (a, s'\<lparr>specific := Some mgr\<rparr>))"

definition uc_create :: "int \<Rightarrow> u32 \<Rightarrow> nat \<Rightarrow> u64 \<Rightarrow> costate \<Rightarrow> nat \<times> costate" where
  "uc_create ec stackSize body data s =
     (let s = ENSURE_TLS_INIT s in
      case specific s of None \<Rightarrow> (0, s)
      | Some mgr \<Rightarrow>
        if body = 0 then (0, s)
        else let (a, s) = new_slot \<lparr>cContext = NoContext, cData = data, cStackBuffer = 0, cStackSize = 0\<rparr> s in
          if ec \<noteq> 0 then (0, s\<lparr>slot_heap := (slot_heap s)(a := None)\<rparr>)
          else let n = (if stackSize \<noteq> 0 then ucast stackSize else FCSTKSZ);
                   (b, s) = new_stack n s;
                   s = s\<lparr>specific := Some (mgr\<lparr>Slots := map_insert a a (Slots mgr)\<rparr>)\<rparr>
            in (a, put_slot a \<lparr>cContext = Entry b body data, cData = data, cStackBuffer = b, cStackSize = n\<rparr> s))"

definition swapcontext :: "nat \<Rightarrow> nat \<Rightarrow> costate \<Rightarrow> costate option" where
  "swapcontext cur target s =
     do { c \<leftarrow> slot_heap s cur;
          let s = put_slot cur (c\<lparr>cContext := Resume (running s)\<rparr>) s;
          t \<leftarrow> slot_heap s target;
          go_on (cContext t) 0 s }"

definition uc_switch :: "nat \<Rightarrow> costate \<Rightarrow> costate option" where
  "uc_switch coroutine s =
     (let s = ENSURE_TLS_INIT s in
      case specific s of None \<Rightarrow> Some s
      | Some mgr \<Rightarrow>
        if coroutine = 0 \<or> coroutine = GetCurrentCoroutine s then Some s
        else if map_of (Slots mgr) coroutine = None then Some s
        else let curctx = CurrentContext mgr in
          swapcontext curctx coroutine (s\<lparr>specific := Some (mgr\<lparr>CurrentContext := coroutine\<rparr>)\<rparr>))"

text \<open>The loop of the full shutdown: every slot but that of the current context, which it finds.\<close>

fun uc_release :: "nat \<Rightarrow> (nat \<times> nat) list \<Rightarrow> nat option \<Rightarrow> costate \<Rightarrow> (nat option \<times> costate) option" where
  "uc_release cur [] found s = Some (found, s)"
| "uc_release cur ((k, a) # l) found s =
     (if k = cur then uc_release cur l (Some a) s
      else do { sl \<leftarrow> slot_heap s a; s \<leftarrow> free_stack (cStackBuffer sl) s; s \<leftarrow> free_slot a s; uc_release cur l found s })"

definition uc_delete :: "nat \<Rightarrow> costate \<Rightarrow> costate option" where
  "uc_delete coroutine s =
     (let s = ENSURE_TLS_INIT s in
      case specific s of None \<Rightarrow> Some s
      | Some mgr \<Rightarrow>
        if coroutine = 0 then Some s
        else if coroutine \<noteq> CurrentContext mgr \<and> coroutine \<noteq> MainContext mgr
        then (case map_of (Slots mgr) coroutine of None \<Rightarrow> Some s
              | Some a \<Rightarrow>
                do { sl \<leftarrow> slot_heap s a;
                     s \<leftarrow> free_stack (cStackBuffer sl) s;
                     s \<leftarrow> free_slot a s;
                     Some (s\<lparr>specific := Some (mgr\<lparr>Slots := map_erase coroutine (Slots mgr)\<rparr>)\<rparr>) })
        else do { (found, s) \<leftarrow> uc_release (CurrentContext mgr) (Slots mgr) None s;
                  a \<leftarrow> found;
                  let s = s\<lparr>specific := None\<rparr>;
                  sl \<leftarrow> slot_heap s a;
                  s \<leftarrow> free_slot a s;
                  s \<leftarrow> free_stack (cStackBuffer sl) s;
                  pthread_exit s })"

section \<open>On fcontext\<close>

text \<open>The key of a slot is its stack buffer, a magic number for the main coroutine.\<close>

definition fc_init :: "u64 \<Rightarrow> int \<Rightarrow> costate \<Rightarrow> nat \<times> costate" where
  "fc_init data es s =
     (let s = ENSURE_TLS_INIT s in
      case specific s of Some mgr \<Rightarrow> (MainContext mgr, s)
      | None \<Rightarrow>
        let (a, s) = new_slot \<lparr>cContext = NoContext, cData = data, cStackBuffer = 0x42, cStackSize = 0\<rparr> s;
            mgr = \<lparr>MainContext = 0x42, CurrentContext = 0x42, Slots = map_insert 0x42 a []\<rparr>
        in if es \<noteq> 0 then (0, s\<lparr>slot_heap := (slot_heap s)(a := None)\<rparr>)
           else (0x42, s\<lparr>specific := Some mgr\<rparr>))"

definition fc_create :: "u32 \<Rightarrow> nat \<Rightarrow> u64 \<Rightarrow> costate \<Rightarrow> nat \<times> costate" where
  "fc_create stackSize body data s =
     (let s = ENSURE_TLS_INIT s in
      case specific s of None \<Rightarrow> (0, s)
      | Some mgr \<Rightarrow>
        if body = 0 then (0, s)
        else let n = (if stackSize \<noteq> 0 then ucast stackSize else FCSTKSZ);
                 (a, s) = new_slot \<lparr>cContext = NoContext, cData = data, cStackBuffer = 0, cStackSize = n\<rparr> s;
                 (b, s) = new_stack n s;
                 s = put_slot a \<lparr>cContext = Made b body, cData = data, cStackBuffer = b, cStackSize = n\<rparr> s
          in (b, s\<lparr>specific := Some (mgr\<lparr>Slots := map_insert b a (Slots mgr)\<rparr>)\<rparr>))"

definition jump_fcontext :: "nat \<Rightarrow> resumption \<Rightarrow> u64 \<Rightarrow> costate \<Rightarrow> costate option" where
  "jump_fcontext ofc nfc vp s =
     do { c \<leftarrow> slot_heap s ofc; go_on nfc vp (put_slot ofc (c\<lparr>cContext := Resume (running s)\<rparr>) s) }"

definition fc_switch :: "nat \<Rightarrow> costate \<Rightarrow> costate option" where
  "fc_switch coroutine s =
     (let s = ENSURE_TLS_INIT s in
      case specific s of None \<Rightarrow> Some s
      | Some mgr \<Rightarrow>
        if coroutine = 0 \<or> coroutine = GetCurrentCoroutine s then Some s
        else case map_of (Slots mgr) coroutine of None \<Rightarrow> Some s
        | Some ta \<Rightarrow>
          (case map_of (Slots mgr) (GetCurrentCoroutine s) of None \<Rightarrow> Some s
           | Some sa \<Rightarrow>
             do { t \<leftarrow> slot_heap s ta;
                  jump_fcontext sa (cContext t) (cData t) (s\<lparr>specific := Some (mgr\<lparr>CurrentContext := coroutine\<rparr>)\<rparr>) }))"

definition fc_free_stack :: "nat \<Rightarrow> costate \<Rightarrow> costate option" where
  "fc_free_stack sb s = (if sb \<noteq> 0x42 then free_stack sb s else Some s)"

fun fc_release :: "nat \<Rightarrow> (nat \<times> nat) list \<Rightarrow> nat option \<Rightarrow> costate \<Rightarrow> (nat option \<times> costate) option" where
  "fc_release cur [] found s = Some (found, s)"
| "fc_release cur ((k, a) # l) found s =
     (if k = cur then fc_release cur l (Some a) s
      else do { sl \<leftarrow> slot_heap s a; s \<leftarrow> free_slot a s; s \<leftarrow> fc_free_stack (cStackBuffer sl) s; fc_release cur l found s })"

definition fc_delete :: "nat \<Rightarrow> costate \<Rightarrow> costate option" where
  "fc_delete coroutine s =
     (let s = ENSURE_TLS_INIT s in
      case specific s of None \<Rightarrow> Some s
      | Some mgr \<Rightarrow>
        if coroutine = 0 then Some s
        else if coroutine \<noteq> CurrentContext mgr \<and> coroutine \<noteq> MainContext mgr
        then (case map_of (Slots mgr) coroutine of None \<Rightarrow> Some s
              | Some a \<Rightarrow>
                do { sl \<leftarrow> slot_heap s a;
                     s \<leftarrow> free_stack (cStackBuffer sl) s;
                     s \<leftarrow> free_slot a s;
                     Some (s\<lparr>specific := Some (mgr\<lparr>Slots := map_erase coroutine (Slots mgr)\<rparr>)\<rparr>) })
        else do { (found, s) \<leftarrow> fc_release (CurrentContext mgr) (Slots mgr) None s;
                  a \<leftarrow> found;
                  let s = s\<lparr>specific := None\<rparr>;
                  sl \<leftarrow> slot_heap s a;
                  s \<leftarrow> free_slot a s;
                  s \<leftarrow> fc_free_stack (cStackBuffer sl) s;
                  pthread_exit s })"

end
