(* ===== verification/CoroutineProps.thy ===== *)
theory CoroutineProps
  imports Coroutine
begin

text \<open>
  Coroutines behave as a table of suspended computations, on either implementation: the contract is
  the locale \<open>coroutine_impl\<close>, and the invariant says which flow each context goes on with.
\<close>

section \<open>The specification\<close>

datatype phase = Active | Suspended | Fresh nat

record coabs =
  amain :: nat
  acur :: nat
  atab :: "nat \<Rightarrow> (u64 \<times> phase) option"

text \<open>A switch suspends the current coroutine, and enters the body of the other or goes on with it.\<close>

definition aswitch :: "nat \<Rightarrow> coabs \<Rightarrow> coabs \<times> (nat \<times> u64) list" where
  "aswitch c A =
     (if c = 0 \<or> c = acur A then (A, [])
      else case atab A c of None \<Rightarrow> (A, [])
      | Some (d, ph) \<Rightarrow>
        (A\<lparr>acur := c, atab := (atab A)(acur A := map_option (\<lambda>(d, _). (d, Suspended)) (atab A (acur A)), c \<mapsto> (d, Active))\<rparr>,
         case ph of Fresh b \<Rightarrow> [(b, d)] | _ \<Rightarrow> []))"

datatype co_call = CreateC int u32 nat u64 | SwitchC nat | DeleteC nat

text \<open>None is the end of the thread.  A handle is 0 or new; the result of the other calls is 0.\<close>

fun a_call :: "co_call \<Rightarrow> nat \<Rightarrow> coabs \<Rightarrow> (coabs \<times> (nat \<times> u64) list) option" where
  "a_call (CreateC ec n b d) r A = Some (if r = 0 then A else A\<lparr>atab := (atab A)(r \<mapsto> (d, Fresh b))\<rparr>, [])"
| "a_call (SwitchC c) r A = Some (aswitch c A)"
| "a_call (DeleteC c) r A =
     (if c = 0 then Some (A, []) else if c = acur A \<or> c = amain A then None else Some (A\<lparr>atab := (atab A)(c := None)\<rparr>, []))"

fun new_handle :: "co_call \<Rightarrow> nat \<Rightarrow> coabs \<Rightarrow> bool" where
  "new_handle (CreateC ec n b d) r A \<longleftrightarrow> r = 0 \<or> (b \<noteq> 0 \<and> atab A r = None)"
| "new_handle _ r A \<longleftrightarrow> r = 0"

fun a_session :: "co_call list \<Rightarrow> nat list \<Rightarrow> coabs \<Rightarrow> coabs option \<times> (nat \<times> u64) list" where
  "a_session (c # cs) (r # rs) A = (case a_call c r A of None \<Rightarrow> (None, []) | Some (A, ev) \<Rightarrow>
     (let (B, ev') = a_session cs rs A in (B, ev @ ev')))"
| "a_session _ _ A = (Some A, [])"

text \<open>
  The one call that a client must not make: the full shutdown (deleting the current or the main
  coroutine) while another coroutine than the main one runs.  It frees the stack it runs on.
\<close>

fun unsafe :: "co_call \<Rightarrow> coabs \<Rightarrow> bool" where
  "unsafe (DeleteC c) A \<longleftrightarrow> c \<noteq> 0 \<and> (c = acur A \<or> c = amain A) \<and> acur A \<noteq> amain A"
| "unsafe _ A \<longleftrightarrow> False"

text \<open>No call of a session is of this kind.\<close>

fun a_safe :: "co_call list \<Rightarrow> nat list \<Rightarrow> coabs \<Rightarrow> bool" where
  "a_safe (c # cs) (r # rs) A \<longleftrightarrow> \<not> unsafe c A \<and> (case a_call c r A of None \<Rightarrow> True | Some (A, ev) \<Rightarrow> a_safe cs rs A)"
| "a_safe _ _ A \<longleftrightarrow> True"

fun session :: "(co_call \<Rightarrow> costate \<Rightarrow> (nat \<times> costate) option) \<Rightarrow> co_call list \<Rightarrow> costate \<Rightarrow> (nat list \<times> costate) option" where
  "session call [] s = Some ([], s)"
| "session call (c # cs) s =
     do { (r, s) \<leftarrow> call c s;
          if exited s then Some ([r], s) else do { (rs, s) \<leftarrow> session call cs s; Some (r # rs, s) } }"

locale coroutine_impl =
  fixes inv :: "costate \<Rightarrow> bool" and abs :: "costate \<Rightarrow> coabs" and call :: "co_call \<Rightarrow> costate \<Rightarrow> (nat \<times> costate) option"
  assumes running: "inv s \<Longrightarrow> \<not> exited s"
    and unsafe_step: "inv s \<Longrightarrow> unsafe c (abs s) \<Longrightarrow> call c s = None"
    and step: "inv s \<Longrightarrow> \<not> unsafe c (abs s) \<Longrightarrow> \<exists>r s'. call c s = Some (r, s') \<and> new_handle c r (abs s) \<and>
      (case a_call c r (abs s) of
         None \<Rightarrow> exited s' \<and> specific s' = None \<and> slot_heap s' = Map.empty \<and> stack_heap s' = Map.empty \<and> entered s' = entered s
       | Some (A, ev) \<Rightarrow> inv s' \<and> abs s' = A \<and> map snd (entered s') = map snd (entered s) @ ev)"
begin

lemma session_cons:
  assumes "call c s = Some (r, s1)" "inv s1"
  shows "session call (c # cs) s = map_option (\<lambda>(rs, s). (r # rs, s)) (session call cs s1)"
  using assms running [OF assms(2)] by (cases "session call cs s1") auto

text \<open>A session fails at an unsafe call and nowhere else; every other session is one of the specification.\<close>

lemma session_refines:
  "inv s \<Longrightarrow>
   (case session call cs s of
      None \<Rightarrow> \<exists>cs1 c cs2 rs s' A. cs = cs1 @ c # cs2 \<and> session call cs1 s = Some (rs, s') \<and>
        fst (a_session cs1 rs (abs s)) = Some A \<and> unsafe c A
    | Some (rs, s') \<Rightarrow> a_safe cs rs (abs s) \<and>
        (case fst (a_session cs rs (abs s)) of
           None \<Rightarrow> exited s' \<and> specific s' = None \<and> slot_heap s' = Map.empty \<and> stack_heap s' = Map.empty
         | Some A \<Rightarrow> inv s' \<and> abs s' = A) \<and>
        map snd (entered s') = map snd (entered s) @ snd (a_session cs rs (abs s)))"
proof (induction cs arbitrary: s)
  case (Cons c cs)
  show ?case
  proof (cases "unsafe c (abs s)")
    case True
    then have "session call (c # cs) s = None" using unsafe_step [OF Cons.prems] by simp
    then show ?thesis using True by (auto intro!: exI [of _ "[]"])
  next
    case safe: False
    from step [OF Cons.prems safe] obtain r s1 where c: "call c s = Some (r, s1)"
      and a: "case a_call c r (abs s) of
           None \<Rightarrow> exited s1 \<and> specific s1 = None \<and> slot_heap s1 = Map.empty \<and> stack_heap s1 = Map.empty \<and> entered s1 = entered s
         | Some (A, ev) \<Rightarrow> inv s1 \<and> abs s1 = A \<and> map snd (entered s1) = map snd (entered s) @ ev" by blast
    show ?thesis
    proof (cases "a_call c r (abs s)")
      case None
      then show ?thesis using a c safe by simp
    next
      case (Some x)
      then have i: "inv s1" "abs s1 = fst x" "map snd (entered s1) = map snd (entered s) @ snd x"
        using a by (auto simp: case_prod_beta)
      note sc = session_cons [OF c i(1)]
      show ?thesis
      proof (cases "session call cs s1")
        case None
        then obtain cs1 d cs2 rs s' A where "cs = cs1 @ d # cs2" "session call cs1 s1 = Some (rs, s')"
          "fst (a_session cs1 rs (fst x)) = Some A" "unsafe d A"
          using Cons.IH [OF i(1)] i(2) by auto
        then have "c # cs = (c # cs1) @ d # cs2 \<and> session call (c # cs1) s = Some (r # rs, s') \<and>
            fst (a_session (c # cs1) (r # rs) (abs s)) = Some A \<and> unsafe d A"
          using sc [of cs1] Some by (simp add: case_prod_beta)
        moreover have n: "session call (c # cs) s = None" using None sc [of cs] by simp
        ultimately show ?thesis unfolding n option.case by blast
      next
        case (Some y)
        then show ?thesis using Cons.IH [OF i(1)] i(2,3) sc [of cs] \<open>a_call c r (abs s) = Some x\<close> safe
          by (simp add: case_prod_beta)
      qed
    qed
  qed
qed simp

end

section \<open>The two implementations\<close>

datatype kind = Ucontext | Fcontext

definition mainbuf :: "kind \<Rightarrow> nat" where
  "mainbuf k = (case k of Ucontext \<Rightarrow> 0 | Fcontext \<Rightarrow> 0x42)"

definition start :: "kind \<Rightarrow> nat \<Rightarrow> nat \<Rightarrow> u64 \<Rightarrow> resumption" where
  "start k f b d = (case k of Ucontext \<Rightarrow> Entry f b d | Fcontext \<Rightarrow> Made f b)"

definition co_call :: "kind \<Rightarrow> co_call \<Rightarrow> costate \<Rightarrow> (nat \<times> costate) option" where
  "co_call k c s =
     (case c of
        CreateC ec n b d \<Rightarrow> Some (case k of Ucontext \<Rightarrow> uc_create ec n b d s | Fcontext \<Rightarrow> fc_create n b d s)
      | SwitchC c \<Rightarrow> map_option (Pair 0) (case k of Ucontext \<Rightarrow> uc_switch c s | Fcontext \<Rightarrow> fc_switch c s)
      | DeleteC c \<Rightarrow> map_option (Pair 0) (case k of Ucontext \<Rightarrow> uc_delete c s | Fcontext \<Rightarrow> fc_delete c s))"

definition tab :: "costate \<Rightarrow> nat \<Rightarrow> nat option" where
  "tab s = (case specific s of None \<Rightarrow> Map.empty | Some mgr \<Rightarrow> map_of (Slots mgr))"

definition slot_at :: "costate \<Rightarrow> nat \<Rightarrow> slot option" where
  "slot_at s h = Option.bind (tab s h) (slot_heap s)"

definition main_of :: "costate \<Rightarrow> nat" where
  "main_of s = (case specific s of None \<Rightarrow> 0 | Some mgr \<Rightarrow> MainContext mgr)"

definition flow :: "kind \<Rightarrow> slot \<Rightarrow> nat" where
  "flow k sl = (if cStackBuffer sl = mainbuf k then 0 else cStackBuffer sl)"

definition phase_of :: "resumption \<Rightarrow> phase" where
  "phase_of r = (case r of Entry f b d \<Rightarrow> Fresh b | Made f b \<Rightarrow> Fresh b | _ \<Rightarrow> Suspended)"

definition co_abs :: "costate \<Rightarrow> coabs" where
  "co_abs s = \<lparr>amain = main_of s, acur = GetCurrentCoroutine s,
     atab = (\<lambda>h. map_option (\<lambda>sl. (cData sl, if h = GetCurrentCoroutine s then Active else phase_of (cContext sl))) (slot_at s h))\<rparr>"

text \<open>
  Every slot is registered, every stack belongs to one slot, nothing else is allocated.  The flow on
  the processor is that of the current coroutine, and every other context goes on with the flow of
  its own slot, or enters its body there.
\<close>

definition co_shape :: "kind \<Rightarrow> costate \<Rightarrow> bool" where
  "co_shape k s \<longleftrightarrow> \<not> exited s \<and> (\<exists>mgr. specific s = Some mgr \<and> distinct (map fst (Slots mgr))) \<and>
     (\<forall>h a. tab s h = Some a \<longrightarrow> 0 < h \<and> h < next_addr s \<and> slot_heap s a \<noteq> None \<and> (k = Ucontext \<longrightarrow> a = h)) \<and>
     inj_on (tab s) (dom (tab s)) \<and> dom (slot_heap s) = ran (tab s) \<and>
     (\<forall>x \<ge> next_addr s. slot_heap s x = None \<and> stack_heap s x = None) \<and> mainbuf k < next_addr s"

definition co_stacks :: "kind \<Rightarrow> costate \<Rightarrow> bool" where
  "co_stacks k s \<longleftrightarrow> (\<forall>h sl. slot_at s h = Some sl \<longrightarrow> (cStackBuffer sl = mainbuf k \<longleftrightarrow> h = main_of s)) \<and>
     (\<forall>h h' sl sl'. slot_at s h = Some sl \<longrightarrow> slot_at s h' = Some sl' \<longrightarrow> cStackBuffer sl = cStackBuffer sl' \<longrightarrow> h = h') \<and>
     dom (stack_heap s) = {cStackBuffer sl |h sl. slot_at s h = Some sl \<and> h \<noteq> main_of s} \<and> 0 \<notin> dom (stack_heap s) \<and>
     slot_at s (main_of s) \<noteq> None"

definition co_flows :: "kind \<Rightarrow> costate \<Rightarrow> bool" where
  "co_flows k s \<longleftrightarrow> map_option (flow k) (slot_at s (GetCurrentCoroutine s)) = Some (running s) \<and>
     (\<forall>h sl. slot_at s h = Some sl \<longrightarrow> h \<noteq> GetCurrentCoroutine s \<longrightarrow>
        cContext sl = Resume (flow k sl) \<or> h \<noteq> main_of s \<and> (\<exists>b. cContext sl = start k (flow k sl) b (cData sl))) \<and>
     distinct (map fst (entered s)) \<and>
     (\<forall>f \<in> fst ` set (entered s). (f < next_addr s \<and> f \<noteq> mainbuf k) \<and>
        (\<forall>h sl. slot_at s h = Some sl \<longrightarrow> h \<noteq> GetCurrentCoroutine s \<longrightarrow> cStackBuffer sl = f \<longrightarrow> cContext sl = Resume f))"

definition co_inv :: "kind \<Rightarrow> costate \<Rightarrow> bool" where
  "co_inv k s \<longleftrightarrow> co_shape k s \<and> co_stacks k s \<and> co_flows k s"

lemma co_shapeD:
  assumes "co_shape k s"
  shows "\<not> exited s" "\<exists>mgr. specific s = Some mgr \<and> distinct (map fst (Slots mgr))"
    "tab s h = Some a \<Longrightarrow> 0 < h \<and> h < next_addr s \<and> slot_heap s a \<noteq> None \<and> (k = Ucontext \<longrightarrow> a = h)"
    "inj_on (tab s) (dom (tab s))" "dom (slot_heap s) = ran (tab s)"
    "next_addr s \<le> x \<Longrightarrow> slot_heap s x = None \<and> stack_heap s x = None" "mainbuf k < next_addr s"
  using assms unfolding co_shape_def by blast+

lemma co_stacksD:
  assumes "co_stacks k s"
  shows "slot_at s h = Some sl \<Longrightarrow> cStackBuffer sl = mainbuf k \<longleftrightarrow> h = main_of s"
    "\<lbrakk>slot_at s h = Some sl; slot_at s h' = Some sl'; cStackBuffer sl = cStackBuffer sl'\<rbrakk> \<Longrightarrow> h = h'"
    "dom (stack_heap s) = {cStackBuffer sl |h sl. slot_at s h = Some sl \<and> h \<noteq> main_of s}" "0 \<notin> dom (stack_heap s)"
    "slot_at s (main_of s) \<noteq> None"
proof -
  note c = assms [unfolded co_stacks_def]
  note d = c [THEN conjunct2, THEN conjunct2]
  show "slot_at s h = Some sl \<Longrightarrow> cStackBuffer sl = mainbuf k \<longleftrightarrow> h = main_of s" by (rule c [THEN conjunct1, rule_format])
  show "\<lbrakk>slot_at s h = Some sl; slot_at s h' = Some sl'; cStackBuffer sl = cStackBuffer sl'\<rbrakk> \<Longrightarrow> h = h'"
    by (rule c [THEN conjunct2, THEN conjunct1, rule_format])
  show "dom (stack_heap s) = {cStackBuffer sl |h sl. slot_at s h = Some sl \<and> h \<noteq> main_of s}" using d by (rule conjunct1)
  show "0 \<notin> dom (stack_heap s)" by (rule d [THEN conjunct2, THEN conjunct1])
  show "slot_at s (main_of s) \<noteq> None" by (rule d [THEN conjunct2, THEN conjunct2])
qed

lemma co_flowsD:
  assumes "co_flows k s"
  shows "map_option (flow k) (slot_at s (GetCurrentCoroutine s)) = Some (running s)"
    "\<lbrakk>slot_at s h = Some sl; h \<noteq> GetCurrentCoroutine s\<rbrakk> \<Longrightarrow>
        cContext sl = Resume (flow k sl) \<or> h \<noteq> main_of s \<and> (\<exists>b. cContext sl = start k (flow k sl) b (cData sl))"
    "distinct (map fst (entered s))" "f \<in> fst ` set (entered s) \<Longrightarrow> f < next_addr s \<and> f \<noteq> mainbuf k"
    "\<lbrakk>f \<in> fst ` set (entered s); slot_at s h = Some sl; h \<noteq> GetCurrentCoroutine s; cStackBuffer sl = f\<rbrakk> \<Longrightarrow> cContext sl = Resume f"
proof -
  note c = assms [unfolded co_flows_def]
  note d = c [THEN conjunct2, THEN conjunct2]
  show "map_option (flow k) (slot_at s (GetCurrentCoroutine s)) = Some (running s)" using c by (rule conjunct1)
  show "\<lbrakk>slot_at s h = Some sl; h \<noteq> GetCurrentCoroutine s\<rbrakk> \<Longrightarrow>
        cContext sl = Resume (flow k sl) \<or> h \<noteq> main_of s \<and> (\<exists>b. cContext sl = start k (flow k sl) b (cData sl))"
    by (rule c [THEN conjunct2, THEN conjunct1, rule_format])
  show "distinct (map fst (entered s))" using d by (rule conjunct1)
  show "f \<in> fst ` set (entered s) \<Longrightarrow> f < next_addr s \<and> f \<noteq> mainbuf k" by (rule d [THEN conjunct2, rule_format, THEN conjunct1])
  show "\<lbrakk>f \<in> fst ` set (entered s); slot_at s h = Some sl; h \<noteq> GetCurrentCoroutine s; cStackBuffer sl = f\<rbrakk> \<Longrightarrow> cContext sl = Resume f"
    by (rule d [THEN conjunct2, rule_format, THEN conjunct2, rule_format])
qed

lemma co_invD:
  assumes "co_inv k s"
  shows "co_shape k s" "co_stacks k s" "co_flows k s"
  using assms unfolding co_inv_def by blast+

lemmas shapeD = co_shapeD [OF co_invD(1)]
lemmas stacksD = co_stacksD [OF co_invD(2)]
lemmas flowsD = co_flowsD [OF co_invD(3)]

lemma ensure: "ENSURE_TLS_INIT s = s\<lparr>g_tls_inited := True\<rparr>"
  by (cases s) (simp add: ENSURE_TLS_INIT_def)

lemma ensure_views [simp]:
  "tab (s\<lparr>g_tls_inited := b\<rparr>) = tab s" "slot_at (s\<lparr>g_tls_inited := b\<rparr>) = slot_at s" "main_of (s\<lparr>g_tls_inited := b\<rparr>) = main_of s"
  "GetCurrentCoroutine (s\<lparr>g_tls_inited := b\<rparr>) = GetCurrentCoroutine s" "co_inv k (s\<lparr>g_tls_inited := b\<rparr>) = co_inv k s"
  "co_abs (s\<lparr>g_tls_inited := b\<rparr>) = co_abs s"
proof -
  show v: "tab (s\<lparr>g_tls_inited := b\<rparr>) = tab s" "slot_at (s\<lparr>g_tls_inited := b\<rparr>) = slot_at s" "main_of (s\<lparr>g_tls_inited := b\<rparr>) = main_of s"
    "GetCurrentCoroutine (s\<lparr>g_tls_inited := b\<rparr>) = GetCurrentCoroutine s"
    by (simp_all add: tab_def slot_at_def main_of_def GetCurrentCoroutine_def fun_eq_iff)
  show "co_inv k (s\<lparr>g_tls_inited := b\<rparr>) = co_inv k s" "co_abs (s\<lparr>g_tls_inited := b\<rparr>) = co_abs s"
    by (simp_all add: co_inv_def co_shape_def co_stacks_def co_flows_def co_abs_def v)
qed

lemma tab_slot: "co_inv k s \<Longrightarrow> slot_at s h = None \<longleftrightarrow> tab s h = None"
  using shapeD(3) [of k s h] by (cases "tab s h") (auto simp: slot_at_def)

lemma current_slot:
  assumes "co_inv k s"
  shows "\<exists>sl. slot_at s (GetCurrentCoroutine s) = Some sl \<and> flow k sl = running s"
  using flowsD(1) [OF assms] by auto

section \<open>Creating\<close>

lemma map_of_insert: "map_of l k = None \<Longrightarrow> map_of (map_insert k v l) = (map_of l)(k \<mapsto> v)"
  by (simp add: map_insert_def)

lemma map_of_erase: "map_of (map_erase k l) = (map_of l)(k := None)"
  by (induction l) (auto simp: map_erase_def fun_eq_iff)

lemma keys_insert: "distinct (map fst l) \<Longrightarrow> distinct (map fst (map_insert k v l))"
  by (auto simp: map_insert_def map_of_eq_None_iff)

lemma keys_erase: "distinct (map fst l) \<Longrightarrow> distinct (map fst (map_erase k l))"
  by (simp add: map_erase_def distinct_map_filter)

lemma bump_inv:
  assumes "co_inv k s" "next_addr s \<le> n" shows "co_inv k (s\<lparr>next_addr := n\<rparr>) \<and> co_abs (s\<lparr>next_addr := n\<rparr>) = co_abs s"
proof -
  have v: "tab (s\<lparr>next_addr := n\<rparr>) = tab s" "slot_at (s\<lparr>next_addr := n\<rparr>) = slot_at s" "main_of (s\<lparr>next_addr := n\<rparr>) = main_of s"
    "GetCurrentCoroutine (s\<lparr>next_addr := n\<rparr>) = GetCurrentCoroutine s" "stack_heap (s\<lparr>next_addr := n\<rparr>) = stack_heap s"
    by (simp_all add: tab_def slot_at_def main_of_def GetCurrentCoroutine_def fun_eq_iff)
  have "co_shape k (s\<lparr>next_addr := n\<rparr>)"
    unfolding co_shape_def v
    using shapeD(1,2,4,5,7) [OF assms(1)] shapeD(3) [OF assms(1)] shapeD(6) [OF assms(1)] assms(2) by fastforce
  moreover have "co_stacks k (s\<lparr>next_addr := n\<rparr>)" using co_invD(2) [OF assms(1)] unfolding co_stacks_def v .
  moreover have "co_flows k (s\<lparr>next_addr := n\<rparr>)"
  proof -
    have "f < n \<and> f \<noteq> mainbuf k" if "f \<in> fst ` set (entered s)" for f using flowsD(4) [OF assms(1) that] assms(2) by simp
    then show ?thesis using co_invD(3) [OF assms(1)] unfolding co_flows_def v by simp
  qed
  ultimately show ?thesis by (simp add: co_inv_def co_abs_def v)
qed

definition with_slot :: "manager \<Rightarrow> nat \<Rightarrow> nat \<Rightarrow> nat \<Rightarrow> slot \<Rightarrow> costate \<Rightarrow> costate" where
  "with_slot mgr h a b sl s = s\<lparr>specific := Some (mgr\<lparr>Slots := map_insert h a (Slots mgr)\<rparr>), slot_heap := (slot_heap s)(a \<mapsto> sl),
     stack_heap := (stack_heap s)(b \<mapsto> cStackSize sl), next_addr := next_addr s + 2\<rparr>"

lemma create_inv:
  assumes inv: "co_inv k s" and m: "specific s = Some mgr"
    and a: "a \<in> {next_addr s, next_addr s + 1}" and b: "b \<in> {next_addr s, next_addr s + 1}" "a \<noteq> b"
    and h: "h = (case k of Ucontext \<Rightarrow> a | Fcontext \<Rightarrow> b)"
    and sl: "cContext sl = start k b body (cData sl)" "cStackBuffer sl = b"
  defines "s' \<equiv> with_slot mgr h a b sl s"
  shows "co_inv k s'" "co_abs s' = co_abs s\<lparr>atab := (atab (co_abs s))(h \<mapsto> (cData sl, Fresh body))\<rparr>"
    "atab (co_abs s) h = None" "h \<noteq> 0"
proof -
  have hn: "next_addr s \<le> h" "h < next_addr s + 2" using a b h by (cases k; auto)+
  have fr: "slot_heap s a = None" "stack_heap s b = None" using shapeD(6) [OF inv] a b by auto
  have th: "tab s h = None" using shapeD(3) [OF inv, of h] hn(1) by (cases "tab s h") auto
  have t: "tab s' = (tab s)(h \<mapsto> a)" using th m by (simp add: s'_def with_slot_def tab_def map_of_insert)
  have old: "tab s q \<noteq> Some a" for q using shapeD(3) [OF inv, of q a] fr by auto
  have sv: "slot_at s' = (slot_at s)(h \<mapsto> sl)"
  proof
    fix q show "slot_at s' q = ((slot_at s)(h \<mapsto> sl)) q"
      using old [of q] by (cases "tab s q") (auto simp: slot_at_def t, simp_all add: s'_def with_slot_def)
  qed
  have mv: "main_of s' = main_of s" "GetCurrentCoroutine s' = GetCurrentCoroutine s"
    using m by (simp_all add: s'_def with_slot_def main_of_def GetCurrentCoroutine_def)
  have sh: "slot_at s h = None" using th by (simp add: slot_at_def)
  have hm: "h \<noteq> main_of s" "h \<noteq> GetCurrentCoroutine s"
    using stacksD(5) [OF inv] current_slot [OF inv] sh by auto
  have bm: "b \<noteq> mainbuf k" "b \<noteq> 0" using shapeD(7) [OF inv] b by auto
  have bo: "cStackBuffer x \<noteq> b" if x: "slot_at s q = Some x" for q x
  proof (cases "q = main_of s")
    case True
    then show ?thesis using stacksD(1) [OF inv x] bm by simp
  next
    case False
    then have "cStackBuffer x \<in> dom (stack_heap s)" using stacksD(3) [OF inv] x by auto
    then show ?thesis using fr by auto
  qed
  have f: "exited s' = exited s" "running s' = running s" "entered s' = entered s" "next_addr s' = next_addr s + 2"
    "slot_heap s' = (slot_heap s)(a \<mapsto> sl)" "stack_heap s' = (stack_heap s)(b \<mapsto> cStackSize sl)"
    by (simp_all add: s'_def with_slot_def)
  have shape: "co_shape k s'"
    unfolding co_shape_def
  proof (intro conjI allI impI)
    show "\<not> exited s'" using shapeD(1) [OF inv] f by simp
    show "\<exists>mgr. specific s' = Some mgr \<and> distinct (map fst (Slots mgr))"
      using shapeD(2) [OF inv] m by (simp add: s'_def with_slot_def keys_insert)
    show "0 < q" "q < next_addr s'" "slot_heap s' x \<noteq> None" "k = Ucontext \<Longrightarrow> x = q" if "tab s' q = Some x" for q x
      using that shapeD(3) [OF inv, of q x] hn shapeD(7) [OF inv] h unfolding t f by (auto split: if_split_asm)
    show "inj_on (tab s') (dom (tab s'))"
      using shapeD(4) [OF inv] old unfolding t inj_on_def by (auto simp: dom_def)
    show "dom (slot_heap s') = ran (tab s')" using shapeD(5) [OF inv] th unfolding t f by (simp add: ran_map_upd)
    show "slot_heap s' x = None" "stack_heap s' x = None" if "next_addr s' \<le> x" for x
      using that shapeD(6) [OF inv, of x] a b unfolding f by auto
    show "mainbuf k < next_addr s'" using shapeD(7) [OF inv] f by simp
  qed
  have stacks: "co_stacks k s'"
    unfolding co_stacks_def sv mv
  proof (intro conjI allI impI)
    show "(cStackBuffer x = mainbuf k) = (q = main_of s)" if "((slot_at s)(h \<mapsto> sl)) q = Some x" for q x
      using that stacksD(1) [OF inv, of q x] sl bm hm by (auto split: if_split_asm)
    show "q = q'" if "((slot_at s)(h \<mapsto> sl)) q = Some x" "((slot_at s)(h \<mapsto> sl)) q' = Some x'" "cStackBuffer x = cStackBuffer x'" for q q' x x'
      using that stacksD(2) [OF inv, of q x q' x'] bo [of q x] bo [of q' x'] sl by (auto split: if_split_asm)
    show "dom (stack_heap s') = {cStackBuffer x |q x. ((slot_at s)(h \<mapsto> sl)) q = Some x \<and> q \<noteq> main_of s}"
    proof -
      have "{cStackBuffer x |q x. ((slot_at s)(h \<mapsto> sl)) q = Some x \<and> q \<noteq> main_of s} =
          insert b {cStackBuffer x |q x. slot_at s q = Some x \<and> q \<noteq> main_of s}"
        using sl hm sh by (auto split: if_split_asm) (metis option.distinct(1))
      then show ?thesis using stacksD(3) [OF inv] f by simp
    qed
    show "0 \<notin> dom (stack_heap s')" using stacksD(4) [OF inv] bm f by auto
    show "((slot_at s)(h \<mapsto> sl)) (main_of s) \<noteq> None" using stacksD(5) [OF inv] by simp
  qed
  have flows: "co_flows k s'"
    unfolding co_flows_def sv mv f
  proof (intro conjI allI impI ballI)
    show "map_option (flow k) (((slot_at s)(h \<mapsto> sl)) (GetCurrentCoroutine s)) = Some (running s)"
      using flowsD(1) [OF inv] hm by simp
    show "cContext x = Resume (flow k x) \<or> q \<noteq> main_of s \<and> (\<exists>b. cContext x = start k (flow k x) b (cData x))"
      if "((slot_at s)(h \<mapsto> sl)) q = Some x" "q \<noteq> GetCurrentCoroutine s" for q x
    proof (cases "q = h")
      case True
      then show ?thesis using that sl bm hm by (auto simp: flow_def)
    qed (use that flowsD(2) [OF inv, of q x] in simp)
    show "distinct (map fst (entered s))" by (rule flowsD(3) [OF inv])
    show "g < next_addr s + 2" "g \<noteq> mainbuf k" if "g \<in> fst ` set (entered s)" for g using flowsD(4) [OF inv that] by simp_all
    show "cContext x = Resume g" if "g \<in> fst ` set (entered s)" "((slot_at s)(h \<mapsto> sl)) q = Some x" "q \<noteq> GetCurrentCoroutine s"
        "cStackBuffer x = g" for g q x
    proof (cases "q = h")
      case True
      then show ?thesis using that sl flowsD(4) [OF inv that(1)] b by auto
    qed (use that flowsD(5) [OF inv that(1), of q x] in simp)
  qed
  show "co_inv k s'" using shape stacks flows by (simp add: co_inv_def)
  show "co_abs s' = co_abs s\<lparr>atab := (atab (co_abs s))(h \<mapsto> (cData sl, Fresh body))\<rparr>"
    using hm sl by (cases k) (simp_all add: co_abs_def sv mv fun_eq_iff phase_of_def start_def)
  show "atab (co_abs s) h = None" by (simp add: co_abs_def sh)
  show "h \<noteq> 0" using hn shapeD(7) [OF inv] by simp
qed

section \<open>Switching\<close>

text \<open>The states of a switch: the current context saved, and the flow of the target on the processor.\<close>

definition saved :: "manager \<Rightarrow> nat \<Rightarrow> nat \<Rightarrow> slot \<Rightarrow> costate \<Rightarrow> costate" where
  "saved mgr c ca csl s = s\<lparr>specific := Some (mgr\<lparr>CurrentContext := c\<rparr>), slot_heap := (slot_heap s)(ca \<mapsto> csl\<lparr>cContext := Resume (running s)\<rparr>)\<rparr>"

lemma stack_there:
  assumes inv: "co_inv k s" and t: "slot_at s c = Some tsl"
  shows "flow k tsl = 0 \<or> stack_heap s (flow k tsl) \<noteq> None"
proof (cases "c = main_of s")
  case True
  then show ?thesis using stacksD(1) [OF inv t] by (simp add: flow_def)
next
  case False
  then have "cStackBuffer tsl \<in> dom (stack_heap s)" using stacksD(3) [OF inv] t by auto
  then show ?thesis by (auto simp: flow_def)
qed

lemma goes_on:
  assumes inv: "co_inv k s" and t: "slot_at s c = Some tsl" "c \<noteq> GetCurrentCoroutine s" and st: "stack_heap s1 = stack_heap s"
    and vp: "k = Fcontext \<longrightarrow> vp = cData tsl"
  shows "go_on (cContext tsl) vp s1 = Some (s1\<lparr>running := flow k tsl,
    entered := entered s1 @ (case phase_of (cContext tsl) of Fresh b \<Rightarrow> [(flow k tsl, b, cData tsl)] | _ \<Rightarrow> [])\<rparr>)"
  using flowsD(2) [OF inv t] stack_there [OF inv t(1)] st vp
  by (cases k) (auto simp: go_on_def Let_def phase_of_def start_def)

lemma switch_inv:
  assumes inv: "co_inv k s" and m: "specific s = Some mgr" and t: "slot_at s c = Some tsl" "c \<noteq> GetCurrentCoroutine s"
    and c: "slot_at s (GetCurrentCoroutine s) = Some csl" "tab s (GetCurrentCoroutine s) = Some ca"
  defines "s' \<equiv> (saved mgr c ca csl s)\<lparr>running := flow k tsl,
    entered := entered s @ (case phase_of (cContext tsl) of Fresh b \<Rightarrow> [(flow k tsl, b, cData tsl)] | _ \<Rightarrow> [])\<rparr>"
  shows "co_inv k s'" "co_abs s' = fst (aswitch c (co_abs s))" "map snd (entered s') = map snd (entered s) @ snd (aswitch c (co_abs s))"
proof -
  let ?cur = "GetCurrentCoroutine s" and ?csl = "csl\<lparr>cContext := Resume (running s)\<rparr>"
  let ?ev = "case phase_of (cContext tsl) of Fresh b \<Rightarrow> [(flow k tsl, b, cData tsl)] | _ \<Rightarrow> []"
  have tv: "tab s' = tab s" using m by (simp add: s'_def saved_def tab_def)
  have mv: "main_of s' = main_of s" "GetCurrentCoroutine s' = c" using m by (simp_all add: s'_def saved_def main_of_def GetCurrentCoroutine_def)
  have f: "exited s' = exited s" "running s' = flow k tsl" "entered s' = entered s @ ?ev" "next_addr s' = next_addr s"
    "slot_heap s' = (slot_heap s)(ca \<mapsto> ?csl)" "stack_heap s' = stack_heap s"
    by (simp_all add: s'_def saved_def)
  have other: "q = ?cur" if "tab s q = Some ca" for q
    using inj_onD [OF shapeD(4) [OF inv], of q ?cur] that c(2) by (simp add: domI)
  have sv: "slot_at s' = (slot_at s)(?cur \<mapsto> ?csl)"
  proof
    fix q show "slot_at s' q = ((slot_at s)(?cur \<mapsto> ?csl)) q"
      using other [of q] c by (cases "tab s q") (auto simp: slot_at_def tv f)
  qed
  have run: "flow k csl = running s" using flowsD(1) [OF inv] c by simp
  have buf: "flow k ?csl = flow k csl" by (simp add: flow_def)
  have shape: "co_shape k s'"
    unfolding co_shape_def tv f
  proof (intro conjI allI impI)
    show "\<not> exited s" "inj_on (tab s) (dom (tab s))" "mainbuf k < next_addr s" using shapeD(1,4,7) [OF inv] by simp_all
    show "\<exists>mgr. specific s' = Some mgr \<and> distinct (map fst (Slots mgr))" using shapeD(2) [OF inv] m by (simp add: s'_def saved_def)
    show "0 < q" "q < next_addr s" "((slot_heap s)(ca \<mapsto> ?csl)) x \<noteq> None" "k = Ucontext \<Longrightarrow> x = q" if "tab s q = Some x" for q x
      using shapeD(3) [OF inv that] by auto
    have "ca \<in> ran (tab s)" using c(2) by (rule ranI)
    then show "dom ((slot_heap s)(ca \<mapsto> ?csl)) = ran (tab s)" using shapeD(5) [OF inv] by auto
    show "((slot_heap s)(ca \<mapsto> ?csl)) x = None" "stack_heap s x = None" if "next_addr s \<le> x" for x
      using shapeD(6) [OF inv that] shapeD(3) [OF inv c(2)] by auto
  qed
  have bufs: "\<exists>y. slot_at s q = Some y \<and> cStackBuffer y = cStackBuffer x" if "((slot_at s)(?cur \<mapsto> ?csl)) q = Some x" for q x
    using that c(1) by (cases "q = ?cur") auto
  have stacks: "co_stacks k s'"
    unfolding co_stacks_def sv mv f
  proof (intro conjI allI impI)
    show "(cStackBuffer x = mainbuf k) = (q = main_of s)" if "((slot_at s)(?cur \<mapsto> ?csl)) q = Some x" for q x
      using that stacksD(1) [OF inv, of q x] stacksD(1) [OF inv c(1)] by (auto split: if_split_asm)
    show "q = q'" if e: "((slot_at s)(?cur \<mapsto> ?csl)) q = Some x" "((slot_at s)(?cur \<mapsto> ?csl)) q' = Some x'" "cStackBuffer x = cStackBuffer x'" for q q' x x'
    proof -
      obtain y y' where "slot_at s q = Some y" "cStackBuffer y = cStackBuffer x" "slot_at s q' = Some y'" "cStackBuffer y' = cStackBuffer x'"
        using bufs [OF e(1)] bufs [OF e(2)] by blast
      then show ?thesis using stacksD(2) [OF inv] e(3) by simp
    qed
    have "{cStackBuffer x |q x. ((slot_at s)(?cur \<mapsto> ?csl)) q = Some x \<and> q \<noteq> main_of s} =
        {cStackBuffer x |q x. slot_at s q = Some x \<and> q \<noteq> main_of s}" (is "?A = ?B")
    proof
      show "?A \<subseteq> ?B" using c(1) by (auto split: if_split_asm)
      show "?B \<subseteq> ?A"
      proof
        fix y assume "y \<in> ?B"
        then obtain q x where q: "y = cStackBuffer x" "slot_at s q = Some x" "q \<noteq> main_of s" by blast
        then show "y \<in> ?A"
          using c(1) by (intro CollectI exI [of _ q] exI [of _ "if q = ?cur then ?csl else x"]) auto
      qed
    qed
    then show "dom (stack_heap s) = ?A" using stacksD(3) [OF inv] by simp
    show "0 \<notin> dom (stack_heap s)" by (rule stacksD(4) [OF inv])
    show "((slot_at s)(?cur \<mapsto> ?csl)) (main_of s) \<noteq> None" using stacksD(5) [OF inv] by simp
  qed
  have old: "g < next_addr s \<and> g \<noteq> mainbuf k" if "g \<in> fst ` set (entered s)" for g using flowsD(4) [OF inv that] .
  have freshflow: "flow k tsl = cStackBuffer tsl \<and> c \<noteq> main_of s \<and> flow k tsl \<notin> fst ` set (entered s) \<and> flow k tsl < next_addr s \<and> flow k tsl \<noteq> mainbuf k"
    if ph: "phase_of (cContext tsl) = Fresh b" for b
  proof -
    have n: "cContext tsl \<noteq> Resume g" for g using ph by (auto simp: phase_of_def)
    then have cm: "c \<noteq> main_of s" using flowsD(2) [OF inv t] by blast
    then have fl: "flow k tsl = cStackBuffer tsl" using stacksD(1) [OF inv t(1)] by (simp add: flow_def)
    have "cStackBuffer tsl \<in> dom (stack_heap s)" using stacksD(3) [OF inv] t(1) cm by auto
    then have "cStackBuffer tsl < next_addr s" using shapeD(6) [OF inv, of "cStackBuffer tsl"] by (cases "next_addr s \<le> cStackBuffer tsl") auto
    moreover have "flow k tsl \<noteq> mainbuf k" using fl cm stacksD(1) [OF inv t(1)] by simp
    ultimately show ?thesis using cm fl n flowsD(5) [OF inv _ t] by auto
  qed
  have flows: "co_flows k s'"
    unfolding co_flows_def sv mv f
  proof (intro conjI allI impI ballI)
    show "map_option (flow k) (((slot_at s)(?cur \<mapsto> ?csl)) c) = Some (flow k tsl)" using t by simp
    show "cContext x = Resume (flow k x) \<or> q \<noteq> main_of s \<and> (\<exists>b. cContext x = start k (flow k x) b (cData x))"
      if "((slot_at s)(?cur \<mapsto> ?csl)) q = Some x" "q \<noteq> c" for q x
    proof (cases "q = ?cur")
      case True
      then show ?thesis using that run buf by auto
    qed (use that flowsD(2) [OF inv, of q x] in simp)
    show "distinct (map fst (entered s @ ?ev))" 
    proof (cases "phase_of (cContext tsl)")
      case (Fresh b)
      then have "flow k tsl \<notin> fst ` set (entered s)" using freshflow by blast
      then show ?thesis using flowsD(3) [OF inv] Fresh by simp
    qed (use flowsD(3) [OF inv] in simp_all)
    show "g < next_addr s" "g \<noteq> mainbuf k" if "g \<in> fst ` set (entered s @ ?ev)" for g
      using that old [of g] freshflow by (cases "phase_of (cContext tsl)"; auto)+
    show "cContext x = Resume g" if g: "g \<in> fst ` set (entered s @ ?ev)" "((slot_at s)(?cur \<mapsto> ?csl)) q = Some x" "q \<noteq> c"
        "cStackBuffer x = g" for g q x
    proof (cases "g \<in> fst ` set (entered s)")
      case True
      show ?thesis
      proof (cases "q = ?cur")
        case True
        then have x: "x = ?csl" "cStackBuffer csl = g" using g(2,4) by auto
        then have "flow k csl = g" using flowsD(4) [OF inv \<open>g \<in> fst ` set (entered s)\<close>] by (simp add: flow_def)
        then show ?thesis using x(1) run by simp
      next
        case False
        then show ?thesis using g flowsD(5) [OF inv \<open>g \<in> fst ` set (entered s)\<close>, of q x] by simp
      qed
    next
      case False
      then have "g = flow k tsl" "\<exists>b. phase_of (cContext tsl) = Fresh b" using g(1)
        by (cases "phase_of (cContext tsl)"; auto)+
      then have "cStackBuffer x = cStackBuffer tsl" using freshflow g(4) by auto
      then have "q = c"
        using stacksD(2) [OF inv _ t(1), of q x] stacksD(2) [OF inv c(1) t(1)] g(2) by (auto split: if_split_asm)
      then show ?thesis using g(3) by simp
    qed
  qed
  show "co_inv k s'" using shape stacks flows by (simp add: co_inv_def)
  have c0: "c \<noteq> 0" using shapeD(3) [OF inv, of c] t(1) by (auto simp: slot_at_def bind_eq_Some_conv)
  have A: "atab (co_abs s) c = Some (cData tsl, phase_of (cContext tsl))" using t by (simp add: co_abs_def)
  have E: "?ev = map (\<lambda>x. (flow k tsl, x)) (case phase_of (cContext tsl) of Fresh b \<Rightarrow> [(b, cData tsl)] | _ \<Rightarrow> [])"
    by (simp split: phase.split)
  have cur: "acur (co_abs s) = ?cur" "atab (co_abs s) ?cur = Some (cData csl, Active)" using c by (simp_all add: co_abs_def)
  have W: "aswitch c (co_abs s) = (co_abs s\<lparr>acur := c, atab := (atab (co_abs s))(?cur \<mapsto> (cData csl, Suspended), c \<mapsto> (cData tsl, Active))\<rparr>,
      case phase_of (cContext tsl) of Fresh b \<Rightarrow> [(b, cData tsl)] | _ \<Rightarrow> [])"
    using c0 t(2) by (simp add: aswitch_def A cur)
  show "map snd (entered s') = map snd (entered s) @ snd (aswitch c (co_abs s))" unfolding f E W by (simp add: comp_def)
  show "co_abs s' = fst (aswitch c (co_abs s))"
    unfolding W using t c by (simp add: co_abs_def sv mv fun_eq_iff phase_of_def)
qed

section \<open>Deleting\<close>

lemma delete_inv:
  assumes inv: "co_inv k s" and m: "specific s = Some mgr" and t: "slot_at s c = Some sl" "tab s c = Some a"
    and c: "c \<noteq> GetCurrentCoroutine s" "c \<noteq> main_of s"
  defines "s' \<equiv> s\<lparr>specific := Some (mgr\<lparr>Slots := map_erase c (Slots mgr)\<rparr>), slot_heap := (slot_heap s)(a := None),
    stack_heap := (stack_heap s)(cStackBuffer sl := None)\<rparr>"
  shows "co_inv k s'" "co_abs s' = co_abs s\<lparr>atab := (atab (co_abs s))(c := None)\<rparr>"
proof -
  have tv: "tab s' = (tab s)(c := None)" using m by (simp add: s'_def tab_def map_of_erase)
  have mv: "main_of s' = main_of s" "GetCurrentCoroutine s' = GetCurrentCoroutine s"
    using m by (simp_all add: s'_def main_of_def GetCurrentCoroutine_def)
  have f: "exited s' = exited s" "running s' = running s" "entered s' = entered s" "next_addr s' = next_addr s"
    "slot_heap s' = (slot_heap s)(a := None)" "stack_heap s' = (stack_heap s)(cStackBuffer sl := None)"
    by (simp_all add: s'_def)
  have other: "q = c" if "tab s q = Some a" for q
    using inj_onD [OF shapeD(4) [OF inv], of q c] that t(2) by (simp add: domI)
  have sv: "slot_at s' = (slot_at s)(c := None)"
  proof
    fix q show "slot_at s' q = ((slot_at s)(c := None)) q"
      using other [of q] by (cases "tab s q") (auto simp: slot_at_def tv f)
  qed
  have shape: "co_shape k s'"
    unfolding co_shape_def tv f
  proof (intro conjI allI impI)
    show "\<not> exited s" "mainbuf k < next_addr s" using shapeD(1,7) [OF inv] by simp_all
    show "inj_on ((tab s)(c := None)) (dom ((tab s)(c := None)))"
      using shapeD(4) [OF inv] by (auto simp: inj_on_def dom_def)
    show "\<exists>mgr. specific s' = Some mgr \<and> distinct (map fst (Slots mgr))" using shapeD(2) [OF inv] m by (simp add: s'_def keys_erase)
    show "0 < q" "q < next_addr s" "((slot_heap s)(a := None)) x \<noteq> None" "k = Ucontext \<Longrightarrow> x = q" if "((tab s)(c := None)) q = Some x" for q x
      using shapeD(3) [OF inv, of q x] other [of q] that by (auto split: if_split_asm)
    show "dom ((slot_heap s)(a := None)) = ran ((tab s)(c := None))"
    proof -
      have "ran ((tab s)(c := None)) = ran (tab s) - {a}" 
      proof (intro set_eqI iffI)
        fix x assume "x \<in> ran ((tab s)(c := None))"
        then obtain q where "q \<noteq> c" "tab s q = Some x" by (auto simp: ran_def split: if_split_asm)
        then show "x \<in> ran (tab s) - {a}" using other by (auto intro: ranI)
      next
        fix x assume "x \<in> ran (tab s) - {a}"
        then obtain q where "tab s q = Some x" "x \<noteq> a" by (auto simp: ran_def)
        moreover from this have "q \<noteq> c" using t(2) by auto
        ultimately show "x \<in> ran ((tab s)(c := None))" by (intro ranI [of _ q]) simp
      qed
      then show ?thesis using shapeD(5) [OF inv] by simp
    qed
    show "((slot_heap s)(a := None)) x = None" "((stack_heap s)(cStackBuffer sl := None)) x = None" if "next_addr s \<le> x" for x
      using shapeD(6) [OF inv that] by auto
  qed
  have stacks: "co_stacks k s'"
    unfolding co_stacks_def sv mv f
  proof (intro conjI allI impI)
    show "(cStackBuffer x = mainbuf k) = (q = main_of s)" if "((slot_at s)(c := None)) q = Some x" for q x
      using that stacksD(1) [OF inv, of q x] by (simp split: if_split_asm)
    show "q = q'" if e: "((slot_at s)(c := None)) q = Some x" "((slot_at s)(c := None)) q' = Some x'" "cStackBuffer x = cStackBuffer x'" for q q' x x'
      using e stacksD(2) [OF inv, of q x q' x'] by (simp split: if_split_asm)
    show "dom ((stack_heap s)(cStackBuffer sl := None)) = {cStackBuffer x |q x. ((slot_at s)(c := None)) q = Some x \<and> q \<noteq> main_of s}"
      (is "_ = ?A")
    proof -
      have "?A = {cStackBuffer x |q x. slot_at s q = Some x \<and> q \<noteq> main_of s} - {cStackBuffer sl}" (is "_ = ?B")
      proof
        show "?A \<subseteq> ?B" using stacksD(2) [OF inv _ t(1)] by (auto split: if_split_asm)
        show "?B \<subseteq> ?A" using t(1) by (auto split: if_split_asm) (metis option.inject)
      qed
      then show ?thesis using stacksD(3) [OF inv] by simp
    qed
    show "0 \<notin> dom ((stack_heap s)(cStackBuffer sl := None))" using stacksD(4) [OF inv] by auto
    show "((slot_at s)(c := None)) (main_of s) \<noteq> None" using stacksD(5) [OF inv] c by simp
  qed
  have flows: "co_flows k s'"
    unfolding co_flows_def sv mv f
  proof (intro conjI allI impI ballI)
    show "map_option (flow k) (((slot_at s)(c := None)) (GetCurrentCoroutine s)) = Some (running s)" using flowsD(1) [OF inv] c by simp
    show "cContext x = Resume (flow k x) \<or> q \<noteq> main_of s \<and> (\<exists>b. cContext x = start k (flow k x) b (cData x))"
      if "((slot_at s)(c := None)) q = Some x" "q \<noteq> GetCurrentCoroutine s" for q x
      using that flowsD(2) [OF inv, of q x] by (simp split: if_split_asm)
    show "distinct (map fst (entered s))" by (rule flowsD(3) [OF inv])
    show "g < next_addr s" "g \<noteq> mainbuf k" if "g \<in> fst ` set (entered s)" for g using flowsD(4) [OF inv that] by simp_all
    show "cContext x = Resume g" if "g \<in> fst ` set (entered s)" "((slot_at s)(c := None)) q = Some x" "q \<noteq> GetCurrentCoroutine s"
        "cStackBuffer x = g" for g q x
      using that flowsD(5) [OF inv that(1), of q x] by (simp split: if_split_asm)
  qed
  show "co_inv k s'" using shape stacks flows by (simp add: co_inv_def)
  show "co_abs s' = co_abs s\<lparr>atab := (atab (co_abs s))(c := None)\<rparr>" by (simp add: co_abs_def sv mv fun_eq_iff)
qed

text \<open>
  The full shutdown frees every slot but that of the current coroutine in a loop, and that one after
  it.  Both loops are this one.
\<close>

definition drop_slot :: "nat \<Rightarrow> nat \<Rightarrow> costate \<Rightarrow> costate option" where
  "drop_slot mb a s = do { sl \<leftarrow> slot_heap s a;
     s \<leftarrow> free_slot a s; if cStackBuffer sl = mb then Some s else free_stack (cStackBuffer sl) s }"

fun release :: "nat \<Rightarrow> nat \<Rightarrow> (nat \<times> nat) list \<Rightarrow> nat option \<Rightarrow> costate \<Rightarrow> (nat option \<times> costate) option" where
  "release mb cur [] found s = Some (found, s)"
| "release mb cur ((k, a) # l) found s =
     (if k = cur then release mb cur l (Some a) s else do { s \<leftarrow> drop_slot mb a s; release mb cur l found s })"

lemma uc_drop: "do { sl \<leftarrow> slot_heap s a; s \<leftarrow> free_stack (cStackBuffer sl) s; s \<leftarrow> free_slot a s; f s } = Option.bind (drop_slot 0 a s) f"
  by (cases s; cases "slot_heap s a") (auto simp: drop_slot_def free_slot_def free_stack_def)

lemma fc_drop: "do { sl \<leftarrow> slot_heap s a; s \<leftarrow> free_slot a s; s \<leftarrow> fc_free_stack (cStackBuffer sl) s; f s } = Option.bind (drop_slot 0x42 a s) f"
  by (cases "slot_heap s a") (auto simp: drop_slot_def free_slot_def fc_free_stack_def)

lemma uc_release_eq: "uc_release cur l found s = release 0 cur l found s"
proof (induction l arbitrary: found s)
  case (Cons x l)
  have "uc_release cur l found = release 0 cur l found" for found using Cons by (intro ext)
  then show ?case by (cases x) (simp add: uc_drop)
qed simp

lemma fc_release_eq: "fc_release cur l found s = release 0x42 cur l found s"
proof (induction l arbitrary: found s)
  case (Cons x l)
  have "fc_release cur l found = release 0x42 cur l found" for found using Cons by (intro ext)
  then show ?case by (cases x) (simp add: fc_drop)
qed simp

lemma drop_ok:
  assumes "slot_heap s a = Some sl" "cStackBuffer sl = mb \<or> stack_heap s (cStackBuffer sl) \<noteq> None" "cStackBuffer sl \<noteq> mb \<Longrightarrow> cStackBuffer sl \<noteq> 0"
  shows "drop_slot mb a s = Some (s\<lparr>slot_heap := (slot_heap s)(a := None),
    stack_heap := (if cStackBuffer sl = mb then stack_heap s else (stack_heap s)(cStackBuffer sl := None))\<rparr>)"
  using assms by (auto simp: drop_slot_def free_slot_def free_stack_def)

lemma release_ok:
  assumes "\<forall>(q, a) \<in> set l. \<exists>sl. slot_heap s a = Some sl \<and>
      (q \<noteq> cur \<longrightarrow> cStackBuffer sl = mb \<or> cStackBuffer sl \<noteq> 0 \<and> stack_heap s (cStackBuffer sl) \<noteq> None)"
    and "distinct (map snd l)" "distinct (map (\<lambda>x. cStackBuffer (the (slot_heap s (snd x)))) l)" "distinct (map fst l)"
  shows "\<exists>s'. release mb cur l found s = Some (case map_of l cur of None \<Rightarrow> found | Some a \<Rightarrow> Some a, s') \<and>
    s' = s\<lparr>slot_heap := (\<lambda>x. if \<exists>q. q \<noteq> cur \<and> (q, x) \<in> set l then None else slot_heap s x),
      stack_heap := (\<lambda>x. if x \<noteq> mb \<and> (\<exists>q a. q \<noteq> cur \<and> (q, a) \<in> set l \<and> cStackBuffer (the (slot_heap s a)) = x) then None else stack_heap s x)\<rparr>"
  using assms
proof (induction l arbitrary: s found)
  case (Cons x l)
  obtain q a where x: "x = (q, a)" by (rule prod.exhaust)
  obtain sl where sl: "slot_heap s a = Some sl" "q \<noteq> cur \<longrightarrow> cStackBuffer sl = mb \<or> cStackBuffer sl \<noteq> 0 \<and> stack_heap s (cStackBuffer sl) \<noteq> None"
    using Cons.prems(1) x by auto
  show ?case
  proof (cases "q = cur")
    case True
    have "\<not> (\<exists>b. (cur, b) \<in> set l)" using Cons.prems(4) x True by force
    then have n: "map_of l cur = None" by (force simp: map_of_eq_None_iff)
    have e: "(\<exists>p. p \<noteq> cur \<and> (p, y) \<in> set (x # l)) = (\<exists>p. p \<noteq> cur \<and> (p, y) \<in> set l)"
      "(\<exists>p b. p \<noteq> cur \<and> (p, b) \<in> set (x # l) \<and> g b = y) = (\<exists>p b. p \<noteq> cur \<and> (p, b) \<in> set l \<and> g b = y)" for y and g :: "nat \<Rightarrow> nat"
      using x True by auto
    have "release mb cur (x # l) found s = release mb cur l (Some a) s" "map_of (x # l) cur = Some a" using x True by simp_all
    then show ?thesis using Cons.IH [of s "Some a"] Cons.prems unfolding e by (simp add: n)
  next
    case False
    let ?s1 = "s\<lparr>slot_heap := (slot_heap s)(a := None),
      stack_heap := (if cStackBuffer sl = mb then stack_heap s else (stack_heap s)(cStackBuffer sl := None))\<rparr>"
    have d: "drop_slot mb a s = Some ?s1" using sl False by (intro drop_ok) auto
    have na: "b \<noteq> a" "cStackBuffer (the (slot_heap s b)) \<noteq> cStackBuffer sl" if "(p, b) \<in> set l" for p b
      using Cons.prems(2,3) that x sl(1) by (force, force)
    have "\<exists>s'. release mb cur l found ?s1 = Some (case map_of l cur of None \<Rightarrow> found | Some a \<Rightarrow> Some a, s') \<and>
      s' = ?s1\<lparr>slot_heap := (\<lambda>x. if \<exists>q. q \<noteq> cur \<and> (q, x) \<in> set l then None else slot_heap ?s1 x),
      stack_heap := (\<lambda>x. if x \<noteq> mb \<and> (\<exists>q a. q \<noteq> cur \<and> (q, a) \<in> set l \<and> cStackBuffer (the (slot_heap ?s1 a)) = x) then None else stack_heap ?s1 x)\<rparr>"
    proof (rule Cons.IH)
      show "\<forall>(q, b) \<in> set l. \<exists>y. slot_heap ?s1 b = Some y \<and>
        (q \<noteq> cur \<longrightarrow> cStackBuffer y = mb \<or> cStackBuffer y \<noteq> 0 \<and> stack_heap ?s1 (cStackBuffer y) \<noteq> None)"
      proof clarify
        fix p b assume pb: "(p, b) \<in> set l"
        then obtain y where y: "slot_heap s b = Some y" "p \<noteq> cur \<longrightarrow> cStackBuffer y = mb \<or> cStackBuffer y \<noteq> 0 \<and> stack_heap s (cStackBuffer y) \<noteq> None"
          using Cons.prems(1) by fastforce
        then show "\<exists>y. slot_heap ?s1 b = Some y \<and>
          (p \<noteq> cur \<longrightarrow> cStackBuffer y = mb \<or> cStackBuffer y \<noteq> 0 \<and> stack_heap ?s1 (cStackBuffer y) \<noteq> None)"
          using na [OF pb] by auto
      qed
      show "distinct (map snd l)" "distinct (map fst l)" using Cons.prems by simp_all
      have m: "map (\<lambda>x. cStackBuffer (the (slot_heap ?s1 (snd x)))) l = map (\<lambda>x. cStackBuffer (the (slot_heap s (snd x)))) l"
      proof (rule map_cong [OF refl])
        fix y assume "y \<in> set l"
        then have "snd y \<noteq> a" using na(1) [of "fst y" "snd y"] by simp
        then show "cStackBuffer (the (slot_heap ?s1 (snd y))) = cStackBuffer (the (slot_heap s (snd y)))" by simp
      qed
      show "distinct (map (\<lambda>x. cStackBuffer (the (slot_heap ?s1 (snd x)))) l)" unfolding m using Cons.prems(3) by simp
    qed
    then obtain s' where r: "release mb cur l found ?s1 = Some (case map_of l cur of None \<Rightarrow> found | Some a \<Rightarrow> Some a, s')"
      and s': "s' = ?s1\<lparr>slot_heap := (\<lambda>x. if \<exists>q. q \<noteq> cur \<and> (q, x) \<in> set l then None else slot_heap ?s1 x),
      stack_heap := (\<lambda>x. if x \<noteq> mb \<and> (\<exists>q a. q \<noteq> cur \<and> (q, a) \<in> set l \<and> cStackBuffer (the (slot_heap ?s1 a)) = x) then None else stack_heap ?s1 x)\<rparr>"
      by blast
    have m1: "map_of (x # l) cur = map_of l cur" using False x by simp
    have bufs: "(\<exists>q a. q \<noteq> cur \<and> (q, a) \<in> set l \<and> cStackBuffer (the (slot_heap ?s1 a)) = y) \<longleftrightarrow>
        (\<exists>q a. q \<noteq> cur \<and> (q, a) \<in> set l \<and> cStackBuffer (the (slot_heap s a)) = y)" for y
    proof -
      have sh: "slot_heap ?s1 b = slot_heap s b" if "(p, b) \<in> set l" for p b using na(1) [OF that] by simp
      show ?thesis by (intro iff_exI conj_cong refl) (simp only: sh)
    qed
    have m2: "release mb cur (x # l) found s = release mb cur l found ?s1" using d x False by simp
    have m3: "s' = s\<lparr>slot_heap := (\<lambda>y. if \<exists>q. q \<noteq> cur \<and> (q, y) \<in> set (x # l) then None else slot_heap s y),
      stack_heap := (\<lambda>y. if y \<noteq> mb \<and> (\<exists>q a. q \<noteq> cur \<and> (q, a) \<in> set (x # l) \<and> cStackBuffer (the (slot_heap s a)) = y) then None else stack_heap s y)\<rparr>"
    proof -
      have "(\<lambda>y. if \<exists>q. q \<noteq> cur \<and> (q, y) \<in> set l then None else slot_heap ?s1 y) =
          (\<lambda>y. if \<exists>q. q \<noteq> cur \<and> (q, y) \<in> set (x # l) then None else slot_heap s y)"
        using x False by (auto simp: fun_eq_iff)
      moreover have "(\<lambda>y. if y \<noteq> mb \<and> (\<exists>q a. q \<noteq> cur \<and> (q, a) \<in> set l \<and> cStackBuffer (the (slot_heap ?s1 a)) = y) then None else stack_heap ?s1 y) =
          (\<lambda>y. if y \<noteq> mb \<and> (\<exists>q a. q \<noteq> cur \<and> (q, a) \<in> set (x # l) \<and> cStackBuffer (the (slot_heap s a)) = y) then None else stack_heap s y)"
      proof (rule ext)
        fix y
        define P where "P = (\<exists>q a. q \<noteq> cur \<and> (q, a) \<in> set l \<and> cStackBuffer (the (slot_heap s a)) = y)"
        have e: "(\<exists>q a. q \<noteq> cur \<and> (q, a) \<in> set (x # l) \<and> cStackBuffer (the (slot_heap s a)) = y) = (cStackBuffer sl = y \<or> P)"
        proof
          assume "cStackBuffer sl = y \<or> P"
          then show "\<exists>q a. q \<noteq> cur \<and> (q, a) \<in> set (x # l) \<and> cStackBuffer (the (slot_heap s a)) = y"
          proof
            assume "cStackBuffer sl = y"
            then show ?thesis using x False sl(1) by (intro exI [of _ q] exI [of _ a]) simp
          qed (auto simp: P_def)
        qed (use x sl(1) in \<open>auto simp: P_def\<close>)
        show "(if y \<noteq> mb \<and> (\<exists>q a. q \<noteq> cur \<and> (q, a) \<in> set l \<and> cStackBuffer (the (slot_heap ?s1 a)) = y) then None else stack_heap ?s1 y) =
          (if y \<noteq> mb \<and> (\<exists>q a. q \<noteq> cur \<and> (q, a) \<in> set (x # l) \<and> cStackBuffer (the (slot_heap s a)) = y) then None else stack_heap s y)"
          unfolding bufs e P_def [symmetric] by auto
      qed
      ultimately show ?thesis by (simp add: s')
    qed
    show ?thesis unfolding m1 m2 by (intro exI [of _ s'] conjI r m3)
  qed
qed simp

definition shutdown :: "nat \<Rightarrow> manager \<Rightarrow> costate \<Rightarrow> costate option" where
  "shutdown mb mgr s = do { (found, s) \<leftarrow> release mb (CurrentContext mgr) (Slots mgr) None s;
     a \<leftarrow> found; s \<leftarrow> drop_slot mb a (s\<lparr>specific := None\<rparr>); pthread_exit s }"

lemma shutdown_ok:
  assumes inv: "co_inv k s" and m: "specific s = Some mgr"
  shows "\<exists>s'. shutdown (mainbuf k) mgr s = (if GetCurrentCoroutine s = main_of s then Some s' else None) \<and> exited s' \<and> specific s' = None \<and> slot_heap s' = Map.empty \<and>
    stack_heap s' = Map.empty \<and> entered s' = entered s"
proof -
  let ?cur = "CurrentContext mgr" and ?l = "Slots mgr" and ?mb = "mainbuf k"
  have cur: "GetCurrentCoroutine s = ?cur" using m by (simp add: GetCurrentCoroutine_def)
  have dk: "distinct (map fst ?l)" using shapeD(2) [OF inv] m by simp
  have T: "tab s q = Some a \<longleftrightarrow> (q, a) \<in> set ?l" for q a using m dk by (simp add: tab_def)
  have slot: "\<exists>sl. slot_heap s a = Some sl \<and> slot_at s q = Some sl" if "(q, a) \<in> set ?l" for q a
  proof -
    have t: "tab s q = Some a" using that T by simp
    then show ?thesis using shapeD(3) [OF inv t] by (auto simp: slot_at_def)
  qed
  obtain ca csl where ca: "(?cur, ca) \<in> set ?l" "slot_heap s ca = Some csl" "slot_at s ?cur = Some csl"
    using current_slot [OF inv] cur slot T by (force simp: slot_at_def bind_eq_Some_conv)
  have buf: "cStackBuffer sl = ?mb \<or> cStackBuffer sl \<noteq> 0 \<and> stack_heap s (cStackBuffer sl) \<noteq> None" if "slot_at s q = Some sl" for q sl
  proof (cases "q = main_of s")
    case True
    then show ?thesis using stacksD(1) [OF inv that] by simp
  next
    case False
    then have "cStackBuffer sl \<in> dom (stack_heap s)" using stacksD(3) [OF inv] that by auto
    moreover from this have "cStackBuffer sl \<noteq> 0" using stacksD(4) [OF inv] by metis
    ultimately show ?thesis by auto
  qed
  have uniq: "q = q'" if "(q, a) \<in> set ?l" "(q', a) \<in> set ?l" for q q' a
  proof -
    have "tab s q = Some a" "tab s q' = Some a" using that T by simp_all
    then show ?thesis using inj_onD [OF shapeD(4) [OF inv], of q q'] by (simp add: domI)
  qed
  then have da: "distinct (map snd ?l)" using dk by (auto simp: distinct_map inj_on_def)
  have db: "distinct (map (\<lambda>x. cStackBuffer (the (slot_heap s (snd x)))) ?l)"
    unfolding distinct_map
  proof
    show "distinct ?l" using dk by (simp add: distinct_map)
    show "inj_on (\<lambda>x. cStackBuffer (the (slot_heap s (snd x)))) (set ?l)"
    proof (rule inj_onI)
      fix x y assume e: "x \<in> set ?l" "y \<in> set ?l" "cStackBuffer (the (slot_heap s (snd x))) = cStackBuffer (the (slot_heap s (snd y)))"
      obtain sx sy where sx: "slot_heap s (snd x) = Some sx" "slot_at s (fst x) = Some sx"
        and sy: "slot_heap s (snd y) = Some sy" "slot_at s (fst y) = Some sy"
        using slot [of "fst x" "snd x"] slot [of "fst y" "snd y"] e(1,2) by auto
      have "cStackBuffer sx = cStackBuffer sy" using e(3) sx(1) sy(1) by simp
      then have "fst x = fst y" by (rule stacksD(2) [OF inv sx(2) sy(2)])
      then show "x = y" using dk e(1,2) by (simp add: distinct_map inj_on_def)
    qed
  qed
  have pre: "\<forall>(q, a) \<in> set ?l. \<exists>sl. slot_heap s a = Some sl \<and>
      (q \<noteq> ?cur \<longrightarrow> cStackBuffer sl = ?mb \<or> cStackBuffer sl \<noteq> 0 \<and> stack_heap s (cStackBuffer sl) \<noteq> None)"
    using slot buf by fast
  obtain s1 where r: "release ?mb ?cur ?l None s = Some (case map_of ?l ?cur of None \<Rightarrow> None | Some a \<Rightarrow> Some a, s1)"
    and s1: "s1 = s\<lparr>slot_heap := (\<lambda>x. if \<exists>q. q \<noteq> ?cur \<and> (q, x) \<in> set ?l then None else slot_heap s x),
      stack_heap := (\<lambda>x. if x \<noteq> ?mb \<and> (\<exists>q a. q \<noteq> ?cur \<and> (q, a) \<in> set ?l \<and> cStackBuffer (the (slot_heap s a)) = x) then None else stack_heap s x)\<rparr>"
    using release_ok [OF pre da db dk] by blast
  have found: "map_of ?l ?cur = Some ca" using ca(1) dk by simp
  have kept: "\<not> (\<exists>q. q \<noteq> ?cur \<and> (q, ca) \<in> set ?l)"
    using uniq [OF _ ca(1)] by blast
  have kept2: "\<not> (\<exists>q a. q \<noteq> ?cur \<and> (q, a) \<in> set ?l \<and> cStackBuffer (the (slot_heap s a)) = cStackBuffer csl)"
  proof clarify
    fix q a assume q: "q \<noteq> ?cur" "(q, a) \<in> set ?l" "cStackBuffer (the (slot_heap s a)) = cStackBuffer csl"
    obtain sl where "slot_heap s a = Some sl" "slot_at s q = Some sl" using slot [OF q(2)] by blast
    then show False using stacksD(2) [OF inv _ ca(3)] q by auto
  qed
  let ?s2 = "s1\<lparr>specific := None\<rparr>"
  have h1: "slot_heap ?s2 ca = Some csl" using kept ca(2) by (simp add: s1)
  have h2: "cStackBuffer csl = ?mb \<or> stack_heap ?s2 (cStackBuffer csl) \<noteq> None" using kept2 buf [OF ca(3)] by (auto simp: s1)
  have h3: "cStackBuffer csl \<noteq> ?mb \<Longrightarrow> cStackBuffer csl \<noteq> 0" using buf [OF ca(3)] by auto
  note d = drop_ok [OF h1 h2 h3]
  let ?s3 = "?s2\<lparr>slot_heap := (slot_heap ?s2)(ca := None),
    stack_heap := (if cStackBuffer csl = ?mb then stack_heap ?s2 else (stack_heap ?s2)(cStackBuffer csl := None))\<rparr>"
  have fin: "shutdown ?mb mgr s = pthread_exit ?s3" using r found d by (simp add: shutdown_def)
  have "slot_heap ?s3 x = None" for x
  proof (cases "slot_heap s x")
    case (Some y)
    then have "x \<in> ran (tab s)" using shapeD(5) [OF inv] by auto
    then obtain q where q: "(q, x) \<in> set ?l" using T by (auto simp: ran_def)
    show ?thesis
    proof (cases "q = ?cur")
      case True
      then have "x = ca" using q ca(1) dk by (simp add: eq_key_imp_eq_value)
      then show ?thesis by simp
    next
      case False
      then show ?thesis using q by (auto simp: s1)
    qed
  qed (simp add: s1)
  moreover have "stack_heap ?s3 x = None" for x
  proof (cases "stack_heap s x")
    case (Some n)
    then obtain q sl where q: "x = cStackBuffer sl" "slot_at s q = Some sl" "q \<noteq> main_of s" using stacksD(3) [OF inv] by blast
    obtain a where a: "(q, a) \<in> set ?l" "slot_heap s a = Some sl" using q(2) T by (auto simp: slot_at_def bind_eq_Some_conv)
    have "x \<noteq> ?mb" using stacksD(1) [OF inv q(2)] q(1,3) by simp
    show ?thesis
    proof (cases "q = ?cur")
      case True
      then have "sl = csl" using q(2) ca(3) by simp
      then show ?thesis using \<open>x \<noteq> ?mb\<close> q(1) by simp
    next
      case False
      then have "\<exists>q a. q \<noteq> ?cur \<and> (q, a) \<in> set ?l \<and> cStackBuffer (the (slot_heap s a)) = x" using a q(1) by (intro exI [of _ q] exI [of _ a]) simp
      then show ?thesis using \<open>x \<noteq> ?mb\<close> by (simp add: s1)
    qed
  qed (auto simp: s1)
  moreover have "pthread_exit ?s3 = (if GetCurrentCoroutine s = main_of s then Some (?s3\<lparr>exited := True\<rparr>) else None)"
  proof -
    have "running ?s3 = flow k csl" using flowsD(1) [OF inv] ca(3) cur by (simp add: s1)
    moreover have "flow k csl = 0 \<longleftrightarrow> GetCurrentCoroutine s = main_of s"
      using stacksD(1) [OF inv ca(3)] h3 cur by (auto simp: flow_def)
    moreover have "stack_heap ?s3 (running ?s3) = None" by fact
    ultimately show ?thesis by (simp add: pthread_exit_def)
  qed
  ultimately show ?thesis using fin by (intro exI [of _ "?s3\<lparr>exited := True\<rparr>"]) (simp add: fun_eq_iff s1)
qed

section \<open>The calls\<close>

lemma uc_final: "do { sl \<leftarrow> slot_heap s a; s \<leftarrow> free_slot a s; s \<leftarrow> free_stack (cStackBuffer sl) s; f s } = Option.bind (drop_slot 0 a s) f"
  by (cases "slot_heap s a") (auto simp: drop_slot_def free_slot_def free_stack_def)

lemma uc_create_call:
  assumes "specific s = Some mgr"
  shows "uc_create ec n b d s =
    (let s = s\<lparr>g_tls_inited := True\<rparr> in if b = 0 then (0, s)
     else if ec \<noteq> 0 then (0, s\<lparr>slot_heap := (slot_heap s)(next_addr s := None), next_addr := next_addr s + 1\<rparr>)
     else (next_addr s, with_slot mgr (next_addr s) (next_addr s) (next_addr s + 1)
       \<lparr>cContext = Entry (next_addr s + 1) b d, cData = d, cStackBuffer = next_addr s + 1, cStackSize = (if n \<noteq> 0 then ucast n else FCSTKSZ)\<rparr> s))"
  using assms by (cases s) (simp add: uc_create_def ensure Let_def new_slot_def new_stack_def put_slot_def with_slot_def)

lemma fc_create_call:
  assumes "specific s = Some mgr"
  shows "fc_create n b d s =
    (let s = s\<lparr>g_tls_inited := True\<rparr> in if b = 0 then (0, s)
     else (next_addr s + 1, with_slot mgr (next_addr s + 1) (next_addr s) (next_addr s + 1)
       \<lparr>cContext = Made (next_addr s + 1) b, cData = d, cStackBuffer = next_addr s + 1, cStackSize = (if n \<noteq> 0 then ucast n else FCSTKSZ)\<rparr> s))"
  using assms by (cases s) (simp add: fc_create_def ensure Let_def new_slot_def new_stack_def put_slot_def with_slot_def)

definition step_ok :: "kind \<Rightarrow> co_call \<Rightarrow> costate \<Rightarrow> bool" where
  "step_ok k c s \<longleftrightarrow> (if unsafe c (co_abs s) then co_call k c s = None else \<exists>r s'. co_call k c s = Some (r, s') \<and> new_handle c r (co_abs s) \<and>
      (case a_call c r (co_abs s) of
         None \<Rightarrow> exited s' \<and> specific s' = None \<and> slot_heap s' = Map.empty \<and> stack_heap s' = Map.empty \<and> entered s' = entered s
       | Some (A, ev) \<Rightarrow> co_inv k s' \<and> co_abs s' = A \<and> map snd (entered s') = map snd (entered s) @ ev))"

lemma no_slot_there: "co_inv k s \<Longrightarrow> (slot_heap s)(next_addr s := None) = slot_heap s"
  using shapeD(6) [of k s "next_addr s"] by (auto simp: fun_eq_iff)

lemma create_step:
  assumes inv: "co_inv k s"
  shows "step_ok k (CreateC ec n b d) s"
proof -
  let ?s = "s\<lparr>g_tls_inited := True\<rparr>"
  have i: "co_inv k ?s" using inv by simp
  obtain mgr where m: "specific s = Some mgr" using shapeD(2) [OF inv] by blast
  have m': "specific ?s = Some mgr" using m by simp
  show ?thesis
  proof (cases "b = 0")
    case True
    then have "co_call k (CreateC ec n b d) s = Some (0, ?s)"
      using m by (cases k) (simp_all add: co_call_def uc_create_call fc_create_call Let_def)
    then show ?thesis using i by (simp add: step_ok_def)
  next
    case b: False
    show ?thesis
    proof (cases "k = Ucontext \<and> ec \<noteq> 0")
      case True
      have "slot_heap ?s = (slot_heap s)(next_addr s := None)" using no_slot_there [OF inv] by simp
      then have e: "?s\<lparr>slot_heap := (slot_heap ?s)(next_addr ?s := None), next_addr := next_addr ?s + 1\<rparr> = ?s\<lparr>next_addr := next_addr ?s + 1\<rparr>"
        using no_slot_there [OF inv] by simp
      have "co_call k (CreateC ec n b d) s = Some (0, ?s\<lparr>next_addr := next_addr ?s + 1\<rparr>)"
        using True b m e by (simp add: co_call_def uc_create_call Let_def)
      then show ?thesis using bump_inv [OF i, of "next_addr ?s + 1"] by (simp add: step_ok_def)
    next
      case False
      let ?h = "case k of Ucontext \<Rightarrow> next_addr s | Fcontext \<Rightarrow> next_addr s + 1"
      let ?sl = "\<lparr>cContext = start k (next_addr s + 1) b d, cData = d, cStackBuffer = next_addr s + 1, cStackSize = (if n \<noteq> 0 then ucast n else FCSTKSZ)\<rparr>"
      have c: "co_call k (CreateC ec n b d) s = Some (?h, with_slot mgr ?h (next_addr s) (next_addr s + 1) ?sl ?s)"
        using False b m by (cases k) (simp_all add: co_call_def uc_create_call fc_create_call Let_def start_def)
      note r = create_inv [OF i m', of "next_addr s" "next_addr s + 1" ?h ?sl b]
      show ?thesis using c r b by (simp add: step_ok_def with_slot_def)
    qed
  qed
qed

lemma switch_step:
  assumes inv: "co_inv k s"
  shows "step_ok k (SwitchC c) s"
proof -
  let ?s = "s\<lparr>g_tls_inited := True\<rparr>" and ?cur = "GetCurrentCoroutine s"
  have i: "co_inv k ?s" using inv by simp
  obtain mgr where m: "specific s = Some mgr" using shapeD(2) [OF inv] by blast
  have m': "specific ?s = Some mgr" using m by simp
  have cur: "?cur = CurrentContext mgr" using m by (simp add: GetCurrentCoroutine_def)
  have T: "tab s q = map_of (Slots mgr) q" for q using m by (simp add: tab_def)
  show ?thesis
  proof (cases "c = 0 \<or> c = ?cur \<or> tab s c = None")
    case True
    then have "co_call k (SwitchC c) s = Some (0, ?s)"
      using m T by (cases k) (auto simp: co_call_def uc_switch_def fc_switch_def ensure Let_def)
    moreover have "aswitch c (co_abs s) = (co_abs s, [])"
      using True tab_slot [OF inv, of c] by (auto simp: aswitch_def co_abs_def)
    ultimately show ?thesis using i by (simp add: step_ok_def)
  next
    case False
    then obtain ta where ta: "tab s c = Some ta" "c \<noteq> 0" "c \<noteq> ?cur" by auto
    obtain tsl where t: "slot_at s c = Some tsl" "slot_heap s ta = Some tsl"
      using shapeD(3) [OF inv ta(1)] ta(1) by (auto simp: slot_at_def)
    obtain csl ca where c: "slot_at s ?cur = Some csl" "tab s ?cur = Some ca" "slot_heap s ca = Some csl"
      using current_slot [OF inv] by (auto simp: slot_at_def bind_eq_Some_conv)
    have ne: "ca \<noteq> ta" using inj_onD [OF shapeD(4) [OF inv], of c ?cur] ta(1,3) c(2) by (auto simp: domI)
    let ?s1 = "saved mgr c ca csl ?s"
    have run: "co_call k (SwitchC c) s = map_option (Pair 0) (go_on (cContext tsl) (case k of Ucontext \<Rightarrow> 0 | Fcontext \<Rightarrow> cData tsl) ?s1)"
    proof (cases k)
      case Ucontext
      then have "ta = c" "ca = ?cur" using shapeD(3) [OF inv ta(1)] shapeD(3) [OF inv c(2)] by simp_all
      then show ?thesis using Ucontext m ta t c cur T ne
        by (simp add: co_call_def uc_switch_def ensure Let_def swapcontext_def put_slot_def saved_def)
    next
      case Fcontext
      then show ?thesis using m ta t c cur T ne
        by (simp add: co_call_def fc_switch_def ensure Let_def jump_fcontext_def put_slot_def saved_def)
    qed
    let ?s2 = "?s1\<lparr>running := flow k tsl,
      entered := entered ?s1 @ (case phase_of (cContext tsl) of Fresh b \<Rightarrow> [(flow k tsl, b, cData tsl)] | _ \<Rightarrow> [])\<rparr>"
    have "go_on (cContext tsl) (case k of Ucontext \<Rightarrow> 0 | Fcontext \<Rightarrow> cData tsl) ?s1 = Some ?s2"
      by (rule goes_on [OF i, of c]) (use t ta in \<open>simp_all add: saved_def\<close>)
    then have "co_call k (SwitchC c) s = Some (0, ?s2)" using run by simp
    moreover have "entered ?s1 = entered ?s" by (simp add: saved_def)
    moreover have "co_inv k ?s2" "co_abs ?s2 = fst (aswitch c (co_abs ?s))" "map snd (entered ?s2) = map snd (entered ?s) @ snd (aswitch c (co_abs ?s))"
      using switch_inv [OF i m', of c tsl csl ca] t(1) ta(3) c(1,2) unfolding \<open>entered ?s1 = entered ?s\<close> by simp_all
    ultimately show ?thesis by (simp add: step_ok_def case_prod_beta)
  qed
qed

lemma delete_step:
  assumes inv: "co_inv k s"
  shows "step_ok k (DeleteC c) s"
proof -
  let ?s = "s\<lparr>g_tls_inited := True\<rparr>" and ?cur = "GetCurrentCoroutine s"
  have i: "co_inv k ?s" using inv by simp
  obtain mgr where m: "specific s = Some mgr" using shapeD(2) [OF inv] by blast
  have m': "specific ?s = Some mgr" using m by simp
  have cur: "?cur = CurrentContext mgr" "main_of s = MainContext mgr" using m by (simp_all add: GetCurrentCoroutine_def main_of_def)
  have T: "tab s q = map_of (Slots mgr) q" for q using m by (simp add: tab_def)
  have A: "acur (co_abs s) = ?cur" "amain (co_abs s) = main_of s" by (simp_all add: co_abs_def)
  show ?thesis
  proof (cases "c = 0 \<or> c \<noteq> ?cur \<and> c \<noteq> main_of s \<and> tab s c = None")
    case True
    then have "co_call k (DeleteC c) s = Some (0, ?s)"
      using m T cur by (cases k) (auto simp: co_call_def uc_delete_def fc_delete_def ensure Let_def)
    moreover have "a_call (DeleteC c) 0 (co_abs s) = Some (co_abs s, [])"
    proof (cases "c = 0")
      case False
      then have "atab (co_abs s) c = None" using True tab_slot [OF inv, of c] by (simp add: co_abs_def)
      then have "(atab (co_abs s))(c := None) = atab (co_abs s)" by (simp add: fun_upd_idem)
      then show ?thesis using False True A by simp
    qed simp
    ultimately show ?thesis using i True A by (auto simp: step_ok_def simp del: a_call.simps)
  next
    case False
    show ?thesis
    proof (cases "c \<noteq> ?cur \<and> c \<noteq> main_of s")
      case True
      then obtain a where a: "tab s c = Some a" using False by auto
      obtain sl where t: "slot_at s c = Some sl" "slot_heap s a = Some sl" using shapeD(3) [OF inv a] a by (auto simp: slot_at_def)
      have b: "cStackBuffer sl \<noteq> 0" "stack_heap s (cStackBuffer sl) \<noteq> None"
      proof -
        have "cStackBuffer sl \<in> dom (stack_heap s)" using stacksD(3) [OF inv] t(1) True by auto
        then show "cStackBuffer sl \<noteq> 0" "stack_heap s (cStackBuffer sl) \<noteq> None" using stacksD(4) [OF inv] by auto
      qed
      let ?s' = "?s\<lparr>specific := Some (mgr\<lparr>Slots := map_erase c (Slots mgr)\<rparr>), slot_heap := (slot_heap ?s)(a := None),
        stack_heap := (stack_heap ?s)(cStackBuffer sl := None)\<rparr>"
      have "co_call k (DeleteC c) s = Some (0, ?s')"
        using True False m cur a t b T by (cases k; cases s)
          (auto simp: co_call_def uc_delete_def fc_delete_def ensure Let_def free_stack_def free_slot_def)
      then show ?thesis using delete_inv [OF i m', of c sl a] t(1) a True False A
        by (simp add: step_ok_def)
    next
      case stop: False
      have "co_call k (DeleteC c) s = map_option (Pair 0) (shutdown (mainbuf k) mgr ?s)"
        using stop False m cur
        by (cases k) (auto simp: co_call_def uc_delete_def fc_delete_def ensure Let_def uc_release_eq fc_release_eq uc_final fc_drop
          shutdown_def mainbuf_def)
      moreover obtain s' where "shutdown (mainbuf k) mgr ?s = (if GetCurrentCoroutine s = main_of s then Some s' else None)" "exited s'" "specific s' = None" "slot_heap s' = Map.empty"
          "stack_heap s' = Map.empty" "entered s' = entered s"
        using shutdown_ok [OF i m'] by auto
      ultimately show ?thesis using stop False A by (auto simp: step_ok_def)
    qed
  qed
qed

lemma call_step: "co_inv k s \<Longrightarrow> step_ok k c s"
  by (cases c) (simp_all add: create_step switch_step delete_step)

interpretation uc: coroutine_impl "co_inv Ucontext" co_abs "co_call Ucontext"
  using call_step [of Ucontext] by unfold_locales (auto simp: step_ok_def dest: shapeD(1))

interpretation fc: coroutine_impl "co_inv Fcontext" co_abs "co_call Fcontext"
  using call_step [of Fcontext] by unfold_locales (auto simp: step_ok_def dest: shapeD(1))

section \<open>The property\<close>

definition co_init :: "kind \<Rightarrow> u64 \<Rightarrow> int \<Rightarrow> int \<Rightarrow> costate \<Rightarrow> nat \<times> costate" where
  "co_init k data ec es s = (case k of Ucontext \<Rightarrow> uc_init data ec es s | Fcontext \<Rightarrow> fc_init data es s)"

text \<open>A thread that has made no call yet; addresses on the heap are greater than the magic number.\<close>

definition co_start :: "costate \<Rightarrow> bool" where
  "co_start s \<longleftrightarrow> specific s = None \<and> slot_heap s = Map.empty \<and> stack_heap s = Map.empty \<and> 0x42 < next_addr s \<and>
     running s = 0 \<and> entered s = [] \<and> \<not> exited s"

definition a_start :: "nat \<Rightarrow> u64 \<Rightarrow> coabs" where
  "a_start h data = \<lparr>amain = h, acur = h, atab = [h \<mapsto> (data, Active)]\<rparr>"

lemma init_inv:
  assumes s: "co_start s" and i: "co_init k data ec es s = (h, s1)" "h \<noteq> 0"
  shows "co_inv k s1" "co_abs s1 = a_start h data" "entered s1 = []"
proof -
  let ?a = "next_addr s"
  let ?sl = "\<lparr>cContext = (case k of Ucontext \<Rightarrow> Resume 0 | Fcontext \<Rightarrow> NoContext), cData = data, cStackBuffer = mainbuf k, cStackSize = 0\<rparr>"
  have s1: "h = (case k of Ucontext \<Rightarrow> ?a | Fcontext \<Rightarrow> 0x42)"
    "s1 = s\<lparr>g_tls_inited := True, slot_heap := [?a \<mapsto> ?sl], next_addr := ?a + 1,
      specific := Some \<lparr>MainContext = h, CurrentContext = h, Slots = [(h, ?a)]\<rparr>\<rparr>"
    using assms by (cases k; cases s;
      auto simp: co_init_def co_start_def uc_init_def fc_init_def ensure Let_def new_slot_def map_insert_def mainbuf_def split: if_split_asm)+
  have tv: "tab s1 = [h \<mapsto> ?a]" by (simp add: s1 tab_def)
  have mv: "main_of s1 = h" "GetCurrentCoroutine s1 = h" by (simp_all add: s1(2) main_of_def GetCurrentCoroutine_def)
  have sv: "slot_at s1 = [h \<mapsto> ?sl]" by (rule ext) (simp add: slot_at_def tv, simp add: s1(2))
  have f: "exited s1 = False" "running s1 = 0" "entered s1 = []" "next_addr s1 = ?a + 1" "slot_heap s1 = [?a \<mapsto> ?sl]" "stack_heap s1 = Map.empty"
    using s by (simp_all add: s1(2) co_start_def)
  have a: "0x42 < ?a" using s by (simp add: co_start_def)
  have "co_shape k s1" using a i(2) s1(1) by (cases k) (auto simp: co_shape_def tv f mainbuf_def, auto simp: s1(2))
  moreover have "co_stacks k s1" by (auto simp: co_stacks_def sv mv f)
  moreover have "co_flows k s1" by (auto simp: co_flows_def sv mv f flow_def)
  ultimately show "co_inv k s1" by (simp add: co_inv_def)
  show "co_abs s1 = a_start h data" by (simp add: co_abs_def a_start_def sv mv fun_eq_iff)
  show "entered s1 = []" by (rule f)
qed

lemma session_any:
  "co_inv k s \<Longrightarrow>
   (case session (co_call k) cs s of
      None \<Rightarrow> \<exists>cs1 c cs2 rs s' A. cs = cs1 @ c # cs2 \<and> session (co_call k) cs1 s = Some (rs, s') \<and>
        fst (a_session cs1 rs (co_abs s)) = Some A \<and> unsafe c A
    | Some (rs, s') \<Rightarrow> a_safe cs rs (co_abs s) \<and>
        (case fst (a_session cs rs (co_abs s)) of
           None \<Rightarrow> exited s' \<and> specific s' = None \<and> slot_heap s' = Map.empty \<and> stack_heap s' = Map.empty
         | Some A \<Rightarrow> co_inv k s' \<and> co_abs s' = A) \<and>
        map snd (entered s') = map snd (entered s) @ snd (a_session cs rs (co_abs s)))"
  using uc.session_refines [of s cs] fc.session_refines [of s cs] by (cases k) blast+

text \<open>
  C16: Coroutines behave as a table of suspended computations, on ucontext and on fcontext alike,
  but for one call.  A sequence of calls on a thread that has been prepared uses a freed object
  exactly when it comes to delete the current or the main coroutine while another coroutine than
  the main one runs: pthread\_exit is then called on a freed stack.  In every other sequence no
  freed object is used, and afterwards either the main coroutine has shut the thread down and
  everything is freed, or GetCurrentCoroutine and GetCoroutineData give the coroutine that runs
  and its data, every other coroutine goes on exactly where it was left or enters its body with
  its data, each on its own stack; and the bodies entered are those of the specification, each on
  a stack of its own.
\<close>

theorem coroutines_refine:
  assumes "co_start s0" and "co_init k data ec es s0 = (h, s1)" and "h \<noteq> 0"
  shows "case session (co_call k) cs s1 of
      None \<Rightarrow> \<exists>cs1 c cs2 rs s A. cs = cs1 @ c # cs2 \<and> session (co_call k) cs1 s1 = Some (rs, s) \<and>
        fst (a_session cs1 rs (a_start h data)) = Some A \<and> unsafe c A
    | Some (rs, s) \<Rightarrow> a_safe cs rs (a_start h data) \<and>
        map snd (entered s) = snd (a_session cs rs (a_start h data)) \<and>
        (case fst (a_session cs rs (a_start h data)) of
           None \<Rightarrow> exited s \<and> specific s = None \<and> slot_heap s = Map.empty \<and> stack_heap s = Map.empty
         | Some A \<Rightarrow> GetCurrentCoroutine s = acur A \<and> GetCoroutineData s = map_option fst (atab A (acur A)) \<and>
             map_option (flow k) (slot_at s (acur A)) = Some (running s) \<and> distinct (map fst (entered s)) \<and>
             (\<forall>q sl. slot_at s q = Some sl \<and> q \<noteq> acur A \<longrightarrow> (case atab A q of
                Some (d, Fresh b) \<Rightarrow> cContext sl = start k (flow k sl) b d
              | _ \<Rightarrow> cContext sl = Resume (flow k sl))))"
proof (cases "session (co_call k) cs s1")
  case None
  note i = init_inv [OF assms]
  show ?thesis using session_any [OF i(1), of cs] None unfolding i(2) by simp
next
  case (Some y)
  obtain rs s where y: "y = (rs, s)" by (rule prod.exhaust)
  note i = init_inv [OF assms]
  have sf: "a_safe cs rs (a_start h data)" and e: "map snd (entered s) = snd (a_session cs rs (a_start h data))"
    and c: "case fst (a_session cs rs (a_start h data)) of
        None \<Rightarrow> exited s \<and> specific s = None \<and> slot_heap s = Map.empty \<and> stack_heap s = Map.empty
      | Some A \<Rightarrow> co_inv k s \<and> co_abs s = A"
    using session_any [OF i(1), of cs] Some y unfolding i(2,3) by auto
  show ?thesis
  proof (cases "fst (a_session cs rs (a_start h data))")
    case None
    then show ?thesis using Some y sf e c by simp
  next
    case A: (Some A)
    then have inv: "co_inv k s" and A': "co_abs s = A" using c by auto
    have cur: "acur A = GetCurrentCoroutine s" by (simp add: co_abs_def flip: A')
    have run: "map_option (flow k) (slot_at s (acur A)) = Some (running s)" unfolding cur by (rule flowsD(1) [OF inv])
    obtain mgr where m: "specific s = Some mgr" using shapeD(2) [OF inv] by blast
    obtain sl where sl: "slot_at s (GetCurrentCoroutine s) = Some sl" using current_slot [OF inv] by blast
    have d: "GetCoroutineData s = map_option fst (atab A (acur A))"
      using sl m by (auto simp: GetCoroutineData_def slot_at_def tab_def GetCurrentCoroutine_def co_abs_def bind_eq_Some_conv simp flip: A')
    have "case atab A q of Some (d, Fresh b) \<Rightarrow> cContext x = start k (flow k x) b d | _ \<Rightarrow> cContext x = Resume (flow k x)"
      if "slot_at s q = Some x" "q \<noteq> acur A" for q x
      using flowsD(2) [OF inv that(1)] that unfolding cur
      by (cases k) (auto simp: co_abs_def phase_of_def start_def simp flip: A')
    then show ?thesis using Some y sf e run d A flowsD(3) [OF inv] cur by simp
  qed
qed

definition bare_thread :: costate where
  "bare_thread = \<lparr>g_tls_inited = False, specific = None, slot_heap = (\<lambda>_. None), stack_heap = (\<lambda>_. None), next_addr = 0x50,
     running = 0, entered = [], exited = False\<rparr>"

definition there_and_back :: "nat \<Rightarrow> nat \<Rightarrow> co_call list" where
  "there_and_back m c = [CreateC 0 0 7 100, SwitchC c, SwitchC m]"

lemma coroutines_refine_witness:
  "\<exists>rs s. session (co_call Fcontext) (there_and_back 0x42 0x52) (snd (co_init Fcontext 99 0 0 bare_thread)) = Some (rs, s) \<and>
     rs = [0x52, 0, 0] \<and> map snd (entered s) = [(7, 100)] \<and> GetCurrentCoroutine s = 0x42 \<and> GetCoroutineData s = Some 99"
proof -
  have st: "co_start bare_thread" by (simp add: co_start_def bare_thread_def)
  obtain h s1 where i: "co_init Fcontext 99 0 0 bare_thread = (h, s1)" by (rule prod.exhaust)
  have "fst (co_init Fcontext 99 0 0 bare_thread) = 0x42" by code_simp
  then have h: "h = 0x42" using i by simp
  have "map_option fst (session (co_call Fcontext) (there_and_back 0x42 0x52) (snd (co_init Fcontext 99 0 0 bare_thread))) = Some [0x52, 0, 0]"
    by code_simp
  then obtain s where s: "session (co_call Fcontext) (there_and_back 0x42 0x52) s1 = Some ([0x52, 0, 0], s)" using i by auto
  have a: "map_option (\<lambda>A. (acur A, map_option fst (atab A (acur A)))) (fst (a_session (there_and_back 0x42 0x52) [0x52, 0, 0] (a_start 0x42 99))) =
      Some (0x42, Some 99)" "snd (a_session (there_and_back 0x42 0x52) [0x52, 0, 0] (a_start 0x42 99)) = [(7, 100)]"
    by code_simp+
  obtain A where A: "fst (a_session (there_and_back 0x42 0x52) [0x52, 0, 0] (a_start 0x42 99)) = Some A" "acur A = 0x42"
      "map_option fst (atab A (acur A)) = Some 99" using a(1) by auto
  have "h \<noteq> 0" using h by simp
  from coroutines_refine [OF st i this, of "there_and_back 0x42 0x52"]
  have "map snd (entered s) = snd (a_session (there_and_back 0x42 0x52) [0x52, 0, 0] (a_start 0x42 99))"
      "GetCurrentCoroutine s = acur A" "GetCoroutineData s = map_option fst (atab A (acur A))"
    unfolding s option.case prod.case h A(1) by simp_all
  then show ?thesis using A a(2) i s by simp
qed

text \<open>
  A coroutine that deletes itself frees the stack it runs on and then calls pthread\_exit on it;
  the main coroutine may delete itself.
\<close>

lemma delete_running_stack:
  "session (co_call Ucontext) [CreateC 0 0 7 100, SwitchC 0x51, DeleteC 0x51] (snd (co_init Ucontext 99 0 0 bare_thread)) = None"
  "session (co_call Fcontext) [CreateC 0 0 7 100, SwitchC 0x52, DeleteC 0x52] (snd (co_init Fcontext 99 0 0 bare_thread)) = None"
  "map_option (\<lambda>(rs, s). exited s)
     (session (co_call Ucontext) [CreateC 0 0 7 100, SwitchC 0x51, SwitchC 0x50, DeleteC 0x50] (snd (co_init Ucontext 99 0 0 bare_thread))) = Some True"
  by code_simp+

end
