(* ===== verification/ThreadLock.thy ===== *)
theory ThreadLock
  imports Prelude
begin

text \<open>
  src/platform/threadlock\_posix.hpp and the ScopedThreadLock of include/xpf/threadlock.h: a recursive
  mutex of pthread with a note of its owner beside it.  The note is written after the mutex is
  taken and after it is released, so lock and unlock are two steps each, between which other
  threads run.  The second half is the discipline of ScopedThreadLock, threads that call members
  of an object under its lock, and the proof that each call is atomic.
\<close>

section \<open>The mutex\<close>

type_synonym ThreadID = u64

definition INVALID_THREAD_ID :: ThreadID where
  "INVALID_THREAD_ID = - 1"

text \<open>A mutex of type PTHREAD\_MUTEX\_RECURSIVE: free, or held by a thread some number of times.\<close>

type_synonym mutex = "(ThreadID \<times> nat) option"

text \<open>None when the call would block; \<open>trylock\<close> returns EBUSY in that case.\<close>

fun pthread_mutex_lock :: "ThreadID \<Rightarrow> mutex \<Rightarrow> mutex option" where
  "pthread_mutex_lock t None = Some (Some (t, 1))"
| "pthread_mutex_lock t (Some (u, n)) = (if u = t then Some (Some (u, Suc n)) else None)"

text \<open>Unlocking a mutex that another thread holds, or none, is the error EPERM.\<close>

fun pthread_mutex_unlock :: "ThreadID \<Rightarrow> mutex \<Rightarrow> mutex" where
  "pthread_mutex_unlock t None = None"
| "pthread_mutex_unlock t (Some (u, n)) =
     (if u = t then (if n \<le> 1 then None else Some (u, n - 1)) else Some (u, n))"

section \<open>XpfThreadLock\<close>

record xlock =
  mOwner :: ThreadID
  mMutex :: mutex

definition lock_ctor :: xlock where
  "lock_ctor = \<lparr>mOwner = INVALID_THREAD_ID, mMutex = None\<rparr>"

text \<open>The two halves of \<open>lock\<close> and of \<open>unlock\<close>.\<close>

definition lock_acquire :: "ThreadID \<Rightarrow> xlock \<Rightarrow> xlock option" where
  "lock_acquire t l = map_option (\<lambda>m. l\<lparr>mMutex := m\<rparr>) (pthread_mutex_lock t (mMutex l))"

definition lock_note :: "ThreadID \<Rightarrow> xlock \<Rightarrow> xlock" where
  "lock_note t l = l\<lparr>mOwner := t\<rparr>"

definition unlock_release :: "ThreadID \<Rightarrow> xlock \<Rightarrow> xlock" where
  "unlock_release t l = l\<lparr>mMutex := pthread_mutex_unlock t (mMutex l)\<rparr>"

definition unlock_note :: "xlock \<Rightarrow> xlock" where
  "unlock_note l = l\<lparr>mOwner := INVALID_THREAD_ID\<rparr>"

text \<open>The members when no other thread runs in between.\<close>

definition lock :: "ThreadID \<Rightarrow> xlock \<Rightarrow> xlock option" where
  "lock t l = map_option (lock_note t) (lock_acquire t l)"

definition tryLock :: "ThreadID \<Rightarrow> xlock \<Rightarrow> bool \<times> xlock" where
  "tryLock t l = (case lock_acquire t l of None \<Rightarrow> (False, l) | Some l' \<Rightarrow> (True, lock_note t l'))"

definition unlock :: "ThreadID \<Rightarrow> xlock \<Rightarrow> xlock" where
  "unlock t l = unlock_note (unlock_release t l)"

definition isLocked :: "xlock \<Rightarrow> bool" where
  "isLocked l \<longleftrightarrow> mOwner l \<noteq> INVALID_THREAD_ID"

definition getOwner :: "xlock \<Rightarrow> ThreadID" where
  "getOwner l = mOwner l"

section \<open>Calls under a ScopedThreadLock\<close>

text \<open>
  The body of a member is a list of steps on the object and the local variables of the call.  A
  thread is outside, or has the mutex and not noted it yet, or is in the body, or has released
  the mutex and not cleared the note.  \<open>history\<close> collects the calls with their results in the
  order in which they release the mutex.
\<close>

type_synonym ('s, 'r) body = "('s \<times> 'r \<Rightarrow> 's \<times> 'r) list"

datatype ('s, 'r, 'op) section_phase =
  Outside | Entered 'op | Within 'op "('s, 'r) body" "('s, 'r) body" 'r | Left

record ('s, 'r, 'op) guarded =
  glock :: xlock
  shared :: 's
  phases :: "ThreadID \<Rightarrow> ('s, 'r, 'op) section_phase"
  history :: "(ThreadID \<times> 'op \<times> 'r) list"

inductive guarded_step :: "(ThreadID \<Rightarrow> 'op \<Rightarrow> ('s, 'r) body) \<Rightarrow> 'r \<Rightarrow>
    ('s, 'r, 'op) guarded \<Rightarrow> ('s, 'r, 'op) guarded \<Rightarrow> bool" for code r0 where
  enter: "\<lbrakk>phases g t = Outside; lock_acquire t (glock g) = Some l\<rbrakk> \<Longrightarrow>
    guarded_step code r0 g (g\<lparr>glock := l, phases := (phases g)(t := Entered op)\<rparr>)"
| annotate: "phases g t = Entered op \<Longrightarrow>
    guarded_step code r0 g (g\<lparr>glock := lock_note t (glock g), phases := (phases g)(t := Within op [] (code t op) r0)\<rparr>)"
| work: "\<lbrakk>phases g t = Within op past (f # fs) r; f (shared g, r) = (s', r')\<rbrakk> \<Longrightarrow>
    guarded_step code r0 g (g\<lparr>shared := s', phases := (phases g)(t := Within op (past @ [f]) fs r')\<rparr>)"
| release: "phases g t = Within op past [] r \<Longrightarrow>
    guarded_step code r0 g (g\<lparr>glock := unlock_release t (glock g), phases := (phases g)(t := Left),
      history := history g @ [(t, op, r)]\<rparr>)"
| clear: "phases g t = Left \<Longrightarrow>
    guarded_step code r0 g (g\<lparr>glock := unlock_note (glock g), phases := (phases g)(t := Outside)\<rparr>)"

definition guarded_start :: "'s \<Rightarrow> ('s, 'r, 'op) guarded" where
  "guarded_start s = \<lparr>glock = lock_ctor, shared = s, phases = (\<lambda>_. Outside), history = []\<rparr>"

definition guarded_reach :: "(ThreadID \<Rightarrow> 'op \<Rightarrow> ('s, 'r) body) \<Rightarrow> 'r \<Rightarrow> 's \<Rightarrow> ('s, 'r, 'op) guarded \<Rightarrow> bool" where
  "guarded_reach code r0 s g \<longleftrightarrow> (guarded_step code r0)\<^sup>*\<^sup>* (guarded_start s) g"

text \<open>A thread between the two halves of lock and unlock, on the side where it has the mutex.\<close>

fun holding :: "('s, 'r, 'op) section_phase \<Rightarrow> bool" where
  "holding (Entered op) = True"
| "holding (Within op past fs r) = True"
| "holding _ = False"

text \<open>The calls of a history one after the other, with the results that they have then.\<close>

fun serial :: "(ThreadID \<Rightarrow> 'op \<Rightarrow> 's \<Rightarrow> 'r \<times> 's) \<Rightarrow> (ThreadID \<times> 'op \<times> 'r) list \<Rightarrow> 's \<Rightarrow> 's option" where
  "serial spec [] s = Some s"
| "serial spec ((t, op, r) # h) s = (let (r', s') = spec t op s in if r' = r then serial spec h s' else None)"

lemma serial_append:
  "serial spec (h @ h') s = (case serial spec h s of None \<Rightarrow> None | Some s' \<Rightarrow> serial spec h' s')"
  by (induction spec h s rule: serial.induct) (auto simp: Let_def split: prod.split)

section \<open>Mutual exclusion\<close>

text \<open>The mutex is held exactly by the thread that is in a section, once.\<close>

definition mutex_inv :: "('s, 'r, 'op) guarded \<Rightarrow> bool" where
  "mutex_inv g \<longleftrightarrow> (\<forall>t. holding (phases g t) \<longleftrightarrow> mMutex (glock g) = Some (t, 1)) \<and>
     (mMutex (glock g) = None \<or> (\<exists>t. mMutex (glock g) = Some (t, 1)))"

text \<open>
  The note names a thread that is in its section or has not finished leaving it.  It may miss the
  thread that holds the mutex, see below.
\<close>

definition owner_inv :: "('s, 'r, 'op) guarded \<Rightarrow> bool" where
  "owner_inv g \<longleftrightarrow> isLocked (glock g) \<longrightarrow>
     phases g (getOwner (glock g)) = Left \<or> (\<exists>op past fs r. phases g (getOwner (glock g)) = Within op past fs r)"

inductive_cases guarded_stepE: "guarded_step code r0 g g'"

lemmas lock_defs = lock_acquire_def lock_note_def unlock_release_def unlock_note_def

lemma mutex_held: "mMutex (glock g) = Some (t, 1) \<Longrightarrow> (\<And>u. holding (phases g u) \<longleftrightarrow> u = t) \<Longrightarrow> mutex_inv g"
  by (auto simp: mutex_inv_def)

lemma mutex_free: "mMutex (glock g) = None \<Longrightarrow> (\<And>u. \<not> holding (phases g u)) \<Longrightarrow> mutex_inv g"
  by (simp add: mutex_inv_def)

lemma mutex_heldD:
  assumes "mutex_inv g" "holding (phases g t)"
  shows "mMutex (glock g) = Some (t, 1)" "holding (phases g u) \<longleftrightarrow> u = t"
  using assms unfolding mutex_inv_def by auto

lemma mutex_cases:
  assumes "mutex_inv g"
  obtains (free) "mMutex (glock g) = None" "\<And>u. \<not> holding (phases g u)"
    | (held) t where "mMutex (glock g) = Some (t, 1)" "\<And>u. holding (phases g u) \<longleftrightarrow> u = t"
proof (cases "mMutex (glock g)")
  case None
  then show ?thesis using assms free unfolding mutex_inv_def by auto
next
  case (Some a)
  then obtain t where "mMutex (glock g) = Some (t, 1)" using assms unfolding mutex_inv_def by auto
  then show ?thesis using assms held [of t] unfolding mutex_inv_def by auto
qed

lemma enter_free:
  assumes "mutex_inv g" "phases g t = Outside" "lock_acquire t (glock g) = Some l"
  shows "mMutex (glock g) = None" "mMutex l = Some (t, 1)" "\<not> holding (phases g u)"
proof -
  have "mMutex (glock g) = None \<and> mMutex l = Some (t, 1) \<and> (\<forall>u. \<not> holding (phases g u))"
    using assms(1)
  proof (cases rule: mutex_cases)
    case free
    then show ?thesis using assms(3) by (auto simp: lock_defs)
  next
    case (held u)
    have "u \<noteq> t" using held(2) [of t] assms(2) by auto
    then show ?thesis using assms(3) held(1) by (simp add: lock_defs)
  qed
  then show "mMutex (glock g) = None" "mMutex l = Some (t, 1)" "\<not> holding (phases g u)" by simp_all
qed

lemma mutex_step:
  assumes "guarded_step code r0 g g'" "mutex_inv g"
  shows "mutex_inv g'"
  using assms(1)
proof cases
  case (enter t l op)
  show ?thesis using enter_free [OF assms(2) enter(2,3)] enter(1) by (intro mutex_held [of _ t]) simp_all
next
  case (annotate t op)
  have "holding (phases g t)" using annotate by simp
  note mutex_heldD [OF assms(2) this]
  then show ?thesis using annotate by (intro mutex_held [of _ t]) (simp_all add: lock_defs)
next
  case (work t op past f fs r s' r')
  have "holding (phases g t)" using work by simp
  note mutex_heldD [OF assms(2) this]
  then show ?thesis using work by (intro mutex_held [of _ t]) (simp_all add: lock_defs)
next
  case (release t op past r)
  have "holding (phases g t)" using release by simp
  note mutex_heldD [OF assms(2) this]
  then show ?thesis using release by (intro mutex_free) (simp_all add: lock_defs)
next
  case (clear t)
  show ?thesis using assms(2)
  proof (cases rule: mutex_cases)
    case free
    then show ?thesis using clear by (intro mutex_free) (simp_all add: lock_defs)
  next
    case (held u)
    have "t \<noteq> u" using held(2) [of t] clear(2) by auto
    then show ?thesis using held clear by (intro mutex_held [of _ u]) (simp_all add: lock_defs)
  qed
qed

lemma mutex_reach: "guarded_reach code r0 s g \<Longrightarrow> mutex_inv g"
  unfolding guarded_reach_def
proof (induction rule: rtranclp_induct)
  case base
  show ?case by (rule mutex_free) (simp_all add: guarded_start_def lock_ctor_def)
qed (rule mutex_step)

lemma one_holder: "mutex_inv g \<Longrightarrow> holding (phases g t) \<Longrightarrow> holding (phases g u) \<Longrightarrow> t = u"
  by (simp add: mutex_heldD)

lemma owner_step: "guarded_step code r0 g g' \<Longrightarrow> owner_inv g \<Longrightarrow> owner_inv g'"
  by (induction rule: guarded_step.induct)
    (auto simp: owner_inv_def lock_defs isLocked_def getOwner_def)

lemma owner_reach: "guarded_reach code r0 s g \<Longrightarrow> owner_inv g"
  unfolding guarded_reach_def
proof (induction rule: rtranclp_induct)
  case base
  show ?case by (simp add: owner_inv_def guarded_start_def lock_ctor_def isLocked_def)
qed (rule owner_step)

section \<open>Atomicity\<close>

text \<open>
  What a body does when it runs alone is the contract of a member; every interleaving of calls
  then has the effect and the results of running them one after the other.
\<close>

definition run_body :: "('s, 'r) body \<Rightarrow> 's \<times> 'r \<Rightarrow> 's \<times> 'r" where
  "run_body fs x = fold (\<lambda>f. f) fs x"

lemma run_body_simps [simp]:
  "run_body [] x = x" "run_body (f # fs) x = run_body fs (f x)" "run_body (fs @ gs) x = run_body gs (run_body fs x)"
  by (simp_all add: run_body_def)

locale guarded_object =
  fixes code :: "ThreadID \<Rightarrow> 'op \<Rightarrow> ('s, 'r) body" and r0 :: 'r
    and spec :: "ThreadID \<Rightarrow> 'op \<Rightarrow> 's \<Rightarrow> 'r \<times> 's"
  assumes code_spec: "run_body (code t op) (s, r0) = (s', r) \<Longrightarrow> spec t op s = (r, s')"
begin

text \<open>The object is where the calls of the history have left it, and a body that runs has come as far as it has.\<close>

definition atomic_inv :: "'s \<Rightarrow> ('s, 'r, 'op) guarded \<Rightarrow> bool" where
  "atomic_inv s g \<longleftrightarrow> (\<exists>m. serial spec (history g) s = Some m \<and>
     (\<forall>t op past fs r. phases g t = Within op past fs r \<longrightarrow>
        past @ fs = code t op \<and> run_body past (m, r0) = (shared g, r)) \<and>
     ((\<forall>t op past fs r. phases g t \<noteq> Within op past fs r) \<longrightarrow> shared g = m))"

lemma atomic_step:
  assumes "guarded_step code r0 g g'" "mutex_inv g" "atomic_inv s g"
  shows "atomic_inv s g'"
proof -
  obtain m where m: "serial spec (history g) s = Some m"
    "\<And>t op past fs r. phases g t = Within op past fs r \<Longrightarrow> past @ fs = code t op \<and> run_body past (m, r0) = (shared g, r)"
    "(\<forall>t op past fs r. phases g t \<noteq> Within op past fs r) \<longrightarrow> shared g = m"
    using assms(3) unfolding atomic_inv_def by metis
  have alone: "u = t" if "holding (phases g t)" "phases g u = Within op past fs r" for t u op past fs r
    using one_holder [OF assms(2) that(1), of u] that(2) by simp
  show ?thesis using assms(1)
  proof cases
    case (enter t l op)
    have n: "phases g u \<noteq> Within op past fs r" for u op past fs r
      using enter_free(3) [OF assms(2) enter(2,3), of u] by (cases "phases g u") simp_all
    then have "shared g = m" using m(3) by simp
    then show ?thesis using m(1) n by (simp add: atomic_inv_def enter(1))
  next
    case (annotate t op)
    have h: "holding (phases g t)" using annotate by simp
    have n: "phases g u \<noteq> Within op past fs r" for u op past fs r using alone [OF h] annotate(2) by force
    then have "shared g = m" using m(3) by simp
    moreover have "phases g' u = Within op' past fs r \<longleftrightarrow> u = t \<and> op' = op \<and> past = [] \<and> fs = code t op \<and> r = r0"
      for u op' past fs r using n by (auto simp: annotate(1))
    ultimately show ?thesis using m(1) annotate(1) by (auto simp: atomic_inv_def)
  next
    case (work t op past f fs r s' r')
    have h: "holding (phases g t)" using work by simp
    have w: "phases g' u = Within op' past' fs' q \<longleftrightarrow> u = t \<and> op' = op \<and> past' = past @ [f] \<and> fs' = fs \<and> q = r'"
      for u op' past' fs' q using alone [OF h, of u op' past' fs' q] by (auto simp: work(1))
    have "run_body (past @ [f]) (m, r0) = (shared g', r')" "(past @ [f]) @ fs = code t op"
      using m(2) [OF work(2)] work(1,3) by simp_all
    moreover have "history g' = history g" by (simp add: work(1))
    ultimately show ?thesis using m(1) w by (auto simp: atomic_inv_def simp del: run_body_simps)
  next
    case (release t op past r)
    have h: "holding (phases g t)" using release by simp
    have n: "phases g' u \<noteq> Within op' past' fs' q" for u op' past' fs' q
      using alone [OF h, of u op' past' fs' q] by (auto simp: release(1))
    have "run_body (code t op) (m, r0) = (shared g, r)" using m(2) [OF release(2)] by auto
    from code_spec [OF this] have "serial spec (history g') s = Some (shared g')"
      using m(1) by (simp add: release(1) serial_append)
    then show ?thesis using n by (simp add: atomic_inv_def)
  next
    case (clear t)
    have w: "phases g' u = Within op past fs q \<longleftrightarrow> phases g u = Within op past fs q" for u op past fs q
      using clear(2) by (auto simp: clear(1))
    have "shared g' = shared g" "history g' = history g" by (simp_all add: clear(1))
    then show ?thesis using assms(3) by (simp add: atomic_inv_def w)
  qed
qed

lemma atomic_reach:
  assumes "guarded_reach code r0 s g"
  shows "atomic_inv s g"
  using assms unfolding guarded_reach_def
proof (induction rule: rtranclp_induct)
  case base
  show ?case by (simp add: atomic_inv_def guarded_start_def)
next
  case (step g g')
  then show ?case using atomic_step mutex_reach [of code r0 s g] by (auto simp: guarded_reach_def)
qed

lemma serial_reach:
  assumes "guarded_reach code r0 s g"
  shows "\<exists>s'. serial spec (history g) s = Some s' \<and> ((\<forall>t. \<not> holding (phases g t)) \<longrightarrow> shared g = s')"
  using atomic_reach [OF assms] unfolding atomic_inv_def by (metis holding.simps(2))

end

section \<open>Schedules\<close>

text \<open>
  One step of the given thread, which calls the given member when it is outside; None when it
  would block.
\<close>

fun sched_step :: "(ThreadID \<Rightarrow> 'op \<Rightarrow> ('s, 'r) body) \<Rightarrow> 'r \<Rightarrow> ThreadID \<times> 'op \<Rightarrow>
    ('s, 'r, 'op) guarded \<Rightarrow> ('s, 'r, 'op) guarded option" where
  "sched_step code r0 (t, call) g = (case phases g t of
     Outside \<Rightarrow> map_option (\<lambda>l. g\<lparr>glock := l, phases := (phases g)(t := Entered call)\<rparr>) (lock_acquire t (glock g))
   | Entered op \<Rightarrow> Some (g\<lparr>glock := lock_note t (glock g), phases := (phases g)(t := Within op [] (code t op) r0)\<rparr>)
   | Within op past fs r \<Rightarrow> (case fs of
        [] \<Rightarrow> Some (g\<lparr>glock := unlock_release t (glock g), phases := (phases g)(t := Left), history := history g @ [(t, op, r)]\<rparr>)
      | f # fs \<Rightarrow> (case f (shared g, r) of (s', r') \<Rightarrow>
          Some (g\<lparr>shared := s', phases := (phases g)(t := Within op (past @ [f]) fs r')\<rparr>)))
   | Left \<Rightarrow> Some (g\<lparr>glock := unlock_note (glock g), phases := (phases g)(t := Outside)\<rparr>))"

fun guarded_run :: "(ThreadID \<Rightarrow> 'op \<Rightarrow> ('s, 'r) body) \<Rightarrow> 'r \<Rightarrow> (ThreadID \<times> 'op) list \<Rightarrow>
    ('s, 'r, 'op) guarded \<Rightarrow> ('s, 'r, 'op) guarded option" where
  "guarded_run code r0 [] g = Some g"
| "guarded_run code r0 (x # xs) g = Option.bind (sched_step code r0 x g) (guarded_run code r0 xs)"

lemma sched_step_sound: "sched_step code r0 x g = Some g' \<Longrightarrow> guarded_step code r0 g g'"
  by (cases x; cases "phases g (fst x)")
    (auto intro: guarded_step.intros split: list.splits prod.splits)

lemma guarded_run_steps: "guarded_run code r0 xs g = Some g' \<Longrightarrow> (guarded_step code r0)\<^sup>*\<^sup>* g g'"
proof (induction xs arbitrary: g)
  case (Cons x xs)
  then obtain h where "sched_step code r0 x g = Some h" "guarded_run code r0 xs h = Some g'"
    by (auto simp: bind_eq_Some_conv)
  then show ?case using Cons.IH sched_step_sound by (meson converse_rtranclp_into_rtranclp)
qed simp

lemma guarded_run_reach: "guarded_run code r0 xs (guarded_start s) = Some g \<Longrightarrow> guarded_reach code r0 s g"
  unfolding guarded_reach_def by (rule guarded_run_steps)

section \<open>The note and the mutex\<close>

lemma lock_unlock: "mMutex l = None \<Longrightarrow> map_option (unlock t) (lock t l) = Some (l\<lparr>mOwner := INVALID_THREAD_ID\<rparr>)"
  by (simp add: lock_def unlock_def lock_defs)

lemma tryLock_fails: "fst (tryLock t l) \<longleftrightarrow> lock t l \<noteq> None" "\<not> fst (tryLock t l) \<Longrightarrow> snd (tryLock t l) = l"
  by (auto simp: tryLock_def lock_def split: option.splits)

text \<open>A thread that locked twice and unlocked once holds the mutex, and \<open>isLocked\<close> denies it.\<close>

lemma nested_unlock_clears_owner:
  "\<exists>l1 l2. lock 1 lock_ctor = Some l1 \<and> lock 1 l1 = Some l2 \<and>
     mMutex (unlock 1 l2) = Some (1, 1) \<and> \<not> isLocked (unlock 1 l2)"
  by (simp add: lock_def unlock_def lock_defs lock_ctor_def isLocked_def)

text \<open>
  A thread that is preempted in \<open>unlock\<close>, between its halves, clears the note of the next owner:
  thread 2 is in its section, and \<open>isLocked\<close> denies it.
\<close>

lemma late_unlock_clears_owner:
  "\<exists>g :: (unit, unit, unit) guarded. guarded_reach (\<lambda>_ _. []) () () g \<and> phases g 2 = Within () [] [] () \<and>
     mMutex (glock g) = Some (2, 1) \<and> \<not> isLocked (glock g)"
proof -
  obtain g where g: "guarded_run (\<lambda>_ _. []) () [(1, ()), (1, ()), (1, ()), (2, ()), (2, ()), (1, ())] (guarded_start ()) = Some g"
    "phases g 2 = Within () [] [] ()" "mMutex (glock g) = Some (2, 1)" "\<not> isLocked (glock g)"
    by (simp add: guarded_start_def lock_ctor_def lock_defs isLocked_def)
  from guarded_run_reach [OF g(1)] g(2-) show ?thesis by blast
qed

end
