(* ===== verification/Tls.thy ===== *)
theory Tls
  imports ThreadLock NetIoMux
begin

text \<open>
  include/xpf/tls.h and src/platform/tls\_posix.hpp: slots of thread-local data over the keys of
  pthread, and TlsMap, a map from threads to values that all threads may read, whose members run
  under a ScopedThreadLock.  The queue of the multiplexer, the other class with a lock of its own,
  is a guarded object of ThreadLock like TlsMap.  Assertions are those of an NDEBUG build.
\<close>

section \<open>Slots\<close>

text \<open>
  Keys are numbers, of which some are in use, with a value for each thread; \<open>tobj\<close> holds the TlsIndex
  objects by address.  What \<open>pthread_key_create\<close> gives (None when it fails), the address that
  \<open>new\<close> gives and whether \<open>pthread_setspecific\<close> finds memory are arguments.
\<close>

record tls =
  tlive :: "nat \<Rightarrow> bool"
  tval :: "nat \<Rightarrow> ThreadID \<Rightarrow> ptr"
  tobj :: "ptr \<Rightarrow> nat option"

definition pthread_key_create :: "nat \<Rightarrow> tls \<Rightarrow> tls" where
  "pthread_key_create k s = s\<lparr>tlive := (tlive s)(k := True), tval := (tval s)(k := \<lambda>_. 0)\<rparr>"

text \<open>The result is 0 for a key in use and EINVAL otherwise.\<close>

definition pthread_key_delete :: "nat \<Rightarrow> tls \<Rightarrow> bool \<times> tls" where
  "pthread_key_delete k s = (tlive s k, s\<lparr>tlive := (tlive s)(k := False)\<rparr>)"

definition TlsCreate :: "nat option \<Rightarrow> ptr \<Rightarrow> tls \<Rightarrow> ptr \<times> tls" where
  "TlsCreate key a s = (case key of None \<Rightarrow> (0, s)
     | Some k \<Rightarrow> (let s = pthread_key_create k s in (a, s\<lparr>tobj := (tobj s)(a := Some k)\<rparr>)))"

text \<open>None is the use of an index that is not one, or of a key that was deleted.\<close>

definition TlsDelete :: "ptr \<Rightarrow> tls \<Rightarrow> tls option" where
  "TlsDelete index s = (if index = 0 then Some s else case tobj s index of None \<Rightarrow> None
     | Some k \<Rightarrow> (let (ok, s) = pthread_key_delete k s in
         Some (if ok then s\<lparr>tobj := (tobj s)(index := None)\<rparr> else s)))"

definition TlsGet :: "ThreadID \<Rightarrow> ptr \<Rightarrow> tls \<Rightarrow> ptr option" where
  "TlsGet t index s = (if index = 0 then Some 0 else case tobj s index of None \<Rightarrow> None
     | Some k \<Rightarrow> if tlive s k then Some (tval s k t) else None)"

definition TlsSet :: "bool \<Rightarrow> ThreadID \<Rightarrow> ptr \<Rightarrow> ptr \<Rightarrow> tls \<Rightarrow> tls option" where
  "TlsSet ok t index data s = (if index = 0 then Some s else case tobj s index of None \<Rightarrow> None
     | Some k \<Rightarrow> if \<not> tlive s k then None
         else if ok then Some (s\<lparr>tval := (tval s)(k := (tval s k)(t := data))\<rparr>) else Some s)"

text \<open>A call of a thread, and what it returns: an index, data, or nothing (0).\<close>

datatype tls_op = Create "nat option" ptr | Delete ptr | Get ptr | Set bool ptr ptr

fun tls_call :: "ThreadID \<Rightarrow> tls_op \<Rightarrow> tls \<Rightarrow> (ptr \<times> tls) option" where
  "tls_call t (Create key a) s = Some (TlsCreate key a s)"
| "tls_call t (Delete i) s = map_option (Pair 0) (TlsDelete i s)"
| "tls_call t (Get i) s = map_option (\<lambda>d. (d, s)) (TlsGet t i s)"
| "tls_call t (Set ok i d) s = map_option (Pair 0) (TlsSet ok t i d s)"

text \<open>What pthread and \<open>new\<close> promise: a key not in use, an address not in use.\<close>

fun tls_honest :: "tls_op \<Rightarrow> tls \<Rightarrow> bool" where
  "tls_honest (Create (Some k) a) s \<longleftrightarrow> \<not> tlive s k \<and> a \<noteq> 0 \<and> tobj s a = None"
| "tls_honest _ s \<longleftrightarrow> True"

text \<open>The specification: each index has a table of its own, from threads to data, 0 at first.\<close>

fun tls_spec :: "ThreadID \<Rightarrow> tls_op \<Rightarrow> (ptr \<Rightarrow> (ThreadID \<Rightarrow> ptr) option) \<Rightarrow> (ptr \<times> (ptr \<Rightarrow> (ThreadID \<Rightarrow> ptr) option)) option" where
  "tls_spec t (Create None a) T = Some (0, T)"
| "tls_spec t (Create (Some k) a) T = Some (a, T(a \<mapsto> (\<lambda>_. 0)))"
| "tls_spec t (Delete i) T = (if i = 0 then Some (0, T) else case T i of None \<Rightarrow> None | Some f \<Rightarrow> Some (0, T(i := None)))"
| "tls_spec t (Get i) T = (if i = 0 then Some (0, T) else map_option (\<lambda>f. (f t, T)) (T i))"
| "tls_spec t (Set ok i d) T = (if i = 0 then Some (0, T) else
     map_option (\<lambda>f. (0, if ok then T(i \<mapsto> f(t := d)) else T)) (T i))"

definition tls_abs :: "tls \<Rightarrow> ptr \<Rightarrow> (ThreadID \<Rightarrow> ptr) option" where
  "tls_abs s i = map_option (tval s) (tobj s i)"

text \<open>Indices have keys of their own, which are in use.\<close>

definition tls_inv :: "tls \<Rightarrow> bool" where
  "tls_inv s \<longleftrightarrow> (\<forall>i k. tobj s i = Some k \<longrightarrow> tlive s k) \<and>
     (\<forall>i j k. tobj s i = Some k \<longrightarrow> tobj s j = Some k \<longrightarrow> i = j)"

lemmas tls_defs = TlsCreate_def TlsDelete_def TlsGet_def TlsSet_def pthread_key_create_def pthread_key_delete_def

lemma tls_inv_call:
  assumes I: "tls_inv s" and h: "tls_honest c s" and c: "tls_call t c s = Some (r, s')"
  shows "tls_inv s'"
proof (cases c)
  case (Create key a)
  show ?thesis
  proof (cases key)
    case (Some k)
    then have "tobj s' = (tobj s)(a \<mapsto> k)" "tlive s' = (tlive s)(k := True)" "\<not> tlive s k"
      using h c Create by (auto simp: tls_defs Let_def)
    then show ?thesis using I unfolding tls_inv_def by (auto split: if_split_asm)
  qed (use assms Create in \<open>simp add: tls_defs\<close>)
qed (use assms in \<open>auto simp: tls_defs tls_inv_def Let_def split: if_splits option.splits\<close>)

lemma tls_abs_call:
  assumes I: "tls_inv s" and h: "tls_honest c s"
  shows "map_option (map_prod (\<lambda>r. r) tls_abs) (tls_call t c s) = tls_spec t c (tls_abs s)"
proof (cases c)
  case (Create key a)
  show ?thesis
  proof (cases key)
    case (Some k)
    then have "tobj s i \<noteq> Some k" for i using assms Create by (auto simp: tls_inv_def)
    then have "map_option ((tval s)(k := \<lambda>_. 0)) (tobj s i) = map_option (tval s) (tobj s i)" for i
      by (cases "tobj s i") auto
    then show ?thesis using Create Some by (simp add: tls_defs tls_abs_def fun_eq_iff)
  qed (use Create in \<open>simp add: tls_defs\<close>)
next
  case (Set ok i d)
  show ?thesis
  proof (cases "tobj s i")
    case (Some k)
    then have "j \<noteq> i \<Longrightarrow> tobj s j \<noteq> Some k" for j using I unfolding tls_inv_def by blast
    then have "j \<noteq> i \<Longrightarrow> map_option ((tval s)(k := (tval s k)(t := d))) (tobj s j) = map_option (tval s) (tobj s j)" for j
      by (cases "tobj s j") auto
    then show ?thesis using Set Some I by (auto simp: tls_defs tls_inv_def tls_abs_def fun_eq_iff)
  qed (use Set in \<open>simp add: tls_defs tls_abs_def\<close>)
qed (use assms in \<open>auto simp: tls_defs tls_inv_def tls_abs_def fun_eq_iff split: option.splits\<close>)

text \<open>A session: calls of threads, one after the other, on honest answers; None is a misuse.\<close>

fun tls_run :: "(ThreadID \<times> tls_op) list \<Rightarrow> tls \<Rightarrow> (ptr list \<times> tls) option" where
  "tls_run [] s = Some ([], s)"
| "tls_run ((t, c) # cs) s = (case tls_call t c s of None \<Rightarrow> None
     | Some (r, s') \<Rightarrow> map_option (\<lambda>(rs, s''). (r # rs, s'')) (tls_run cs s'))"

fun tls_run_spec :: "(ThreadID \<times> tls_op) list \<Rightarrow> (ptr \<Rightarrow> (ThreadID \<Rightarrow> ptr) option) \<Rightarrow> ptr list option" where
  "tls_run_spec [] T = Some []"
| "tls_run_spec ((t, c) # cs) T = (case tls_spec t c T of None \<Rightarrow> None
     | Some (r, T') \<Rightarrow> map_option ((#) r) (tls_run_spec cs T'))"

fun tls_honest_run :: "(ThreadID \<times> tls_op) list \<Rightarrow> tls \<Rightarrow> bool" where
  "tls_honest_run [] s \<longleftrightarrow> True"
| "tls_honest_run ((t, c) # cs) s \<longleftrightarrow> tls_honest c s \<and>
     (case tls_call t c s of None \<Rightarrow> True | Some (r, s') \<Rightarrow> tls_honest_run cs s')"

lemma tls_run_meets_spec:
  "tls_inv s \<Longrightarrow> tls_honest_run cs s \<Longrightarrow> map_option fst (tls_run cs s) = tls_run_spec cs (tls_abs s)"
proof (induction cs arbitrary: s)
  case (Cons x cs)
  obtain t c where x: "x = (t, c)" by (rule prod.exhaust)
  have h: "tls_honest c s" using Cons.prems x by simp
  note a = tls_abs_call [OF Cons.prems(1) h, of t]
  show ?case
  proof (cases "tls_call t c s")
    case None
    with a show ?thesis by (simp add: x)
  next
    case (Some rs)
    obtain r s' where rs: "rs = (r, s')" by (rule prod.exhaust)
    have "tls_inv s'" using tls_inv_call [OF Cons.prems(1) h] Some rs by simp
    then have "map_option fst (tls_run cs s') = tls_run_spec cs (tls_abs s')"
      using Cons x Some rs by simp
    moreover have "tls_spec t c (tls_abs s) = Some (r, tls_abs s')" using a Some rs by simp
    ultimately show ?thesis using Some rs
      by (simp add: x option.map_comp comp_def case_prod_beta flip: \<open>map_option fst (tls_run cs s') = _\<close>)
  qed
qed simp

section \<open>TlsMap\<close>

text \<open>
  The comparator of the map is by default \<open>std::less<ValueType>\<close>, although its keys are thread ids:
  it compares the ids after their conversion to the type of the values.  \<open>conv\<close> is that conversion,
  or what takes an id to its class of equivalent keys for a comparator that the client gives.  The
  map holds an entry for each class, under the id that was put first.
\<close>

type_synonym ('k, 'v) tmap = "'k \<Rightarrow> (ThreadID \<times> 'v) option"

text \<open>The thread 0 is the calling one.\<close>

definition tm_tid :: "ThreadID \<Rightarrow> ThreadID \<Rightarrow> ThreadID" where
  "tm_tid caller tid = (if tid = 0 then caller else tid)"

text \<open>\<open>std::map\<close>: \<open>insert\<close> does nothing where there is a value; \<open>erase\<close> says whether there was one.\<close>

definition map_put :: "(ThreadID \<Rightarrow> 'k) \<Rightarrow> ThreadID \<Rightarrow> 'v \<Rightarrow> ('k, 'v) tmap \<Rightarrow> bool \<times> ('k, 'v) tmap" where
  "map_put conv tid v m = (case m (conv tid) of None \<Rightarrow> (True, m(conv tid \<mapsto> (tid, v))) | Some _ \<Rightarrow> (False, m))"

definition map_drop :: "(ThreadID \<Rightarrow> 'k) \<Rightarrow> ThreadID \<Rightarrow> ('k, 'v) tmap \<Rightarrow> bool \<times> ('k, 'v) tmap" where
  "map_drop conv tid m = (m (conv tid) \<noteq> None, m(conv tid := None))"

definition tm_put :: "(ThreadID \<Rightarrow> 'k) \<Rightarrow> ThreadID \<Rightarrow> 'v \<Rightarrow> bool \<Rightarrow> ThreadID \<Rightarrow> ('k, 'v) tmap \<Rightarrow> bool \<times> ('k, 'v) tmap" where
  "tm_put conv caller data rep tid m =
     (let tid = tm_tid caller tid;
          m = (if rep then snd (map_drop conv tid m) else m)
      in map_put conv tid data m)"

text \<open>What \<open>get\<close> returns, and stores through its reference.\<close>

definition tm_get :: "(ThreadID \<Rightarrow> 'k) \<Rightarrow> ThreadID \<Rightarrow> 'v \<Rightarrow> ThreadID \<Rightarrow> ('k, 'v) tmap \<Rightarrow> bool \<times> 'v" where
  "tm_get conv caller outData tid m =
     (case m (conv (tm_tid caller tid)) of None \<Rightarrow> (False, outData) | Some it \<Rightarrow> (True, snd it))"

definition tm_clear :: "(ThreadID \<Rightarrow> 'k) \<Rightarrow> ThreadID \<Rightarrow> ThreadID \<Rightarrow> ('k, 'v) tmap \<Rightarrow> bool \<times> ('k, 'v) tmap" where
  "tm_clear conv caller tid m = map_drop conv (tm_tid caller tid) m"

definition tm_dump :: "('k, 'v) tmap \<Rightarrow> ('k, 'v) tmap" where
  "tm_dump m = m"

datatype 'v tm_op = Put 'v bool ThreadID | Fetch 'v ThreadID | Clear ThreadID | Dump

text \<open>The variables of a call: its result, the value and the map that it hands out.\<close>

type_synonym ('k, 'v) tm_vars = "bool \<times> 'v option \<times> ('k, 'v) tmap"

fun tm_code :: "(ThreadID \<Rightarrow> 'k) \<Rightarrow> ThreadID \<Rightarrow> 'v tm_op \<Rightarrow> (('k, 'v) tmap, ('k, 'v) tm_vars) body" where
  "tm_code conv t (Put v rep tid) =
     (if rep then [\<lambda>(m, r). (snd (map_drop conv (tm_tid t tid) m), r)] else []) @
     [\<lambda>(m, r). case map_put conv (tm_tid t tid) v m of (b, m') \<Rightarrow> (m', (b, None, Map.empty))]"
| "tm_code conv t (Fetch out tid) =
     [\<lambda>(m, r). (m, (m (conv (tm_tid t tid)) \<noteq> None, map_option snd (m (conv (tm_tid t tid))), Map.empty)),
      \<lambda>(m, (b, v, d)). (m, (b, Some (case v of None \<Rightarrow> out | Some x \<Rightarrow> x), d))]"
| "tm_code conv t (Clear tid) =
     [\<lambda>(m, r). case map_drop conv (tm_tid t tid) m of (b, m') \<Rightarrow> (m', (b, None, Map.empty))]"
| "tm_code conv t Dump = [\<lambda>(m, r). (m, (True, None, m))]"

fun tm_spec :: "(ThreadID \<Rightarrow> 'k) \<Rightarrow> ThreadID \<Rightarrow> 'v tm_op \<Rightarrow> ('k, 'v) tmap \<Rightarrow> ('k, 'v) tm_vars \<times> ('k, 'v) tmap" where
  "tm_spec conv t (Put v rep tid) m = (case tm_put conv t v rep tid m of (b, m') \<Rightarrow> ((b, None, Map.empty), m'))"
| "tm_spec conv t (Fetch out tid) m = (case tm_get conv t out tid m of (b, v) \<Rightarrow> ((b, Some v, Map.empty), m))"
| "tm_spec conv t (Clear tid) m = (case tm_clear conv t tid m of (b, m') \<Rightarrow> ((b, None, Map.empty), m'))"
| "tm_spec conv t Dump m = ((True, None, tm_dump m), m)"

interpretation tm: guarded_object "tm_code conv" "(False, None, Map.empty)" "tm_spec conv" for conv :: "ThreadID \<Rightarrow> 'k"
proof
  fix t and op :: "'v tm_op" and s s' r
  assume "run_body (tm_code conv t op) (s, (False, None, Map.empty)) = (s', r)"
  then show "tm_spec conv t op s = (r, s')"
    by (cases op) (auto simp: tm_put_def tm_get_def tm_clear_def tm_dump_def Let_def split: prod.splits option.splits if_splits)
qed

text \<open>
  The entries of two threads are kept apart only where the conversion does: with values of a
  character type, threads 1 and 257 share an entry, and a put of the one replaces or hides the
  value of the other.
\<close>

lemma tm_apart: "conv t \<noteq> conv u \<Longrightarrow> t \<noteq> 0 \<Longrightarrow> u \<noteq> 0 \<Longrightarrow>
    tm_get conv u out u (snd (tm_put conv t v rep t m)) = tm_get conv u out u m"
  by (auto simp: tm_get_def tm_put_def tm_tid_def map_put_def map_drop_def Let_def split: option.split)

lemma tm_collide:
  "tm_get (ucast :: ThreadID \<Rightarrow> u8) 257 (0 :: u8) 0 (snd (tm_put ucast 1 (5 :: u8) False 0 Map.empty)) = (True, 5)"
  "fst (tm_put (ucast :: ThreadID \<Rightarrow> u8) 257 (6 :: u8) False 0 (snd (tm_put ucast 1 5 False 0 Map.empty))) = False"
  by (simp_all add: tm_get_def tm_put_def tm_tid_def map_put_def)

section \<open>The queue of the multiplexer\<close>

text \<open>\<open>push_back\<close> of a null pointer returns before it takes the lock, so it is no call under the lock.\<close>

datatype 'a fifo_op = PopFront | PushBack 'a | Erase "'a option"

text \<open>The variables: the element and the count of \<open>pop_front\<close>, the result of \<open>erase\<close>.\<close>

type_synonym 'a fifo_vars = "bool \<times> 'a option \<times> u32"

fun fifo_code :: "ThreadID \<Rightarrow> 'a fifo_op \<Rightarrow> ('a fifo, 'a fifo_vars) body" where
  "fifo_code t PopFront =
     [\<lambda>(q, (b, x, n)). (q, (mList q = [], None, 0)),
      \<lambda>(q, (b, x, n)). (q, (b, if b then None else Some (hd (mList q)), n)),
      \<lambda>(q, r). (if fst r then q else Fifo (tl (mList q)), r),
      \<lambda>(q, (b, x, n)). (q, (b, x, if b then n else of_nat (length (mList q))))]"
| "fifo_code t (PushBack x) = [\<lambda>(q, r). (push_back (Some x) q, (False, None, 0))]"
| "fifo_code t (Erase x) =
     [\<lambda>(q, r). (q, (x = None \<or> mList q = [], None, 0)),
      \<lambda>(q, (b, y, n)). if b then (q, (False, None, 0)) else (case fifo_erase x q of (b', q') \<Rightarrow> (q', (b', None, 0)))]"

fun fifo_spec :: "ThreadID \<Rightarrow> 'a fifo_op \<Rightarrow> 'a fifo \<Rightarrow> 'a fifo_vars \<times> 'a fifo" where
  "fifo_spec t PopFront q = (case pop_front q of ((x, n), q') \<Rightarrow> ((x = None, x, n), q'))"
| "fifo_spec t (PushBack x) q = ((False, None, 0), push_back (Some x) q)"
| "fifo_spec t (Erase x) q = (case fifo_erase x q of (b, q') \<Rightarrow> ((b, None, 0), q'))"

interpretation ff: guarded_object fifo_code "(False, None, 0)" fifo_spec
proof
  fix t and op :: "'a fifo_op" and s s' r
  assume "run_body (fifo_code t op) (s, (False, None, 0)) = (s', r)"
  then show "fifo_spec t op s = (r, s')"
    by (cases op) (auto simp: pop_front_def push_back_def fifo_erase_def split: list.splits option.splits prod.splits if_splits)
qed

section \<open>Properties\<close>

text \<open>
  C33: The TLS of POSIX hosts refines a table that gives each index its own data for each thread:
  in any session of calls by any threads, on what pthread promises, each call returns what the
  table says; a new index reads 0 in every thread, a write is seen by the thread that made it
  under that index and nowhere else, and the use of a deleted index is what the table calls a misuse.
\<close>

theorem tls_refines:
  assumes "tls_inv s" "tls_honest_run cs s"
  shows "map_option fst (tls_run cs s) = tls_run_spec cs (tls_abs s)"
  using assms by (rule tls_run_meets_spec)

definition demo_tls :: tls where
  "demo_tls = \<lparr>tlive = (\<lambda>_. False), tval = (\<lambda>_ _. 0), tobj = Map.empty\<rparr>"

definition demo_session :: "(ThreadID \<times> tls_op) list" where
  "demo_session = [(1, Create (Some 4) 64), (1, Set True 64 7), (2, Get 64), (1, Get 64), (2, Create (Some 5) 96),
     (2, Set False 96 9), (2, Get 96), (1, Delete 64), (2, Create (Some 4) 128), (1, Get 128), (1, Get 0)]"

theorem tls_refines_witness:
  "map_option fst (tls_run demo_session demo_tls) = Some [64, 0, 0, 7, 96, 0, 0, 0, 128, 0, 0]"
proof -
  have i: "tls_inv demo_tls" by (simp add: tls_inv_def demo_tls_def)
  have h: "tls_honest_run demo_session demo_tls"
    by (simp add: demo_session_def demo_tls_def tls_defs)
  have "tls_run_spec demo_session (tls_abs demo_tls) = Some [64, 0, 0, 7, 96, 0, 0, 0, 128, 0, 0]"
    by (simp add: demo_session_def demo_tls_def tls_abs_def)
  with tls_refines [OF i h] show ?thesis by simp
qed

text \<open>
  C11: Whatever the interleaving of threads that call the members of a TlsMap (with any comparison
  of its keys), and of the queue of the multiplexer, each of the calls behaves as if it ran alone: the results are those of running
  the calls one after the other in the order in which they released the lock, the object ends as
  they leave it, never are two threads in a section of the same object, and the owner that the
  lock names, if any, is in its section or leaving it.
\<close>

theorem locked_calls_atomic:
  assumes "guarded_reach (tm_code conv) (False, None, Map.empty) m g"
    and "guarded_reach fifo_code (False, None, 0) q f"
  shows "(\<exists>m'. serial (tm_spec conv) (history g) m = Some m' \<and> ((\<forall>t. \<not> holding (phases g t)) \<longrightarrow> shared g = m')) \<and>
    (\<exists>q'. serial fifo_spec (history f) q = Some q' \<and> ((\<forall>t. \<not> holding (phases f t)) \<longrightarrow> shared f = q')) \<and>
    (\<forall>t u. holding (phases g t) \<and> holding (phases g u) \<longrightarrow> t = u) \<and>
    (\<forall>t u. holding (phases f t) \<and> holding (phases f u) \<longrightarrow> t = u) \<and>
    owner_inv g \<and> owner_inv f"
  using tm.serial_reach [OF assms(1)] ff.serial_reach [OF assms(2)] one_holder [OF mutex_reach [OF assms(1)]]
    one_holder [OF mutex_reach [OF assms(2)]] owner_reach [OF assms(1)] owner_reach [OF assms(2)] by metis

text \<open>
  Two threads put a value of their own while the other waits for the lock; the second also
  replaces the value of the first.
\<close>

definition demo_puts :: "(ThreadID \<times> nat tm_op) list" where
  "demo_puts = [(1, Put 5 False 0), (1, Dump), (1, Dump), (1, Dump), (2, Put 6 True 1), (1, Dump), (2, Dump), (2, Dump), (2, Dump), (2, Dump)]"

definition demo_queue :: "(ThreadID \<times> nat fifo_op) list" where
  "demo_queue = [(1, PushBack 3), (1, PopFront), (1, PopFront), (1, PopFront), (2, PopFront), (1, PopFront),
     (2, PopFront), (2, PopFront), (2, PopFront), (2, PopFront), (2, PopFront), (2, PopFront)]"

theorem locked_calls_atomic_witness:
  "(\<exists>g. guarded_run (tm_code (\<lambda>t. t)) (False, None, Map.empty) demo_puts (guarded_start Map.empty) = Some g \<and>
      history g = [(1, Put 5 False 0, (True, None, Map.empty)), (2, Put 6 True 1, (True, None, Map.empty))] \<and>
      (\<exists>m'. serial (tm_spec (\<lambda>t. t)) (history g) Map.empty = Some m' \<and> m' 1 = Some (1, 6)) \<and> owner_inv g) \<and>
   (\<exists>f. guarded_run fifo_code (False, None, 0) demo_queue (guarded_start fifo_empty) = Some f \<and>
      history f = [(1, PushBack 3, (False, None, 0)), (2, PopFront, (False, Some 3, 0))] \<and>
      serial fifo_spec (history f) fifo_empty = Some fifo_empty)"
proof -
  obtain g where g: "guarded_run (tm_code (\<lambda>t. t)) (False, None, Map.empty) demo_puts (guarded_start Map.empty) = Some g"
    "history g = [(1, Put 5 False 0, (True, None, Map.empty)), (2, Put 6 True 1, (True, None, Map.empty))]"
    by (simp add: demo_puts_def guarded_start_def lock_ctor_def lock_defs tm_tid_def map_put_def map_drop_def)
  obtain f where f: "guarded_run fifo_code (False, None, 0) demo_queue (guarded_start fifo_empty) = Some f"
    "history f = [(1, PushBack 3, (False, None, 0)), (2, PopFront, (False, Some 3, 0))]"
    by (simp add: demo_queue_def guarded_start_def lock_ctor_def lock_defs push_back_def fifo_empty_def)
  note p = locked_calls_atomic [OF guarded_run_reach [OF g(1)] guarded_run_reach [OF f(1)]]
  have "serial (tm_spec (\<lambda>t. t)) (history g) Map.empty = Some [1 \<mapsto> (1, 6)]"
    by (simp add: g(2) tm_put_def tm_tid_def map_put_def map_drop_def)
  moreover have "serial fifo_spec (history f) fifo_empty = Some fifo_empty"
    by (simp add: f(2) push_back_def fifo_empty_def pop_front_def)
  ultimately show ?thesis using g f p by auto
qed

end
