(* ===== verification/Threads.thy ===== *)
theory Threads
  imports ThreadLock
begin

text \<open>
  src/platform/threadevent\_posix.hpp, thread\_posix.hpp and the classes ThreadEvent and Thread that
  forward to them.  An event is a flag with the threads that sleep on its condition variable.  A
  thread object is shared by two threads: the one that runs \<open>exec\<close> and the one that owns the
  object, which calls start, join and the destructor; each member is cut into the steps between
  which the other may run.  Memory is sequentially consistent, \<open>pthread_create\<close> succeeds, and
  \<open>pthread_detach\<close> after \<open>pthread_join\<close> has no effect.
\<close>

section \<open>XpfThreadEvent\<close>

record tevent =
  m_set :: bool
  sleepers :: "ThreadID list"

definition event_ctor :: "bool \<Rightarrow> tevent" where
  "event_ctor b = \<lparr>m_set = b, sleepers = []\<rparr>"

text \<open>\<open>pthread_cond_signal\<close> wakes at least one of the sleeping threads, if there is any.\<close>

definition signal_ok :: "ThreadID list \<Rightarrow> tevent \<Rightarrow> bool" where
  "signal_ok woken e \<longleftrightarrow> set woken \<subseteq> set (sleepers e) \<and> (sleepers e \<noteq> [] \<longrightarrow> woken \<noteq> [])"

definition event_wake :: "ThreadID list \<Rightarrow> tevent \<Rightarrow> tevent" where
  "event_wake ts e = e\<lparr>sleepers := filter (\<lambda>t. t \<notin> set ts) (sleepers e)\<rparr>"

definition event_set :: "ThreadID list \<Rightarrow> tevent \<Rightarrow> tevent" where
  "event_set woken e = event_wake woken (e\<lparr>m_set := True\<rparr>)"

text \<open>To destroy a condition variable on which threads sleep is undefined.\<close>

definition event_reset :: "tevent \<Rightarrow> tevent option" where
  "event_reset e = (if sleepers e = [] then Some (e\<lparr>m_set := False\<rparr>) else None)"

definition event_sleep :: "ThreadID \<Rightarrow> tevent \<Rightarrow> tevent" where
  "event_sleep t e = e\<lparr>sleepers := t # sleepers e\<rparr>"

text \<open>The untimed wait returns at once (True), or the thread sleeps until it is woken.\<close>

definition event_wait :: "ThreadID \<Rightarrow> tevent \<Rightarrow> bool \<times> tevent" where
  "event_wait t e = (if m_set e then (True, e) else (False, event_sleep t e))"

text \<open>
  The timed wait reads the flag before it takes the lock; when the flag was down it sleeps,
  whatever the flag is by then.  It returns True when it is woken and False at the deadline.
\<close>

definition event_isSet :: "tevent \<Rightarrow> bool" where
  "event_isSet e = m_set e"

definition event_timedwait :: "ThreadID \<Rightarrow> tevent \<Rightarrow> tevent" where
  "event_timedwait t e = event_sleep t e"

text \<open>The deadline, as seconds and nanoseconds, from the time of day in seconds and microseconds.\<close>

definition timeradd :: "int \<times> int \<Rightarrow> int \<times> int \<Rightarrow> int \<times> int" where
  "timeradd a b = (let s = fst a + fst b; u = snd a + snd b in
     if u \<ge> 1000000 then (s + 1, u - 1000000) else (s, u))"

definition event_deadline :: "int \<times> int \<Rightarrow> u32 \<Rightarrow> int \<times> int" where
  "event_deadline tvnow timeoutMs =
     (let tvadv = (uint (timeoutMs div 1000), uint (timeoutMs mod 1000 * 1000));
          tvres = timeradd tvnow tvadv
      in (fst tvres, snd tvres * 1000))"

section \<open>XpfThread\<close>

datatype RunningStatus = TRS_READY | TRS_RUNNING | TRS_FINISHED | TRS_JOINED

record xthread =
  mThreadHandle :: ThreadID
  mExitCode :: u32
  mUserData :: u64
  mID :: ThreadID
  mStartEvent :: tevent
  mFinishEvent :: tevent
  mStatus :: RunningStatus
  mAborting :: bool

definition thread_ctor :: "ThreadID \<Rightarrow> xthread" where
  "thread_ctor h = \<lparr>mThreadHandle = h, mExitCode = 0, mUserData = 0, mID = INVALID_THREAD_ID,
     mStartEvent = event_ctor False, mFinishEvent = event_ctor False, mStatus = TRS_READY, mAborting = False\<rparr>"

text \<open>
  Where the new thread is in \<open>exec\<close>: about to store its id, to wait for the start, asleep in that
  wait, about to look at the abort flag, in \<open>run\<close> with the data passed to it, about to set the
  finish event, to set the status, to read the exit code, and gone with that code.
\<close>

datatype child_pc = CBoot | CWait | CAsleep | CCheck | CRun u64 | CFinish | CStatus | CLeave | CDone u32

text \<open>
  Where the owner is: between calls, in \<open>start\<close> before it sets the event, at the beginning of
  \<open>join\<close> (for the destructor or not) with its timeout, in \<open>wait\<close> about to read the flag, to take the
  lock, asleep, before \<open>pthread_join\<close>, in the destructor before the events are deleted, and gone.
\<close>

datatype owner_pc = OIdle | OStart | OJoin bool u32 | OPoll | OLock | OSleep | OReap bool | ODelete | OGone

text \<open>
  \<open>fault\<close> is the use of the object after it was deleted, or a \<open>pthread_join\<close> of no thread.  The
  last fields are a record of the past: calls of start, entries of \<open>run\<close> and its result, calls
  of setExitCode, wakeups without a signal, and what the calls of join returned.
\<close>

record tsys =
  thr :: xthread
  alive :: bool
  fault :: bool
  self :: ThreadID
  boss :: ThreadID
  child :: child_pc
  owner :: owner_pc
  starts :: nat
  entered :: nat
  returned :: "u32 option"
  recoded :: bool
  spurious :: bool
  results :: "bool list"

definition thread_new :: "ThreadID \<Rightarrow> ThreadID \<Rightarrow> tsys" where
  "thread_new t u = \<lparr>thr = thread_ctor t, alive = True, fault = False, self = t, boss = u, child = CBoot,
     owner = OIdle, starts = 0, entered = 0, returned = None, recoded = False, spurious = False, results = []\<rparr>"

text \<open>One step of \<open>exec\<close>; None when it is blocked, in the body of the client, or over.\<close>

definition exec_step :: "tsys \<Rightarrow> tsys option" where
  "exec_step s = (let x = thr s in case child s of
     CBoot \<Rightarrow> Some (s\<lparr>thr := x\<lparr>mID := self s\<rparr>, child := CWait\<rparr>)
   | CWait \<Rightarrow> (case event_wait (self s) (mStartEvent x) of (now, e) \<Rightarrow>
       Some (s\<lparr>thr := x\<lparr>mStartEvent := e\<rparr>, child := (if now then CCheck else CAsleep)\<rparr>))
   | CAsleep \<Rightarrow> (if self s \<in> set (sleepers (mStartEvent x)) then None else Some (s\<lparr>child := CCheck\<rparr>))
   | CCheck \<Rightarrow> (if mAborting x then Some (s\<lparr>child := CLeave\<rparr>)
                else Some (s\<lparr>child := CRun (mUserData x), entered := Suc (entered s)\<rparr>))
   | CRun d \<Rightarrow> None
   | CFinish \<Rightarrow> Some (s\<lparr>thr := x\<lparr>mFinishEvent := event_set (sleepers (mFinishEvent x)) (mFinishEvent x)\<rparr>, child := CStatus\<rparr>)
   | CStatus \<Rightarrow> Some (s\<lparr>thr := x\<lparr>mStatus := TRS_FINISHED\<rparr>, child := CLeave\<rparr>)
   | CLeave \<Rightarrow> Some (s\<lparr>child := CDone (mExitCode x)\<rparr>)
   | CDone v \<Rightarrow> None)"

text \<open>The body returns, and its result becomes the exit code.\<close>

definition run_returns :: "u32 \<Rightarrow> tsys \<Rightarrow> tsys option" where
  "run_returns r s = (case child s of
     CRun d \<Rightarrow> Some (s\<lparr>thr := (thr s)\<lparr>mExitCode := r\<rparr>, child := CFinish, returned := Some r\<rparr>)
   | _ \<Rightarrow> None)"

text \<open>A condition variable may wake a thread that nobody signalled.\<close>

definition spurious_start :: "tsys \<Rightarrow> tsys option" where
  "spurious_start s = (if child s = CAsleep \<and> self s \<in> set (sleepers (mStartEvent (thr s)))
     then Some (s\<lparr>thr := (thr s)\<lparr>mStartEvent := event_wake [self s] (mStartEvent (thr s))\<rparr>, child := CCheck, spurious := True\<rparr>)
     else None)"

text \<open>\<open>start\<close> stores the status, then sets the event.\<close>

definition thread_start :: "tsys \<Rightarrow> tsys" where
  "thread_start s = s\<lparr>thr := (thr s)\<lparr>mStatus := TRS_RUNNING\<rparr>, owner := OStart, starts := Suc (starts s)\<rparr>"

text \<open>\<open>join\<close> is over, with its result, or the destructor goes on.\<close>

definition join_return :: "bool \<Rightarrow> bool \<Rightarrow> tsys \<Rightarrow> tsys" where
  "join_return dtor r s = (if dtor then s\<lparr>owner := ODelete\<rparr> else s\<lparr>owner := OIdle, results := results s @ [r]\<rparr>)"

definition thread_join :: "bool \<Rightarrow> u32 \<Rightarrow> tsys \<Rightarrow> tsys" where
  "thread_join dtor timeoutMs s =
     (if mStatus (thr s) = TRS_JOINED then join_return dtor True s
      else if mStatus (thr s) = TRS_READY then join_return dtor False s
      else if timeoutMs = - 1 then s\<lparr>owner := OReap dtor\<rparr>
      else s\<lparr>owner := OPoll\<rparr>)"

text \<open>\<open>pthread_join\<close> returns when the other thread is gone.\<close>

definition thread_reap :: "bool \<Rightarrow> tsys \<Rightarrow> tsys option" where
  "thread_reap dtor s = (if mThreadHandle (thr s) = 0 then Some (s\<lparr>fault := True\<rparr>)
     else case child s of
        CDone v \<Rightarrow> Some (join_return dtor True (s\<lparr>thr := (thr s)\<lparr>mThreadHandle := 0, mStatus := TRS_JOINED\<rparr>\<rparr>))
      | _ \<Rightarrow> None)"

text \<open>The destructor up to its call of \<open>join\<close>.\<close>

definition thread_dtor :: "tsys \<Rightarrow> tsys" where
  "thread_dtor s = (case mStatus (thr s) of
     TRS_READY \<Rightarrow> s\<lparr>thr := (thr s)\<lparr>mAborting := True\<rparr>, owner := OJoin True (- 1)\<rparr>
   | TRS_RUNNING \<Rightarrow> s\<lparr>thr := (thr s)\<lparr>mAborting := True\<rparr>, owner := OJoin True (- 1)\<rparr>
   | TRS_FINISHED \<Rightarrow> s\<lparr>owner := OJoin True (- 1)\<rparr>
   | TRS_JOINED \<Rightarrow> s\<lparr>owner := ODelete\<rparr>)"

text \<open>One step of the owner inside of a call; None when it is blocked or between calls.\<close>

definition owner_step :: "tsys \<Rightarrow> tsys option" where
  "owner_step s = (let x = thr s in case owner s of
     OIdle \<Rightarrow> None
   | OStart \<Rightarrow> Some (s\<lparr>thr := x\<lparr>mStartEvent := event_set (sleepers (mStartEvent x)) (mStartEvent x)\<rparr>, owner := OIdle\<rparr>)
   | OJoin dtor timeoutMs \<Rightarrow> Some (thread_join dtor timeoutMs s)
   | OPoll \<Rightarrow> Some (s\<lparr>owner := (if event_isSet (mFinishEvent x) then OReap False else OLock)\<rparr>)
   | OLock \<Rightarrow> Some (s\<lparr>thr := x\<lparr>mFinishEvent := event_timedwait (boss s) (mFinishEvent x)\<rparr>, owner := OSleep\<rparr>)
   | OSleep \<Rightarrow> (if boss s \<in> set (sleepers (mFinishEvent x)) then None else Some (s\<lparr>owner := OReap False\<rparr>))
   | OReap dtor \<Rightarrow> thread_reap dtor s
   | ODelete \<Rightarrow> Some (s\<lparr>alive := False, owner := OGone\<rparr>)
   | OGone \<Rightarrow> None)"

definition spurious_finish :: "tsys \<Rightarrow> tsys option" where
  "spurious_finish s = (if owner s = OSleep \<and> boss s \<in> set (sleepers (mFinishEvent (thr s)))
     then Some (s\<lparr>thr := (thr s)\<lparr>mFinishEvent := event_wake [boss s] (mFinishEvent (thr s))\<rparr>, owner := OReap False\<rparr>)
     else None)"

definition join_timeout :: "tsys \<Rightarrow> tsys option" where
  "join_timeout s = (if owner s = OSleep
     then Some (join_return False False (s\<lparr>thr := (thr s)\<lparr>mFinishEvent := event_wake [boss s] (mFinishEvent (thr s))\<rparr>\<rparr>))
     else None)"

text \<open>The microseconds that \<open>Thread::sleep\<close> passes to \<open>usleep\<close>, of 32 bits.\<close>

definition thread_sleep :: "u32 \<Rightarrow> u32" where
  "thread_sleep durationMs = durationMs * 1000"

section \<open>The system\<close>

datatype act = Exec | Return u32 | WakeChild | Start | Join u32 | Destroy | Owner | WakeOwner | Timeout
  | SetExitCode u32 | SetData u64 | RequestAbort

definition thread_setExitCode :: "u32 \<Rightarrow> xthread \<Rightarrow> xthread" where
  "thread_setExitCode code x = x\<lparr>mExitCode := code\<rparr>"

definition thread_setData :: "u64 \<Rightarrow> xthread \<Rightarrow> xthread" where
  "thread_setData data x = x\<lparr>mUserData := data\<rparr>"

definition thread_requestAbort :: "xthread \<Rightarrow> xthread" where
  "thread_requestAbort x = x\<lparr>mAborting := True\<rparr>"

text \<open>A thread that has not left \<open>exec\<close> uses the object.\<close>

definition needs_object :: "tsys \<Rightarrow> bool" where
  "needs_object s = (case child s of CDone v \<Rightarrow> False | _ \<Rightarrow> True)"

definition of_child :: "tsys option \<Rightarrow> tsys \<Rightarrow> tsys option" where
  "of_child r s = (if \<not> alive s \<and> needs_object s then Some (s\<lparr>fault := True\<rparr>) else r)"

fun thread_act :: "act \<Rightarrow> tsys \<Rightarrow> tsys option" where
  "thread_act Exec s = of_child (exec_step s) s"
| "thread_act (Return r) s = of_child (run_returns r s) s"
| "thread_act WakeChild s = of_child (spurious_start s) s"
| "thread_act Start s = (if owner s = OIdle then Some (thread_start s) else None)"
| "thread_act (Join t) s = (if owner s = OIdle then Some (s\<lparr>owner := OJoin False t\<rparr>) else None)"
| "thread_act Destroy s = (if owner s = OIdle then Some (thread_dtor s) else None)"
| "thread_act Owner s = owner_step s"
| "thread_act WakeOwner s = spurious_finish s"
| "thread_act Timeout s = join_timeout s"
| "thread_act (SetExitCode c) s =
     (if alive s then Some (s\<lparr>thr := thread_setExitCode c (thr s), recoded := True\<rparr>) else None)"
| "thread_act (SetData d) s = (if alive s then Some (s\<lparr>thr := thread_setData d (thr s)\<rparr>) else None)"
| "thread_act RequestAbort s = (if alive s then Some (s\<lparr>thr := thread_requestAbort (thr s)\<rparr>) else None)"

text \<open>
  The discipline that the class asks of its owner, tacitly: start once, and neither join nor
  destroy before.
\<close>

fun disciplined :: "act \<Rightarrow> tsys \<Rightarrow> bool" where
  "disciplined Start s \<longleftrightarrow> starts s = 0"
| "disciplined (Join t) s \<longleftrightarrow> 0 < starts s"
| "disciplined Destroy s \<longleftrightarrow> 0 < starts s"
| "disciplined _ s \<longleftrightarrow> True"

fun thread_run :: "act list \<Rightarrow> tsys \<Rightarrow> tsys option" where
  "thread_run [] s = Some s"
| "thread_run (a # as) s = Option.bind (thread_act a s) (thread_run as)"

fun disciplined_run :: "act list \<Rightarrow> tsys \<Rightarrow> bool" where
  "disciplined_run [] s \<longleftrightarrow> True"
| "disciplined_run (a # as) s \<longleftrightarrow> disciplined a s \<and>
     (case thread_act a s of None \<Rightarrow> True | Some s' \<Rightarrow> disciplined_run as s')"

end
