(* ===== verification/ThreadProps.thy ===== *)
theory ThreadProps
  imports Threads
begin

text \<open>
  Threads and events: no wakeup is lost on an event with one sleeper, the life cycle of a thread
  object whose owner keeps the discipline, the progress of join, the deadline of a timed wait; and
  what happens outside of the discipline.
\<close>

section \<open>The contract of an event\<close>

text \<open>What \<open>exec\<close> and the owner rely on: the flag, the threads asleep, set, and the untimed wait.\<close>

locale latch =
  fixes raised :: "'e \<Rightarrow> bool" and asleep :: "'e \<Rightarrow> ThreadID list" and put :: "'e \<Rightarrow> 'e"
    and await :: "ThreadID \<Rightarrow> 'e \<Rightarrow> bool \<times> 'e"
  assumes put_raises: "raised (put e)"
    and put_wakes: "asleep e = [] \<or> asleep e = [t] \<Longrightarrow> asleep (put e) = []"
    and await_raised: "raised e \<Longrightarrow> await t e = (True, e)"
    and await_lowered: "\<not> raised e \<Longrightarrow> await t e = (False, e') \<Longrightarrow> asleep e' = t # asleep e \<and> \<not> raised e'"
    and await_blocks: "\<not> raised e \<Longrightarrow> \<not> fst (await t e)"
begin

text \<open>One thread waits for the latch at most once at a time, others raise it.\<close>

inductive use :: "ThreadID \<Rightarrow> 'e \<Rightarrow> 'e \<Rightarrow> bool" for t where
  put: "use t e (put e)"
| await: "asleep e = [] \<Longrightarrow> use t e (snd (await t e))"

definition calm :: "ThreadID \<Rightarrow> 'e \<Rightarrow> bool" where
  "calm t e \<longleftrightarrow> (asleep e = [] \<or> asleep e = [t]) \<and> (raised e \<longrightarrow> asleep e = [])"

lemma calm_put: "calm t e \<Longrightarrow> calm t (put e)"
  using put_wakes [of e t] put_raises by (simp add: calm_def)

lemma calm_await: "calm t e \<Longrightarrow> asleep e = [] \<Longrightarrow> calm t (snd (await t e))"
  using await_raised [of e t] await_lowered [of e t] await_blocks [of e t]
  by (cases "raised e"; cases "await t e") (auto simp: calm_def)

lemma no_lost_wakeup: "(use t)\<^sup>*\<^sup>* e e' \<Longrightarrow> calm t e \<Longrightarrow> calm t e'"
  by (induction rule: rtranclp_induct) (auto elim!: use.cases intro: calm_put calm_await)

end

abbreviation event_put :: "tevent \<Rightarrow> tevent" where
  "event_put e \<equiv> event_set (sleepers e) e"

lemma event_put_simps [simp]: "m_set (event_put e)" "sleepers (event_put e) = []"
  by (simp_all add: event_set_def event_wake_def)

interpretation ev: latch m_set sleepers event_put event_wait
  by unfold_locales (auto simp: event_wait_def event_sleep_def)

text \<open>Waking every sleeper is a choice that \<open>pthread_cond_signal\<close> has, the only one if there is one.\<close>

lemma signal_one:
  "signal_ok (sleepers e) e"
  "sleepers e = [] \<or> sleepers e = [t] \<Longrightarrow> signal_ok w e \<Longrightarrow> event_set w e = event_put e"
  by (auto simp: signal_ok_def event_set_def event_wake_def filter_empty_conv neq_Nil_conv)

section \<open>The invariant\<close>

text \<open>The owner, against the status and the number of calls of start.\<close>

fun owner_at :: "owner_pc \<Rightarrow> RunningStatus \<Rightarrow> nat \<Rightarrow> bool" where
  "owner_at OIdle st n = (n = 0 \<and> (st = TRS_READY \<or> st = TRS_FINISHED) \<or> n = 1 \<and> st \<noteq> TRS_READY)"
| "owner_at (OJoin b t) st n = (n = 1 \<and> st \<noteq> TRS_READY)"
| "owner_at ODelete st n = (n = 1 \<and> st = TRS_JOINED)"
| "owner_at OGone st n = (n = 1 \<and> st = TRS_JOINED)"
| "owner_at _ st n = (n = 1 \<and> (st = TRS_RUNNING \<or> st = TRS_FINISHED))"

fun gone :: "child_pc \<Rightarrow> bool" where
  "gone (CDone v) = True"
| "gone _ = False"

text \<open>The status, against the handle and the place of the new thread.\<close>

fun status_at :: "RunningStatus \<Rightarrow> ThreadID \<Rightarrow> child_pc \<Rightarrow> u32 option \<Rightarrow> bool" where
  "status_at TRS_JOINED h c r = (h = 0 \<and> gone c)"
| "status_at TRS_FINISHED h c r = (h \<noteq> 0 \<and> (gone c \<or> c = CLeave) \<and> r \<noteq> None)"
| "status_at _ h c r = (h \<noteq> 0)"

text \<open>The body has returned, and the exit code is its result; or it was never entered.\<close>

definition done_with :: "tsys \<Rightarrow> bool" where
  "done_with s \<longleftrightarrow> entered s = 1 \<and> returned s \<noteq> None \<and> (recoded s \<or> returned s = Some (mExitCode (thr s))) \<or>
     entered s = 0 \<and> returned s = None \<and> mAborting (thr s)"

definition child_at :: "tsys \<Rightarrow> bool" where
  "child_at s \<longleftrightarrow> (case child s of
     CRun d \<Rightarrow> entered s = 1 \<and> returned s = None
   | CFinish \<Rightarrow> returned s \<noteq> None \<and> done_with s
   | CStatus \<Rightarrow> returned s \<noteq> None \<and> done_with s
   | CLeave \<Rightarrow> done_with s
   | CDone v \<Rightarrow> done_with s \<and> (recoded s \<or> v = mExitCode (thr s))
   | _ \<Rightarrow> entered s = 0 \<and> returned s = None)"

definition passed_start :: "child_pc \<Rightarrow> bool" where
  "passed_start c \<longleftrightarrow> c \<notin> {CBoot, CWait, CAsleep}"

text \<open>The events; the first is calm in the sense of the contract.\<close>

definition events_at :: "tsys \<Rightarrow> bool" where
  "events_at s \<longleftrightarrow> m_set (mStartEvent (thr s)) = (starts s = 1 \<and> owner s \<noteq> OStart) \<and>
     sleepers (mStartEvent (thr s)) = (if child s = CAsleep \<and> \<not> m_set (mStartEvent (thr s)) then [self s] else []) \<and>
     (sleepers (mFinishEvent (thr s)) = [] \<or> sleepers (mFinishEvent (thr s)) = [boss s] \<and> owner s = OSleep) \<and>
     (\<not> m_set (mFinishEvent (thr s)) \<or> returned s \<noteq> None)"

definition thread_inv :: "tsys \<Rightarrow> bool" where
  "thread_inv s \<longleftrightarrow> \<not> fault s \<and> alive s = (owner s \<noteq> OGone) \<and> self s \<noteq> 0 \<and>
     owner_at (owner s) (mStatus (thr s)) (starts s) \<and>
     status_at (mStatus (thr s)) (mThreadHandle (thr s)) (child s) (returned s) \<and>
     child_at s \<and> events_at s \<and>
     (\<not> passed_start (child s) \<or> spurious s \<or> starts s = 1) \<and>
     (True \<notin> set (results s) \<or> mStatus (thr s) = TRS_JOINED)"

lemmas inv_defs = thread_inv_def child_at_def done_with_def events_at_def passed_start_def

lemmas step_defs = exec_step_def event_wait_def event_sleep_def event_wake_def event_timedwait_def event_isSet_def event_set_def

lemma inv_new: "t \<noteq> 0 \<Longrightarrow> thread_inv (thread_new t u)"
  by (simp add: inv_defs thread_new_def thread_ctor_def event_ctor_def)

lemma inv_alive: "thread_inv s \<Longrightarrow> \<not> alive s \<Longrightarrow> \<not> needs_object s"
  by (cases "child s") (auto simp: thread_inv_def needs_object_def)

lemma inv_exec: "thread_inv s \<Longrightarrow> pred_option thread_inv (exec_step s)"
  by (cases "child s"; cases "mStatus (thr s)"; cases "owner s"; simp add: inv_defs step_defs Let_def; auto)

lemma inv_returns: "thread_inv s \<Longrightarrow> pred_option thread_inv (run_returns r s)"
  by (cases "child s"; cases "mStatus (thr s)"; simp add: inv_defs run_returns_def; auto)

lemma inv_spurious: "thread_inv s \<Longrightarrow> pred_option thread_inv (spurious_start s)"
  by (cases "child s"; cases "mStatus (thr s)"; simp add: inv_defs spurious_start_def event_wake_def; auto)

lemma inv_start: "thread_inv s \<Longrightarrow> owner s = OIdle \<Longrightarrow> starts s = 0 \<Longrightarrow> thread_inv (thread_start s)"
  by (cases "child s"; cases "mStatus (thr s)"; simp add: inv_defs thread_start_def; auto)

lemma inv_join_enter: "thread_inv s \<Longrightarrow> owner s = OIdle \<Longrightarrow> 0 < starts s \<Longrightarrow> thread_inv (s\<lparr>owner := OJoin False t\<rparr>)"
  by (cases "child s"; cases "mStatus (thr s)"; simp add: inv_defs; auto)

lemma inv_dtor: "thread_inv s \<Longrightarrow> owner s = OIdle \<Longrightarrow> 0 < starts s \<Longrightarrow> thread_inv (thread_dtor s)"
  by (cases "mStatus (thr s)"; cases "child s"; simp add: inv_defs thread_dtor_def; auto)

lemma inv_owner: "thread_inv s \<Longrightarrow> pred_option thread_inv (owner_step s)"
  by (cases "owner s"; cases "mStatus (thr s)"; cases "child s";
    simp add: inv_defs owner_step_def step_defs thread_join_def thread_reap_def join_return_def Let_def; auto)

lemma inv_wake: "thread_inv s \<Longrightarrow> pred_option thread_inv (spurious_finish s)"
  by (cases "owner s"; cases "child s"; cases "mStatus (thr s)"; simp add: inv_defs spurious_finish_def event_wake_def; auto)

lemma inv_timeout: "thread_inv s \<Longrightarrow> pred_option thread_inv (join_timeout s)"
  by (cases "owner s"; cases "child s"; cases "mStatus (thr s)"; simp add: inv_defs join_timeout_def join_return_def event_wake_def; auto)

lemma inv_setExitCode: "thread_inv s \<Longrightarrow> thread_inv (s\<lparr>thr := thread_setExitCode c (thr s), recoded := True\<rparr>)"
  by (cases "child s"; cases "mStatus (thr s)"; cases "returned s"; simp add: inv_defs thread_setExitCode_def; auto)

lemma inv_setData: "thread_inv s \<Longrightarrow> thread_inv (s\<lparr>thr := thread_setData d (thr s)\<rparr>)"
  by (cases "child s"; cases "mStatus (thr s)"; simp add: inv_defs thread_setData_def; auto)

lemma inv_requestAbort: "thread_inv s \<Longrightarrow> thread_inv (s\<lparr>thr := thread_requestAbort (thr s)\<rparr>)"
  by (cases "child s"; cases "mStatus (thr s)"; simp add: inv_defs thread_requestAbort_def; auto)

lemma inv_act:
  assumes "thread_inv s" "disciplined a s" "thread_act a s = Some s'"
  shows "thread_inv s'"
proof -
  have alive: "of_child r s = r" for r using inv_alive [OF assms(1)] by (auto simp: of_child_def)
  have "pred_option thread_inv (thread_act a s)"
    using assms(1,2) inv_exec [OF assms(1)] inv_returns [OF assms(1)]
      inv_spurious [OF assms(1)] inv_owner [OF assms(1)] inv_wake [OF assms(1)] inv_timeout [OF assms(1)]
    by (cases a) (simp_all add: alive inv_start inv_join_enter inv_dtor inv_setExitCode inv_setData inv_requestAbort)
  with assms(3) show ?thesis by simp
qed

lemma inv_run:
  "thread_inv s \<Longrightarrow> disciplined_run as s \<Longrightarrow> thread_run as s = Some s' \<Longrightarrow> thread_inv s'"
proof (induction as arbitrary: s)
  case (Cons a as)
  then obtain h where "thread_act a s = Some h" "thread_run as h = Some s'" by (auto simp: bind_eq_Some_conv)
  with Cons show ?case using inv_act by auto
qed simp

section \<open>The life of a thread object\<close>

text \<open>
  C5: Under any interleaving of a thread with the owner of its object, one that starts it once and
  neither joins nor destroys it before, nothing uses the object after it was deleted and no
  thread is joined twice; \<open>run\<close> is entered at most once, and only after start unless the condition
  variable woke by itself; once a join has returned true, or the object is deleted, the thread is
  gone; a thread that never entered \<open>run\<close> was asked to abort; the status FINISHED means that \<open>run\<close> has
  returned; and the exit code of a thread that is joined is the result of \<open>run\<close>, unless the client
  has set another.
\<close>

theorem thread_lifecycle:
  assumes "t \<noteq> 0" "disciplined_run as (thread_new t u)" "thread_run as (thread_new t u) = Some s"
  shows "\<not> fault s \<and> entered s \<le> 1 \<and> starts s \<le> 1 \<and>
    (entered s = 1 \<longrightarrow> starts s = 1 \<or> spurious s) \<and>
    (True \<in> set (results s) \<or> \<not> alive s \<longrightarrow> mStatus (thr s) = TRS_JOINED) \<and>
    (mStatus (thr s) = TRS_JOINED \<longrightarrow> gone (child s)) \<and>
    (gone (child s) \<longrightarrow> returned s \<noteq> None \<or> entered s = 0 \<and> mAborting (thr s)) \<and>
    (mStatus (thr s) = TRS_FINISHED \<longrightarrow> returned s \<noteq> None) \<and>
    (mStatus (thr s) = TRS_JOINED \<and> \<not> recoded s \<and> returned s \<noteq> None \<longrightarrow> returned s = Some (mExitCode (thr s)))"
proof -
  have I: "thread_inv s" using inv_run [OF inv_new [OF assms(1)] assms(2,3)] .
  have "entered s \<le> 1 \<and> (entered s = 1 \<longrightarrow> passed_start (child s)) \<and>
      (gone (child s) \<longrightarrow> done_with s)" using I
    by (cases "child s") (auto simp: thread_inv_def child_at_def done_with_def passed_start_def)
  moreover have "starts s \<le> 1 \<and> (\<not> alive s \<longrightarrow> mStatus (thr s) = TRS_JOINED)" using I
    by (cases "owner s") (auto simp: thread_inv_def)
  moreover have "(mStatus (thr s) = TRS_JOINED \<longrightarrow> gone (child s)) \<and> (mStatus (thr s) = TRS_FINISHED \<longrightarrow> returned s \<noteq> None)"
    using I by (cases "mStatus (thr s)") (auto simp: thread_inv_def)
  ultimately show ?thesis using I unfolding thread_inv_def done_with_def by auto
qed

text \<open>An owner that gives data, starts, waits with a timeout, joins and destroys.\<close>

definition demo_life :: "act list" where
  "demo_life = [SetData 7, Exec, Exec, Start, Owner, Exec, Exec, Join 10, Owner, Owner, Owner, Timeout,
     Return 42, Exec, Join (- 1), Owner, Exec, Exec, Owner, Destroy, Owner]"

theorem thread_lifecycle_witness:
  "\<exists>s. thread_run demo_life (thread_new 2 1) = Some s \<and> \<not> fault s \<and> \<not> alive s \<and> entered s = 1 \<and>
     results s = [False, True] \<and> returned s = Some 42 \<and> mExitCode (thr s) = 42 \<and> child s = CDone 42"
proof -
  have d: "disciplined_run demo_life (thread_new 2 1)"
    by (simp add: demo_life_def thread_new_def thread_ctor_def event_ctor_def of_child_def needs_object_def step_defs
        run_returns_def thread_start_def thread_join_def join_return_def thread_reap_def thread_dtor_def owner_step_def
        join_timeout_def thread_setData_def Let_def)
  obtain s where s: "thread_run demo_life (thread_new 2 1) = Some s" "entered s = 1" "results s = [False, True]"
    "returned s = Some 42" "child s = CDone 42" "\<not> alive s" "\<not> recoded s"
    by (simp add: demo_life_def thread_new_def thread_ctor_def event_ctor_def of_child_def needs_object_def step_defs
        run_returns_def thread_start_def thread_join_def join_return_def thread_reap_def thread_dtor_def owner_step_def
        join_timeout_def thread_setData_def Let_def)
  then show ?thesis using thread_lifecycle [OF _ d s(1)] by auto
qed

section \<open>Progress\<close>

text \<open>How many steps of its own a thread has left.\<close>

fun steps_left :: "child_pc \<Rightarrow> nat" where
  "steps_left CBoot = 8"
| "steps_left CWait = 7"
| "steps_left CAsleep = 6"
| "steps_left CCheck = 5"
| "steps_left (CRun d) = 4"
| "steps_left CFinish = 3"
| "steps_left CStatus = 2"
| "steps_left CLeave = 1"
| "steps_left (CDone v) = 0"

lemma child_lowers:
  "exec_step s = Some s' \<Longrightarrow> steps_left (child s') < steps_left (child s)"
  "run_returns r s = Some s' \<Longrightarrow> steps_left (child s') < steps_left (child s)"
  "spurious_start s = Some s' \<Longrightarrow> steps_left (child s') < steps_left (child s)"
  by (cases "child s"; auto simp: step_defs run_returns_def spurious_start_def Let_def split: if_split_asm; fail)+

text \<open>No wakeup is lost: while the owner waits in \<open>pthread_join\<close>, the thread has a step, or is in \<open>run\<close>, or gone.\<close>

lemma child_enabled:
  assumes "thread_inv s" "owner s = OReap d" "\<not> gone (child s)"
  shows "\<exists>a s'. (a = Exec \<or> a = Return r) \<and> thread_act a s = Some s' \<and> owner s' = OReap d \<and> results s' = results s"
proof (cases "\<exists>x. child s = CRun x")
  case True
  then show ?thesis using assms by (intro exI [of _ "Return r"]) (auto simp: thread_inv_def of_child_def run_returns_def)
next
  case False
  have "alive s" "m_set (mStartEvent (thr s))" "sleepers (mStartEvent (thr s)) = []"
    using assms by (auto simp: thread_inv_def events_at_def)
  then show ?thesis using False assms(2,3)
    by (intro exI [of _ Exec]; cases "child s") (auto simp: of_child_def step_defs Let_def)
qed

lemma child_drives:
  assumes "thread_inv s" "owner s = OReap d"
  shows "\<exists>as s'. set as \<subseteq> {Exec, Return r} \<and> length as \<le> steps_left (child s) \<and> thread_run as s = Some s' \<and>
    thread_inv s' \<and> owner s' = OReap d \<and> results s' = results s \<and> gone (child s')"
  using assms
proof (induction "steps_left (child s)" arbitrary: s rule: less_induct)
  case less
  show ?case
  proof (cases "gone (child s)")
    case True
    then show ?thesis using less.prems by (intro exI [of _ "[]"] exI [of _ s]) simp
  next
    case False
    obtain a h where a: "a = Exec \<or> a = Return r" "thread_act a s = Some h" "owner h = OReap d" "results h = results s"
      using child_enabled [OF less.prems False] by blast
    have I: "thread_inv h" using inv_act [OF less.prems(1) _ a(2)] a(1) by auto
    have "alive s" using less.prems by (auto simp: thread_inv_def)
    then have l: "steps_left (child h) < steps_left (child s)"
      using a(1,2) child_lowers(1,2) by (auto simp: of_child_def)
    obtain as s' where as: "set as \<subseteq> {Exec, Return r}" "length as \<le> steps_left (child h)" "thread_run as h = Some s'"
      "thread_inv s'" "owner s' = OReap d" "results s' = results h" "gone (child s')"
      using less.hyps [OF l I a(3)] by blast
    show ?thesis using a as l by (intro exI [of _ "a # as"] exI [of _ s']) auto
  qed
qed

lemma reap_gone:
  assumes "thread_inv s" "owner s = OReap d" "gone (child s)"
  shows "\<exists>s'. thread_act Owner s = Some s' \<and> mStatus (thr s') = TRS_JOINED \<and>
    (if d then owner s' = ODelete else owner s' = OIdle \<and> results s' = results s @ [True])"
  using assms by (cases "child s"; cases "mStatus (thr s)")
    (auto simp: thread_inv_def owner_step_def thread_reap_def join_return_def Let_def)

lemma thread_run_append: "thread_run (as @ bs) s = Option.bind (thread_run as s) (thread_run bs)"
  by (induction as arbitrary: s) (auto split: Option.bind_splits)

lemma reap_returns:
  assumes "thread_inv s" "owner s = OReap d"
  shows "\<exists>as s'. set as \<subseteq> {Exec, Return r, Owner} \<and> length as \<le> 9 \<and> thread_run as s = Some s' \<and> mStatus (thr s') = TRS_JOINED \<and>
    (if d then owner s' = ODelete else owner s' = OIdle \<and> results s' = results s @ [True])"
proof -
  obtain as h where as: "set as \<subseteq> {Exec, Return r}" "length as \<le> steps_left (child s)" "thread_run as s = Some h"
    "thread_inv h" "owner h = OReap d" "results h = results s" "gone (child h)"
    using child_drives [OF assms] by blast
  obtain s' where s': "thread_act Owner h = Some s'" "mStatus (thr s') = TRS_JOINED"
    "if d then owner s' = ODelete else owner s' = OIdle \<and> results s' = results h @ [True]"
    using reap_gone [OF as(4,5,7)] by blast
  have "steps_left (child s) \<le> 8" by (cases "child s") simp_all
  then show ?thesis using as s' by (intro exI [of _ "as @ [Owner]"] exI [of _ s']) (auto simp: thread_run_append)
qed

lemma join_decides:
  assumes "thread_inv s" "owner s = OJoin d (- 1)"
  shows "(thread_act Owner s = Some (s\<lparr>owner := OReap d\<rparr>)) \<or>
    (mStatus (thr s) = TRS_JOINED \<and> thread_act Owner s = Some (join_return d True s))"
  using assms by (auto simp: thread_inv_def owner_step_def thread_join_def)

text \<open>
  C6: An untimed join of a started thread returns true: in every reachable state in which the
  owner is in that call, or in the destructor, at most eight steps of the thread (of which at most one is
  that \<open>run\<close> returns) and two of the owner end it with the thread joined, whether it was aborted
  before it ran or not.  No start signal is lost, and every step of the thread brings it closer to its end.
\<close>

theorem join_returns:
  assumes "t \<noteq> 0" "disciplined_run as (thread_new t u)" "thread_run as (thread_new t u) = Some s"
    and "owner s = OJoin d (- 1) \<or> owner s = OReap d"
  shows "(\<exists>bs s'. set bs \<subseteq> {Exec, Return r, Owner} \<and> length bs \<le> 10 \<and> thread_run bs s = Some s' \<and>
      mStatus (thr s') = TRS_JOINED \<and>
      (if d then owner s' = ODelete else owner s' = OIdle \<and> results s' = results s @ [True])) \<and>
    (\<forall>a\<in>{Exec, Return r, WakeChild}. \<forall>s'. thread_act a s = Some s' \<longrightarrow> steps_left (child s') < steps_left (child s))"
proof -
  have I: "thread_inv s" using inv_run [OF inv_new [OF assms(1)] assms(2,3)] .
  have "\<exists>bs s'. set bs \<subseteq> {Exec, Return r, Owner} \<and> length bs \<le> 10 \<and> thread_run bs s = Some s' \<and>
      mStatus (thr s') = TRS_JOINED \<and>
      (if d then owner s' = ODelete else owner s' = OIdle \<and> results s' = results s @ [True])"
    using assms(4)
  proof
    assume j: "owner s = OJoin d (- 1)"
    from join_decides [OF I j] show ?thesis
    proof
      assume a: "thread_act Owner s = Some (s\<lparr>owner := OReap d\<rparr>)"
      have "thread_inv (s\<lparr>owner := OReap d\<rparr>)" using inv_act [OF I _ a] by simp
      from reap_returns [OF this, of d r] obtain bs s' where bs: "set bs \<subseteq> {Exec, Return r, Owner}" "length bs \<le> 9"
        "thread_run bs (s\<lparr>owner := OReap d\<rparr>) = Some s'" "mStatus (thr s') = TRS_JOINED"
        "if d then owner s' = ODelete else owner s' = OIdle \<and> results s' = results s @ [True]" by auto
      then show ?thesis using a by (intro exI [of _ "Owner # bs"] exI [of _ s']) (simp del: thread_act.simps)
    next
      assume "mStatus (thr s) = TRS_JOINED \<and> thread_act Owner s = Some (join_return d True s)"
      then show ?thesis by (intro exI [of _ "[Owner]"] exI [of _ "join_return d True s"]) (auto simp: join_return_def)
    qed
  next
    assume "owner s = OReap d"
    from reap_returns [OF I this, of r] obtain bs s' where bs: "set bs \<subseteq> {Exec, Return r, Owner}" "length bs \<le> 9"
      "thread_run bs s = Some s'" "mStatus (thr s') = TRS_JOINED"
      "if d then owner s' = ODelete else owner s' = OIdle \<and> results s' = results s @ [True]" by blast
    then show ?thesis by (intro exI [of _ bs] exI [of _ s']) simp
  qed
  moreover have "alive s" using I assms(4) by (auto simp: thread_inv_def)
  then have "steps_left (child s') < steps_left (child s)"
    if "a \<in> {Exec, Return r, WakeChild}" "thread_act a s = Some s'" for a s'
    using that child_lowers by (auto simp: of_child_def)
  ultimately show ?thesis by blast
qed

lemmas run_defs = thread_new_def thread_ctor_def event_ctor_def of_child_def needs_object_def step_defs
  run_returns_def spurious_start_def thread_start_def thread_join_def join_return_def thread_reap_def thread_dtor_def
  owner_step_def join_timeout_def thread_setData_def thread_requestAbort_def Let_def

text \<open>Aborted right after the start: the owner waits for a thread that has not looked at the flag yet.\<close>

definition demo_abort :: "act list" where
  "demo_abort = [Exec, Exec, Start, Owner, RequestAbort, Join (- 1), Owner]"

theorem join_returns_witness:
  "\<exists>s bs s'. thread_run demo_abort (thread_new 2 1) = Some s \<and> owner s = OReap False \<and> child s = CAsleep \<and>
     length bs \<le> 10 \<and> thread_run bs s = Some s' \<and> mStatus (thr s') = TRS_JOINED \<and> results s' = [True]"
proof -
  have d: "disciplined_run demo_abort (thread_new 2 1)" by (simp add: demo_abort_def run_defs)
  obtain s where s: "thread_run demo_abort (thread_new 2 1) = Some s" "owner s = OReap False" "child s = CAsleep" "results s = []"
    by (simp add: demo_abort_def run_defs)
  with join_returns [OF _ d s(1), of False 0] show ?thesis by auto
qed

section \<open>The deadline of a timed wait\<close>

text \<open>
  C38: The deadline that a timed wait passes to \<open>pthread_cond_timedwait\<close> is a normal timespec, with fewer
  than a thousand million nanoseconds, and lies exactly the requested number of milliseconds after
  the time of day, for every 32-bit timeout: the division by seconds, the product and the carry lose nothing.
\<close>

theorem wait_deadline:
  assumes "0 \<le> snd now" "snd now < 1000000"
  shows "0 \<le> snd (event_deadline now ms) \<and> snd (event_deadline now ms) < 1000000000 \<and>
    fst (event_deadline now ms) * 1000000000 + snd (event_deadline now ms) =
      (fst now * 1000000 + snd now) * 1000 + uint ms * 1000000"
proof -
  have q: "uint (ms div 1000) = uint ms div 1000" by (simp add: uint_div_distrib)
  have m: "uint (ms mod 1000) = uint ms mod 1000" by (simp add: uint_mod_distrib)
  have "uint (ms mod 1000 * 1000) = uint ms mod 1000 * 1000"
  proof -
    have "uint ms mod 1000 < 1000" by simp
    then have "uint ms mod 1000 * 1000 < 2 ^ 32" by (auto intro: order.strict_trans [of _ "1000 * 1000"])
    then show ?thesis by (simp add: uint_word_ariths(3) m)
  qed
  then have e: "event_deadline now ms = (let r = timeradd now (uint ms div 1000, uint ms mod 1000 * 1000) in (fst r, snd r * 1000))"
    by (simp add: event_deadline_def q Let_def)
  obtain a b where ab: "uint ms div 1000 = a" "uint ms mod 1000 = b" by blast
  have "uint ms = a * 1000 + b" "0 \<le> b" "b < 1000"
    using div_mult_mod_eq [of "uint ms" 1000] by (simp_all flip: ab)
  then show ?thesis using assms unfolding e ab by (auto simp: timeradd_def Let_def)
qed

theorem wait_deadline_witness: "event_deadline (5, 999999) 2501 = (8, 500999000)"
  using wait_deadline [of "(5, 999999)" 2501] by (simp add: event_deadline_def timeradd_def Let_def)

section \<open>Outside of the discipline, and corners\<close>

text \<open>
  The destructor of a thread that was never started does not join it: the thread sleeps on an
  event that is deleted, and its next step uses the object.
\<close>

lemma delete_unstarted_faults:
  "\<exists>s. thread_run [Exec, Exec, Destroy, Owner, Owner, Exec] (thread_new 2 1) = Some s \<and> fault s"
  by (simp add: run_defs)

text \<open>A thread that is started again after it was joined is joined again, with a null handle.\<close>

lemma restart_faults:
  "\<exists>s. thread_run [Start, Owner, Exec, Exec, Exec, Return 0, Exec, Exec, Exec, Join (- 1), Owner, Owner,
     Start, Owner, Join (- 1), Owner, Owner] (thread_new 2 1) = Some s \<and> fault s"
  by (simp add: run_defs)

text \<open>A thread that was aborted before it ran is gone, but it never reports: timed joins fail for ever.\<close>

lemma aborted_never_finishes:
  "\<exists>s. thread_run [RequestAbort, Start, Owner, Exec, Exec, Exec, Exec, Join 10, Owner, Owner, Owner, Timeout] (thread_new 2 1) = Some s \<and>
     gone (child s) \<and> mStatus (thr s) = TRS_RUNNING \<and> \<not> m_set (mFinishEvent (thr s)) \<and> results s = [False]"
  by (simp add: run_defs)

text \<open>
  The timed wait reads the flag before it takes the lock: a thread that finishes in between is
  not noticed, and the join times out although the thread has finished.
\<close>

lemma finish_signal_missed:
  "\<exists>s. thread_run [Start, Owner, Exec, Exec, Exec, Return 0, Join 10, Owner, Owner, Exec, Exec, Owner, Timeout] (thread_new 2 1) = Some s \<and>
     m_set (mFinishEvent (thr s)) \<and> mStatus (thr s) = TRS_FINISHED \<and> results s = [False]"
  by (simp add: run_defs)

text \<open>The wait for the start is not in a loop: a spurious wakeup runs a thread that was not started.\<close>

lemma spurious_run:
  "\<exists>s. thread_run [Exec, Exec, WakeChild, Exec] (thread_new 2 1) = Some s \<and> entered s = 1 \<and> starts s = 0"
  by (simp add: run_defs event_wake_def)

text \<open>\<open>set\<close> signals once: of two threads that wait for the event, one may sleep on although the flag is up.\<close>

lemma second_sleeper_sleeps:
  "signal_ok [1] \<lparr>m_set = False, sleepers = [1, 2]\<rparr> \<and>
   event_set [1] \<lparr>m_set = False, sleepers = [1, 2]\<rparr> = \<lparr>m_set = True, sleepers = [2]\<rparr>"
  by (simp add: signal_ok_def event_set_def event_wake_def)

text \<open>A sleep of 72 minutes and more is cut short: the product wraps at 32 bits.\<close>

lemma long_sleep_wraps: "thread_sleep 4294968 = 704"
  by (simp add: thread_sleep_def)

end
