(* ===== verification/RefCount.thy ===== *)
theory RefCount
  imports Prelude
begin

text \<open>
  include/xpf/refcnt.h: objects that count their owners, and the variant that is created without
  one.  None is the overflow of the counter, which C++ leaves undefined, or a call on an object that was deleted.
\<close>

section \<open>The classes\<close>

record refcounted =
  mRefCount :: int

record floating = refcounted +
  mFloating :: bool

definition s32_max :: int where
  "s32_max = 2 ^ 31 - 1"

definition refcounted_ctor :: "refcounted" where
  "refcounted_ctor = \<lparr>mRefCount = 1\<rparr>"

definition floating_ctor :: "floating" where
  "floating_ctor = \<lparr>mRefCount = 1, mFloating = True\<rparr>"

definition rc_ref :: "'a refcounted_scheme \<Rightarrow> (int \<times> 'a refcounted_scheme) option" where
  "rc_ref x = (if mRefCount x = s32_max then None else Some (mRefCount x + 1, x\<lparr>mRefCount := mRefCount x + 1\<rparr>))"

text \<open>The result of \<open>unref\<close>, and the object unless it was deleted.\<close>

definition rc_unref :: "'a refcounted_scheme \<Rightarrow> (bool \<times> 'a refcounted_scheme option) option" where
  "rc_unref x = (if mRefCount x = - s32_max - 1 then None
     else if mRefCount x - 1 = 0 then Some (True, None) else Some (False, Some (x\<lparr>mRefCount := mRefCount x - 1\<rparr>)))"

definition frc_ref :: "floating \<Rightarrow> (int \<times> floating) option" where
  "frc_ref x = (if mFloating x then Some (mRefCount x, x\<lparr>mFloating := False\<rparr>) else rc_ref x)"

definition frc_unref :: "floating \<Rightarrow> (bool \<times> floating option) option" where
  "frc_unref x = rc_unref (x\<lparr>mFloating := False\<rparr>)"

definition setFloating :: "bool \<Rightarrow> floating \<Rightarrow> floating" where
  "setFloating f x = x\<lparr>mFloating := f\<rparr>"

section \<open>Sessions\<close>

text \<open>
  Calls of ref (True) and unref (False) on an object, or on what unref has left of it; the
  results of the calls of unref are collected.
\<close>

fun rc_session :: "('o \<Rightarrow> (int \<times> 'o) option) \<Rightarrow> ('o \<Rightarrow> (bool \<times> 'o option) option) \<Rightarrow> bool list \<Rightarrow> 'o option \<Rightarrow> (bool list \<times> 'o option) option" where
  "rc_session ref unref [] x = Some ([], x)"
| "rc_session ref unref (c # cs) x = (case x of None \<Rightarrow> None
     | Some y \<Rightarrow> if c then Option.bind (ref y) (\<lambda>(n, y'). rc_session ref unref cs (Some y'))
         else Option.bind (unref y) (\<lambda>(b, x'). map_option (\<lambda>(bs, x''). (b # bs, x'')) (rc_session ref unref cs x')))"

text \<open>Some owner is left until the last call, which leaves none.\<close>

fun balanced :: "nat \<Rightarrow> bool list \<Rightarrow> bool" where
  "balanced n [] \<longleftrightarrow> n = 0"
| "balanced n (c # cs) \<longleftrightarrow> 0 < n \<and> balanced (if c then Suc n else n - 1) cs"

text \<open>The contract of both classes: \<open>obj n\<close> is an object with n owners.\<close>

locale counted =
  fixes ref :: "'o \<Rightarrow> (int \<times> 'o) option" and unref :: "'o \<Rightarrow> (bool \<times> 'o option) option" and obj :: "nat \<Rightarrow> 'o"
  assumes ref_obj: "\<lbrakk>0 < n; int n < s32_max\<rbrakk> \<Longrightarrow> ref (obj n) = Some (int (Suc n), obj (Suc n))"
    and unref_more: "\<lbrakk>0 < n; int n < s32_max\<rbrakk> \<Longrightarrow> unref (obj (Suc n)) = Some (False, Some (obj n))"
    and unref_last: "unref (obj 1) = Some (True, None)"
begin

lemma unref_left: "balanced n cs \<Longrightarrow> 0 < n \<Longrightarrow> \<exists>k. length (filter Not cs) = Suc k"
  by (induction n cs rule: balanced.induct) (auto split: if_splits)

lemma session:
  "\<lbrakk>balanced n cs; 0 < n; int n + int (length cs) \<le> s32_max\<rbrakk> \<Longrightarrow>
   rc_session ref unref cs (Some (obj n)) = Some (replicate (length (filter Not cs) - 1) False @ [True], None)"
proof (induction cs arbitrary: n)
  case (Cons c cs)
  show ?case
  proof (cases c)
    case True
    then have "rc_session ref unref cs (Some (obj (Suc n))) = Some (replicate (length (filter Not cs) - 1) False @ [True], None)"
      using Cons.prems by (intro Cons.IH) auto
    then show ?thesis using True Cons.prems by (simp add: ref_obj)
  next
    case False
    show ?thesis
    proof (cases "n = 1")
      case True
      then have "cs = []" using Cons.prems False by (cases cs) auto
      then show ?thesis using True False unref_last by simp
    next
      case n: False
      then obtain m where m: "n = Suc m" "0 < m" using Cons.prems by (cases n) auto
      have b: "balanced m cs" using Cons.prems(1) False m by simp
      have "rc_session ref unref cs (Some (obj m)) = Some (replicate (length (filter Not cs) - 1) False @ [True], None)"
        using Cons.prems m by (intro Cons.IH [OF b]) auto
      then show ?thesis using unref_left [OF b m(2)] m False Cons.prems by (auto simp: unref_more)
    qed
  qed
qed simp

end

interpretation rc: counted rc_ref rc_unref "\<lambda>n. \<lparr>mRefCount = int n\<rparr>"
  by unfold_locales (auto simp: rc_ref_def rc_unref_def s32_max_def)

interpretation frc: counted frc_ref frc_unref "\<lambda>n. \<lparr>mRefCount = int n, mFloating = False\<rparr>"
  by unfold_locales (auto simp: frc_ref_def frc_unref_def rc_ref_def rc_unref_def s32_max_def)

text \<open>
  C37: An object lives as long as it has an owner: with calls that are balanced, the creator
  counting as the first owner, every unref but the last returns false, the last deletes the object and returns
  true, and no call is made on a deleted object.  A floating object behaves so without its
  creator: the first ref takes it over instead of adding an owner.
\<close>

theorem refcount_lifetime:
  assumes "balanced 1 cs" "length cs < 2 ^ 31 - 1"
  shows "rc_session rc_ref rc_unref cs (Some refcounted_ctor) = Some (replicate (length (filter Not cs) - 1) False @ [True], None) \<and>
    rc_session frc_ref frc_unref (True # cs) (Some floating_ctor) = Some (replicate (length (filter Not cs) - 1) False @ [True], None)"
  using rc.session [OF assms(1)] frc.session [OF assms(1)] assms(2)
  by (simp add: refcounted_ctor_def floating_ctor_def frc_ref_def s32_max_def)

theorem refcount_lifetime_witness:
  "rc_session rc_ref rc_unref [True, False, True, False, False] (Some refcounted_ctor) = Some ([False, False, True], None)"
proof -
  have b: "balanced 1 [True, False, True, False, False]" by simp
  have "length [True, False, True, False, False] < 2 ^ 31 - 1" by simp
  from refcount_lifetime [OF b this] have
    "rc_session rc_ref rc_unref [True, False, True, False, False] (Some refcounted_ctor) =
     Some (replicate (length (filter Not [True, False, True, False, False]) - 1) False @ [True], None)" by (rule conjunct1)
  then show ?thesis by (simp del: rc_session.simps add: numeral_2_eq_2)
qed

end
