(* ===== verification/Spec2Isabelle.thy ===== *)
theory Spec2Isabelle
  imports BuddyProps LinearProps AllocSlots Base64 UtfProps UtfString XStringProps PrintfProps GetOptProps Uuid LexicalCast NetEndpointProps NetIoMuxProps KqueueProps CoroutineProps Tls ThreadProps RefCount
begin

text \<open>
  Verification development for libxpf, a C++ library of portable building blocks for network
  programs: allocators, strings and encodings, command line options, UUIDs, endpoints over sockets,
  an asynchronous I/O multiplexer with its queues, coroutines, and threads with locks, events and
  thread-local storage.

  \<^bold>\<open>How the parts interact.\<close>  The allocators stand alone; the STL wrapper calls them.  The string class is
  the carrier of text, of its \<open>printf\<close> the lexical casts are made, and of these the endpoints (ports are
  printed to text for \<open>getaddrinfo\<close>).  An endpoint wraps a socket with a status.  The multiplexer hangs a
  context with two queues of operations onto each endpoint that joins, keeps a list of ready endpoints
  and one of completed operations, both under a ThreadLock, and is run by any number of threads.
  Coroutines keep their registry in thread-local storage.

  \<^bold>\<open>Theories.\<close>

  \<^item> Prelude (include/xpf/platform.h): the integer types as words, memory as a map from addresses to
    bytes, memcpy and memset, loads and stores; the named collections \<open>mem_simps\<close> and \<open>frame_simps\<close>.
  \<^item> AllocIface: the abstract heap of disjoint regions and the locale \<open>bulk_allocator\<close>, the contract
    that the two allocators share and the STL wrapper relies on.
  \<^item> Buddy (src/allocators.cpp, BuddyAllocatorDetails): state and operations, with the free-list records
    in the memory of the free blocks.  BuddyGeom, BuddyFlags, BuddyChain, BuddyInv, BuddyOps, BuddyLocate,
    BuddyUse, BuddySpec, BuddyCalls and BuddyHeap lead from arithmetic of block addresses, the flags as a tree
    and the chains as doubly linked lists in memory to the effect of each public call; BuddyProps holds
    the properties.
  \<^item> Linear (src/allocators.cpp, LinearAllocator), LinearInv, LinearLifo, LinearChain, LinearProps: the same
    for the linear allocator under its stack discipline; LinearChain has the rollback of \<open>free\<close> on
    chains of cells in any order of release, and LinearProps shows what is lost outside of the discipline.
  \<^item> AllocSlots: the slot tables of both (create, destory, instance) and the template Allocator of
    include/xpf/allocators.h.
  \<^item> Base64 (src/base64.cpp), Uuid (src/uuidv4.cpp), LexicalCast (include/xpf/lexicalcast.h).
  \<^item> UtfConv (src/utfconv.cpp): readers, writers and the conversion loop.  UtfSpec states the interfaces
    IUcReader and IUcWriter as locales, UtfCodecs shows that the six classes meet them, UtfProps has the properties.
  \<^item> UtfString: the conversions of whole strings of include/xpf/utfconv.h.
  \<^item> XString, XStringProps (include/xpf/string.h without printf); Printf, PrintfParse, PrintfProps (its printf).
  \<^item> GetOpt, GetOptProps (src/getopt.cpp).
  \<^item> NetEndpoint, NetEndpointProps (src/netendpoint.cpp, POSIX).
  \<^item> NetIoMux (src/netiomux.cpp, src/platform/netiomux\_epoll.hpp, netiomux\_syncfifo.hpp): state and members.
    NetIoMuxInv is the multiplexer as a transition system with its invariants and the locale
    \<open>fifo_queue\<close>; NetIoMuxProps has the properties.
  \<^item> KqueueMux, KqueueProps (src/platform/netiomux\_kqueue.hpp): what the variant for kqueue has of its own,
    over the same state; both variants interpret the locale \<open>multiplexer\<close> of NetIoMuxProps, which has the loop.
  \<^item> Coroutine, CoroutineProps (src/platform/coroutine\_posix.hpp, coroutine\_boost\_fcontext.hpp): both
    implementations against one locale, \<open>coroutine_impl\<close>.
  \<^item> ThreadLock (src/platform/threadlock\_posix.hpp, ScopedThreadLock): the lock, and the locale
    \<open>guarded_object\<close> of classes whose members run under one.  Tls (src/platform/tls\_posix.hpp, include/xpf/tls.h)
    has the TLS calls and TlsMap; TlsMap and the queue of the multiplexer interpret that locale.
  \<^item> Threads, ThreadProps (src/platform/threadevent\_posix.hpp, thread\_posix.hpp): events and threads; the
    locale \<open>latch\<close> is what a thread needs of its start event.
  \<^item> RefCount (include/xpf/refcnt.h).

  \<^bold>\<open>State and operations.\<close>  A class is a record with the members' names as fields; an object on the heap whose
  address matters is an entry of a store.  An operation is a function from the arguments and the
  state to the result and the new state.  Error returns are values of the result; None is undefined
  behaviour (an access outside of a buffer, a null or dangling pointer, an uninitialised variable, a signed
  overflow) or an exception of the standard library, as the head of each theory says.  Where other threads may run
  in the middle of a member, the member is cut into steps (ThreadLock, Threads, NetIoMuxInv).  Assertions
  (\<open>xpfAssert\<close>) do nothing, as in a release build.

  \<^bold>\<open>What the code does not decide is a parameter.\<close>  The operating system is a record of functions over its own
  state (\<open>sys\<close>, \<open>muxsys\<close>, \<open>kqsys\<close>); the hypotheses on it, where there are any, state what POSIX documents (a
  successful call gives a descriptor that was not open, and the like), and witnesses run on a concrete
  system.  The results of malloc and of rand, the callback of the multiplexer's client, the body of a
  thread, the results of getcontext and pthread calls are arguments.  Memory is sequentially consistent.

  \<^bold>\<open>What the lemmas show.\<close>  The buddy allocator refines the abstract heap: every call keeps the invariant, never
  touches a block in use, and an allocation fails exactly when it must; the linear one does so for a client that
  frees in LIFO order.  The codecs meet their standards (RFC 4648, UTF-8,
  UTF-16, UTF-32, the C standard's conversions for integers without length modifiers), each stated without the tables of the program, and
  their inverses.  The parser of options returns for every
  input and parses what it documents.  Endpoints follow one status protocol without undefined behaviour for
  acceptable arguments and without leaking descriptors.  The multiplexer reports every operation at most once and in order, forgets none,
  and tells the callback what the system said.  A turn of its loop
  reports, performs and waits in this order.  Coroutines behave as suspended computations until the current
  or the main one is deleted while another than the main one runs.  Members under a lock are
  atomic; threads run once, end before they are deleted, and joins return.  Where the code does otherwise than it
  means to, a lemma with a concrete run shows it, close to the property that it limits.

  \<^bold>\<open>Loops and bounds.\<close>  Loops are structural recursion where the code counts down or walks a list.  Five loops may not
  return for arbitrary states and are \<open>partial_function (option)\<close>: the growth loop of the buddy
  constructor, the rollback of the linear allocator, the permutation of the arguments, the conversion
  loop and the loop of the multiplexers.  For the first four theorems say when they return (for the rollback: on every
  well-formed chain of cells; \<open>linear_free_hangs\<close> is a state from which it does not); the last
  runs until it is disabled, and is shown to be a sequence of steps of the transition system.  No
  definition takes fuel.  Word arithmetic wraps at the width that the code has.

  \<^bold>\<open>Not modelled.\<close>  The Windows variants (completion ports, threads, events, locks, TLS, fibers): thin wrappers of
  Win32 calls.  The delegates, a third-party library of templates.  The atomic
  operations, macros for intrinsics.  The assembly of Boost.Context under external/; jump\_fcontext is given as
  what it does to the flow of control.  Reading of floating-point numbers by sscanf.  Data races as
  such: a race appears as an interleaving, not as undefined behaviour.
\<close>

end
